(* ===== verification/Nachos_Prelude.thy ===== *)
theory Nachos_Prelude
  imports Main "HOL-Library.Word" "HOL-Library.Signed_Division"
begin

text \<open>
  Shared vocabulary of the development.

  The Nachos sources are C++ compiled for a 32-bit little-endian host.  A
  routine that can stop the simulation (a failing \<^verbatim>\<open>ASSERT\<close>, an access outside
  an array, a wait nobody can end) returns a value of \<open>'a result\<close>: \<open>Inl\<close> carries
  the reason, \<open>Inr\<close> the value.  A routine that changes state takes the state as
  its last argument and returns it updated.

  The theory also holds the arithmetic macros of \<^verbatim>\<open>threads/utility.h\<close>, the byte
  layout of C integers (needed by everything that is stored in a disk sector),
  and the list lemmas about overwriting a segment of a buffer (\<^verbatim>\<open>bcopy\<close>).
\<close>

unbundle bit_operations_syntax

section \<open>Faults and results\<close>

text \<open>
  \<open>AssertFailed\<close> is the \<^verbatim>\<open>ASSERT\<close> macro of \<^verbatim>\<open>threads/utility.h\<close> aborting the
  simulation; \<open>OutOfBounds\<close>, \<open>NullDeref\<close> and \<open>WildPointer\<close> are accesses whose
  C++ behaviour is undefined; \<open>WouldBlock\<close> is a \<^verbatim>\<open>P\<close> on a semaphore of value
  zero in a context with no other thread; \<open>Diverges\<close> is a loop that never ends;
  \<open>ArithTrap\<close> is an integer division the host processor refuses; \<open>Halted\<close> is
  \<^verbatim>\<open>Interrupt::Halt\<close>.
\<close>

datatype fault = AssertFailed | OutOfBounds | NullDeref | WildPointer | WouldBlock | Diverges
  | ArithTrap | Halted

type_synonym 'a result = "fault + 'a"

type_synonym byte = "8 word"

definition bindE :: "'a result \<Rightarrow> ('a \<Rightarrow> 'b result) \<Rightarrow> 'b result" where
  "bindE m f = (case m of Inl e \<Rightarrow> Inl e | Inr x \<Rightarrow> f x)"

definition ASSERT :: "bool \<Rightarrow> 'a result \<Rightarrow> 'a result" where
  "ASSERT condition k = (if condition then k else Inl AssertFailed)"

definition requireE :: "fault \<Rightarrow> bool \<Rightarrow> 'a result \<Rightarrow> 'a result" where
  "requireE e condition k = (if condition then k else Inl e)"

text \<open>\<open>foldE\<close> is a counted \<^verbatim>\<open>for\<close> loop whose body may fault.\<close>

fun foldE :: "('a \<Rightarrow> 's \<Rightarrow> 's result) \<Rightarrow> 'a list \<Rightarrow> 's \<Rightarrow> 's result" where
  "foldE f [] s = Inr s"
| "foldE f (x # xs) s = bindE (f x s) (foldE f xs)"

fun isOk :: "'a result \<Rightarrow> bool" where
  "isOk (Inl e) = False"
| "isOk (Inr x) = True"

section \<open>Macros of threads/utility.h\<close>

text \<open>C division truncates toward zero, hence \<open>sdiv\<close> and \<open>smod\<close>.\<close>

definition divRoundDown :: "int \<Rightarrow> int \<Rightarrow> int" where
  "divRoundDown n s = n sdiv s"

definition divRoundUp :: "int \<Rightarrow> int \<Rightarrow> int" where
  "divRoundUp n s = (n sdiv s) + (if n smod s > 0 then 1 else 0)"

section \<open>Buffers and C integers in memory\<close>

text \<open>
  \<open>bcopyTo p ys xs\<close> is the buffer \<open>xs\<close> after \<^verbatim>\<open>bcopy(ys, &xs[p], length ys)\<close>.
\<close>

definition bcopyTo :: "nat \<Rightarrow> 'a list \<Rightarrow> 'a list \<Rightarrow> 'a list" where
  "bcopyTo p ys xs = take p xs @ ys @ drop (p + length ys) xs"

definition slice :: "nat \<Rightarrow> nat \<Rightarrow> 'a list \<Rightarrow> 'a list" where
  "slice p n xs = take n (drop p xs)"

text \<open>A 32-bit integer is stored as four bytes, least significant first.\<close>

definition word_bytes :: "32 word \<Rightarrow> byte list" where
  "word_bytes w = [ucast w, ucast (drop_bit 8 w), ucast (drop_bit 16 w), ucast (drop_bit 24 w)]"

definition bytes_word :: "byte list \<Rightarrow> 32 word" where
  "bytes_word bs = ucast (bs ! 0) OR push_bit 8 (ucast (bs ! 1)) OR
     push_bit 16 (ucast (bs ! 2)) OR push_bit 24 (ucast (bs ! 3))"

definition int_bytes :: "int \<Rightarrow> byte list" where
  "int_bytes i = word_bytes (word_of_int i)"

definition bytes_int :: "byte list \<Rightarrow> int" where
  "bytes_int bs = sint (bytes_word bs)"

text \<open>The values a C \<^verbatim>\<open>int\<close> can hold.\<close>

definition int32 :: "int \<Rightarrow> bool" where
  "int32 i \<longleftrightarrow> - (2 ^ 31) \<le> i \<and> i < 2 ^ 31"

text \<open>The value a C \<^verbatim>\<open>int\<close> has after an assignment of \<open>i\<close>.\<close>

definition to_int32 :: "int \<Rightarrow> int" where
  "to_int32 i = sint (word_of_int i :: 32 word)"

text \<open>An array of integers, and the array read back from \<open>n\<close> consecutive words.\<close>

definition ints_bytes :: "int list \<Rightarrow> byte list" where
  "ints_bytes is = concat (map int_bytes is)"

fun bytes_ints :: "nat \<Rightarrow> byte list \<Rightarrow> int list" where
  "bytes_ints 0 bs = []"
| "bytes_ints (Suc n) bs = bytes_int (take 4 bs) # bytes_ints n (drop 4 bs)"

section \<open>Lemmas on results\<close>

named_theorems result_simps \<open>rewriting of computations that may fault\<close>

lemma bindE_Inl [simp]: "bindE (Inl e) f = Inl e"
  by (simp add: bindE_def)

lemma bindE_Inr [simp]: "bindE (Inr x) f = f x"
  by (simp add: bindE_def)

lemma bindE_eq_Inr [result_simps]: "bindE m f = Inr y \<longleftrightarrow> (\<exists>x. m = Inr x \<and> f x = Inr y)"
  by (cases m) auto

lemma bindE_eq_Inl [result_simps]:
  "bindE m f = Inl e \<longleftrightarrow> m = Inl e \<or> (\<exists>x. m = Inr x \<and> f x = Inl e)"
  by (cases m) auto

lemma ASSERT_eq_Inr [result_simps]: "ASSERT b k = Inr y \<longleftrightarrow> b \<and> k = Inr y"
  by (simp add: ASSERT_def)

lemma requireE_eq_Inr [result_simps]: "requireE e b k = Inr y \<longleftrightarrow> b \<and> k = Inr y"
  by (simp add: requireE_def)

lemma ASSERT_True [simp]: "ASSERT True k = k"
  by (simp add: ASSERT_def)

lemma ASSERT_False [simp]: "ASSERT False k = Inl AssertFailed"
  by (simp add: ASSERT_def)

lemma requireE_True [simp]: "requireE e True k = k"
  by (simp add: requireE_def)

lemma requireE_False [simp]: "requireE e False k = Inl e"
  by (simp add: requireE_def)

lemma bindE_cong [fundef_cong]: "m = m' \<Longrightarrow> (\<And>x. m' = Inr x \<Longrightarrow> f x = g x) \<Longrightarrow> bindE m f = bindE m' g"
  by (cases m') auto

lemma bindE_assoc: "bindE (bindE m f) g = bindE m (\<lambda>x. bindE (f x) g)"
  by (cases m) auto

lemma foldE_append: "foldE f (xs @ ys) s = bindE (foldE f xs s) (foldE f ys)"
proof (induction xs arbitrary: s)
  case (Cons x xs)
  then have "foldE f (xs @ ys) = (\<lambda>t. bindE (foldE f xs t) (foldE f ys))" by blast
  then show ?case by (simp add: bindE_assoc)
qed simp

lemma foldE_cong_ok:
  assumes "\<And>x s. x \<in> set xs \<Longrightarrow> f x s = Inr (g x s)"
  shows "foldE f xs s = Inr (fold g xs s)"
  using assms by (induction xs arbitrary: s) auto

text \<open>A property that every successful iteration keeps holds after the loop.\<close>

lemma foldE_invariant:
  assumes "foldE f xs s = Inr s'" and "P s"
    and "\<And>x s s'. x \<in> set xs \<Longrightarrow> P s \<Longrightarrow> f x s = Inr s' \<Longrightarrow> P s'"
  shows "P s'"
  using assms
proof (induction xs arbitrary: s)
  case (Cons x xs)
  then obtain t where "f x s = Inr t" "foldE f xs t = Inr s'"
    by (auto simp: bindE_eq_Inr)
  with Cons show ?case by (metis list.set_intros(1,2))
qed simp

lemma isOk_iff: "isOk m \<longleftrightarrow> (\<exists>x. m = Inr x)"
  by (cases m) auto

section \<open>Total correctness of computations\<close>

text \<open>
  \<open>yields m Q\<close>: the computation does not fault and its result satisfies \<open>Q\<close>.  The
  specifications of the routines that work on the disk are statements of this
  form, composed along \<open>bindE\<close>.
\<close>

definition yields :: "'a result \<Rightarrow> ('a \<Rightarrow> bool) \<Rightarrow> bool" where
  "yields m Q \<longleftrightarrow> (\<exists>x. m = Inr x \<and> Q x)"

lemma yields_Inr [simp]: "yields (Inr x) Q \<longleftrightarrow> Q x"
  by (simp add: yields_def)

lemma yields_Inl [simp]: "\<not> yields (Inl e) Q"
  by (simp add: yields_def)

lemma yields_bind [simp]: "yields (bindE m f) Q \<longleftrightarrow> yields m (\<lambda>x. yields (f x) Q)"
  by (cases m) auto

lemma yields_ASSERT [simp]: "yields (ASSERT b m) Q \<longleftrightarrow> b \<and> yields m Q"
  by (simp add: ASSERT_def)

lemma yields_requireE [simp]: "yields (requireE e b m) Q \<longleftrightarrow> b \<and> yields m Q"
  by (simp add: requireE_def)

lemma yields_mono: "yields m P \<Longrightarrow> (\<And>x. P x \<Longrightarrow> Q x) \<Longrightarrow> yields m Q"
  by (auto simp: yields_def)

lemma yields_then: "yields m P \<Longrightarrow> (\<And>x. P x \<Longrightarrow> yields (f x) Q) \<Longrightarrow> yields (bindE m f) Q"
  by (auto simp: yields_def)

lemma yields_then_pair:
  "yields m (\<lambda>(x, y). P x y) \<Longrightarrow> (\<And>x y. P x y \<Longrightarrow> yields (f x y) Q) \<Longrightarrow> yields (bindE m (\<lambda>(x, y). f x y)) Q"
  by (auto simp: yields_def)

lemma yields_obtain:
  assumes "yields m P"
  obtains x where "m = Inr x" "P x"
  using assms by (auto simp: yields_def)

text \<open>A loop with an invariant indexed by the number of iterations done.\<close>

lemma yields_foldE:
  assumes "I 0 s"
    and "\<And>n s. n < length xs \<Longrightarrow> I n s \<Longrightarrow> yields (f (xs ! n) s) (I (Suc n))"
  shows "yields (foldE f xs s) (I (length xs))"
  using assms
proof (induction xs arbitrary: s I)
  case (Cons x xs)
  have "yields (f x s) (I 1)" using Cons.prems(2) [of 0] Cons.prems(1) by simp
  moreover have "yields (foldE f xs t) (\<lambda>u. I (length (x # xs)) u)" if "I 1 t" for t
    using Cons.IH [of "\<lambda>n. I (Suc n)" t] that Cons.prems(2) [of "Suc n" for n] by force
  ultimately show ?case by (auto intro: yields_mono)
qed simp

lemma yields_foldE_post:
  assumes "I 0 s" "\<And>n s. n < length xs \<Longrightarrow> I n s \<Longrightarrow> yields (f (xs ! n) s) (I (Suc n))"
    and "\<And>s. I (length xs) s \<Longrightarrow> Q s"
  shows "yields (foldE f xs s) Q"
  using yields_mono [OF yields_foldE [of I, OF assms(1,2)] assms(3)] .

section \<open>Lemmas on arithmetic\<close>

lemma sdiv_nonneg: "0 \<le> n \<Longrightarrow> 0 < s \<Longrightarrow> n sdiv s = n div s" for n s :: int
  by (simp add: signed_divide_int_def sgn_if)

lemma smod_nonneg: "0 \<le> n \<Longrightarrow> 0 < s \<Longrightarrow> n smod s = n mod s" for n s :: int
  by (cases "n = 0") (auto simp: signed_modulo_int_def sgn_if)

lemma divRoundDown_nonneg: "0 \<le> n \<Longrightarrow> 0 < s \<Longrightarrow> divRoundDown n s = n div s"
  by (simp add: divRoundDown_def sdiv_nonneg)

lemma divRoundUp_nonneg: "0 \<le> n \<Longrightarrow> 0 < s \<Longrightarrow> divRoundUp n s = (n + s - 1) div s"
proof -
  assume n: "0 \<le> n" and s: "0 < s"
  have *: "n + s - 1 = (n mod s + s - 1) + s * (n div s)" by simp
  have "(n + s - 1) div s = n div s + (n mod s + s - 1) div s"
    unfolding * using s by simp
  moreover have "(n mod s + s - 1) div s = (if n mod s > 0 then 1 else 0)"
  proof (cases "n mod s > 0")
    case True
    have "n mod s < s" using s by simp
    then have "(n mod s + s - 1) div s = 1"
      using True by (intro int_div_pos_eq [where r = "n mod s - 1"]) linarith+
    then show ?thesis using True by simp
  next
    case False
    then have "n mod s = 0" using pos_mod_sign [OF s, of n] by linarith
    then show ?thesis using s by simp
  qed
  ultimately show ?thesis
    using n s by (simp add: divRoundUp_def sdiv_nonneg smod_nonneg)
qed

lemma divRoundUp_bounds:
  assumes "0 \<le> n" "0 < s"
  shows "n \<le> divRoundUp n s * s" "divRoundUp n s * s < n + s" "0 \<le> divRoundUp n s"
proof -
  have m: "n = s * (n div s) + n mod s" "0 \<le> n mod s" "n mod s < s" using assms by simp_all
  have d: "divRoundUp n s = n div s + (if n mod s > 0 then 1 else 0)"
    using assms by (simp add: divRoundUp_def sdiv_nonneg smod_nonneg)
  show "n \<le> divRoundUp n s * s" "divRoundUp n s * s < n + s"
    unfolding d using m by (cases "n mod s > 0"; simp add: algebra_simps; linarith)+
  show "0 \<le> divRoundUp n s" using assms by (auto simp: d pos_imp_zdiv_nonneg_iff)
qed

section \<open>Lemmas on buffers\<close>

lemma length_bcopyTo [simp]: "p + length ys \<le> length xs \<Longrightarrow> length (bcopyTo p ys xs) = length xs"
  by (simp add: bcopyTo_def)

lemma nth_bcopyTo:
  assumes "p + length ys \<le> length xs" "i < length xs"
  shows "bcopyTo p ys xs ! i = (if p \<le> i \<and> i < p + length ys then ys ! (i - p) else xs ! i)"
  using assms by (auto simp: bcopyTo_def nth_append min_def)

lemma length_slice [simp]: "p + n \<le> length xs \<Longrightarrow> length (slice p n xs) = n"
  by (simp add: slice_def)

lemma nth_slice: "p + n \<le> length xs \<Longrightarrow> i < n \<Longrightarrow> slice p n xs ! i = xs ! (p + i)"
  by (simp add: slice_def)

lemma slice_bcopyTo_same: "p + length ys \<le> length xs \<Longrightarrow> slice p (length ys) (bcopyTo p ys xs) = ys"
  by (simp add: slice_def bcopyTo_def)

lemma bcopyTo_all [simp]: "length ys = length xs \<Longrightarrow> bcopyTo 0 ys xs = ys"
  by (simp add: bcopyTo_def)

lemma bcopyTo_nil [simp]: "bcopyTo p [] xs = xs"
  by (simp add: bcopyTo_def)

text \<open>A field that the update of one element keeps is the same at every index.\<close>

lemma nth_update_field:
  "(\<And>x. g (f x) = g x) \<Longrightarrow> g (xs[i := f (xs ! i)] ! j) = g (xs ! j)"
  by (cases "i = j"; cases "i < length xs") (auto simp: list_update_beyond)

section \<open>Lemmas on the byte layout of integers\<close>

lemma length_word_bytes [simp]: "length (word_bytes w) = 4"
  by (simp add: word_bytes_def)

lemma length_int_bytes [simp]: "length (int_bytes i) = 4"
  by (simp add: int_bytes_def)

lemma bytes_word_word_bytes [simp]: "bytes_word (word_bytes w) = w"
proof (rule bit_word_eqI)
  fix n assume "n < LENGTH(32)"
  then consider "n < 8" | "8 \<le> n" "n < 16" | "16 \<le> n" "n < 24" | "24 \<le> n" "n < 32"
    by fastforce
  then show "bit (bytes_word (word_bytes w)) n = bit w n"
    by cases (auto simp: bytes_word_def word_bytes_def bit_simps)
qed

lemma bytes_int_int_bytes [simp]: "int32 i \<Longrightarrow> bytes_int (int_bytes i) = i"
  by (simp add: bytes_int_def int_bytes_def int32_def signed_of_int signed_take_bit_int_eq_self)

lemma int32_bytes_int [simp]: "int32 (bytes_int bs)"
  unfolding int32_def bytes_int_def
  using sint_greater_eq [of "bytes_word bs"] sint_less [of "bytes_word bs"] by simp

lemma int32_to_int32 [simp]: "int32 (to_int32 i)"
  unfolding int32_def to_int32_def
  using sint_greater_eq [of "word_of_int i :: 32 word"] sint_less [of "word_of_int i :: 32 word"] by simp

lemma bit_byte_high: "8 \<le> n \<Longrightarrow> \<not> bit (b :: byte) n"
  using bit_imp_le_length [of b n] by auto

lemma word_bytes_bytes_word:
  assumes "length bs = 4"
  shows "word_bytes (bytes_word bs) = bs"
proof -
  obtain a b c d where bs: "bs = [a, b, c, d]"
    using assms by (auto simp: length_Suc_conv numeral_eq_Suc)
  show ?thesis
    by (auto simp: bs word_bytes_def bytes_word_def bit_simps bit_byte_high
        intro!: bit_word_eqI)
qed

lemma int_bytes_bytes_int: "length bs = 4 \<Longrightarrow> int_bytes (bytes_int bs) = bs"
  by (simp add: int_bytes_def bytes_int_def word_bytes_bytes_word)

lemma length_ints_bytes [simp]: "length (ints_bytes is) = 4 * length is"
  by (induction "is") (auto simp: ints_bytes_def)

lemma length_bytes_ints [simp]: "length (bytes_ints n bs) = n"
  by (induction n arbitrary: bs) auto

lemma bytes_ints_ints_bytes_append:
  "list_all int32 is \<Longrightarrow> n = length is \<Longrightarrow> bytes_ints n (ints_bytes is @ rest) = is"
  by (induction "is" arbitrary: n) (auto simp: ints_bytes_def)

lemma bytes_ints_ints_bytes [simp]:
  "list_all int32 is \<Longrightarrow> n = length is \<Longrightarrow> bytes_ints n (ints_bytes is) = is"
  using bytes_ints_ints_bytes_append [where rest = "[]"] by simp

lemma ints_bytes_bytes_ints: "length bs = 4 * n \<Longrightarrow> ints_bytes (bytes_ints n bs) = bs"
proof (induction n arbitrary: bs)
  case (Suc n)
  have "ints_bytes (bytes_ints (Suc n) bs) = int_bytes (bytes_int (take 4 bs)) @ ints_bytes (bytes_ints n (drop 4 bs))"
    by (simp add: ints_bytes_def)
  also have "\<dots> = take 4 bs @ drop 4 bs"
    using Suc by (simp add: int_bytes_bytes_int)
  finally show ?case by simp
qed (simp add: ints_bytes_def)

lemma list_all_int32_bytes_ints [simp]: "list_all int32 (bytes_ints n bs)"
  by (induction n arbitrary: bs) auto

lemma nth_bytes_ints:
  "j < length is \<Longrightarrow> int32 (is ! j) \<Longrightarrow> bytes_ints (length is) (ints_bytes is) ! j = is ! j"
proof (induction "is" arbitrary: j)
  case (Cons i "is")
  then show ?case by (cases j) (simp_all add: ints_bytes_def)
qed simp

lemma int32_small [simp]: "0 \<le> i \<Longrightarrow> i < 2147483648 \<Longrightarrow> int32 i"
  by (simp add: int32_def)

end
