(* ===== verification/Linked_List.thy ===== *)
theory Linked_List
  imports Nachos_Prelude "HOL-Library.Multiset"
begin

text \<open>
  \<^verbatim>\<open>threads/list.h\<close>, \<^verbatim>\<open>threads/list.cc\<close>: singly linked lists of untyped items.

  The list elements live in an explicit store of cells, so that the pointer
  manipulation of the source (\<^verbatim>\<open>last->next = element\<close>, \<^verbatim>\<open>delete element\<close>) is
  modelled as it is written.  Address 0 is \<^verbatim>\<open>NULL\<close>.  An item is a
  \<^verbatim>\<open>void *\<close>, \<open>None\<close> being the null pointer.  \<open>rep\<close> is the representation
  invariant, \<open>vals\<close> the sequence of (key, item) pairs a list stands for, and the
  refinement lemmas show that each operation acts on that sequence as the
  abstract operation of the same name does.
\<close>

section \<open>The store\<close>

type_synonym addr = nat

record 'a ListElement =
  lnext :: addr
  key :: int
  item :: "'a option"

record 'a heap =
  cells :: "addr \<Rightarrow> 'a ListElement option"
  fresh :: addr

record List =
  lfirst :: addr
  llast :: addr
  numInList :: int

definition load :: "addr \<Rightarrow> 'a heap \<Rightarrow> 'a ListElement result" where
  "load p h = (case cells h p of None \<Rightarrow> Inl NullDeref | Some e \<Rightarrow> Inr e)"

definition set_next :: "addr \<Rightarrow> addr \<Rightarrow> 'a heap \<Rightarrow> 'a heap result" where
  "set_next p q h = bindE (load p h) (\<lambda>e. Inr (h\<lparr>cells := (cells h)(p \<mapsto> e\<lparr>lnext := q\<rparr>)\<rparr>))"

definition delete_cell :: "addr \<Rightarrow> 'a heap \<Rightarrow> 'a heap" where
  "delete_cell p h = h\<lparr>cells := (cells h)(p := None)\<rparr>"

text \<open>\<^verbatim>\<open>new\<close> returns an address that has never been handed out before.\<close>

definition ListElement_new :: "'a option \<Rightarrow> int \<Rightarrow> 'a heap \<Rightarrow> addr \<times> 'a heap" where
  "ListElement_new itemPtr sortKey h =
     (fresh h, \<lparr>cells = (cells h)(fresh h \<mapsto> \<lparr>lnext = 0, key = sortKey, item = itemPtr\<rparr>),
                fresh = Suc (fresh h)\<rparr>)"

section \<open>The operations of class List\<close>

definition List_new :: List where
  "List_new = \<lparr>lfirst = 0, llast = 0, numInList = 0\<rparr>"

definition List_IsEmpty :: "List \<Rightarrow> bool" where
  "List_IsEmpty l \<longleftrightarrow> lfirst l = 0"

definition List_Append :: "'a option \<Rightarrow> List \<Rightarrow> 'a heap \<Rightarrow> (List \<times> 'a heap) result" where
  "List_Append it l h =
    (let (element, h) = ListElement_new it 0 h in
     bindE
       (if List_IsEmpty l then Inr (l\<lparr>lfirst := element, llast := element\<rparr>, h)
        else bindE (set_next (llast l) element h) (\<lambda>h. Inr (l\<lparr>llast := element\<rparr>, h)))
       (\<lambda>(l, h). Inr (l\<lparr>numInList := numInList l + 1\<rparr>, h)))"

definition List_Prepend :: "'a option \<Rightarrow> List \<Rightarrow> 'a heap \<Rightarrow> (List \<times> 'a heap) result" where
  "List_Prepend it l h =
    (let (element, h) = ListElement_new it 0 h in
     bindE
       (if List_IsEmpty l then Inr (l\<lparr>lfirst := element, llast := element\<rparr>, h)
        else bindE (set_next element (lfirst l) h) (\<lambda>h. Inr (l\<lparr>lfirst := element\<rparr>, h)))
       (\<lambda>(l, h). Inr (l\<lparr>numInList := numInList l + 1\<rparr>, h)))"

text \<open>
  The walk of \<^verbatim>\<open>SortedInsert\<close>: \<open>Some ptr\<close> when the new element goes right after
  \<open>ptr\<close>, \<open>None\<close> when the loop runs to the end of the list.  The walk does not
  change the store, so a walk longer than the number of addresses ever
  allocated has met a cell twice and goes on forever: the fuel \<open>fresh h\<close> used by
  the callers makes \<open>Diverges\<close> exactly that case.
\<close>

fun SortedInsert_walk :: "nat \<Rightarrow> int \<Rightarrow> addr \<Rightarrow> 'a heap \<Rightarrow> addr option result" where
  "SortedInsert_walk 0 sortKey ptr h = Inl Diverges"
| "SortedInsert_walk (Suc n) sortKey ptr h =
     bindE (load ptr h) (\<lambda>p.
       if lnext p = 0 then Inr None
       else bindE (load (lnext p) h) (\<lambda>q.
         if sortKey < key q then Inr (Some ptr)
         else SortedInsert_walk n sortKey (lnext p) h))"

definition List_SortedInsert ::
  "'a option \<Rightarrow> int \<Rightarrow> List \<Rightarrow> 'a heap \<Rightarrow> (List \<times> 'a heap) result" where
  "List_SortedInsert it sortKey l h =
    (let (element, h) = ListElement_new it sortKey h in
     bindE
       (if List_IsEmpty l then Inr (l\<lparr>lfirst := element, llast := element\<rparr>, h)
        else bindE (load (lfirst l) h) (\<lambda>f.
          if sortKey < key f
          then bindE (set_next element (lfirst l) h) (\<lambda>h. Inr (l\<lparr>lfirst := element\<rparr>, h))
          else bindE (SortedInsert_walk (fresh h) sortKey (lfirst l) h) (\<lambda>found.
            case found of
              Some ptr \<Rightarrow>
                bindE (load ptr h) (\<lambda>p.
                bindE (set_next element (lnext p) h) (\<lambda>h.
                bindE (set_next ptr element h) (\<lambda>h. Inr (l, h))))
            | None \<Rightarrow>
                bindE (set_next (llast l) element h) (\<lambda>h. Inr (l\<lparr>llast := element\<rparr>, h)))))
       (\<lambda>(l, h). Inr (l\<lparr>numInList := numInList l + 1\<rparr>, h)))"

text \<open>\<^verbatim>\<open>SortedRemove\<close> returns the item and, unless the list was empty, its key.\<close>

definition List_SortedRemove ::
  "List \<Rightarrow> 'a heap \<Rightarrow> (('a option \<times> int option) \<times> List \<times> 'a heap) result" where
  "List_SortedRemove l h =
    (if List_IsEmpty l then Inr ((None, None), l, h)
     else bindE (load (lfirst l) h) (\<lambda>element.
       let l' = (if lfirst l = llast l then l\<lparr>lfirst := 0, llast := 0\<rparr>
                 else l\<lparr>lfirst := lnext element\<rparr>)
       in Inr ((item element, Some (key element)),
               l'\<lparr>numInList := numInList l - 1\<rparr>, delete_cell (lfirst l) h)))"

definition List_Remove :: "List \<Rightarrow> 'a heap \<Rightarrow> ('a option \<times> List \<times> 'a heap) result" where
  "List_Remove l h =
     bindE (List_SortedRemove l h) (\<lambda>((thing, _), l, h). Inr (thing, l, h))"

text \<open>The search loop of \<^verbatim>\<open>Remove(void *item)\<close>, on the pair of pointers it moves.\<close>

fun RemoveItem_walk ::
  "nat \<Rightarrow> 'a option \<Rightarrow> addr \<Rightarrow> addr \<Rightarrow> 'a heap \<Rightarrow> (addr \<times> addr) option result" where
  "RemoveItem_walk 0 it prev ptr h = Inl Diverges"
| "RemoveItem_walk (Suc n) it prev ptr h =
     (if ptr = 0 then Inr None
      else bindE (load ptr h) (\<lambda>e.
        if it = item e then Inr (Some (prev, ptr))
        else RemoveItem_walk n it ptr (lnext e) h))"

definition List_RemoveItem ::
  "'a option \<Rightarrow> List \<Rightarrow> 'a heap \<Rightarrow> (List \<times> 'a heap) result" where
  "List_RemoveItem it l h =
     bindE (load (lfirst l) h) (\<lambda>f.
       if it = item f
       then bindE (List_Remove l h) (\<lambda>(removed, l, h). ASSERT (it = removed) (Inr (l, h)))
       else bindE (RemoveItem_walk (fresh h) it (lfirst l) (lnext f) h) (\<lambda>found.
         case found of
           None \<Rightarrow> Inl AssertFailed
         | Some (prev, ptr) \<Rightarrow>
             bindE (load ptr h) (\<lambda>e.
             bindE (set_next prev (lnext e) h) (\<lambda>h.
               let l' = (if lnext e = 0 then l\<lparr>llast := prev\<rparr> else l)
               in Inr (l'\<lparr>numInList := numInList l - 1\<rparr>, delete_cell ptr h)))))"

text \<open>\<^verbatim>\<open>Mapcar\<close> with a callback \<open>func\<close> that acts on state outside the list.\<close>

fun Mapcar_walk :: "nat \<Rightarrow> ('a option \<Rightarrow> 's \<Rightarrow> 's result) \<Rightarrow> addr \<Rightarrow> 'a heap \<Rightarrow> 's \<Rightarrow> 's result" where
  "Mapcar_walk 0 func ptr h s = Inl Diverges"
| "Mapcar_walk (Suc n) func ptr h s =
     (if ptr = 0 then Inr s
      else bindE (load ptr h) (\<lambda>e. bindE (func (item e) s) (Mapcar_walk n func (lnext e) h)))"

definition List_Mapcar :: "('a option \<Rightarrow> 's \<Rightarrow> 's result) \<Rightarrow> List \<Rightarrow> 'a heap \<Rightarrow> 's \<Rightarrow> 's result" where
  "List_Mapcar func l h s = Mapcar_walk (fresh h) func (lfirst l) h s"

text \<open>The destructor's loop \<^verbatim>\<open>while (Remove() != NULL)\<close>.\<close>

fun List_delete_loop :: "nat \<Rightarrow> List \<Rightarrow> 'a heap \<Rightarrow> (List \<times> 'a heap) result" where
  "List_delete_loop 0 l h = Inl Diverges"
| "List_delete_loop (Suc n) l h =
     bindE (List_Remove l h) (\<lambda>(thing, l, h).
       if thing \<noteq> None then List_delete_loop n l h else Inr (l, h))"

definition List_delete :: "List \<Rightarrow> 'a heap \<Rightarrow> (List \<times> 'a heap) result" where
  "List_delete l h = List_delete_loop (fresh h) l h"

section \<open>Representation invariant and abstract sequences\<close>

fun lseg :: "'a heap \<Rightarrow> addr \<Rightarrow> addr list \<Rightarrow> addr \<Rightarrow> bool" where
  "lseg h p [] q \<longleftrightarrow> p = q"
| "lseg h p (a # as) q \<longleftrightarrow>
     p = a \<and> a \<noteq> 0 \<and> (case cells h a of None \<Rightarrow> False | Some e \<Rightarrow> lseg h (lnext e) as q)"

definition heap_ok :: "'a heap \<Rightarrow> bool" where
  "heap_ok h \<longleftrightarrow> 0 < fresh h \<and> cells h 0 = None \<and> (\<forall>a. fresh h \<le> a \<longrightarrow> cells h a = None)"

definition rep :: "'a heap \<Rightarrow> List \<Rightarrow> addr list \<Rightarrow> bool" where
  "rep h l as \<longleftrightarrow> heap_ok h \<and> lseg h (lfirst l) as 0 \<and> distinct as \<and>
     llast l = (if as = [] then 0 else last as) \<and> numInList l = int (length as)"

definition cell_val :: "'a heap \<Rightarrow> addr \<Rightarrow> int \<times> 'a option" where
  "cell_val h a = (case cells h a of None \<Rightarrow> (0, None) | Some e \<Rightarrow> (key e, item e))"

definition vals :: "'a heap \<Rightarrow> addr list \<Rightarrow> (int \<times> 'a option) list" where
  "vals h as = map (cell_val h) as"

text \<open>The abstract operations on sequences of (key, item) pairs.\<close>

definition seq_sorted_insert :: "int \<Rightarrow> 'b \<Rightarrow> (int \<times> 'b) list \<Rightarrow> (int \<times> 'b) list" where
  "seq_sorted_insert k x xs =
     takeWhile (\<lambda>e. fst e \<le> k) xs @ (k, x) # dropWhile (\<lambda>e. fst e \<le> k) xs"

fun seq_remove_item :: "'b \<Rightarrow> (int \<times> 'b) list \<Rightarrow> (int \<times> 'b) list" where
  "seq_remove_item x [] = []"
| "seq_remove_item x (e # xs) = (if x = snd e then xs else e # seq_remove_item x xs)"

section \<open>Lemmas on segments of cells\<close>

named_theorems cell_simps \<open>evaluation of loads and stores\<close>

lemma load_Some [cell_simps]: "cells h p = Some e \<Longrightarrow> load p h = Inr e"
  by (simp add: load_def)

lemma set_next_Some [cell_simps]:
  "cells h p = Some e \<Longrightarrow> set_next p q h = Inr (h\<lparr>cells := (cells h)(p \<mapsto> e\<lparr>lnext := q\<rparr>)\<rparr>)"
  by (simp add: set_next_def load_Some)

lemma lseg_append: "lseg h p (as @ bs) q \<longleftrightarrow> (\<exists>r. lseg h p as r \<and> lseg h r bs q)"
  by (induction as arbitrary: p) (auto split: option.splits)

lemma lseg_cong:
  assumes "\<And>a. a \<in> set as \<Longrightarrow> cells h' a = cells h a"
  shows "lseg h' p as q = lseg h p as q"
  using assms by (induction as arbitrary: p) (auto split: option.splits)

lemma lseg_not_null: "lseg h p as q \<Longrightarrow> a \<in> set as \<Longrightarrow> a \<noteq> 0 \<and> (\<exists>e. cells h a = Some e)"
  by (induction as arbitrary: p) (auto split: option.splits)

lemma lseg_snocD: "lseg h p (as @ [a]) q \<Longrightarrow> \<exists>e. cells h a = Some e \<and> lnext e = q \<and> lseg h p as a"
  by (auto simp: lseg_append split: option.splits)

lemma lseg_snoc_redirect:
  assumes "lseg h p (as @ [a]) q" "a \<notin> set as" "cells h a = Some e"
    "\<And>b. b \<in> set as \<Longrightarrow> cells h' b = cells h b" "cells h' a = Some (e\<lparr>lnext := r\<rparr>)"
  shows "lseg h' p (as @ [a]) r"
proof -
  from assms(1) have "lseg h p as a" "a \<noteq> 0" by (auto simp: lseg_append split: option.splits)
  then have "lseg h' p as a" using lseg_cong [of as h' h] assms(4) by simp
  then show ?thesis using assms(5) \<open>a \<noteq> 0\<close> by (auto simp: lseg_append)
qed

lemma lseg_fresh: "heap_ok h \<Longrightarrow> lseg h p as q \<Longrightarrow> a \<in> set as \<Longrightarrow> a < fresh h"
  using lseg_not_null [of h p as q a] by (metis heap_ok_def leI option.distinct(1))

lemma fresh_notin: "heap_ok h \<Longrightarrow> lseg h p as q \<Longrightarrow> fresh h \<notin> set as"
  using lseg_fresh by blast

lemma lseg_length_fresh:
  assumes "heap_ok h" "lseg h p as q" "distinct as"
  shows "length as < fresh h"
proof -
  have "set as \<subseteq> {1..<fresh h}"
  proof
    fix a assume "a \<in> set as"
    then show "a \<in> {1..<fresh h}"
      using lseg_fresh [OF assms(1,2)] lseg_not_null [OF assms(2)] by fastforce
  qed
  then have "card (set as) \<le> fresh h - 1" by (metis card_atLeastLessThan card_mono finite_atLeastLessThan)
  moreover have "0 < fresh h" using assms(1) by (simp add: heap_ok_def)
  ultimately show ?thesis using assms(3) by (simp add: distinct_card)
qed

lemma vals_cong:
  "(\<And>a. a \<in> set as \<Longrightarrow> cell_val h' a = cell_val h a) \<Longrightarrow> vals h' as = vals h as"
  by (simp add: vals_def)

lemma vals_append [simp]: "vals h (as @ bs) = vals h as @ vals h bs"
  by (simp add: vals_def)

lemma vals_Cons [simp]: "vals h (a # as) = cell_val h a # vals h as"
  by (simp add: vals_def)

lemma vals_Nil [simp]: "vals h [] = []"
  by (simp add: vals_def)

lemma length_vals [simp]: "length (vals h as) = length as"
  by (simp add: vals_def)

text \<open>
  The one pointer update all insertions perform: the new cell \<open>n\<close>, whose
  successor is that of the last cell of \<open>bs\<close>, is linked in after \<open>bs\<close>.
\<close>

lemma lseg_link_after:
  assumes "lseg h p (bs @ [b]) r" "lseg h r cs 0" "distinct (bs @ b # cs)"
    "n \<noteq> 0" "n \<notin> set (bs @ b # cs)" "cells h b = Some e"
    "\<And>a. a \<in> set bs \<union> set cs \<Longrightarrow> cells h' a = cells h a"
    "cells h' b = Some (e\<lparr>lnext := n\<rparr>)" "cells h' n = Some x" "lnext x = r"
  shows "lseg h' p (bs @ b # n # cs) 0"
proof -
  have "lseg h' p (bs @ [b]) n"
    using assms(3) by (intro lseg_snoc_redirect [OF assms(1) _ assms(6) assms(7) assms(8)]) auto
  moreover have "lseg h' r cs 0" using lseg_cong [of cs h' h] assms(2,7) by simp
  ultimately have "lseg h' p ((bs @ [b]) @ n # cs) 0"
    using assms(4,9,10) unfolding lseg_append [of h' p "bs @ [b]"] by auto
  then show ?thesis by simp
qed

lemma rep_empty_iff: "rep h l as \<Longrightarrow> List_IsEmpty l \<longleftrightarrow> as = []"
  by (cases as) (auto simp: rep_def List_IsEmpty_def)

lemma rep_new: "heap_ok h \<Longrightarrow> rep h List_new []"
  by (simp add: rep_def List_new_def)

text \<open>Lists over disjoint cells do not interfere.\<close>

lemma rep_frame:
  assumes "rep h l as" "heap_ok h'" "\<And>a. a \<in> set as \<Longrightarrow> cells h' a = cells h a"
  shows "rep h' l as" "vals h' as = vals h as"
  using assms lseg_cong [of as h' h] by (auto simp: rep_def cell_val_def intro!: vals_cong)

section \<open>Refinement of the insertions\<close>

lemma heap_ok_new_cell:
  assumes "heap_ok h" "\<And>a. a \<noteq> fresh h \<Longrightarrow> cells h a = None \<Longrightarrow> cells h' a = None" "fresh h' = Suc (fresh h)"
  shows "heap_ok h'"
proof -
  have *: "0 < fresh h" "cells h 0 = None" "\<And>a. fresh h \<le> a \<Longrightarrow> cells h a = None"
    using assms(1) by (simp_all add: heap_ok_def)
  have "cells h' a = None" if "Suc (fresh h) \<le> a" for a
    using that by (intro assms(2) *(3)) simp_all
  moreover have "cells h' 0 = None" using *(1,2) by (intro assms(2)) simp_all
  ultimately show ?thesis using assms(3) by (simp add: heap_ok_def)
qed

lemma rep_link_front:
  fixes k :: int and it :: "'a option"
  assumes rep: "rep h l as"
  defines "n \<equiv> fresh h"
  defines "h' \<equiv> \<lparr>cells = (cells h)(n \<mapsto> \<lparr>lnext = lfirst l, key = k, item = it\<rparr>), fresh = Suc n\<rparr>"
  defines "l' \<equiv> \<lparr>lfirst = n, llast = (if as = [] then n else llast l), numInList = numInList l + 1\<rparr>"
  shows "rep h' l' (n # as)" "vals h' (n # as) = (k, it) # vals h as"
proof -
  have ok: "heap_ok h" and seg: "lseg h (lfirst l) as 0" using rep by (auto simp: rep_def)
  have n: "n \<notin> set as" "n \<noteq> 0" using fresh_notin [OF ok seg] ok by (auto simp: n_def heap_ok_def)
  have "heap_ok h'" by (rule heap_ok_new_cell [OF ok]) (auto simp: h'_def n_def)
  moreover have "lseg h' (lfirst l) as 0"
    using seg n by (subst lseg_cong [where h = h]) (auto simp: h'_def)
  ultimately show "rep h' l' (n # as)" using rep n by (auto simp: rep_def l'_def h'_def)
  show "vals h' (n # as) = (k, it) # vals h as"
    using n by (auto simp: cell_val_def h'_def vals_def)
qed

lemma rep_link_after:
  fixes k :: int and it :: "'a option"
  assumes rep: "rep h l (bs @ b # cs)" and b: "cells h b = Some e"
  defines "n \<equiv> fresh h"
  defines "h' \<equiv> \<lparr>cells = (cells h)(n \<mapsto> \<lparr>lnext = lnext e, key = k, item = it\<rparr>, b \<mapsto> e\<lparr>lnext := n\<rparr>),
                 fresh = Suc n\<rparr>"
  defines "l' \<equiv> l\<lparr>llast := (if cs = [] then n else llast l), numInList := numInList l + 1\<rparr>"
  shows "rep h' l' (bs @ b # n # cs)"
    "vals h' (bs @ b # n # cs) = vals h (bs @ [b]) @ (k, it) # vals h cs"
proof -
  have ok: "heap_ok h" and seg: "lseg h (lfirst l) (bs @ b # cs) 0"
    and dist: "distinct (bs @ b # cs)" using rep by (auto simp: rep_def)
  have n: "n \<notin> set (bs @ b # cs)" "n \<noteq> 0"
    using fresh_notin [OF ok seg] ok by (auto simp: n_def heap_ok_def)
  from seg b have segs: "lseg h (lfirst l) (bs @ [b]) (lnext e)" "lseg h (lnext e) cs 0"
    by (auto simp: lseg_append)
  have "lseg h' (lfirst l) (bs @ b # n # cs) 0"
    using n dist by (intro lseg_link_after [OF segs dist n(2,1) b, where
        x = "\<lparr>lnext = lnext e, key = k, item = it\<rparr>"]) (auto simp: h'_def)
  moreover have "heap_ok h'" using b by (intro heap_ok_new_cell [OF ok]) (auto simp: h'_def n_def)
  ultimately show "rep h' l' (bs @ b # n # cs)" using rep n by (auto simp: rep_def l'_def)
  show "vals h' (bs @ b # n # cs) = vals h (bs @ [b]) @ (k, it) # vals h cs"
    using n dist b by (auto simp: vals_def cell_val_def h'_def)
qed

lemma List_Append_refines:
  assumes "rep h l as"
  shows "\<exists>l' h'. List_Append it l h = Inr (l', h') \<and> rep h' l' (as @ [fresh h]) \<and>
    vals h' (as @ [fresh h]) = vals h as @ [(0, it)] \<and>
    (\<forall>a. a \<notin> set as \<and> a \<noteq> fresh h \<longrightarrow> cells h' a = cells h a)"
proof (cases as rule: rev_cases)
  case Nil
  with assms show ?thesis
    using rep_link_front [OF assms, of 0 it] rep_empty_iff [OF assms]
    by (auto simp: List_Append_def ListElement_new_def List_IsEmpty_def rep_def)
next
  case (snoc bs b)
  then obtain e where e: "cells h b = Some e" "lnext e = 0"
    using assms by (auto simp: rep_def dest: lseg_snocD)
  have b: "b \<noteq> fresh h" "llast l = b"
    using assms snoc fresh_notin [of h "lfirst l" as 0] by (auto simp: rep_def)
  show ?thesis
    using rep_link_after [of h l bs b "[]" e 0 it] assms snoc e b rep_empty_iff [OF assms]
    by (auto simp: List_Append_def ListElement_new_def cell_simps)
qed

lemma List_Prepend_refines:
  assumes "rep h l as"
  shows "\<exists>l' h'. List_Prepend it l h = Inr (l', h') \<and> rep h' l' (fresh h # as) \<and>
    vals h' (fresh h # as) = (0, it) # vals h as \<and>
    (\<forall>a. a \<notin> set as \<and> a \<noteq> fresh h \<longrightarrow> cells h' a = cells h a)"
  using rep_link_front [OF assms, of 0 it] rep_empty_iff [OF assms] assms
  by (auto simp: List_Prepend_def ListElement_new_def cell_simps List_IsEmpty_def rep_def)

text \<open>The walk stops after the longest prefix of elements whose key is at most the new one.\<close>

lemma SortedInsert_walk_spec:
  assumes "lseg h p (p # as) 0" "length as < n"
  shows "SortedInsert_walk n k p h =
    Inr (if \<forall>a\<in>set as. fst (cell_val h a) \<le> k then None
         else Some (last (p # takeWhile (\<lambda>a. fst (cell_val h a) \<le> k) as)))"
  using assms
proof (induction as arbitrary: p n)
  case Nil
  then show ?case by (cases n) (auto simp: cell_simps split: option.splits)
next
  case (Cons a as)
  from Cons.prems obtain e f where e: "cells h p = Some e" "lnext e = a" "a \<noteq> 0" "cells h a = Some f"
    "lseg h a (a # as) 0"
    by (auto split: option.splits)
  obtain m where m: "n = Suc m" "length as < m" using Cons.prems by (cases n) auto
  show ?case
    using e m Cons.IH [OF e(5) m(2)] by (auto simp: cell_simps cell_val_def not_less)
qed

lemma seq_sorted_insert_vals:
  fixes P
  defines "P \<equiv> \<lambda>k h a. fst (cell_val h a) \<le> k"
  shows "seq_sorted_insert k it (vals h as) =
    vals h (takeWhile (P k h) as) @ (k, it) # vals h (dropWhile (P k h) as)"
  by (simp add: seq_sorted_insert_def vals_def takeWhile_map dropWhile_map P_def comp_def)

lemma SortedInsert_positions:
  assumes rep: "rep h l (a # as)" and key: "fst (cell_val h a) \<le> k"
  obtains bs b cs e where "a # as = bs @ b # cs"
    "bs @ [b] = a # takeWhile (\<lambda>x. fst (cell_val h x) \<le> k) as"
    "cs = dropWhile (\<lambda>x. fst (cell_val h x) \<le> k) as" "cells h b = Some e"
    "b \<noteq> fresh h" "cs = [] \<longleftrightarrow> (\<forall>x\<in>set as. fst (cell_val h x) \<le> k)" "b \<noteq> 0"
proof -
  let ?P = "\<lambda>x. fst (cell_val h x) \<le> k"
  obtain bs b where bs: "bs @ [b] = a # takeWhile ?P as"
    by (metis append_butlast_last_id list.distinct(1))
  have eq: "a # as = bs @ b # dropWhile ?P as"
    using bs by (metis Cons_eq_appendI append.assoc append_Cons append_Nil takeWhile_dropWhile_id)
  have seg: "heap_ok h" "lseg h (lfirst l) (a # as) 0" using rep by (auto simp: rep_def)
  have b: "b \<in> set (a # as)" unfolding eq by simp
  show thesis
    using that [OF eq bs refl] lseg_not_null [OF seg(2) b] lseg_fresh [OF seg b]
    by (auto simp: dropWhile_eq_Nil_conv)
qed

lemma List_SortedInsert_refines:
  assumes rep: "rep h l as"
  shows "\<exists>l' h' as'. List_SortedInsert it k l h = Inr (l', h') \<and> rep h' l' as' \<and>
    set as' = insert (fresh h) (set as) \<and>
    vals h' as' = seq_sorted_insert k it (vals h as) \<and>
    (\<forall>a. a \<notin> set as \<and> a \<noteq> fresh h \<longrightarrow> cells h' a = cells h a)"
proof (cases as)
  case Nil
  with assms show ?thesis
    using rep_link_front [OF assms, of k it] rep_empty_iff [OF assms]
    by (auto simp: List_SortedInsert_def ListElement_new_def List_IsEmpty_def rep_def
        seq_sorted_insert_def intro!: exI [of _ "[fresh h]"])
next
  case (Cons a rest)
  have ok: "heap_ok h" and seg: "lseg h (lfirst l) (a # rest) 0" "lfirst l = a"
    using assms Cons by (auto simp: rep_def)
  then obtain f where f: "cells h a = Some f" "a \<noteq> 0" by (auto split: option.splits)
  have nf: "fresh h \<notin> set (a # rest)" using fresh_notin [OF ok seg(1)] .
  show ?thesis
  proof (cases "k < key f")
    case True
    then show ?thesis
      using rep_link_front [OF assms, of k it] assms Cons f seg nf
      by (cases l) (auto simp: List_SortedInsert_def ListElement_new_def List_IsEmpty_def cell_simps
          seq_sorted_insert_def cell_val_def intro!: exI [of _ "fresh h # a # rest"])
  next
    case False
    then have key: "fst (cell_val h a) \<le> k" using f by (simp add: cell_val_def)
    obtain bs b cs e where pos: "a # rest = bs @ b # cs"
      "bs @ [b] = a # takeWhile (\<lambda>x. fst (cell_val h x) \<le> k) rest"
      "cs = dropWhile (\<lambda>x. fst (cell_val h x) \<le> k) rest" "cells h b = Some e"
      "b \<noteq> fresh h" "cs = [] \<longleftrightarrow> (\<forall>x\<in>set rest. fst (cell_val h x) \<le> k)" "b \<noteq> 0"
      using SortedInsert_positions [OF assms [unfolded Cons] key] by blast
    define h1 where "h1 = snd (ListElement_new it k h)"
    have h1: "cells h1 x = cells h x" "cell_val h1 x = cell_val h x" if "x \<in> set (a # rest)" for x
      using that nf by (auto simp: h1_def ListElement_new_def cell_val_def)
    have "lseg h1 a (a # rest) 0"
      using seg h1(1) by (subst lseg_cong [where h = h]) simp_all
    moreover have "length rest < fresh h1"
      using lseg_length_fresh [OF ok seg(1)] assms Cons by (simp add: h1_def ListElement_new_def rep_def)
    ultimately have walk: "SortedInsert_walk (fresh h1) k a h1 =
      Inr (if cs = [] then None else Some b)"
      using SortedInsert_walk_spec [of h1 a rest "fresh h1" k] h1 pos(6)
        arg_cong [OF pos(2), of last] by (auto cong: takeWhile_cong)
    have last: "llast l = b" if "cs = []" using assms Cons pos(1) that by (simp add: rep_def)
    have "List_SortedInsert it k l h = Inr (l\<lparr>llast := (if cs = [] then fresh h else llast l),
        numInList := numInList l + 1\<rparr>,
      \<lparr>cells = (cells h)(fresh h \<mapsto> \<lparr>lnext = lnext e, key = k, item = it\<rparr>, b \<mapsto> e\<lparr>lnext := fresh h\<rparr>),
       fresh = Suc (fresh h)\<rparr>)"
    proof -
      have "lnext e = 0" if "cs = []"
        using seg(1) pos(1,4) that by (auto simp: lseg_append)
      then show ?thesis
        using False walk last f seg(2) nf pos(4,5)
        by (cases "cs = []") (auto simp: List_SortedInsert_def ListElement_new_def h1_def
            List_IsEmpty_def cell_simps)
    qed
    moreover have "vals h (bs @ [b]) @ (k, it) # vals h cs = seq_sorted_insert k it (vals h as)"
      using key by (simp only: pos(2,3) Cons seq_sorted_insert_vals) simp
    ultimately show ?thesis
      using rep_link_after [OF assms [unfolded Cons pos(1)] pos(4), of k it] Cons pos(1)
      by (auto intro!: exI [of _ "bs @ b # fresh h # cs"])
  qed
qed

section \<open>Refinement of the removals and traversals\<close>

lemma heap_ok_delete: "heap_ok h \<Longrightarrow> heap_ok (delete_cell p h)"
  by (simp add: heap_ok_def delete_cell_def)

lemma List_SortedRemove_empty:
  "rep h l [] \<Longrightarrow> List_SortedRemove l h = Inr ((None, None), l, h)"
  by (simp add: List_SortedRemove_def List_IsEmpty_def rep_def)

lemma List_SortedRemove_refines:
  assumes rep: "rep h l (a # as)"
  shows "\<exists>l'. List_SortedRemove l h =
      Inr ((snd (cell_val h a), Some (fst (cell_val h a))), l', delete_cell a h) \<and>
    rep (delete_cell a h) l' as \<and> vals (delete_cell a h) as = vals h as"
proof -
  have seg: "heap_ok h" "lfirst l = a" "a \<noteq> 0" "distinct (a # as)" and
    last: "llast l = last (a # as)" "numInList l = int (length (a # as))"
    and tail: "\<exists>e. cells h a = Some e \<and> lseg h (lnext e) as 0"
    using rep by (auto simp: rep_def split: option.splits)
  then obtain e where e: "cells h a = Some e" "lseg h (lnext e) as 0" by blast
  have single: "a = last (a # as) \<longleftrightarrow> as = []" using seg(4) by auto
  have seg': "lseg (delete_cell a h) (lnext e) as 0"
    using e(2) seg(4) by (subst lseg_cong [where h = h]) (auto simp: delete_cell_def)
  have vals: "vals (delete_cell a h) as = vals h as"
    using seg(4) by (intro vals_cong) (auto simp: cell_val_def delete_cell_def)
  show ?thesis
  proof (cases "as = []")
    case True
    with e have "lnext e = 0" by simp
    with True show ?thesis
      using seg e last by (auto simp: List_SortedRemove_def List_IsEmpty_def cell_simps Let_def
          cell_val_def rep_def heap_ok_delete)
  next
    case False
    then show ?thesis
      using seg e last seg' single vals by (auto simp: List_SortedRemove_def List_IsEmpty_def
          cell_simps Let_def cell_val_def rep_def heap_ok_delete)
  qed
qed

lemma List_Remove_refines:
  assumes "rep h l (a # as)"
  shows "\<exists>l'. List_Remove l h = Inr (snd (cell_val h a), l', delete_cell a h) \<and>
    rep (delete_cell a h) l' as \<and> vals (delete_cell a h) as = vals h as"
  using List_SortedRemove_refines [OF assms] by (auto simp: List_Remove_def)

lemma RemoveItem_walk_spec:
  assumes "lseg h p as 0" "length as < n"
  shows "RemoveItem_walk n it prev p h =
    Inr (case dropWhile (\<lambda>a. snd (cell_val h a) \<noteq> it) as of
           [] \<Rightarrow> None
         | b # _ \<Rightarrow> Some (last (prev # takeWhile (\<lambda>a. snd (cell_val h a) \<noteq> it) as), b))"
  using assms
proof (induction as arbitrary: p prev n)
  case Nil
  then show ?case by (cases n) auto
next
  case (Cons a as)
  then obtain e where e: "cells h a = Some e" "p = a" "a \<noteq> 0" "lseg h (lnext e) as 0"
    by (auto split: option.splits)
  obtain m where m: "n = Suc m" "length as < m" using Cons.prems by (cases n) auto
  have val: "snd (cell_val h a) = item e" using e by (simp add: cell_val_def)
  show ?case
    using e m Cons.IH [OF e(4) m(2), of a] val
    by (cases "item e = it"; cases "dropWhile (\<lambda>a. snd (cell_val h a) \<noteq> it) as")
      (simp_all add: cell_simps del: dropWhile_eq_Nil_conv)
qed

lemma Mapcar_walk_spec:
  assumes "lseg h p as 0" "length as < n"
  shows "Mapcar_walk n func p h s = foldE func (map snd (vals h as)) s"
  using assms
proof (induction as arbitrary: p s n)
  case Nil
  then show ?case by (cases n) auto
next
  case (Cons a as)
  then obtain e where e: "cells h a = Some e" "p = a" "a \<noteq> 0" "lseg h (lnext e) as 0"
    by (auto split: option.splits)
  obtain m where m: "n = Suc m" "length as < m" using Cons.prems by (cases n) auto
  have "Mapcar_walk m func (lnext e) h = foldE func (map snd (vals h as))"
    using Cons.IH [OF e(4) m(2)] by blast
  then show ?case using e m by (simp add: cell_simps cell_val_def)
qed

lemma List_Mapcar_refines:
  "rep h l as \<Longrightarrow> List_Mapcar func l h s = foldE func (map snd (vals h as)) s"
  using lseg_length_fresh by (auto simp: List_Mapcar_def rep_def intro!: Mapcar_walk_spec)

text \<open>Unlinking the cell after \<open>b\<close>, as \<^verbatim>\<open>Remove(void *item)\<close> does.\<close>

lemma rep_unlink_after:
  assumes rep: "rep h l (bs @ b # c # cs)" and b: "cells h b = Some e" and c: "cells h c = Some f"
  defines "h' \<equiv> h\<lparr>cells := (cells h)(b \<mapsto> e\<lparr>lnext := lnext f\<rparr>, c := None)\<rparr>"
  defines "l' \<equiv> (if lnext f = 0 then l\<lparr>llast := b\<rparr> else l)\<lparr>numInList := numInList l - 1\<rparr>"
  shows "rep h' l' (bs @ b # cs)" "vals h' (bs @ b # cs) = vals h (bs @ b # cs)"
proof -
  have ok: "heap_ok h" and seg: "lseg h (lfirst l) (bs @ b # c # cs) 0"
    and dist: "distinct (bs @ b # c # cs)" using rep by (auto simp: rep_def)
  from seg b c have segs: "lseg h (lfirst l) (bs @ [b]) c" "lseg h (lnext f) cs 0"
    by (auto simp: lseg_append)
  have "lseg h' (lfirst l) (bs @ [b]) (lnext f)"
    using dist by (intro lseg_snoc_redirect [OF segs(1) _ b]) (auto simp: h'_def)
  moreover have "lseg h' (lnext f) cs 0"
    using segs(2) dist by (subst lseg_cong [where h = h]) (auto simp: h'_def)
  ultimately have "lseg h' (lfirst l) ((bs @ [b]) @ cs) 0"
    unfolding lseg_append [of h' "lfirst l" "bs @ [b]"] by blast
  moreover have "heap_ok h'" using ok b c by (auto simp: heap_ok_def h'_def)
  moreover have "lnext f = 0 \<longleftrightarrow> cs = []"
    using segs(2) by (cases cs) (auto split: option.splits)
  ultimately show "rep h' l' (bs @ b # cs)"
    using rep dist by (auto simp: rep_def l'_def)
  show "vals h' (bs @ b # cs) = vals h (bs @ b # cs)"
    using dist b by (auto simp: vals_def cell_val_def h'_def)
qed

lemma seq_remove_item_append:
  "(\<And>e. e \<in> set xs \<Longrightarrow> snd e \<noteq> x) \<Longrightarrow> seq_remove_item x (xs @ ys) = xs @ seq_remove_item x ys"
  by (induction xs) auto

text \<open>
  The search finds the first cell that holds the item; with the cell before it
  this splits the list at the position to unlink.
\<close>

lemma RemoveItem_positions:
  assumes "rep h l (a # rest)" "x \<in> set rest" "snd (cell_val h x) = it"
  obtains bs b c cs where "a # rest = bs @ b # c # cs" "snd (cell_val h c) = it"
    "\<And>y. y \<in> set (bs @ [b]) \<Longrightarrow> y \<noteq> a \<Longrightarrow> snd (cell_val h y) \<noteq> it"
    "RemoveItem_walk (fresh h) it a (lnext (the (cells h a))) h = Inr (Some (b, c))"
proof -
  let ?P = "\<lambda>a. snd (cell_val h a) \<noteq> it"
  have seg: "heap_ok h" "lseg h (lfirst l) (a # rest) 0" "distinct (a # rest)"
    using assms(1) by (auto simp: rep_def)
  obtain c cs where d: "dropWhile ?P rest = c # cs"
    using assms(2,3) by (cases "dropWhile ?P rest") auto
  have c: "snd (cell_val h c) = it" using d by (simp add: dropWhile_eq_Cons_conv)
  obtain bs b where bs: "bs @ [b] = a # takeWhile ?P rest"
    by (metis append_butlast_last_id list.distinct(1))
  have split: "a # rest = bs @ b # c # cs"
    using takeWhile_dropWhile_id [of ?P rest] bs d by (metis append.assoc append_Cons append_Nil)
  have "lseg h (lnext (the (cells h a))) rest 0" using seg(2) by (auto split: option.splits)
  moreover have "length rest < fresh h" using lseg_length_fresh [OF seg] by simp
  ultimately have "RemoveItem_walk (fresh h) it a (lnext (the (cells h a))) h = Inr (Some (b, c))"
    using RemoveItem_walk_spec [of h _ rest "fresh h" it a] d arg_cong [OF bs, of last] by simp
  moreover have "snd (cell_val h y) \<noteq> it" if "y \<in> set (bs @ [b])" "y \<noteq> a" for y
    using that set_takeWhileD [of y ?P rest] unfolding bs by auto
  ultimately show thesis using that split c by blast
qed

lemma List_RemoveItem_refines:
  assumes rep: "rep h l as" and mem: "it \<in> snd ` set (vals h as)"
  shows "\<exists>l' h' as'. List_RemoveItem it l h = Inr (l', h') \<and> rep h' l' as' \<and> set as' \<subseteq> set as \<and>
    vals h' as' = seq_remove_item it (vals h as) \<and>
    (\<forall>a. a \<notin> set as \<longrightarrow> cells h' a = cells h a)"
proof (cases as)
  case Nil
  with mem show ?thesis by simp
next
  case (Cons a rest)
  obtain f where f: "cells h a = Some f" "lfirst l = a"
    using rep Cons by (auto simp: rep_def split: option.splits)
  have af: "snd (cell_val h a) = item f" using f by (simp add: cell_val_def)
  show ?thesis
  proof (cases "item f = it")
    case True
    then show ?thesis
      using List_Remove_refines [OF rep [unfolded Cons]] f af Cons
      by (auto simp: List_RemoveItem_def cell_simps delete_cell_def intro!: exI [of _ rest])
  next
    case False
    then obtain x where x: "x \<in> set rest" "snd (cell_val h x) = it"
      using mem Cons af by (auto simp: vals_def)
    obtain bs b c cs where pos: "a # rest = bs @ b # c # cs" "snd (cell_val h c) = it"
      "\<And>y. y \<in> set (bs @ [b]) \<Longrightarrow> y \<noteq> a \<Longrightarrow> snd (cell_val h y) \<noteq> it"
      "RemoveItem_walk (fresh h) it a (lnext (the (cells h a))) h = Inr (Some (b, c))"
      using RemoveItem_positions [OF rep [unfolded Cons] x] by blast
    have notit: "snd e \<noteq> it" if e: "e \<in> set (vals h (bs @ [b]))" for e
    proof -
      obtain y where y: "y \<in> set (bs @ [b])" "e = cell_val h y"
        using e unfolding vals_def set_map by blast
      then show ?thesis using pos(3) [OF y(1)] False af by (cases "y = a") auto
    qed
    have cells: "\<exists>e. cells h b = Some e" "\<exists>e. cells h c = Some e"
      using lseg_not_null [of h "lfirst l" "bs @ b # c # cs" 0] rep Cons pos(1) by (auto simp: rep_def)
    then obtain eb ec where e: "cells h b = Some eb" "cells h c = Some ec" by blast
    have "b \<noteq> c" using rep Cons pos(1) by (auto simp: rep_def)
    have "seq_remove_item it (vals h as) = vals h (bs @ b # cs)"
      using seq_remove_item_append [of "vals h (bs @ [b])" it "vals h (c # cs)"] notit pos(2) Cons pos(1)
      by simp
    then show ?thesis
      using rep_unlink_after [OF rep [unfolded Cons pos(1)] e] False f e pos(4) \<open>b \<noteq> c\<close> Cons pos(1)
      by (auto simp: List_RemoveItem_def cell_simps Let_def delete_cell_def intro!: exI [of _ "bs @ b # cs"])
  qed
qed

lemma List_RemoveItem_empty: "rep h l [] \<Longrightarrow> List_RemoveItem it l h = Inl NullDeref"
  by (simp add: rep_def List_RemoveItem_def load_def heap_ok_def)

lemma List_RemoveItem_missing:
  assumes "rep h l (a # rest)" "it \<notin> snd ` set (vals h (a # rest))"
  shows "List_RemoveItem it l h = Inl AssertFailed"
proof -
  have seg: "heap_ok h" "lseg h (lfirst l) (a # rest) 0" "distinct (a # rest)"
    using assms(1) by (auto simp: rep_def)
  then obtain f where f: "cells h a = Some f" "lfirst l = a" "lseg h (lnext f) rest 0"
    by (auto split: option.splits)
  have "dropWhile (\<lambda>a. snd (cell_val h a) \<noteq> it) rest = []"
    using assms(2) by (auto simp: vals_def dropWhile_eq_Nil_conv)
  then have "RemoveItem_walk (fresh h) it a (lnext f) h = Inr None"
    using RemoveItem_walk_spec [OF f(3), of "fresh h" it a] lseg_length_fresh [OF seg]
    by (simp del: dropWhile_eq_Nil_conv)
  moreover have "it \<noteq> item f" using assms(2) f by (auto simp: cell_val_def)
  ultimately show ?thesis using f by (simp add: List_RemoveItem_def cell_simps)
qed

section \<open>Sorted insertion on sequences\<close>

lemma seq_sorted_insert_simps [simp]:
  "seq_sorted_insert k x [] = [(k, x)]"
  "seq_sorted_insert k x (e # xs) =
     (if fst e \<le> k then e # seq_sorted_insert k x xs else (k, x) # e # xs)"
  by (simp_all add: seq_sorted_insert_def)

lemma mset_seq_sorted_insert: "mset (seq_sorted_insert k x xs) = add_mset (k, x) (mset xs)"
  by (induction xs) auto

lemma set_seq_sorted_insert [simp]: "set (seq_sorted_insert k x xs) = insert (k, x) (set xs)"
  by (induction xs) auto

lemma sorted_seq_sorted_insert:
  "sorted (map fst xs) \<Longrightarrow> sorted (map fst (seq_sorted_insert k x xs))"
  by (induction xs) auto

text \<open>Among elements of one key, the new one comes last: equal keys are first in, first out.\<close>

lemma filter_seq_sorted_insert:
  "sorted (map fst xs) \<Longrightarrow> filter (\<lambda>e. fst e = j) (seq_sorted_insert k x xs) =
    filter (\<lambda>e. fst e = j) xs @ (if j = k then [(k, x)] else [])"
proof (induction xs)
  case (Cons e xs)
  show ?case
  proof (cases "fst e \<le> k")
    case False
    then have "filter (\<lambda>e. fst e = k) (e # xs) = []"
      using Cons.prems by (auto simp: filter_empty_conv)
    then show ?thesis using False by auto
  qed (use Cons in auto)
qed simp

section \<open>The contract clients rely on\<close>

text \<open>
  The scheduler, the semaphores and the interrupt simulation use a \<^verbatim>\<open>List\<close> only
  through insertion and removal.  The locale states what they rely on: an
  operation always succeeds on a well-formed list and acts on the sequence
  \<open>seq s\<close> as the abstract operation does.  The sequences of insertions and of
  removals below are what a client performs.
\<close>

fun insert_all :: "(int \<Rightarrow> 'b \<Rightarrow> 's \<Rightarrow> 's result) \<Rightarrow> (int \<times> 'b) list \<Rightarrow> 's \<Rightarrow> 's result" where
  "insert_all ins [] s = Inr s"
| "insert_all ins ((k, x) # xs) s = bindE (ins k x s) (insert_all ins xs)"

fun remove_n :: "('s \<Rightarrow> (('b \<times> int option) \<times> 's) result) \<Rightarrow> nat \<Rightarrow> 's \<Rightarrow> (('b \<times> int option) list \<times> 's) result" where
  "remove_n rem 0 s = Inr ([], s)"
| "remove_n rem (Suc n) s =
     bindE (rem s) (\<lambda>(r, s). bindE (remove_n rem n s) (\<lambda>(rs, s). Inr (r # rs, s)))"

locale keyed_list =
  fixes emp :: 's
    and ins :: "int \<Rightarrow> 'a option \<Rightarrow> 's \<Rightarrow> 's result"
    and app :: "'a option \<Rightarrow> 's \<Rightarrow> 's result"
    and rem :: "'s \<Rightarrow> (('a option \<times> int option) \<times> 's) result"
    and wf :: "'s \<Rightarrow> bool"
    and seq :: "'s \<Rightarrow> (int \<times> 'a option) list"
  assumes emp: "wf emp" "seq emp = []"
    and ins: "wf s \<Longrightarrow> \<exists>s'. ins k x s = Inr s' \<and> wf s' \<and> seq s' = seq_sorted_insert k x (seq s)"
    and app: "wf s \<Longrightarrow> \<exists>s'. app x s = Inr s' \<and> wf s' \<and> seq s' = seq s @ [(0, x)]"
    and rem_empty: "wf s \<Longrightarrow> seq s = [] \<Longrightarrow> rem s = Inr ((None, None), s)"
    and rem: "wf s \<Longrightarrow> seq s = (k, x) # xs \<Longrightarrow>
        \<exists>s'. rem s = Inr ((x, Some k), s') \<and> wf s' \<and> seq s' = xs"
begin

lemma insert_all_sorts:
  assumes "wf s" "sorted (map fst (seq s))"
  shows "\<exists>s'. insert_all ins xs s = Inr s' \<and> wf s' \<and> sorted (map fst (seq s')) \<and>
    (\<forall>j. filter (\<lambda>e. fst e = j) (seq s') =
         filter (\<lambda>e. fst e = j) (seq s) @ filter (\<lambda>e. fst e = j) xs) \<and>
    mset (seq s') = mset (seq s) + mset xs"
  using assms
proof (induction xs arbitrary: s)
  case (Cons e xs)
  obtain k x where e: "e = (k, x)" by (cases e)
  from ins [OF Cons.prems(1), of k x] obtain s1 where
    s1: "ins k x s = Inr s1" "wf s1" "seq s1 = seq_sorted_insert k x (seq s)" by blast
  have "sorted (map fst (seq s1))" using Cons.prems(2) by (simp add: s1(3) sorted_seq_sorted_insert)
  from Cons.IH [OF s1(2) this] show ?case
    using Cons.prems(2) by (auto simp: e s1 filter_seq_sorted_insert mset_seq_sorted_insert)
qed auto

lemma remove_n_all:
  assumes "wf s"
  shows "\<exists>s'. remove_n rem (length (seq s)) s = Inr (map (\<lambda>(k, x). (x, Some k)) (seq s), s') \<and>
    wf s' \<and> seq s' = []"
  using assms
proof (induction "seq s" arbitrary: s)
  case (Cons e xs)
  obtain k x where e: "e = (k, x)" by (cases e)
  from rem [OF Cons.prems] Cons.hyps(2) e obtain s1 where
    s1: "rem s = Inr ((x, Some k), s1)" "wf s1" "seq s1 = xs" by metis
  from Cons.hyps(1) [OF s1(3) [symmetric] s1(2)] show ?case
    by (auto simp: Cons.hyps(2) [symmetric] e s1)
qed auto

text \<open>Items appended to an empty list come out in the order they went in.\<close>

lemma append_all_fifo:
  assumes "wf s"
  shows "\<exists>s'. foldE app xs s = Inr s' \<and> wf s' \<and> seq s' = seq s @ map (\<lambda>x. (0, x)) xs"
  using assms
proof (induction xs arbitrary: s)
  case (Cons x xs)
  from app [OF Cons.prems, of x] obtain s1 where
    s1: "app x s = Inr s1" "wf s1" "seq s1 = seq s @ [(0, x)]" by blast
  from Cons.IH [OF s1(2)] show ?case by (auto simp: s1)
qed auto

end

text \<open>The cells of a list, collected by following the links.\<close>

fun List_cells :: "nat \<Rightarrow> addr \<Rightarrow> 'a heap \<Rightarrow> addr list" where
  "List_cells 0 p h = []"
| "List_cells (Suc n) p h =
     (case cells h p of None \<Rightarrow> [] | Some e \<Rightarrow> p # List_cells n (lnext e) h)"

definition List_seq :: "List \<times> 'a heap \<Rightarrow> (int \<times> 'a option) list" where
  "List_seq s = vals (snd s) (List_cells (fresh (snd s)) (lfirst (fst s)) (snd s))"

definition List_wf :: "List \<times> 'a heap \<Rightarrow> bool" where
  "List_wf s \<longleftrightarrow> (\<exists>as. rep (snd s) (fst s) as)"

definition empty_heap :: "'a heap" where
  "empty_heap = \<lparr>cells = (\<lambda>_. None), fresh = 1\<rparr>"

lemma heap_ok_empty [simp]: "heap_ok empty_heap"
  by (simp add: heap_ok_def empty_heap_def)

lemma List_cells_lseg:
  "lseg h p as 0 \<Longrightarrow> cells h 0 = None \<Longrightarrow> length as < n \<Longrightarrow> List_cells n p h = as"
proof (induction as arbitrary: p n)
  case Nil
  then show ?case by (cases n) auto
next
  case (Cons a as)
  then show ?case by (cases n) (auto split: option.splits)
qed

lemma List_seq_rep: "rep h l as \<Longrightarrow> List_seq (l, h) = vals h as"
  using List_cells_lseg [of h "lfirst l" as "fresh h"] lseg_length_fresh [of h "lfirst l" as 0]
  by (simp add: List_seq_def rep_def heap_ok_def)

lemma List_wf_rep: "rep h l as \<Longrightarrow> List_wf (l, h)"
  by (auto simp: List_wf_def)

interpretation heap_list: keyed_list
  "(List_new, empty_heap)"
  "\<lambda>k x (l, h). List_SortedInsert x k l h"
  "\<lambda>x (l, h). List_Append x l h"
  "\<lambda>(l, h). List_SortedRemove l h"
  List_wf List_seq
proof (unfold_locales, goal_cases)
  case 1
  then show ?case by (rule List_wf_rep [OF rep_new [OF heap_ok_empty]])
next
  case 2
  then show ?case using List_seq_rep [OF rep_new [OF heap_ok_empty]] by simp
next
  case (3 s k x)
  obtain l h as where s: "s = (l, h)" "rep h l as" using 3 by (cases s) (auto simp: List_wf_def)
  from List_SortedInsert_refines [OF s(2), of x k] obtain l' h' as' where
    r: "List_SortedInsert x k l h = Inr (l', h')" "rep h' l' as'"
      "vals h' as' = seq_sorted_insert k x (vals h as)" by blast
  then show ?case
    using List_seq_rep [OF s(2)] List_seq_rep [OF r(2)] List_wf_rep [OF r(2)] by (simp add: s(1))
next
  case (4 s x)
  obtain l h as where s: "s = (l, h)" "rep h l as" using 4 by (cases s) (auto simp: List_wf_def)
  from List_Append_refines [OF s(2), of x] obtain l' h' as' where
    r: "List_Append x l h = Inr (l', h')" "rep h' l' as'" "vals h' as' = vals h as @ [(0, x)]" by blast
  then show ?case
    using List_seq_rep [OF s(2)] List_seq_rep [OF r(2)] List_wf_rep [OF r(2)] by (simp add: s(1))
next
  case (5 s)
  obtain l h as where s: "s = (l, h)" "rep h l as" using 5 by (cases s) (auto simp: List_wf_def)
  then have "as = []" using 5 List_seq_rep [OF s(2)] by (simp add: vals_def)
  then show ?case using s by (simp add: List_SortedRemove_empty)
next
  case (6 s k x xs)
  obtain l h as where s: "s = (l, h)" "rep h l as" using 6 by (cases s) (auto simp: List_wf_def)
  then obtain a as' where as: "as = a # as'" "cell_val h a = (k, x)" "vals h as' = xs"
    using 6 List_seq_rep [OF s(2)] by (auto simp: vals_def)
  from List_SortedRemove_refines [OF s(2) [unfolded as(1)]] show ?case
    by (auto simp: s(1) as dest: List_wf_rep List_seq_rep)
qed

section \<open>The destructor\<close>

lemma List_delete_loop_spec:
  assumes "rep h l as" "length as < n"
  shows "\<exists>l' h' as'. List_delete_loop n l h = Inr (l', h') \<and> rep h' l' as' \<and> set as' \<subseteq> set as \<and>
    vals h' as' = tl (dropWhile (\<lambda>e. snd e \<noteq> None) (vals h as)) \<and>
    (\<forall>a. a \<notin> set as' \<and> a \<in> set as \<longrightarrow> cells h' a = None) \<and>
    (\<forall>a. a \<notin> set as \<longrightarrow> cells h' a = cells h a)"
  using assms
proof (induction as arbitrary: h l n)
  case Nil
  then obtain m where "n = Suc m" by (cases n) auto
  then show ?case
    using Nil List_SortedRemove_empty [OF Nil(1)] by (auto simp: List_Remove_def)
next
  case (Cons a as)
  obtain m where m: "n = Suc m" "length as < m" using Cons.prems by (cases n) auto
  obtain l1 where l1: "List_Remove l h = Inr (snd (cell_val h a), l1, delete_cell a h)"
    "rep (delete_cell a h) l1 as" "vals (delete_cell a h) as = vals h as"
    using List_Remove_refines [OF Cons.prems(1)] by blast
  have da: "cells (delete_cell a h) b = (if b = a then None else cells h b)" for b
    by (simp add: delete_cell_def)
  have "a \<notin> set as" using Cons.prems(1) by (simp add: rep_def)
  show ?case
  proof (cases "snd (cell_val h a)")
    case None
    then show ?thesis
      using l1 m da by (auto intro!: exI [of _ as])
  next
    case (Some x)
    obtain l' h' as' where IH: "List_delete_loop m l1 (delete_cell a h) = Inr (l', h')"
      "rep h' l' as'" "set as' \<subseteq> set as"
      "vals h' as' = tl (dropWhile (\<lambda>e. snd e \<noteq> None) (vals h as))"
      "\<forall>b. b \<notin> set as' \<and> b \<in> set as \<longrightarrow> cells h' b = None"
      "\<forall>b. b \<notin> set as \<longrightarrow> cells h' b = cells (delete_cell a h) b"
      using Cons.IH [OF l1(2) m(2)] l1(3) by metis
    then show ?thesis
      using l1(1) m(1) Some da \<open>a \<notin> set as\<close> by (intro exI [of _ l'] exI [of _ h'] exI [of _ as']) auto
  qed
qed

section \<open>Properties\<close>

text \<open>
  C24: a \<^verbatim>\<open>List\<close> filled by \<^verbatim>\<open>SortedInsert\<close> and emptied by \<^verbatim>\<open>SortedRemove\<close> is a stable
  priority queue on every input: no operation faults, the removals return each
  inserted item with its key, in increasing order of keys, items of equal key in
  the order of their insertion, and leave the list empty.
\<close>

theorem List_sorted_queue:
  fixes xs :: "(int \<times> 'a option) list"
  shows "\<exists>s ys s'.
    insert_all (\<lambda>k x (l, h). List_SortedInsert x k l h) xs (List_new, empty_heap) = Inr s \<and>
    remove_n (\<lambda>(l, h). List_SortedRemove l h) (length xs) s = Inr (map (\<lambda>(k, x). (x, Some k)) ys, s') \<and>
    sorted (map fst ys) \<and> mset ys = mset xs \<and>
    (\<forall>j. filter (\<lambda>e. fst e = j) ys = filter (\<lambda>e. fst e = j) xs) \<and> List_IsEmpty (fst s')"
proof -
  obtain s where s: "insert_all (\<lambda>k x (l, h). List_SortedInsert x k l h) xs (List_new, empty_heap) = Inr s"
    "List_wf s" "sorted (map fst (List_seq s))" "mset (List_seq s) = mset xs"
    "\<forall>j. filter (\<lambda>e. fst e = j) (List_seq s) = filter (\<lambda>e. fst e = j) xs"
    using heap_list.insert_all_sorts [OF heap_list.emp(1), of xs] unfolding heap_list.emp(2) by auto
  have len: "length (List_seq s) = length xs" using s(4) by (rule mset_eq_length)
  obtain s' where s': "remove_n (\<lambda>(l, h). List_SortedRemove l h) (length xs) s =
      Inr (map (\<lambda>(k, x). (x, Some k)) (List_seq s), s')" "List_wf s'" "List_seq s' = []"
    using heap_list.remove_n_all [OF s(2)] len by auto
  obtain as where as: "rep (snd s') (fst s') as" using s'(2) by (auto simp: List_wf_def)
  then have "as = []" using s'(3) List_seq_rep [OF as] by (simp add: vals_def)
  then show ?thesis using s s' rep_empty_iff [OF as] by blast
qed

text \<open>
  \<^verbatim>\<open>Remove(void *item)\<close> on every branch: it dereferences the null head of an
  empty list, stops at the \<^verbatim>\<open>ASSERT\<close> when the item is absent, and otherwise unlinks
  exactly the first cell that holds the item, without touching any cell outside
  the list.
\<close>

theorem List_RemoveItem_correct:
  assumes "rep h l as"
  shows "if as = [] then List_RemoveItem it l h = Inl NullDeref
    else if it \<notin> snd ` set (vals h as) then List_RemoveItem it l h = Inl AssertFailed
    else \<exists>l' h' as'. List_RemoveItem it l h = Inr (l', h') \<and> rep h' l' as' \<and> set as' \<subseteq> set as \<and>
      vals h' as' = seq_remove_item it (vals h as) \<and> (\<forall>a. a \<notin> set as \<longrightarrow> cells h' a = cells h a)"
proof (cases as)
  case Nil
  then show ?thesis using List_RemoveItem_empty assms by simp
next
  case (Cons a rest)
  then show ?thesis
    using List_RemoveItem_missing [of h l a rest it] List_RemoveItem_refines [OF assms] assms by simp
qed

definition two_cells :: "nat heap" where
  "two_cells = \<lparr>cells = [2 \<mapsto> \<lparr>lnext = 3, key = 0, item = Some 7\<rparr>, 3 \<mapsto> \<lparr>lnext = 0, key = 0, item = Some 8\<rparr>],
     fresh = 4\<rparr>"

lemma rep_two_cells: "rep two_cells \<lparr>lfirst = 2, llast = 3, numInList = 2\<rparr> [2, 3]"
  by (auto simp: rep_def two_cells_def heap_ok_def)

lemma vals_two_cells: "vals two_cells [2, 3] = [(0, Some 7), (0, Some 8)]"
  by (simp add: two_cells_def cell_val_def)

theorem List_RemoveItem_correct_witness:
  "\<exists>l' h' as'. List_RemoveItem (Some 8) \<lparr>lfirst = 2, llast = 3, numInList = 2\<rparr> two_cells = Inr (l', h') \<and>
     rep h' l' as' \<and> vals h' as' = [(0, Some 7)]"
  using List_RemoveItem_correct [OF rep_two_cells, of "Some 8"] unfolding vals_two_cells by auto

text \<open>
  The destructor's loop ends and frees the elements up to and including the
  first null item; every later element is left allocated.  A list without null
  items is freed completely, and cells of other lists are untouched.
\<close>

theorem List_delete_frees:
  assumes "rep h l as"
  shows "\<exists>l' h' as'. List_delete l h = Inr (l', h') \<and> rep h' l' as' \<and>
    vals h' as' = tl (dropWhile (\<lambda>e. snd e \<noteq> None) (vals h as)) \<and>
    (\<forall>a. a \<notin> set as \<longrightarrow> cells h' a = cells h a) \<and>
    (None \<notin> snd ` set (vals h as) \<longrightarrow> (\<forall>a. a \<in> set as \<longrightarrow> cells h' a = None))"
proof -
  have "length as < fresh h" using assms lseg_length_fresh by (auto simp: rep_def)
  from List_delete_loop_spec [OF assms this] obtain l' h' as' where *:
    "List_delete l h = Inr (l', h')" "rep h' l' as'"
    "vals h' as' = tl (dropWhile (\<lambda>e. snd e \<noteq> None) (vals h as))"
    "\<forall>a. a \<notin> set as' \<and> a \<in> set as \<longrightarrow> cells h' a = None"
    "\<forall>a. a \<notin> set as \<longrightarrow> cells h' a = cells h a"
    unfolding List_delete_def by blast
  have "as' = []" if "None \<notin> snd ` set (vals h as)"
  proof -
    have "dropWhile (\<lambda>e. snd e \<noteq> None) (vals h as) = []" using that by (force simp: dropWhile_eq_Nil_conv)
    then have "vals h' as' = []" unfolding *(3) by (rule ssubst) simp
    then show ?thesis by (simp add: vals_def)
  qed
  then show ?thesis using * by (intro exI [of _ l'] exI [of _ h'] exI [of _ as']) auto
qed

theorem List_delete_frees_witness:
  "\<exists>l' h'. List_delete \<lparr>lfirst = 2, llast = 3, numInList = 2\<rparr> two_cells = Inr (l', h') \<and>
     cells h' 2 = None \<and> cells h' 3 = None"
  using List_delete_frees [OF rep_two_cells] unfolding vals_two_cells by auto

end
