(* ===== verification/Bit_Map.thy ===== *)
theory Bit_Map
  imports Nachos_Prelude
begin

text \<open>
  \<^verbatim>\<open>userprog/bitmap.h\<close>, \<^verbatim>\<open>userprog/bitmap.cc\<close>: the bitmap that allocates disk
  sectors and page frames.  The bits are kept in 32-bit words exactly as in the
  source; \<open>marked\<close> is the set of bits that are set, and the lemmas give each
  operation's effect on that set.  \<open>free_map\<close> is the contract the allocating
  clients use.
\<close>

section \<open>The class\<close>

record BitMap =
  numBits :: int
  numWords :: int
  bmap :: "32 word list"

definition BitsInWord :: int where
  "BitsInWord = 32"

text \<open>The mask \<^verbatim>\<open>1 << (which % BitsInWord)\<close> and the index \<^verbatim>\<open>which / BitsInWord\<close>.\<close>

definition bit_mask :: "int \<Rightarrow> 32 word" where
  "bit_mask which = push_bit (nat (which smod BitsInWord)) 1"

definition word_index :: "int \<Rightarrow> nat" where
  "word_index which = nat (which sdiv BitsInWord)"

definition BitMap_Mark :: "int \<Rightarrow> BitMap \<Rightarrow> BitMap result" where
  "BitMap_Mark which b =
     ASSERT (which \<ge> 0 \<and> which < numBits b)
     (requireE OutOfBounds (word_index which < length (bmap b))
       (Inr (b\<lparr>bmap := (bmap b)[word_index which := bmap b ! word_index which OR bit_mask which]\<rparr>)))"

definition BitMap_Clear :: "int \<Rightarrow> BitMap \<Rightarrow> BitMap result" where
  "BitMap_Clear which b =
     ASSERT (which \<ge> 0 \<and> which < numBits b)
     (requireE OutOfBounds (word_index which < length (bmap b))
       (Inr (b\<lparr>bmap := (bmap b)[word_index which := bmap b ! word_index which AND NOT (bit_mask which)]\<rparr>)))"

definition BitMap_Test :: "int \<Rightarrow> BitMap \<Rightarrow> bool result" where
  "BitMap_Test which b =
     ASSERT (which \<ge> 0 \<and> which < numBits b)
     (requireE OutOfBounds (word_index which < length (bmap b))
       (Inr (bmap b ! word_index which AND bit_mask which \<noteq> 0)))"

text \<open>
  The constructor leaves the words as \<^verbatim>\<open>new\<close> returned them (\<open>junk\<close>) and then
  clears the bits one by one.
\<close>

definition BitMap_new :: "(nat \<Rightarrow> 32 word) \<Rightarrow> int \<Rightarrow> BitMap result" where
  "BitMap_new junk nitems =
     (let words = divRoundUp nitems BitsInWord in
      foldE BitMap_Clear [0..nitems - 1]
        \<lparr>numBits = nitems, numWords = words,
         bmap = map junk [0..<nat words]\<rparr>)"

text \<open>\<^verbatim>\<open>Find\<close>: the loop over the bit numbers still to be tried.\<close>

fun BitMap_Find_loop :: "int list \<Rightarrow> BitMap \<Rightarrow> (int \<times> BitMap) result" where
  "BitMap_Find_loop [] b = Inr (-1, b)"
| "BitMap_Find_loop (i # is) b =
     bindE (BitMap_Test i b) (\<lambda>t.
       if \<not> t then bindE (BitMap_Mark i b) (\<lambda>b. Inr (i, b))
       else BitMap_Find_loop is b)"

definition BitMap_Find :: "BitMap \<Rightarrow> (int \<times> BitMap) result" where
  "BitMap_Find b = BitMap_Find_loop [0..numBits b - 1] b"

definition BitMap_NumClear :: "BitMap \<Rightarrow> int result" where
  "BitMap_NumClear b =
     foldE (\<lambda>i count. bindE (BitMap_Test i b) (\<lambda>t. Inr (if \<not> t then count + 1 else count)))
       [0..numBits b - 1] 0"

text \<open>\<^verbatim>\<open>Print\<close>: the numbers it prints.\<close>

definition BitMap_Print :: "BitMap \<Rightarrow> int list result" where
  "BitMap_Print b =
     foldE (\<lambda>i out. bindE (BitMap_Test i b) (\<lambda>t. Inr (if t then out @ [i] else out)))
       [0..numBits b - 1] []"

text \<open>
  The bytes \<^verbatim>\<open>WriteBack\<close> hands to the file and the words \<^verbatim>\<open>FetchFrom\<close> takes from it:
  the \<open>numWords\<close> words of the array, in memory order.  When the file returns
  fewer bytes than asked for, the rest of the array keeps its contents.
\<close>

definition BitMap_bytes :: "BitMap \<Rightarrow> byte list" where
  "BitMap_bytes b = concat (map word_bytes (bmap b))"

fun bytes_words :: "nat \<Rightarrow> byte list \<Rightarrow> 32 word list" where
  "bytes_words 0 bs = []"
| "bytes_words (Suc n) bs = bytes_word (take 4 bs) # bytes_words n (drop 4 bs)"

definition BitMap_load :: "byte list \<Rightarrow> BitMap \<Rightarrow> BitMap" where
  "BitMap_load bs b =
     b\<lparr>bmap := bytes_words (length (bmap b)) (bcopyTo 0 (take (4 * length (bmap b)) bs) (BitMap_bytes b))\<rparr>"

section \<open>Invariant and marked set\<close>

definition wf_map :: "BitMap \<Rightarrow> bool" where
  "wf_map b \<longleftrightarrow> 0 \<le> numBits b \<and> numWords b = divRoundUp (numBits b) BitsInWord \<and>
     length (bmap b) = nat (numWords b)"

definition bit_at :: "32 word list \<Rightarrow> int \<Rightarrow> bool" where
  "bit_at ws i \<longleftrightarrow> bit (ws ! nat (i div 32)) (nat (i mod 32))"

definition marked :: "BitMap \<Rightarrow> int set" where
  "marked b = {i. 0 \<le> i \<and> i < numBits b \<and> bit_at (bmap b) i}"

lemma word_index_nonneg: "0 \<le> i \<Longrightarrow> word_index i = nat (i div 32)"
  by (simp add: word_index_def BitsInWord_def sdiv_nonneg)

lemma bit_mask_nonneg: "0 \<le> i \<Longrightarrow> bit_mask i = push_bit (nat (i mod 32)) 1"
  by (simp add: bit_mask_def BitsInWord_def smod_nonneg)

lemma bit_mask_bit: "0 \<le> i \<Longrightarrow> bit (bit_mask i) n \<longleftrightarrow> n = nat (i mod 32)"
  by (auto simp: bit_mask_nonneg bit_simps nat_less_iff)

lemma and_bit_mask: "0 \<le> i \<Longrightarrow> w AND bit_mask i \<noteq> 0 \<longleftrightarrow> bit w (nat (i mod 32))"
proof -
  assume i: "0 \<le> i"
  have "w AND bit_mask i \<noteq> 0 \<longleftrightarrow> (\<exists>n. bit (w AND bit_mask i) n)"
    by (metis bit_0_eq bit_eq_iff bot_apply bot_bool_def)
  also have "\<dots> \<longleftrightarrow> bit w (nat (i mod 32))" using i by (auto simp: bit_and_iff bit_mask_bit)
  finally show ?thesis .
qed

lemma word_index_in_range:
  assumes "wf_map b" "0 \<le> i" "i < numBits b"
  shows "word_index i < length (bmap b)"
proof -
  have "numBits b \<le> divRoundUp (numBits b) 32 * 32"
    using assms by (intro divRoundUp_bounds) (auto simp: wf_map_def)
  then have "i div 32 < divRoundUp (numBits b) 32" using assms(3) by linarith
  then show ?thesis using assms by (simp add: wf_map_def word_index_nonneg BitsInWord_def nat_less_iff)
qed

lemma same_word_bit:
  "0 \<le> i \<Longrightarrow> 0 \<le> j \<Longrightarrow> nat (i div 32) = nat (j div 32) \<Longrightarrow> nat (i mod 32) = nat (j mod 32) \<Longrightarrow> i = j"
  for i j :: int
  by (metis div_mod_decomp_int eq_nat_nat_iff pos_imp_zdiv_nonneg_iff pos_mod_sign zero_less_numeral)

named_theorems bitmap_simps \<open>the effect of the bitmap operations on the marked set\<close>

lemma BitMap_Test_spec [bitmap_simps]:
  "wf_map b \<Longrightarrow> 0 \<le> i \<Longrightarrow> i < numBits b \<Longrightarrow> BitMap_Test i b = Inr (i \<in> marked b)"
  using word_index_in_range [of b i]
  by (simp add: BitMap_Test_def and_bit_mask marked_def bit_at_def word_index_nonneg)

lemma bit_at_update:
  assumes "0 \<le> i" "0 \<le> j" "nat (i div 32) < length ws"
    "\<And>n. n \<noteq> nat (i mod 32) \<Longrightarrow> bit w n = bit (ws ! nat (i div 32)) n"
  shows "bit_at (ws[nat (i div 32) := w]) j = (if j = i then bit w (nat (i mod 32)) else bit_at ws j)"
proof (cases "nat (j div 32) = nat (i div 32)")
  case True
  then show ?thesis
    using assms(1-3) assms(4) [of "nat (j mod 32)"] same_word_bit [of j i]
    by (cases "j = i") (auto simp: bit_at_def)
qed (use assms in \<open>auto simp: bit_at_def\<close>)

lemma BitMap_Mark_ok:
  assumes "wf_map b" "0 \<le> i" "i < numBits b"
  shows "\<exists>b'. BitMap_Mark i b = Inr b' \<and> wf_map b' \<and> numBits b' = numBits b \<and>
    marked b' = insert i (marked b)"
proof -
  let ?w = "bmap b ! nat (i div 32) OR bit_mask i"
  have idx: "nat (i div 32) < length (bmap b)"
    using word_index_in_range [OF assms] assms(2) by (simp add: word_index_nonneg)
  have "bit_at ((bmap b)[nat (i div 32) := ?w]) j = (if j = i then True else bit_at (bmap b) j)"
    if "0 \<le> j" for j
    using bit_at_update [OF assms(2) that idx, of ?w] assms(2) by (simp add: bit_or_iff bit_mask_bit)
  then show ?thesis
    using assms idx by (auto simp: BitMap_Mark_def word_index_nonneg wf_map_def marked_def split: if_splits)
qed

lemma BitMap_Clear_ok:
  assumes "wf_map b" "0 \<le> i" "i < numBits b"
  shows "\<exists>b'. BitMap_Clear i b = Inr b' \<and> wf_map b' \<and> numBits b' = numBits b \<and>
    marked b' = marked b - {i}"
proof -
  let ?w = "bmap b ! nat (i div 32) AND NOT (bit_mask i)"
  have idx: "nat (i div 32) < length (bmap b)"
    using word_index_in_range [OF assms] assms(2) by (simp add: word_index_nonneg)
  have mod: "nat (i mod 32) < 32" by (simp add: nat_less_iff)
  have "bit ?w n = bit (bmap b ! nat (i div 32)) n" if "n \<noteq> nat (i mod 32)" for n
    using that assms(2) bit_imp_le_length [of "bmap b ! nat (i div 32)" n]
    by (auto simp: bit_and_iff bit_not_iff bit_mask_bit)
  then have "bit_at ((bmap b)[nat (i div 32) := ?w]) j = (if j = i then False else bit_at (bmap b) j)"
    if "0 \<le> j" for j
    using bit_at_update [OF assms(2) that idx, of ?w] assms(2)
    by (simp add: bit_and_iff bit_not_iff bit_mask_bit)
  then show ?thesis
    using assms idx by (auto simp: BitMap_Clear_def word_index_nonneg wf_map_def marked_def split: if_splits)
qed

lemma BitMap_Mark_range: "\<not> (0 \<le> i \<and> i < numBits b) \<Longrightarrow> BitMap_Mark i b = Inl AssertFailed"
  by (auto simp: BitMap_Mark_def)

lemma BitMap_Clear_range: "\<not> (0 \<le> i \<and> i < numBits b) \<Longrightarrow> BitMap_Clear i b = Inl AssertFailed"
  by (auto simp: BitMap_Clear_def)

lemma BitMap_Test_range: "\<not> (0 \<le> i \<and> i < numBits b) \<Longrightarrow> BitMap_Test i b = Inl AssertFailed"
  by (auto simp: BitMap_Test_def)

lemma marked_subset: "marked b \<subseteq> {0..<numBits b}"
  by (auto simp: marked_def)

lemma finite_marked [simp]: "finite (marked b)"
  using finite_subset [OF marked_subset] by blast

section \<open>Loops\<close>

lemma BitMap_Find_loop_spec:
  assumes "wf_map b" "set is \<subseteq> {0..<numBits b}"
  shows "BitMap_Find_loop is b =
    (case dropWhile (\<lambda>i. i \<in> marked b) is of
       [] \<Rightarrow> Inr (-1, b) | i # _ \<Rightarrow> bindE (BitMap_Mark i b) (\<lambda>b. Inr (i, b)))"
  using assms(2)
proof (induction "is")
  case (Cons i "is")
  then show ?case using assms(1) by (simp add: bitmap_simps)
qed simp

lemma dropWhile_upto:
  assumes "dropWhile P [m..n] = i # is"
  shows "m \<le> i \<and> i \<le> n \<and> \<not> P i \<and> (\<forall>j. m \<le> j \<and> j < i \<longrightarrow> P j)"
  using assms
proof (induction "nat (n + 1 - m)" arbitrary: m)
  case 0
  then show ?case by simp
next
  case (Suc k)
  then have mn: "m \<le> n" by linarith
  show ?case
  proof (cases "P m")
    case True
    then have "dropWhile P [m + 1..n] = i # is" using Suc.prems mn by (simp add: upto_rec1)
    then have *: "m + 1 \<le> i \<and> i \<le> n \<and> \<not> P i \<and> (\<forall>j. m + 1 \<le> j \<and> j < i \<longrightarrow> P j)"
      using Suc.hyps(2) by (intro Suc.hyps(1)) simp_all
    then have "P j" if "m \<le> j" "j < i" for j
      using that True by (cases "j = m") auto
    then show ?thesis using * by auto
  qed (use Suc.prems mn in \<open>auto simp: upto_rec1\<close>)
qed

text \<open>\<^verbatim>\<open>Find\<close> returns the least clear bit and marks it, or -1 when there is none.\<close>

lemma BitMap_Find_full:
  "wf_map b \<Longrightarrow> marked b = {0..<numBits b} \<Longrightarrow> BitMap_Find b = Inr (-1, b)"
proof -
  assume b: "wf_map b" and full: "marked b = {0..<numBits b}"
  have "dropWhile (\<lambda>i. i \<in> marked b) [0..numBits b - 1] = []" by (simp add: full)
  then show ?thesis
    unfolding BitMap_Find_def using b by (subst BitMap_Find_loop_spec) (auto simp del: dropWhile_eq_Nil_conv)
qed

lemma BitMap_Find_free:
  assumes "wf_map b" "marked b \<noteq> {0..<numBits b}"
  shows "\<exists>i b'. BitMap_Find b = Inr (i, b') \<and> 0 \<le> i \<and> i < numBits b \<and> i \<notin> marked b \<and>
    (\<forall>j. 0 \<le> j \<and> j < i \<longrightarrow> j \<in> marked b) \<and>
    wf_map b' \<and> numBits b' = numBits b \<and> marked b' = insert i (marked b)"
proof -
  have "\<exists>j. 0 \<le> j \<and> j < numBits b \<and> j \<notin> marked b" using assms(2) marked_subset by fastforce
  then have "dropWhile (\<lambda>i. i \<in> marked b) [0..numBits b - 1] \<noteq> []" by auto
  then obtain i "is" where i: "dropWhile (\<lambda>i. i \<in> marked b) [0..numBits b - 1] = i # is"
    by (meson neq_Nil_conv)
  from dropWhile_upto [OF i] have bounds: "0 \<le> i" "i < numBits b" "i \<notin> marked b"
    "\<forall>j. 0 \<le> j \<and> j < i \<longrightarrow> j \<in> marked b" by auto
  obtain b' where b': "BitMap_Mark i b = Inr b'" "wf_map b'" "numBits b' = numBits b"
    "marked b' = insert i (marked b)"
    using BitMap_Mark_ok [OF assms(1) bounds(1,2)] by blast
  have "BitMap_Find b = Inr (i, b')"
    unfolding BitMap_Find_def using assms(1) i b'(1) by (subst BitMap_Find_loop_spec) auto
  then show ?thesis using bounds b' by blast
qed

lemma upto_atLeastLessThan [simp]: "{0..n - 1} = {0..<n}" for n :: int
  by auto

lemma NumClear_loop:
  "wf_map b \<Longrightarrow> set is \<subseteq> {0..<numBits b} \<Longrightarrow>
   foldE (\<lambda>i count. bindE (BitMap_Test i b) (\<lambda>t. Inr (if \<not> t then count + 1 else count))) is c =
   Inr (c + int (length (filter (\<lambda>i. i \<notin> marked b) is)))"
  by (induction "is" arbitrary: c) (auto simp: bitmap_simps)

lemma BitMap_NumClear_spec [bitmap_simps]:
  assumes "wf_map b"
  shows "BitMap_NumClear b = Inr (numBits b - int (card (marked b)))"
proof -
  have "length (filter (\<lambda>i. i \<notin> marked b) [0..numBits b - 1]) = card ({0..<numBits b} - marked b)"
    by (subst distinct_card [symmetric]) (auto intro!: arg_cong [where f = card])
  also have "\<dots> = card {0..<numBits b} - card (marked b)"
    by (rule card_Diff_subset) (auto simp: marked_subset)
  finally have len: "length (filter (\<lambda>i. i \<notin> marked b) [0..numBits b - 1]) = nat (numBits b) - card (marked b)"
    by simp
  have "card (marked b) \<le> nat (numBits b)" using card_mono [OF _ marked_subset [of b]] by simp
  then show ?thesis
    using assms len by (simp add: BitMap_NumClear_def NumClear_loop wf_map_def)
qed

lemma Print_loop:
  "wf_map b \<Longrightarrow> set is \<subseteq> {0..<numBits b} \<Longrightarrow>
   foldE (\<lambda>i out. bindE (BitMap_Test i b) (\<lambda>t. Inr (if t then out @ [i] else out))) is out =
   Inr (out @ filter (\<lambda>i. i \<in> marked b) is)"
  by (induction "is" arbitrary: out) (auto simp: bitmap_simps)

lemma BitMap_Print_spec: "wf_map b \<Longrightarrow> \<exists>out. BitMap_Print b = Inr out \<and> set out = marked b \<and> sorted out"
  using marked_subset [of b] sorted_wrt_upto [of 0 "numBits b - 1"]
  by (auto simp: BitMap_Print_def Print_loop intro!: sorted_wrt_filter)

lemma Clear_loop:
  assumes "wf_map b" "set is \<subseteq> {0..<numBits b}"
  shows "\<exists>b'. foldE BitMap_Clear is b = Inr b' \<and> wf_map b' \<and> numBits b' = numBits b \<and>
    marked b' = marked b - set is"
  using assms
proof (induction "is" arbitrary: b)
  case (Cons i "is")
  obtain b1 where "BitMap_Clear i b = Inr b1" "wf_map b1" "numBits b1 = numBits b" "marked b1 = marked b - {i}"
    using BitMap_Clear_ok [OF Cons.prems(1), of i] Cons.prems(2) by auto
  then show ?case using Cons.IH [of b1] Cons.prems(2) by auto
qed simp

lemma BitMap_new_spec:
  assumes "0 \<le> n"
  shows "\<exists>b. BitMap_new junk n = Inr b \<and> wf_map b \<and> numBits b = n \<and> marked b = {}"
proof -
  let ?b = "\<lparr>numBits = n, numWords = divRoundUp n BitsInWord, bmap = map junk [0..<nat (divRoundUp n BitsInWord)]\<rparr>"
  have "wf_map ?b" using assms by (simp add: wf_map_def)
  then obtain b where b: "foldE BitMap_Clear [0..n - 1] ?b = Inr b" "wf_map b" "numBits b = n"
    "marked b = marked ?b - {0..<n}"
    using Clear_loop [of ?b "[0..n - 1]"] by auto
  have "marked b = {}" unfolding b(4) using marked_subset [of ?b] by simp
  then show ?thesis using b by (simp add: BitMap_new_def Let_def)
qed

section \<open>The words in a file\<close>

lemma length_BitMap_bytes [simp]: "length (BitMap_bytes b) = 4 * length (bmap b)"
proof -
  have "length (concat (map word_bytes ws)) = 4 * length ws" for ws by (induction ws) auto
  then show ?thesis by (simp add: BitMap_bytes_def)
qed

lemma bytes_words_concat: "bytes_words (length ws) (concat (map word_bytes ws) @ rest) = ws"
  by (induction ws) auto

lemma length_bytes_words [simp]: "length (bytes_words n bs) = n"
  by (induction n arbitrary: bs) auto

lemma BitMap_load_bytes:
  assumes "length (bmap b) = length (bmap b')"
  shows "BitMap_load (BitMap_bytes b' @ rest) b = b\<lparr>bmap := bmap b'\<rparr>"
  using assms bytes_words_concat [of "bmap b'" "[]"]
  by (simp add: BitMap_load_def BitMap_bytes_def) (simp add: BitMap_bytes_def [symmetric])

lemma marked_load:
  assumes "wf_map b" "wf_map b'" "numBits b = numBits b'"
  shows "BitMap_load (BitMap_bytes b' @ rest) b = b'"
proof -
  have eq: "numWords b = numWords b'" "length (bmap b) = length (bmap b')"
    using assms by (simp_all add: wf_map_def)
  then show ?thesis using assms(3) BitMap_load_bytes [OF eq(2), of rest] by (cases b; cases b') simp
qed

lemma wf_map_load: "wf_map b \<Longrightarrow> wf_map (BitMap_load bs b)"
  by (simp add: wf_map_def BitMap_load_def)

section \<open>The contract of an allocator\<close>

text \<open>
  What \<^verbatim>\<open>FileHeader::Allocate\<close>, the file system and the page-fault handler rely on
  when they call \<^verbatim>\<open>Find\<close>, \<^verbatim>\<open>Clear\<close> and \<^verbatim>\<open>NumClear\<close>.
\<close>

fun find_n :: "('m \<Rightarrow> (int \<times> 'm) result) \<Rightarrow> nat \<Rightarrow> 'm \<Rightarrow> (int list \<times> 'm) result" where
  "find_n alloc 0 m = Inr ([], m)"
| "find_n alloc (Suc n) m =
     bindE (alloc m) (\<lambda>(i, m). bindE (find_n alloc n m) (\<lambda>(is, m). Inr (i # is, m)))"

locale free_map =
  fixes alloc :: "'m \<Rightarrow> (int \<times> 'm) result"
    and clear :: "int \<Rightarrow> 'm \<Rightarrow> 'm result"
    and numClear :: "'m \<Rightarrow> int result"
    and wf :: "'m \<Rightarrow> bool"
    and used :: "'m \<Rightarrow> int set"
    and capacity :: "'m \<Rightarrow> int"
  assumes used: "used m \<subseteq> {0..<capacity m}"
    and find_full: "wf m \<Longrightarrow> used m = {0..<capacity m} \<Longrightarrow> alloc m = Inr (-1, m)"
    and find_free: "wf m \<Longrightarrow> used m \<noteq> {0..<capacity m} \<Longrightarrow>
      \<exists>i m'. alloc m = Inr (i, m') \<and> 0 \<le> i \<and> i < capacity m \<and> i \<notin> used m \<and>
        wf m' \<and> capacity m' = capacity m \<and> used m' = insert i (used m)"
    and clear: "wf m \<Longrightarrow> 0 \<le> i \<Longrightarrow> i < capacity m \<Longrightarrow>
      \<exists>m'. clear i m = Inr m' \<and> wf m' \<and> capacity m' = capacity m \<and> used m' = used m - {i}"
    and numClear: "wf m \<Longrightarrow> numClear m = Inr (capacity m - int (card (used m)))"
begin

lemma finite_used [simp]: "finite (used m)"
  using finite_subset [OF used] by blast

lemma not_full: "int (card (used m)) < capacity m \<Longrightarrow> used m \<noteq> {0..<capacity m}"
  by (auto split: if_splits)

lemma find_n_fresh:
  assumes "wf m" "int n \<le> capacity m - int (card (used m))"
  shows "\<exists>is m'. find_n alloc n m = Inr (is, m') \<and> length is = n \<and> distinct is \<and>
    set is \<inter> used m = {} \<and> set is \<subseteq> {0..<capacity m} \<and>
    wf m' \<and> capacity m' = capacity m \<and> used m' = used m \<union> set is"
  using assms
proof (induction n arbitrary: m)
  case (Suc n)
  then obtain i m1 where i: "alloc m = Inr (i, m1)" "0 \<le> i" "i < capacity m" "i \<notin> used m"
    "wf m1" "capacity m1 = capacity m" "used m1 = insert i (used m)"
    using find_free [OF Suc.prems(1)] not_full [of m] by auto
  have "int n \<le> capacity m1 - int (card (used m1))" using Suc.prems(2) i by simp
  from Suc.IH [OF i(5) this] obtain "is" m' where
    "find_n alloc n m1 = Inr (is, m')" "length is = n" "distinct is" "set is \<inter> used m1 = {}"
    "set is \<subseteq> {0..<capacity m1}" "wf m'" "capacity m' = capacity m1" "used m' = used m1 \<union> set is"
    by blast
  with i show ?case by (intro exI [of _ "i # is"] exI [of _ m']) auto
qed simp

lemma clear_all:
  assumes "wf m" "set is \<subseteq> {0..<capacity m}"
  shows "\<exists>m'. foldE clear is m = Inr m' \<and> wf m' \<and> capacity m' = capacity m \<and> used m' = used m - set is"
  using assms
proof (induction "is" arbitrary: m)
  case (Cons i "is")
  then obtain m1 where "clear i m = Inr m1" "wf m1" "capacity m1 = capacity m" "used m1 = used m - {i}"
    using clear [OF Cons.prems(1), of i] by auto
  then show ?case using Cons.IH [of m1] Cons.prems(2) by auto
qed simp

lemma find_clear_restores:
  assumes "wf m" "int n \<le> capacity m - int (card (used m))"
  shows "\<exists>is m1 m2. find_n alloc n m = Inr (is, m1) \<and> foldE clear is m1 = Inr m2 \<and> used m2 = used m"
proof -
  obtain "is" m1 where *: "find_n alloc n m = Inr (is, m1)" "set is \<inter> used m = {}"
    "set is \<subseteq> {0..<capacity m}" "wf m1" "capacity m1 = capacity m" "used m1 = used m \<union> set is"
    using find_n_fresh [OF assms] by blast
  from clear_all [OF *(4), of "is"] * show ?thesis by auto
qed

end

interpretation sector_map: free_map BitMap_Find BitMap_Clear BitMap_NumClear wf_map marked numBits
proof (unfold_locales, goal_cases)
  case 1
  then show ?case by (rule marked_subset)
next
  case 2
  then show ?case by (simp add: BitMap_Find_full)
next
  case 3
  then show ?case using BitMap_Find_free by blast
next
  case 4
  then show ?case using BitMap_Clear_ok by blast
next
  case 5
  then show ?case by (simp add: bitmap_simps)
qed

section \<open>Properties\<close>

text \<open>
  \<^verbatim>\<open>Find\<close> returns the least clear bit and marks exactly that bit; on a full map
  it returns -1 and changes nothing.
\<close>

theorem BitMap_Find_correct:
  assumes "wf_map b"
  shows "if marked b = {0..<numBits b} then BitMap_Find b = Inr (-1, b)
    else \<exists>i b'. BitMap_Find b = Inr (i, b') \<and> 0 \<le> i \<and> i < numBits b \<and> i \<notin> marked b \<and>
      (\<forall>j. 0 \<le> j \<and> j < i \<longrightarrow> j \<in> marked b) \<and> wf_map b' \<and> marked b' = insert i (marked b)"
  using BitMap_Find_full [OF assms] BitMap_Find_free [OF assms] by auto

definition three_bits :: BitMap where
  "three_bits = \<lparr>numBits = 3, numWords = 1, bmap = [5]\<rparr>"

lemma three_bits_wf: "wf_map three_bits"
  by (simp add: wf_map_def three_bits_def divRoundUp_nonneg BitsInWord_def)

lemma three_bits_marked: "marked three_bits = {0, 2}"
proof -
  have "{i::int. 0 \<le> i \<and> i < 3} = {0, 1, 2}" by auto
  then have "marked three_bits = {i \<in> {0, 1, 2}. bit_at [5] i}" by (auto simp: marked_def three_bits_def)
  also have "\<dots> = {0, 2}" by (auto simp: bit_at_def)
  finally show ?thesis .
qed

theorem BitMap_Find_correct_witness:
  "\<exists>i b'. BitMap_Find three_bits = Inr (i, b') \<and> i \<notin> {0, 2} \<and> marked b' = insert i {0, 2}"
proof -
  have "marked three_bits \<noteq> {0..<numBits three_bits}"
    unfolding three_bits_marked by (auto simp: three_bits_def set_eq_iff intro!: exI [of _ 1])
  then show ?thesis using BitMap_Find_correct [OF three_bits_wf] by (auto simp: three_bits_marked)
qed

text \<open>
  Whenever \<^verbatim>\<open>NumClear\<close> says that at least \<open>n\<close> bits are clear, \<open>n\<close> calls of
  \<^verbatim>\<open>Find\<close> return \<open>n\<close> different bits that were clear, and clearing those bits again
  restores the set of marked bits.
\<close>

theorem BitMap_allocate_release:
  assumes "wf_map b" "BitMap_NumClear b = Inr c" "int n \<le> c"
  shows "\<exists>is b1 b2. find_n BitMap_Find n b = Inr (is, b1) \<and> length is = n \<and> distinct is \<and>
    set is \<inter> marked b = {} \<and> marked b1 = marked b \<union> set is \<and>
    foldE BitMap_Clear is b1 = Inr b2 \<and> marked b2 = marked b"
proof -
  have n: "int n \<le> numBits b - int (card (marked b))" using assms by (simp add: bitmap_simps)
  show ?thesis
    using sector_map.find_n_fresh [OF assms(1) n] sector_map.find_clear_restores [OF assms(1) n] by auto
qed

theorem BitMap_allocate_release_witness:
  "\<exists>is b1 b2. find_n BitMap_Find 1 three_bits = Inr (is, b1) \<and> length is = 1 \<and>
     foldE BitMap_Clear is b1 = Inr b2 \<and> marked b2 = {0, 2}"
proof -
  have "BitMap_NumClear three_bits = Inr 1"
    by (simp add: bitmap_simps three_bits_wf three_bits_marked) (simp add: three_bits_def)
  then show ?thesis
    using BitMap_allocate_release [OF three_bits_wf, of 1 1] by (auto simp: three_bits_marked)
qed

text \<open>
  The bytes \<^verbatim>\<open>WriteBack\<close> writes, read by \<^verbatim>\<open>FetchFrom\<close> into any map of the same
  size, give back the same map, whatever follows them in the file.
\<close>

theorem BitMap_file_roundtrip:
  assumes "wf_map b" "wf_map b'" "numBits b = numBits b'"
  shows "BitMap_load (BitMap_bytes b' @ rest) b = b'"
  using marked_load [OF assms] .

theorem BitMap_file_roundtrip_witness:
  "BitMap_load (BitMap_bytes three_bits @ [1, 2]) (three_bits\<lparr>bmap := [0]\<rparr>) = three_bits"
  by (rule BitMap_file_roundtrip)
    (simp_all add: wf_map_def three_bits_def divRoundUp_nonneg BitsInWord_def)

end
