(* ===== verification/Unix_File.thy ===== *)
theory Unix_File
  imports Nachos_Prelude
begin

text \<open>
  Files of the host system as \<^verbatim>\<open>machine/sysdep.cc\<close> uses them, and the stub
  \<^verbatim>\<open>OpenFile\<close> of \<^verbatim>\<open>filesys/openfile.h\<close> (the \<^verbatim>\<open>FILESYS_STUB\<close> build) on top of them.

  A file is its bytes together with its size; the bytes are a function so that
  the 128 KB file behind the simulated disk needs no list of that length.  The
  system calls read, write and lseek are taken with their documented POSIX
  behaviour on a regular file: reading stops at the end of the file, writing
  past the end extends it, and the gap reads as zero bytes.
\<close>

record unix_file =
  fbytes :: "nat \<Rightarrow> byte"
  fsize :: nat

text \<open>\<^verbatim>\<open>Lseek(fd, offset, 0)\<close>: the new position; a negative offset is refused.\<close>

definition Lseek :: "int \<Rightarrow> nat result" where
  "Lseek offset = ASSERT (offset \<ge> 0) (Inr (nat offset))"

definition ReadPartial :: "nat \<Rightarrow> nat \<Rightarrow> unix_file \<Rightarrow> byte list" where
  "ReadPartial pos nBytes f = map (fbytes f) [pos..<min (pos + nBytes) (fsize f)]"

definition Read :: "nat \<Rightarrow> nat \<Rightarrow> unix_file \<Rightarrow> byte list result" where
  "Read pos nBytes f =
     (let buffer = ReadPartial pos nBytes f in ASSERT (length buffer = nBytes) (Inr buffer))"

definition WriteFile :: "nat \<Rightarrow> byte list \<Rightarrow> unix_file \<Rightarrow> unix_file" where
  "WriteFile pos buffer f =
     (if buffer = [] then f
      else \<lparr>fbytes = (\<lambda>a. if pos \<le> a \<and> a < pos + length buffer then buffer ! (a - pos)
                          else if a < fsize f then fbytes f a else 0),
            fsize = max (fsize f) (pos + length buffer)\<rparr>)"

section \<open>The stub OpenFile\<close>

record OpenFileStub =
  sfile :: unix_file
  scurrentOffset :: int

definition Stub_ReadAt :: "int \<Rightarrow> int \<Rightarrow> OpenFileStub \<Rightarrow> byte list result" where
  "Stub_ReadAt numBytes position f =
     bindE (Lseek position) (\<lambda>pos. Inr (ReadPartial pos (nat numBytes) (sfile f)))"

definition Stub_WriteAt :: "byte list \<Rightarrow> int \<Rightarrow> OpenFileStub \<Rightarrow> (int \<times> OpenFileStub) result" where
  "Stub_WriteAt from position f =
     bindE (Lseek position) (\<lambda>pos.
       Inr (int (length from), f\<lparr>sfile := WriteFile pos from (sfile f)\<rparr>))"

definition Stub_Read :: "int \<Rightarrow> OpenFileStub \<Rightarrow> (byte list \<times> OpenFileStub) result" where
  "Stub_Read numBytes f =
     bindE (Stub_ReadAt numBytes (scurrentOffset f) f) (\<lambda>into.
       Inr (into, f\<lparr>scurrentOffset := scurrentOffset f + int (length into)\<rparr>))"

definition Stub_Write :: "byte list \<Rightarrow> OpenFileStub \<Rightarrow> (int \<times> OpenFileStub) result" where
  "Stub_Write from f =
     bindE (Stub_WriteAt from (scurrentOffset f) f) (\<lambda>(numWritten, f).
       Inr (numWritten, f\<lparr>scurrentOffset := scurrentOffset f + numWritten\<rparr>))"

definition Stub_Length :: "OpenFileStub \<Rightarrow> int" where
  "Stub_Length f = int (fsize (sfile f))"

section \<open>Lemmas\<close>

named_theorems file_simps \<open>reading after writing on host files\<close>

lemma length_ReadPartial [simp]: "length (ReadPartial pos n f) = min (pos + n) (fsize f) - pos"
  by (simp add: ReadPartial_def)

lemma Read_ok: "pos + n \<le> fsize f \<Longrightarrow> Read pos n f = Inr (map (fbytes f) [pos..<pos + n])"
  by (simp add: Read_def ReadPartial_def)

lemma Lseek_nonneg [simp]: "0 \<le> p \<Longrightarrow> Lseek p = Inr (nat p)"
  by (simp add: Lseek_def)

lemma fsize_WriteFile [file_simps]:
  "pos + length d \<le> fsize f \<Longrightarrow> fsize (WriteFile pos d f) = fsize f"
  by (simp add: WriteFile_def)

lemma fbytes_WriteFile [file_simps]:
  "a < fsize f \<Longrightarrow> fbytes (WriteFile pos d f) a =
     (if pos \<le> a \<and> a < pos + length d then d ! (a - pos) else fbytes f a)"
  by (auto simp: WriteFile_def)

lemma ReadPartial_WriteFile_same [file_simps]:
  "ReadPartial pos (length d) (WriteFile pos d f) = d"
  by (cases "d = []") (auto simp: ReadPartial_def WriteFile_def min_def intro!: nth_equalityI)

lemma ReadPartial_WriteFile_other [file_simps]:
  assumes "pos + length d \<le> fsize f" "p + n \<le> pos \<or> pos + length d \<le> p"
  shows "ReadPartial p n (WriteFile pos d f) = ReadPartial p n f"
  using assms by (auto simp: ReadPartial_def file_simps)

lemma Read_WriteFile_other [file_simps]:
  assumes "pos + length d \<le> fsize f" "p + n \<le> pos \<or> pos + length d \<le> p"
  shows "Read p n (WriteFile pos d f) = Read p n f"
  using assms by (simp add: Read_def Let_def file_simps)

lemma Read_WriteFile_same [file_simps]:
  "n = length d \<Longrightarrow> Read pos n (WriteFile pos d f) = Inr d"
  by (simp add: Read_def Let_def file_simps)

section \<open>Properties\<close>

text \<open>
  Writing through the stub \<^verbatim>\<open>OpenFile\<close> and reading the same range back returns
  the data written, at every non-negative position, and every byte of the file
  outside the range is kept; a negative position is refused by \<^verbatim>\<open>Lseek\<close>.
\<close>

theorem Stub_write_read:
  shows "if position < 0 then Stub_WriteAt d position f = Inl AssertFailed
    else \<exists>f'. Stub_WriteAt d position f = Inr (int (length d), f') \<and>
      Stub_ReadAt (int (length d)) position f' = Inr d \<and>
      (\<forall>a. a < fsize (sfile f) \<and> (a < nat position \<or> nat position + length d \<le> a) \<longrightarrow>
           fbytes (sfile f') a = fbytes (sfile f) a)"
  by (simp add: Stub_WriteAt_def Stub_ReadAt_def Lseek_def file_simps)

theorem Stub_write_read_witness:
  "\<exists>f'. Stub_WriteAt [1, 2] 3 \<lparr>sfile = \<lparr>fbytes = (\<lambda>_. 0), fsize = 0\<rparr>, scurrentOffset = 0\<rparr> = Inr (2, f') \<and>
     Stub_ReadAt 2 3 f' = Inr [1, 2]"
  using Stub_write_read [of 3 "[1, 2]" "\<lparr>sfile = \<lparr>fbytes = (\<lambda>_. 0), fsize = 0\<rparr>, scurrentOffset = 0\<rparr>"]
  by auto

end
