(* ===== verification/Interrupts.thy ===== *)
theory Interrupts
  imports Linked_List
begin

text \<open>
  The interrupt simulation (\<^verbatim>\<open>machine/interrupt.cc\<close>, \<^verbatim>\<open>machine/stats.h\<close>).

  \<open>Interrupt\<close> is the state of the class with the statistics; components that own
  more kernel state extend the record.  \<^verbatim>\<open>pending\<close> is kept as the sequence of
  (key, item) pairs that \<^verbatim>\<open>threads/list.cc\<close> represents: \<open>seq_sorted_insert\<close> is what
  \<open>List_SortedInsert\<close> does to it and taking the head is \<open>List_SortedRemove\<close>, as
  shown in \<open>Linked_List\<close>.  The procedures that devices schedule are the
  constructors of \<open>handler\<close>; the argument \<open>call\<close> gives their effect on the state,
  \<open>dload\<close> the \<^verbatim>\<open>machine->DelayedLoad(0, 0)\<close> done before a handler runs, and \<open>yield\<close>
  the effect of \<^verbatim>\<open>currentThread->Yield()\<close>.
\<close>

section \<open>State\<close>

datatype IntStatus = IntOff | IntOn

datatype MachineStatus = IdleMode | SystemMode | UserMode

datatype IntType = TimerInt | DiskInt | ConsoleWriteInt | ConsoleReadInt
  | ElevatorInt | NetworkSendInt | NetworkRecvInt

datatype handler = TimerHandler | DiskDone | ConsoleReadPoll | ConsoleWriteDone
  | ElevatorHandler | NetworkReadPoll | NetworkSendDone

record PendingInterrupt =
  phandler :: handler
  parg :: int
  pwhen :: int
  ptype :: IntType

record Statistics =
  totalTicks :: int
  idleTicks :: int
  systemTicks :: int
  userTicks :: int
  numDiskReads :: int
  numDiskWrites :: int
  numConsoleCharsRead :: int
  numConsoleCharsWritten :: int
  numPageFaults :: int
  numPacketsSent :: int
  numPacketsRecvd :: int

record Interrupt =
  level :: IntStatus
  pending :: "(int \<times> PendingInterrupt) list"
  inHandler :: bool
  yieldOnReturn :: bool
  istatus :: MachineStatus
  stats :: Statistics

abbreviation (input) UserTick :: int where "UserTick \<equiv> 1"
abbreviation (input) SystemTick :: int where "SystemTick \<equiv> 10"
abbreviation (input) TimerTicks :: int where "TimerTicks \<equiv> 30"

definition Statistics_new :: Statistics where
  "Statistics_new = \<lparr>totalTicks = 0, idleTicks = 0, systemTicks = 0, userTicks = 0,
     numDiskReads = 0, numDiskWrites = 0, numConsoleCharsRead = 0, numConsoleCharsWritten = 0,
     numPageFaults = 0, numPacketsSent = 0, numPacketsRecvd = 0\<rparr>"

definition Interrupt_new :: Interrupt where
  "Interrupt_new = \<lparr>level = IntOff, pending = [], inHandler = False, yieldOnReturn = False,
     istatus = SystemMode, stats = Statistics_new\<rparr>"

section \<open>Operations\<close>

type_synonym 'z itrans = "'z Interrupt_scheme \<Rightarrow> 'z Interrupt_scheme result"

definition ChangeLevel :: "IntStatus \<Rightarrow> IntStatus \<Rightarrow> 'z Interrupt_scheme \<Rightarrow> 'z Interrupt_scheme" where
  "ChangeLevel old new s = s\<lparr>level := new\<rparr>"

definition PendingInterrupt_new :: "handler \<Rightarrow> int \<Rightarrow> int \<Rightarrow> IntType \<Rightarrow> PendingInterrupt" where
  "PendingInterrupt_new func param time kind =
     \<lparr>phandler = func, parg = param, pwhen = time, ptype = kind\<rparr>"

definition Schedule :: "handler \<Rightarrow> int \<Rightarrow> int \<Rightarrow> IntType \<Rightarrow> 'z itrans" where
  "Schedule h a fromNow ty s =
    (let due = totalTicks (stats s) + fromNow;
         toOccur = PendingInterrupt_new h a due ty
     in ASSERT (fromNow > 0) (Inr (s\<lparr>pending := seq_sorted_insert due toOccur (pending s)\<rparr>)))"

definition YieldOnReturn :: "'z itrans" where
  "YieldOnReturn s = ASSERT (inHandler s) (Inr (s\<lparr>yieldOnReturn := True\<rparr>))"

text \<open>The part of \<^verbatim>\<open>CheckIfDue\<close> that runs the handler of \<open>p\<close>.\<close>

definition fire :: "(handler \<Rightarrow> int \<Rightarrow> 'z itrans) \<Rightarrow> 'z itrans \<Rightarrow> PendingInterrupt \<Rightarrow> 'z itrans" where
  "fire call dload p s =
     bindE (dload s) (\<lambda>s'.
     bindE (call (phandler p) (parg p) (s'\<lparr>inHandler := True, istatus := SystemMode\<rparr>)) (\<lambda>s'.
       Inr (s'\<lparr>istatus := istatus s, inHandler := False\<rparr>)))"

definition CheckIfDue ::
  "(handler \<Rightarrow> int \<Rightarrow> 'z itrans) \<Rightarrow> 'z itrans \<Rightarrow> bool \<Rightarrow> 'z Interrupt_scheme \<Rightarrow>
     (bool \<times> 'z Interrupt_scheme) result" where
  "CheckIfDue call dload advanceClock s = ASSERT (level s = IntOff)
    (case pending s of
       [] \<Rightarrow> Inr (False, s)
     | (due, toOccur) # rest \<Rightarrow>
         let s = s\<lparr>pending := rest\<rparr>; putBack = (\<lambda>s. s\<lparr>pending := seq_sorted_insert due toOccur (pending s)\<rparr>) in
         if \<not> advanceClock \<and> due > totalTicks (stats s) then Inr (False, putBack s)
         else
           let s = (if due > totalTicks (stats s)
                    then s\<lparr>stats := (stats s)\<lparr>idleTicks := idleTicks (stats s) + (due - totalTicks (stats s)),
                                              totalTicks := due\<rparr>\<rparr>
                    else s)
           in if istatus s = IdleMode \<and> ptype toOccur = TimerInt \<and> pending s = []
              then Inr (False, putBack s)
              else bindE (fire call dload toOccur s) (\<lambda>s. Inr (True, s)))"

text \<open>
  The loop \<^verbatim>\<open>while (CheckIfDue(FALSE));\<close>.  Its fuel is one more than the number of
  entries that are due when the loop starts; \<open>FireDue_deliver\<close> shows that this
  is enough whenever handlers keep their contract.
\<close>

fun FireDue_loop :: "(handler \<Rightarrow> int \<Rightarrow> 'z itrans) \<Rightarrow> 'z itrans \<Rightarrow> nat \<Rightarrow> 'z itrans" where
  "FireDue_loop call dload 0 s = Inl Diverges"
| "FireDue_loop call dload (Suc n) s =
     bindE (CheckIfDue call dload False s) (\<lambda>(fired, s).
       if fired then FireDue_loop call dload n s else Inr s)"

definition due_now :: "'z Interrupt_scheme \<Rightarrow> (int \<times> PendingInterrupt) list" where
  "due_now s = takeWhile (\<lambda>e. fst e \<le> totalTicks (stats s)) (pending s)"

definition FireDue :: "(handler \<Rightarrow> int \<Rightarrow> 'z itrans) \<Rightarrow> 'z itrans \<Rightarrow> 'z itrans" where
  "FireDue call dload s = FireDue_loop call dload (Suc (length (due_now s))) s"

definition advance_tick :: "'z Interrupt_scheme \<Rightarrow> 'z Interrupt_scheme" where
  "advance_tick s =
    (if istatus s = SystemMode
     then s\<lparr>stats := (stats s)\<lparr>totalTicks := totalTicks (stats s) + SystemTick,
                              systemTicks := systemTicks (stats s) + SystemTick\<rparr>\<rparr>
     else s\<lparr>stats := (stats s)\<lparr>totalTicks := totalTicks (stats s) + UserTick,
                              userTicks := userTicks (stats s) + UserTick\<rparr>\<rparr>)"

text \<open>\<open>tick_body\<close> is \<^verbatim>\<open>OneTick\<close> up to the test of \<^verbatim>\<open>yieldOnReturn\<close>.\<close>

definition tick_body :: "(handler \<Rightarrow> int \<Rightarrow> 'z itrans) \<Rightarrow> 'z itrans \<Rightarrow> 'z itrans" where
  "tick_body call dload s =
    (let s = ChangeLevel IntOn IntOff (advance_tick s) in
     bindE (FireDue call dload s) (\<lambda>s. Inr (ChangeLevel IntOff IntOn s)))"

definition OneTick :: "(handler \<Rightarrow> int \<Rightarrow> 'z itrans) \<Rightarrow> 'z itrans \<Rightarrow> 'z itrans \<Rightarrow> 'z itrans" where
  "OneTick call dload yield s =
    (let old = istatus s in
     bindE (tick_body call dload s) (\<lambda>s.
       if yieldOnReturn s
       then bindE (yield (s\<lparr>yieldOnReturn := False, istatus := SystemMode\<rparr>)) (\<lambda>s.
              Inr (s\<lparr>istatus := old\<rparr>))
       else Inr s))"

definition SetLevel ::
  "(handler \<Rightarrow> int \<Rightarrow> 'z itrans) \<Rightarrow> 'z itrans \<Rightarrow> 'z itrans \<Rightarrow> IntStatus \<Rightarrow> 'z Interrupt_scheme \<Rightarrow>
     (IntStatus \<times> 'z Interrupt_scheme) result" where
  "SetLevel call dload yield new s =
    (let old = level s in
     ASSERT (new = IntOff \<or> \<not> inHandler s)
       (let s = ChangeLevel old new s in
        if new = IntOn \<and> old = IntOff
        then bindE (OneTick call dload yield s) (\<lambda>s. Inr (old, s))
        else Inr (old, s)))"

definition Enable :: "(handler \<Rightarrow> int \<Rightarrow> 'z itrans) \<Rightarrow> 'z itrans \<Rightarrow> 'z itrans \<Rightarrow> 'z itrans" where
  "Enable call dload yield s = bindE (SetLevel call dload yield IntOn s) (\<lambda>(_, s). Inr s)"

text \<open>\<^verbatim>\<open>Halt\<close> prints the statistics and exits.\<close>

definition Halt :: "'z itrans" where
  "Halt s = Inl Halted"

definition Idle :: "(handler \<Rightarrow> int \<Rightarrow> 'z itrans) \<Rightarrow> 'z itrans \<Rightarrow> 'z itrans" where
  "Idle call dload s =
    (let s = s\<lparr>istatus := IdleMode\<rparr> in
     bindE (CheckIfDue call dload True s) (\<lambda>(fired, s).
       if fired
       then bindE (FireDue call dload s) (\<lambda>s.
              Inr (s\<lparr>yieldOnReturn := False, istatus := SystemMode\<rparr>))
       else Halt s))"

definition TurnOffInterrupt :: "'z Interrupt_scheme \<Rightarrow> 'z Interrupt_scheme" where
  "TurnOffInterrupt s = ChangeLevel IntOn IntOff s"

definition TurnOnInterrupt :: "'z Interrupt_scheme \<Rightarrow> 'z Interrupt_scheme" where
  "TurnOnInterrupt s = ChangeLevel IntOff IntOn s"

text \<open>The timer device (\<^verbatim>\<open>machine/timer.cc\<close>); \<open>r\<close> is the value \<^verbatim>\<open>Random()\<close> returns.\<close>

definition TimeOfNextInterrupt :: "bool \<Rightarrow> int \<Rightarrow> int" where
  "TimeOfNextInterrupt randomize r = (if randomize then 1 + r smod (TimerTicks * 2) else TimerTicks)"

definition Timer_new :: "bool \<Rightarrow> int \<Rightarrow> 'z itrans" where
  "Timer_new randomize r s = Schedule TimerHandler 0 (TimeOfNextInterrupt randomize r) TimerInt s"

definition TimerExpired :: "bool \<Rightarrow> int \<Rightarrow> 'z itrans \<Rightarrow> 'z itrans" where
  "TimerExpired randomize r callback s =
     bindE (Schedule TimerHandler 0 (TimeOfNextInterrupt randomize r) TimerInt s) callback"

section \<open>Delivery of due interrupts\<close>

text \<open>
  The reference semantics of the loop: the handlers of the entries \<open>es\<close>, in
  order, each with its entry taken off the list.
\<close>

definition deliver :: "(handler \<Rightarrow> int \<Rightarrow> 'z itrans) \<Rightarrow> 'z itrans \<Rightarrow> (int \<times> PendingInterrupt) list \<Rightarrow> 'z itrans" where
  "deliver call dload es s =
     foldE (\<lambda>e s. fire call dload (snd e) (s\<lparr>pending := tl (pending s)\<rparr>)) es s"

definition insert_all :: "(int \<times> PendingInterrupt) list \<Rightarrow> (int \<times> PendingInterrupt) list \<Rightarrow>
    (int \<times> PendingInterrupt) list" where
  "insert_all new xs = fold (\<lambda>(w, p). seq_sorted_insert w p) new xs"

lemma takeWhile_seq_sorted_insert:
  "n < w \<Longrightarrow> takeWhile (\<lambda>e. fst e \<le> n) (seq_sorted_insert w p xs) = takeWhile (\<lambda>e. fst e \<le> n) xs"
  by (induction xs) auto

lemma takeWhile_insert_all:
  "\<forall>e \<in> set new. n < fst e \<Longrightarrow>
   takeWhile (\<lambda>e. fst e \<le> n) (insert_all new xs) = takeWhile (\<lambda>e. fst e \<le> n) xs"
  unfolding insert_all_def
  by (induction new arbitrary: xs) (auto simp: takeWhile_seq_sorted_insert)

text \<open>
  An entry that is not due is taken off the list and inserted again, which puts
  it behind the entries with the same time.
\<close>

definition requeue :: "'z Interrupt_scheme \<Rightarrow> 'z Interrupt_scheme" where
  "requeue s = (case pending s of [] \<Rightarrow> s | (w, p) # rest \<Rightarrow> s\<lparr>pending := seq_sorted_insert w p rest\<rparr>)"

lemma requeue_simps [simp]:
  "level (requeue s) = level s" "istatus (requeue s) = istatus s" "stats (requeue s) = stats s"
  "inHandler (requeue s) = inHandler s" "yieldOnReturn (requeue s) = yieldOnReturn s"
  by (auto simp: requeue_def split: list.splits)

lemma requeue_pending:
  "mset (pending (requeue s)) = mset (pending s)"
  "sorted (map fst (pending s)) \<Longrightarrow> sorted (map fst (pending (requeue s)))"
  "s\<lparr>pending := pending (requeue s)\<rparr> = requeue s"
  by (auto simp: requeue_def mset_seq_sorted_insert intro!: sorted_seq_sorted_insert split: list.splits)

text \<open>
  What \<^verbatim>\<open>Interrupt\<close> relies on from the device handlers: a handler returns, leaves
  interrupts off, the clock and the machine status alone, and schedules new
  interrupts only in the future (\<^verbatim>\<open>Schedule\<close> asserts it); it is called when its
  entry is due.  \<open>good\<close> is the invariant
  of the devices.
\<close>

locale device_handlers =
  fixes call :: "handler \<Rightarrow> int \<Rightarrow> 'z itrans" and dload :: "'z itrans"
    and good :: "'z Interrupt_scheme \<Rightarrow> bool"
  assumes good_pending: "good s \<Longrightarrow> mset xs = mset (pending s) \<Longrightarrow> sorted (map fst xs) \<Longrightarrow>
      good (s\<lparr>pending := xs\<rparr>)"
    and good_sorted: "good s \<Longrightarrow> sorted (map fst (pending s))"
    and good_level: "good (s\<lparr>level := l\<rparr>) = good s"
    and good_stats: "good (s\<lparr>stats := st\<rparr>) = good s"
    and good_istatus: "good (s\<lparr>istatus := m\<rparr>) = good s"
    and good_yield: "good (s\<lparr>yieldOnReturn := y\<rparr>) = good s"
    and fire_ok: "good s \<Longrightarrow> level s = IntOff \<Longrightarrow> pending s = (w, p) # rest \<Longrightarrow> w \<le> totalTicks (stats s) \<Longrightarrow>
      \<exists>s' new. fire call dload p (s\<lparr>pending := rest\<rparr>) = Inr s' \<and> good s' \<and> level s' = IntOff \<and>
        istatus s' = istatus s \<and> totalTicks (stats s') = totalTicks (stats s) \<and>
        pending s' = insert_all new rest \<and> (\<forall>e \<in> set new. totalTicks (stats s) < fst e)"
begin

lemma fire_due:
  assumes "good s" "level s = IntOff" "due_now s = e # es"
  obtains s' where "fire call dload (snd e) (s\<lparr>pending := tl (pending s)\<rparr>) = Inr s'" "good s'"
    "level s' = IntOff" "istatus s' = istatus s" "totalTicks (stats s') = totalTicks (stats s)"
    "due_now s' = es"
proof -
  obtain w p rest where p: "pending s = (w, p) # rest" "e = (w, p)"
    "es = takeWhile (\<lambda>e. fst e \<le> totalTicks (stats s)) rest" "w \<le> totalTicks (stats s)"
    using assms(3) by (cases "pending s"; cases e) (auto simp: due_now_def split: if_splits)
  from fire_ok [OF assms(1,2) p(1,4)] obtain s' new where s':
    "fire call dload p (s\<lparr>pending := rest\<rparr>) = Inr s'" "good s'" "level s' = IntOff"
    "istatus s' = istatus s" "totalTicks (stats s') = totalTicks (stats s)"
    "pending s' = insert_all new rest" "\<forall>e \<in> set new. totalTicks (stats s) < fst e" by blast
  then show thesis
    using that [of s'] by (simp add: p due_now_def takeWhile_insert_all)
qed

lemma CheckIfDue_due:
  assumes "level s = IntOff" "due_now s = e # es"
    "\<not> (istatus s = IdleMode \<and> ptype (snd e) = TimerInt \<and> length (pending s) = 1)"
  shows "CheckIfDue call dload False s =
    bindE (fire call dload (snd e) (s\<lparr>pending := tl (pending s)\<rparr>)) (\<lambda>s. Inr (True, s))"
  using assms by (cases "pending s"; cases e) (auto simp: CheckIfDue_def due_now_def Let_def split: if_splits)

lemma CheckIfDue_none:
  assumes "level s = IntOff" "due_now s = []"
  shows "CheckIfDue call dload False s = Inr (False, requeue s)"
  using assms by (cases "pending s") (auto simp: CheckIfDue_def due_now_def requeue_def Let_def split: if_splits)

lemma good_requeue: "good s \<Longrightarrow> good (requeue s)"
  using good_pending [of s "pending (requeue s)"] good_sorted [of s] requeue_pending [of s] by simp

text \<open>Outside the idle loop the loop delivers exactly the due entries, in order.\<close>

lemma FireDue_loop_deliver:
  assumes "good s" "level s = IntOff" "istatus s \<noteq> IdleMode" "length (due_now s) < n"
  shows "\<exists>s'. deliver call dload (due_now s) s = Inr s' \<and>
    FireDue_loop call dload n s = Inr (requeue s') \<and> good s' \<and> due_now s' = [] \<and> level s' = IntOff \<and>
    istatus s' = istatus s \<and> totalTicks (stats s') = totalTicks (stats s)"
  using assms
proof (induction n arbitrary: s)
  case (Suc n)
  show ?case
  proof (cases "due_now s")
    case Nil
    then show ?thesis using Suc.prems CheckIfDue_none [of s] by (simp add: deliver_def)
  next
    case (Cons e es)
    obtain t where t: "fire call dload (snd e) (s\<lparr>pending := tl (pending s)\<rparr>) = Inr t"
      "good t" "level t = IntOff" "istatus t = istatus s" "totalTicks (stats t) = totalTicks (stats s)"
      "due_now t = es" by (rule fire_due [OF Suc.prems(1,2) Cons])
    have "FireDue_loop call dload (Suc n) s = FireDue_loop call dload n t"
      using CheckIfDue_due [OF Suc.prems(2) Cons] Suc.prems(3) t(1) by simp
    moreover have "deliver call dload (due_now s) s = deliver call dload (due_now t) t"
      using t(1,6) by (simp add: Cons deliver_def)
    ultimately show ?thesis
      using Suc.IH [OF t(2,3)] Suc.prems(3,4) t(4-6) Cons by simp
  qed
qed simp

lemma FireDue_deliver:
  assumes "good s" "level s = IntOff" "istatus s \<noteq> IdleMode"
  shows "\<exists>s'. deliver call dload (due_now s) s = Inr s' \<and>
    FireDue call dload s = Inr (requeue s') \<and> good s' \<and> due_now s' = [] \<and> level s' = IntOff \<and>
    istatus s' = istatus s \<and> totalTicks (stats s') = totalTicks (stats s)"
  unfolding FireDue_def by (rule FireDue_loop_deliver [OF assms]) simp

text \<open>In every mode the loop returns; in the idle loop a lone timer entry is left.\<close>

lemma FireDue_loop_returns:
  assumes "good s" "level s = IntOff" "length (due_now s) < n"
  shows "\<exists>s'. FireDue_loop call dload n s = Inr s' \<and> good s' \<and> level s' = IntOff \<and>
    istatus s' = istatus s \<and> totalTicks (stats s') = totalTicks (stats s)"
  using assms
proof (induction n arbitrary: s)
  case (Suc n)
  show ?case
  proof (cases "due_now s")
    case Nil
    then show ?thesis using Suc.prems CheckIfDue_none [of s] by (simp add: good_requeue)
  next
    case (Cons e es)
    show ?thesis
    proof (cases "istatus s = IdleMode \<and> ptype (snd e) = TimerInt \<and> length (pending s) = 1")
      case True
      then have "CheckIfDue call dload False s = Inr (False, requeue s)"
        using Suc.prems Cons by (cases "pending s"; cases e)
          (auto simp: CheckIfDue_def due_now_def requeue_def Let_def split: if_splits)
      then show ?thesis using Suc.prems by (simp add: good_requeue)
    next
      case False
      obtain t where t: "fire call dload (snd e) (s\<lparr>pending := tl (pending s)\<rparr>) = Inr t"
        "good t" "level t = IntOff" "istatus t = istatus s" "totalTicks (stats t) = totalTicks (stats s)"
        "due_now t = es" by (rule fire_due [OF Suc.prems(1,2) Cons])
      have "FireDue_loop call dload (Suc n) s = FireDue_loop call dload n t"
        using CheckIfDue_due [OF Suc.prems(2) Cons False] t(1) by simp
      then show ?thesis using Suc.IH [OF t(2,3)] Suc.prems(3) t(4-6) Cons by simp
    qed
  qed
qed simp

lemma CheckIfDue_advance:
  assumes "level s = IntOff" "pending s = (w, p) # rest"
    "\<not> (istatus s = IdleMode \<and> ptype p = TimerInt \<and> rest = [])"
  obtains st where "totalTicks st = max (totalTicks (stats s)) w"
    "CheckIfDue call dload True s =
      bindE (fire call dload p (s\<lparr>pending := rest, stats := st\<rparr>)) (\<lambda>s. Inr (True, s))"
proof -
  define st where "st = (if w > totalTicks (stats s)
      then (stats s)\<lparr>idleTicks := idleTicks (stats s) + (w - totalTicks (stats s)), totalTicks := w\<rparr> else stats s)"
  have "CheckIfDue call dload True s =
      bindE (fire call dload p (s\<lparr>pending := rest, stats := st\<rparr>)) (\<lambda>s. Inr (True, s))"
    using assms by (cases s) (auto simp: CheckIfDue_def st_def Let_def)
  then show thesis by (intro that [of st]) (auto simp: st_def max_def)
qed

text \<open>
  The idle loop: it moves the clock to the first pending interrupt and fires it,
  or halts the machine when there is nothing to wait for.
\<close>

lemma Idle_fires:
  assumes "good s" "level s = IntOff" "pending s = (w, p) # rest" "\<not> (ptype p = TimerInt \<and> rest = [])"
  shows "\<exists>s'. Idle call dload s = Inr s' \<and> good s' \<and> level s' = IntOff \<and> istatus s' = SystemMode \<and>
    \<not> yieldOnReturn s' \<and> totalTicks (stats s') = max (totalTicks (stats s)) w"
proof -
  define t where "t = s\<lparr>istatus := IdleMode\<rparr>"
  have "level t = IntOff" "pending t = (w, p) # rest" "\<not> (istatus t = IdleMode \<and> ptype p = TimerInt \<and> rest = [])"
    using assms by (simp_all add: t_def)
  then obtain st where st: "totalTicks st = max (totalTicks (stats t)) w"
    "CheckIfDue call dload True t =
      bindE (fire call dload p (t\<lparr>pending := rest, stats := st\<rparr>)) (\<lambda>s. Inr (True, s))"
    by (rule CheckIfDue_advance)
  have g: "good (t\<lparr>stats := st\<rparr>)" "level (t\<lparr>stats := st\<rparr>) = IntOff" "pending (t\<lparr>stats := st\<rparr>) = (w, p) # rest"
    "w \<le> totalTicks (stats (t\<lparr>stats := st\<rparr>))"
    using assms st(1) by (simp_all add: t_def good_stats good_istatus)
  obtain u where u: "fire call dload p ((t\<lparr>stats := st\<rparr>)\<lparr>pending := rest\<rparr>) = Inr u" "good u" "level u = IntOff"
    "totalTicks (stats u) = totalTicks st"
    using fire_ok [OF g] by auto
  have c: "t\<lparr>stats := st, pending := rest\<rparr> = t\<lparr>pending := rest, stats := st\<rparr>" by (cases t) simp
  obtain v where v: "FireDue call dload u = Inr v" "good v" "level v = IntOff"
    "totalTicks (stats v) = totalTicks (stats u)"
    using FireDue_loop_returns [OF u(2,3), of "Suc (length (due_now u))"] by (auto simp: FireDue_def)
  have "Idle call dload s = Inr (v\<lparr>yieldOnReturn := False, istatus := SystemMode\<rparr>)"
    using st(2) u(1) v(1) by (simp add: Idle_def t_def [symmetric] c)
  then show ?thesis using v st(1) u(4) by (simp add: good_yield good_istatus t_def)
qed

text \<open>The same, when the first handler establishes the invariant.\<close>

lemma Idle_from:
  assumes "level s = IntOff" "pending s = (w, p) # rest" "\<not> (ptype p = TimerInt \<and> rest = [])"
    and first: "\<And>st. totalTicks st = max (totalTicks (stats s)) w \<Longrightarrow>
      \<exists>u. fire call dload p (s\<lparr>istatus := IdleMode, stats := st, pending := rest\<rparr>) = Inr u \<and> good u \<and> level u = IntOff"
  shows "\<exists>s'. Idle call dload s = Inr s' \<and> good s' \<and> level s' = IntOff \<and> istatus s' = SystemMode \<and> \<not> yieldOnReturn s'"
proof -
  define t where "t = s\<lparr>istatus := IdleMode\<rparr>"
  have "level t = IntOff" "pending t = (w, p) # rest" "\<not> (istatus t = IdleMode \<and> ptype p = TimerInt \<and> rest = [])"
    using assms by (simp_all add: t_def)
  then obtain st where st: "totalTicks st = max (totalTicks (stats t)) w"
    "CheckIfDue call dload True t =
      bindE (fire call dload p (t\<lparr>pending := rest, stats := st\<rparr>)) (\<lambda>s. Inr (True, s))"
    by (rule CheckIfDue_advance)
  have "totalTicks st = max (totalTicks (stats s)) w" using st(1) by (simp add: t_def)
  from first [OF this] obtain u where u: "fire call dload p (t\<lparr>stats := st, pending := rest\<rparr>) = Inr u" "good u" "level u = IntOff"
    unfolding t_def by auto
  have c: "t\<lparr>stats := st, pending := rest\<rparr> = t\<lparr>pending := rest, stats := st\<rparr>" by (cases t) simp
  obtain v where v: "FireDue call dload u = Inr v" "good v" "level v = IntOff"
    using FireDue_loop_returns [OF u(2,3), of "Suc (length (due_now u))"] by (auto simp: FireDue_def)
  have "Idle call dload s = Inr (v\<lparr>yieldOnReturn := False, istatus := SystemMode\<rparr>)"
    using st(2) u(1) v(1) by (simp add: Idle_def t_def [symmetric] c)
  then show ?thesis using v by (simp add: good_yield good_istatus)
qed

lemma Idle_halts:
  assumes "level s = IntOff" "pending s = [] \<or> (\<exists>w p. pending s = [(w, p)] \<and> ptype p = TimerInt)"
  shows "Idle call dload s = Inl Halted"
  using assms by (auto simp: Idle_def CheckIfDue_def Halt_def Let_def split: if_splits)

lemma tick_body_deliver:
  assumes "good s" "istatus s \<noteq> IdleMode"
  defines "t \<equiv> (advance_tick s)\<lparr>level := IntOff\<rparr>"
  shows "\<exists>u. deliver call dload (due_now t) t = Inr u \<and> good u \<and> due_now u = [] \<and> istatus u = istatus s \<and>
    totalTicks (stats u) = totalTicks (stats s) + (if istatus s = SystemMode then SystemTick else UserTick) \<and>
    tick_body call dload s = Inr ((requeue u)\<lparr>level := IntOn\<rparr>)"
proof -
  have t: "good t" "level t = IntOff" "istatus t = istatus s"
    "totalTicks (stats t) = totalTicks (stats s) + (if istatus s = SystemMode then SystemTick else UserTick)"
    using assms(1,2) by (auto simp: t_def advance_tick_def good_level good_stats)
  obtain u where
    "deliver call dload (due_now t) t = Inr u" "FireDue call dload t = Inr (requeue u)" "good u"
    "due_now u = []" "istatus u = istatus t" "totalTicks (stats u) = totalTicks (stats t)"
    using FireDue_deliver [OF t(1,2)] t(3) assms(2) by auto
  then show ?thesis
    using t(3,4) by (intro exI [of _ u]) (simp add: tick_body_def ChangeLevel_def t_def [symmetric])
qed

lemma tick_body_good: "good s \<Longrightarrow> \<exists>s'. tick_body call dload s = Inr s' \<and> good s' \<and> level s' = IntOn"
proof -
  assume "good s"
  then have "good ((advance_tick s)\<lparr>level := IntOff\<rparr>)" (is "good ?t")
    by (auto simp: advance_tick_def good_level good_stats)
  from FireDue_loop_returns [OF this, of "Suc (length (due_now ?t))"] obtain s' where
    "FireDue call dload ?t = Inr s'" "good s'" by (auto simp: FireDue_def)
  then show ?thesis by (simp add: tick_body_def ChangeLevel_def good_level)
qed

text \<open>After a tick nothing is overdue.\<close>

lemma tick_body_quiet:
  assumes "good s" "istatus s \<noteq> IdleMode"
  shows "\<exists>s'. tick_body call dload s = Inr s' \<and> good s' \<and> level s' = IntOn \<and> istatus s' = istatus s \<and>
    (\<forall>e \<in> set (pending s'). totalTicks (stats s') < fst e)"
proof -
  obtain u where u: "good u" "due_now u = []" "istatus u = istatus s" "tick_body call dload s = Inr ((requeue u)\<lparr>level := IntOn\<rparr>)"
    using tick_body_deliver [OF assms] by blast
  have "totalTicks (stats u) < fst e" if "e \<in> set (pending u)" for e
    using u(2) good_sorted [OF u(1)] that by (cases "pending u") (auto simp: due_now_def split: if_splits)
  moreover have "set (pending (requeue u)) = set (pending u)"
    by (rule mset_eq_setD [OF requeue_pending(1)])
  ultimately show ?thesis using u(1,3,4) good_requeue [OF u(1)] by (simp add: good_level)
qed

end

text \<open>Devices other than the timer never ask for a yield.\<close>

locale quiet_handlers = device_handlers call dload good
  for call :: "handler \<Rightarrow> int \<Rightarrow> 'z itrans" and dload good +
  assumes fire_quiet: "good s \<Longrightarrow> level s = IntOff \<Longrightarrow> pending s = (w, p) # rest \<Longrightarrow> w \<le> totalTicks (stats s) \<Longrightarrow>
      fire call dload p (s\<lparr>pending := rest\<rparr>) = Inr s' \<Longrightarrow> yieldOnReturn s' = yieldOnReturn s"
begin

lemma CheckIfDue_quiet:
  assumes "good s" "level s = IntOff" "CheckIfDue call dload False s = Inr (b, s')"
  shows "yieldOnReturn s' = yieldOnReturn s \<and> (b \<longrightarrow> good s' \<and> level s' = IntOff)"
proof (cases "due_now s")
  case Nil
  then show ?thesis using assms CheckIfDue_none [of s] by auto
next
  case (Cons e es)
  obtain w p rest where p: "pending s = (w, p) # rest" "w \<le> totalTicks (stats s)"
    using Cons by (cases "pending s"; cases e) (auto simp: due_now_def split: if_splits)
  obtain t new where t: "fire call dload p (s\<lparr>pending := rest\<rparr>) = Inr t" "good t" "level t = IntOff"
    using fire_ok [OF assms(1,2) p] by blast
  have "yieldOnReturn t = yieldOnReturn s" by (rule fire_quiet [OF assms(1,2) p t(1)])
  then show ?thesis using assms(2,3) p t by (auto simp: CheckIfDue_def Let_def split: if_splits)
qed

lemma FireDue_loop_quiet:
  "good s \<Longrightarrow> level s = IntOff \<Longrightarrow> FireDue_loop call dload n s = Inr s' \<Longrightarrow> yieldOnReturn s' = yieldOnReturn s"
proof (induction n arbitrary: s)
  case (Suc n)
  then obtain b t where t: "CheckIfDue call dload False s = Inr (b, t)" "(if b then FireDue_loop call dload n t else Inr t) = Inr s'"
    by (auto simp: result_simps)
  then show ?case using CheckIfDue_quiet [OF Suc.prems(1,2) t(1)] Suc.IH [of t] by (auto split: if_splits)
qed simp

lemma OneTick_quiet:
  assumes "good s" "istatus s = SystemMode" "\<not> yieldOnReturn s"
  shows "\<exists>s'. OneTick call dload yield s = Inr s' \<and> good s' \<and> level s' = IntOn \<and> istatus s' = SystemMode \<and>
    \<not> yieldOnReturn s' \<and> (\<forall>e \<in> set (pending s'). totalTicks (stats s') < fst e)"
proof -
  obtain s' where s': "tick_body call dload s = Inr s'" "good s'" "level s' = IntOn" "istatus s' = SystemMode"
    "\<forall>e \<in> set (pending s'). totalTicks (stats s') < fst e"
    using tick_body_quiet [OF assms(1)] assms(2) by auto
  have "good ((advance_tick s)\<lparr>level := IntOff\<rparr>)" using assms(1,2) by (simp add: advance_tick_def good_level good_stats)
  moreover obtain u where "FireDue call dload ((advance_tick s)\<lparr>level := IntOff\<rparr>) = Inr u" "s' = u\<lparr>level := IntOn\<rparr>"
    using s'(1) by (auto simp: tick_body_def ChangeLevel_def Let_def result_simps)
  ultimately have "yieldOnReturn s' = yieldOnReturn ((advance_tick s)\<lparr>level := IntOff\<rparr>)"
    using FireDue_loop_quiet [of "(advance_tick s)\<lparr>level := IntOff\<rparr>" _ u] unfolding FireDue_def by (simp del: FireDue_loop.simps)
  then have "\<not> yieldOnReturn s'" using assms(2,3) by (simp add: advance_tick_def)
  then show ?thesis using s' by (auto simp: OneTick_def)
qed

lemma SetLevel_on_quiet:
  assumes "good s" "istatus s = SystemMode" "\<not> yieldOnReturn s" "\<not> inHandler s" "level s = IntOff"
  shows "\<exists>s'. SetLevel call dload yield IntOn s = Inr (IntOff, s') \<and> good s' \<and> level s' = IntOn \<and> istatus s' = SystemMode \<and>
    \<not> yieldOnReturn s' \<and> (\<forall>e \<in> set (pending s'). totalTicks (stats s') < fst e)"
  using OneTick_quiet [of "s\<lparr>level := IntOn\<rparr>" yield] assms by (auto simp: SetLevel_def ChangeLevel_def good_level)

end

end
