(* ===== verification/Machine_Memory.thy ===== *)
theory Machine_Memory
  imports Interrupts Bit_Map Unix_File
begin

text \<open>
  \<^verbatim>\<open>machine/machine.cc\<close>, \<^verbatim>\<open>machine/translate.cc\<close> and \<^verbatim>\<open>userprog/exception.cc\<close>: the
  state of the simulated MIPS machine, address translation with the page table
  (or the TLB), memory access, and the page-fault handler \<^verbatim>\<open>Machine::LRU\<close>.

  The record \<open>Machine\<close> holds the members of class \<^verbatim>\<open>Machine\<close> and the globals the
  routines read or write: the frame bitmap, the id of the current thread, the
  clock and the machine status.  Memory is a function from physical addresses
  to bytes; registers are the array of 40 words.
\<close>

section \<open>State\<close>

datatype ExceptionType = NoException | SyscallException | PageFaultException | ReadOnlyException
  | BusErrorException | AddressErrorException | OverflowException | IllegalInstrException

record TranslationEntry =
  virtualPage :: "32 word"
  physicalPage :: "32 word"
  valid_bit :: bool
  readOnly :: bool
  use_bit :: bool
  dirty_bit :: bool
  pt_tid :: int

abbreviation (input) PageSize :: nat where "PageSize \<equiv> 128"
abbreviation (input) NumPhysPages :: nat where "NumPhysPages \<equiv> 32"
abbreviation (input) MemorySize :: nat where "MemorySize \<equiv> 4096"
abbreviation (input) TLBSize :: nat where "TLBSize \<equiv> 4"
abbreviation (input) StackReg :: nat where "StackReg \<equiv> 29"
abbreviation (input) RetAddrReg :: nat where "RetAddrReg \<equiv> 31"
abbreviation (input) HiReg :: nat where "HiReg \<equiv> 32"
abbreviation (input) LoReg :: nat where "LoReg \<equiv> 33"
abbreviation (input) PCReg :: nat where "PCReg \<equiv> 34"
abbreviation (input) NextPCReg :: nat where "NextPCReg \<equiv> 35"
abbreviation (input) PrevPCReg :: nat where "PrevPCReg \<equiv> 36"
abbreviation (input) LoadReg :: nat where "LoadReg \<equiv> 37"
abbreviation (input) LoadValueReg :: nat where "LoadValueReg \<equiv> 38"
abbreviation (input) BadVAddrReg :: nat where "BadVAddrReg \<equiv> 39"
abbreviation (input) NumTotalRegs :: nat where "NumTotalRegs \<equiv> 40"

record Machine =
  registers :: "nat \<Rightarrow> 32 word"
  mainMemory :: "nat \<Rightarrow> byte"
  tlb :: "TranslationEntry list option"
  pageTable :: "TranslationEntry list"
  lasttime :: "int list"
  pageLasttime :: "int list"
  tlbhit :: int
  pagehit :: int
  pagemiss :: int
  swap :: "unix_file option"
  memBitMap :: BitMap
  curTid :: int
  curTicks :: int
  mstatus :: MachineStatus

text \<open>
  The constructor, without \<^verbatim>\<open>USE_TLB\<close>.  It sets neither \<^verbatim>\<open>pageLasttime\<close> nor the
  member \<^verbatim>\<open>disk\<close> (the swap file): their contents are arguments here.  The bitmap
  and the thread id are globals it does not touch.
\<close>

definition empty_entry :: TranslationEntry where
  "empty_entry = \<lparr>virtualPage = -1, physicalPage = -1, valid_bit = False, readOnly = False,
     use_bit = False, dirty_bit = False, pt_tid = -1\<rparr>"

definition Machine_new :: "int list \<Rightarrow> unix_file option \<Rightarrow> BitMap \<Rightarrow> int \<Rightarrow> int \<Rightarrow> Machine" where
  "Machine_new pageLast disk bm thread ticks =
     \<lparr>registers = (\<lambda>_. 0), mainMemory = (\<lambda>_. 0), tlb = None,
      pageTable = replicate NumPhysPages empty_entry, lasttime = replicate TLBSize ticks,
      pageLasttime = pageLast, tlbhit = 0, pagehit = 0, pagemiss = 0, swap = disk,
      memBitMap = bm, curTid = thread, curTicks = ticks, mstatus = SystemMode\<rparr>"

section \<open>Registers\<close>

definition ReadRegister :: "int \<Rightarrow> Machine \<Rightarrow> 32 word result" where
  "ReadRegister num m = ASSERT (num \<ge> 0 \<and> num < int NumTotalRegs) (Inr (registers m (nat num)))"

definition setreg :: "nat \<Rightarrow> 32 word \<Rightarrow> Machine \<Rightarrow> Machine" where
  "setreg r v m = m\<lparr>registers := (registers m)(r := v)\<rparr>"

definition WriteRegister :: "int \<Rightarrow> 32 word \<Rightarrow> Machine \<Rightarrow> Machine result" where
  "WriteRegister num v m = ASSERT (num \<ge> 0 \<and> num < int NumTotalRegs) (Inr (setreg (nat num) v m))"

text \<open>The register number held in \<^verbatim>\<open>LoadReg\<close> indexes the array of 40 registers.\<close>

definition DelayedLoad :: "32 word \<Rightarrow> 32 word \<Rightarrow> Machine \<Rightarrow> Machine result" where
  "DelayedLoad nextReg nextValue m =
     (let target = unat (registers m LoadReg) in
      requireE OutOfBounds (target < NumTotalRegs)
        (let m = setreg target (registers m LoadValueReg) m;
             m = setreg LoadReg nextReg m;
             m = setreg LoadValueReg nextValue m
         in Inr (setreg 0 0 m)))"

section \<open>Address translation\<close>

text \<open>The index range of the loops over the page table.\<close>

definition pt_indices :: "nat list" where
  "pt_indices = [0..<NumPhysPages]"

text \<open>
  One iteration of the scan of the page table: a matching entry becomes the
  candidate, and the time of the reference is recorded at the entry's frame in
  the 32-element array \<^verbatim>\<open>pageLasttime\<close>.
\<close>

definition entry_matches :: "32 word \<Rightarrow> Machine \<Rightarrow> TranslationEntry \<Rightarrow> bool" where
  "entry_matches vpn m e \<longleftrightarrow> curTid m = pt_tid e \<and> valid_bit e \<and> virtualPage e = vpn"

definition Translate_scan ::
  "32 word \<Rightarrow> nat \<Rightarrow> nat option \<times> Machine \<Rightarrow> (nat option \<times> Machine) result" where
  "Translate_scan vpn i = (\<lambda>(entry, m).
     let e = pageTable m ! i in
     if entry_matches vpn m e
     then requireE OutOfBounds (unat (physicalPage e) < NumPhysPages)
       (Inr (Some i, m\<lparr>pagehit := pagehit m + 1,
          pageLasttime := (pageLasttime m)[unat (physicalPage e) := curTicks m]\<rparr>))
     else Inr (entry, m))"

text \<open>The checks after the entry has been found, on that entry.\<close>

definition Translate_entry ::
  "TranslationEntry \<Rightarrow> nat \<Rightarrow> nat \<Rightarrow> bool \<Rightarrow> ((ExceptionType \<times> nat) \<times> TranslationEntry) result" where
  "Translate_entry e offset sz writing =
     (if readOnly e \<and> writing then Inr ((ReadOnlyException, 0), e)
      else if unat (physicalPage e) \<ge> NumPhysPages then Inr ((BusErrorException, 0), e)
      else
        let e = e\<lparr>use_bit := True\<rparr>;
            e = (if writing then e\<lparr>dirty_bit := True\<rparr> else e);
            physAddr = unat (physicalPage e) * PageSize + offset
        in ASSERT (physAddr + sz \<le> MemorySize) (Inr ((NoException, physAddr), e)))"

definition Translate ::
  "32 word \<Rightarrow> nat \<Rightarrow> bool \<Rightarrow> Machine \<Rightarrow> ((ExceptionType \<times> nat) \<times> Machine) result" where
  "Translate virtAddr sz writing m =
     (if (sz = 4 \<and> virtAddr AND 3 \<noteq> 0) \<or> (sz = 2 \<and> virtAddr AND 1 \<noteq> 0)
      then Inr ((AddressErrorException, 0), m)
      else
        let vpn = virtAddr div 128; offset = unat (virtAddr mod 128) in
        case tlb m of
          None \<Rightarrow>
            bindE (foldE (Translate_scan vpn) pt_indices (None, m)) (\<lambda>(entry, m).
              case entry of
                None \<Rightarrow> Inr ((PageFaultException, 0), m\<lparr>pagemiss := pagemiss m + 1\<rparr>)
              | Some i \<Rightarrow>
                  bindE (Translate_entry (pageTable m ! i) offset sz writing) (\<lambda>(r, e).
                    Inr (r, m\<lparr>pageTable := (pageTable m)[i := e]\<rparr>)))
        | Some t \<Rightarrow>
            case find (\<lambda>i. valid_bit (t ! i) \<and> virtualPage (t ! i) = vpn) [0..<TLBSize] of
              None \<Rightarrow> Inr ((PageFaultException, 0), m)
            | Some i \<Rightarrow>
                let m = m\<lparr>lasttime := (lasttime m)[i := curTicks m], tlbhit := tlbhit m + 1\<rparr> in
                bindE (Translate_entry (t ! i) offset sz writing) (\<lambda>(r, e).
                  Inr (r, m\<lparr>tlb := Some (t[i := e])\<rparr>)))"

section \<open>Page faults\<close>

definition mem_page :: "nat \<Rightarrow> Machine \<Rightarrow> byte list" where
  "mem_page frame m = map (mainMemory m) [frame * PageSize..<frame * PageSize + 128]"

definition store_bytes :: "nat \<Rightarrow> byte list \<Rightarrow> Machine \<Rightarrow> Machine" where
  "store_bytes a bs m =
     m\<lparr>mainMemory := (\<lambda>x. if a \<le> x \<and> x < a + length bs then bs ! (x - a) else mainMemory m x)\<rparr>"

text \<open>The members \<^verbatim>\<open>disk->ReadAt\<close> and \<^verbatim>\<open>disk->WriteAt\<close>; an unset \<^verbatim>\<open>disk\<close> is a wild pointer.\<close>

definition swap_write :: "byte list \<Rightarrow> 32 word \<Rightarrow> Machine \<Rightarrow> Machine result" where
  "swap_write from position m =
     (case swap m of
        None \<Rightarrow> Inl WildPointer
      | Some f \<Rightarrow> bindE (Lseek (sint position)) (\<lambda>pos. Inr (m\<lparr>swap := Some (WriteFile pos from f)\<rparr>)))"

definition swap_read :: "nat \<Rightarrow> 32 word \<Rightarrow> Machine \<Rightarrow> Machine result" where
  "swap_read into position m =
     (case swap m of
        None \<Rightarrow> Inl WildPointer
      | Some f \<Rightarrow> bindE (Lseek (sint position)) (\<lambda>pos. Inr (store_bytes into (ReadPartial pos 128 f) m)))"

text \<open>The search for the least recently used frame, with the source's sentinel.\<close>

definition LRU_victim :: "Machine \<Rightarrow> nat" where
  "LRU_victim m =
     snd (fold (\<lambda>i (temp, temp_i). if pageLasttime m ! i < temp then (pageLasttime m ! i, i) else (temp, temp_i))
       pt_indices (2147483644, 0))"

definition LRU :: "Machine \<Rightarrow> Machine result" where
  "LRU m =
     (let vpn = registers m BadVAddrReg div 128 in
      requireE NullDeref (pageTable m \<noteq> [])
      (bindE
        (case find (\<lambda>i. \<not> use_bit (pageTable m ! i)) pt_indices of
           Some i \<Rightarrow>
             bindE (BitMap_Find (memBitMap m)) (\<lambda>(frame, bm).
               Inr (i, m\<lparr>memBitMap := bm,
                 pageTable := (pageTable m)[i := (pageTable m ! i)\<lparr>physicalPage := word_of_int frame,
                   pt_tid := curTid m, virtualPage := vpn, valid_bit := True\<rparr>]\<rparr>))
         | None \<Rightarrow>
             let i = LRU_victim m; e = pageTable m ! i in
             requireE OutOfBounds (unat (physicalPage e) < NumPhysPages)
             (bindE (swap_write (mem_page (unat (physicalPage e)) m) (virtualPage e * 128) m) (\<lambda>m.
               Inr (i, m\<lparr>pageTable := (pageTable m)[i := e\<lparr>pt_tid := curTid m, virtualPage := vpn,
                 valid_bit := True\<rparr>]\<rparr>))))
        (\<lambda>(i, m).
          requireE OutOfBounds (unat (physicalPage (pageTable m ! i)) < NumPhysPages)
            (swap_read (unat (physicalPage (pageTable m ! i)) * PageSize) (vpn * 128) m))))"

definition SC_Halt :: "32 word" where
  "SC_Halt = 0"

definition ExceptionHandler :: "ExceptionType \<Rightarrow> Machine \<Rightarrow> Machine result" where
  "ExceptionHandler which m =
     bindE (ReadRegister 2 m) (\<lambda>type.
       if which = SyscallException \<and> type = SC_Halt then Inl Halted
       else if which = PageFaultException then LRU m
       else Inl AssertFailed)"

definition RaiseException :: "ExceptionType \<Rightarrow> 32 word \<Rightarrow> Machine \<Rightarrow> Machine result" where
  "RaiseException which badVAddr m =
     bindE (DelayedLoad 0 0 (setreg BadVAddrReg badVAddr m)) (\<lambda>m.
     bindE (ExceptionHandler which (m\<lparr>mstatus := SystemMode\<rparr>)) (\<lambda>m.
       Inr (m\<lparr>mstatus := UserMode\<rparr>)))"

section \<open>Memory access\<close>

definition mem_half :: "nat \<Rightarrow> Machine \<Rightarrow> 32 word" where
  "mem_half a m = ucast (mainMemory m a) OR push_bit 8 (ucast (mainMemory m (a + 1)))"

definition mem_word :: "nat \<Rightarrow> Machine \<Rightarrow> 32 word" where
  "mem_word a m = bytes_word [mainMemory m a, mainMemory m (a + 1), mainMemory m (a + 2), mainMemory m (a + 3)]"

text \<open>
  \<^verbatim>\<open>ReadMem\<close> returns \<open>None\<close> for FALSE.  A byte is read as a signed \<^verbatim>\<open>char\<close>; on a
  little-endian host \<^verbatim>\<open>ShortToHost\<close> and \<^verbatim>\<open>WordToHost\<close> are the identity.
\<close>

definition ReadMem :: "32 word \<Rightarrow> nat \<Rightarrow> Machine \<Rightarrow> (32 word option \<times> Machine) result" where
  "ReadMem addr sz m =
     bindE (Translate addr sz False m) (\<lambda>((exc, physicalAddress), m).
       if exc \<noteq> NoException then bindE (RaiseException exc addr m) (\<lambda>m. Inr (None, m))
       else if sz = 1 then Inr (Some (scast (mainMemory m physicalAddress)), m)
       else if sz = 2 then Inr (Some (mem_half physicalAddress m), m)
       else if sz = 4 then Inr (Some (mem_word physicalAddress m), m)
       else Inl AssertFailed)"

definition WriteMem :: "32 word \<Rightarrow> nat \<Rightarrow> 32 word \<Rightarrow> Machine \<Rightarrow> (bool \<times> Machine) result" where
  "WriteMem addr sz v m =
     bindE (Translate addr sz True m) (\<lambda>((exc, physicalAddress), m).
       if exc \<noteq> NoException then bindE (RaiseException exc addr m) (\<lambda>m. Inr (False, m))
       else if sz = 1 then Inr (True, store_bytes physicalAddress [ucast v] m)
       else if sz = 2 then Inr (True, store_bytes physicalAddress [ucast v, ucast (drop_bit 8 v)] m)
       else if sz = 4 then Inr (True, store_bytes physicalAddress (word_bytes v) m)
       else Inl AssertFailed)"

section \<open>Invariant of the page table\<close>

text \<open>
  \<open>paging_ok\<close>: every valid entry owns a frame of its own, marked in the bitmap,
  and no other; no thread has two entries for one virtual page; the number of
  frames in use is the number of valid entries.
\<close>

definition paging_ok :: "Machine \<Rightarrow> bool" where
  "paging_ok m \<longleftrightarrow>
     tlb m = None \<and> length (pageTable m) = NumPhysPages \<and> length (pageLasttime m) = NumPhysPages \<and>
     wf_map (memBitMap m) \<and> numBits (memBitMap m) = int NumPhysPages \<and>
     (\<forall>i<NumPhysPages. valid_bit (pageTable m ! i) \<longrightarrow>
        unat (physicalPage (pageTable m ! i)) < NumPhysPages \<and>
        int (unat (physicalPage (pageTable m ! i))) \<in> marked (memBitMap m) \<and>
        0 \<le> sint (virtualPage (pageTable m ! i) * 128)) \<and>
     (\<forall>i<NumPhysPages. \<forall>j<NumPhysPages.
        valid_bit (pageTable m ! i) \<and> valid_bit (pageTable m ! j) \<and>
        (physicalPage (pageTable m ! i) = physicalPage (pageTable m ! j) \<or>
         pt_tid (pageTable m ! i) = pt_tid (pageTable m ! j) \<and>
         virtualPage (pageTable m ! i) = virtualPage (pageTable m ! j)) \<longrightarrow> i = j) \<and>
     (\<forall>i<NumPhysPages. \<not> readOnly (pageTable m ! i)) \<and>
     (\<forall>i<NumPhysPages. use_bit (pageTable m ! i) \<longrightarrow> valid_bit (pageTable m ! i)) \<and>
     card (marked (memBitMap m)) = card {i. i < NumPhysPages \<and> valid_bit (pageTable m ! i)}"

text \<open>Every page that has been brought in has been referenced since.\<close>

definition all_used :: "Machine \<Rightarrow> bool" where
  "all_used m \<longleftrightarrow> (\<forall>i<NumPhysPages. valid_bit (pageTable m ! i) \<longrightarrow> use_bit (pageTable m ! i))"

definition mapped :: "32 word \<Rightarrow> nat \<Rightarrow> Machine \<Rightarrow> bool" where
  "mapped va i m \<longleftrightarrow> i < NumPhysPages \<and> entry_matches (va div 128) m (pageTable m ! i)"

definition aligned :: "32 word \<Rightarrow> nat \<Rightarrow> bool" where
  "aligned va sz \<longleftrightarrow> sz = 1 \<or> sz = 2 \<and> va AND 1 = 0 \<or> sz = 4 \<and> va AND 3 = 0"

definition phys :: "32 word \<Rightarrow> nat \<Rightarrow> Machine \<Rightarrow> nat" where
  "phys va i m = unat (physicalPage (pageTable m ! i)) * PageSize + unat (va mod 128)"

lemma paging_okD:
  assumes "paging_ok m"
  shows "tlb m = None" "length (pageTable m) = 32" "length (pageLasttime m) = 32"
    "wf_map (memBitMap m)" "numBits (memBitMap m) = 32"
    and "\<And>i. i < 32 \<Longrightarrow> valid_bit (pageTable m ! i) \<Longrightarrow> unat (physicalPage (pageTable m ! i)) < 32"
    and "\<And>i. i < 32 \<Longrightarrow> valid_bit (pageTable m ! i) \<Longrightarrow>
      int (unat (physicalPage (pageTable m ! i))) \<in> marked (memBitMap m)"
    and "\<And>i j. i < 32 \<Longrightarrow> j < 32 \<Longrightarrow> valid_bit (pageTable m ! i) \<Longrightarrow> valid_bit (pageTable m ! j) \<Longrightarrow>
      physicalPage (pageTable m ! i) = physicalPage (pageTable m ! j) \<or>
      pt_tid (pageTable m ! i) = pt_tid (pageTable m ! j) \<and>
      virtualPage (pageTable m ! i) = virtualPage (pageTable m ! j) \<Longrightarrow> i = j"
    and "\<And>i. i < 32 \<Longrightarrow> \<not> readOnly (pageTable m ! i)"
    and "\<And>i. i < 32 \<Longrightarrow> use_bit (pageTable m ! i) \<Longrightarrow> valid_bit (pageTable m ! i)"
    and "card (marked (memBitMap m)) = card {i. i < 32 \<and> valid_bit (pageTable m ! i)}"
    and "\<And>i. i < 32 \<Longrightarrow> valid_bit (pageTable m ! i) \<Longrightarrow> 0 \<le> sint (virtualPage (pageTable m ! i) * 128)"
  using assms unfolding paging_ok_def by simp_all

lemma mapped_unique:
  assumes "paging_ok m" "mapped va i m" "mapped va j m"
  shows "i = j"
  using assms paging_okD(8) [OF assms(1), of i j] by (auto simp: mapped_def entry_matches_def)

section \<open>Translation\<close>

lemma unat_and_low: "unat (w AND 1) = unat w mod 2" "unat (w AND 3) = unat w mod 4" for w :: "32 word"
proof -
  have "w AND 1 = take_bit 1 w" "w AND 3 = take_bit 2 w" by (simp_all add: take_bit_eq_mask mask_eq_exp_minus_1)
  then show "unat (w AND 1) = unat w mod 2" "unat (w AND 3) = unat w mod 4"
    by (simp_all add: take_bit_eq_mod unat_mod)
qed

lemma unat_page_offset: "unat (va mod 128) = unat va mod 128" for va :: "32 word"
  by (simp add: unat_mod)

lemma even_offset: "x < 128 \<Longrightarrow> x mod 2 = 0 \<Longrightarrow> x + 2 \<le> 128" for x :: nat
  by presburger

lemma word_offset: "x < 128 \<Longrightarrow> x mod 4 = 0 \<Longrightarrow> x + 4 \<le> 128" for x :: nat
  by presburger

lemma aligned_in_page:
  assumes "aligned va sz"
  shows "unat (va mod 128) + sz \<le> 128"
proof -
  define x where "x = unat va mod 128"
  have x: "x < 128" "x mod 2 = unat va mod 2" "x mod 4 = unat va mod 4"
    by (simp_all add: x_def mod_mod_cancel)
  consider "sz = 1" | "sz = 2" "unat va mod 2 = 0" | "sz = 4" "unat va mod 4 = 0"
    using assms unat_and_low [of va] by (auto simp: aligned_def)
  then have "x + sz \<le> 128"
    using x even_offset [of x] word_offset [of x] by cases simp_all
  then show ?thesis by (simp add: unat_page_offset x_def)
qed

lemma set_pt_indices: "i \<in> set pt_indices \<longleftrightarrow> i < 32"
  unfolding pt_indices_def set_upt by simp

lemma distinct_pt_indices [simp]: "distinct pt_indices"
  unfolding pt_indices_def by (rule distinct_upt)

lemma Translate_scan_miss:
  assumes "\<And>i. i \<in> set is \<Longrightarrow> \<not> entry_matches vpn m (pageTable m ! i)"
  shows "foldE (Translate_scan vpn) is (e, m) = Inr (e, m)"
  using assms by (induction "is") (auto simp: Translate_scan_def)

lemma Translate_scan_hit:
  assumes "i \<in> set is" "distinct is" "entry_matches vpn m (pageTable m ! i)"
    "unat (physicalPage (pageTable m ! i)) < 32"
    "\<And>j. j \<in> set is \<Longrightarrow> entry_matches vpn m (pageTable m ! j) \<Longrightarrow> j = i"
  shows "foldE (Translate_scan vpn) is (e, m) =
    Inr (Some i, m\<lparr>pagehit := pagehit m + 1,
      pageLasttime := (pageLasttime m)[unat (physicalPage (pageTable m ! i)) := curTicks m]\<rparr>)"
proof -
  obtain xs ys where "is": "is = xs @ i # ys" using assms(1) by (meson split_list)
  then have notin: "i \<notin> set xs" "i \<notin> set ys" using assms(2) by auto
  let ?m = "m\<lparr>pagehit := pagehit m + 1,
      pageLasttime := (pageLasttime m)[unat (physicalPage (pageTable m ! i)) := curTicks m]\<rparr>"
  have "foldE (Translate_scan vpn) xs (e, m) = Inr (e, m)"
    using assms(5) notin "is" by (intro Translate_scan_miss) auto
  moreover have "foldE (Translate_scan vpn) ys (Some i, ?m) = Inr (Some i, ?m)"
    using assms(5) notin "is" by (intro Translate_scan_miss) (auto simp: entry_matches_def)
  ultimately show ?thesis
    using assms(3,4) by (simp add: "is" foldE_append Translate_scan_def)
qed

lemma Translate_unaligned:
  "sz \<in> {1, 2, 4} \<Longrightarrow> \<not> aligned va sz \<Longrightarrow> Translate va sz w m = Inr ((AddressErrorException, 0), m)"
  by (auto simp: Translate_def aligned_def)

lemma Translate_miss:
  assumes "paging_ok m" "aligned va sz" "\<And>i. \<not> mapped va i m"
  shows "Translate va sz w m = Inr ((PageFaultException, 0), m\<lparr>pagemiss := pagemiss m + 1\<rparr>)"
  using assms Translate_scan_miss [of pt_indices "va div 128" m None]
  by (auto simp: set_pt_indices Translate_def aligned_def mapped_def paging_okD(1))

definition hit_state :: "nat \<Rightarrow> bool \<Rightarrow> Machine \<Rightarrow> Machine" where
  "hit_state i w m = m\<lparr>pagehit := pagehit m + 1,
      pageLasttime := (pageLasttime m)[unat (physicalPage (pageTable m ! i)) := curTicks m],
      pageTable := (pageTable m)[i := (pageTable m ! i)\<lparr>use_bit := True,
        dirty_bit := (w \<or> dirty_bit (pageTable m ! i))\<rparr>]\<rparr>"

lemma Translate_hit:
  assumes ok: "paging_ok m" and al: "aligned va sz" and map: "mapped va i m"
  shows "Translate va sz w m = Inr ((NoException, phys va i m), hit_state i w m)"
proof -
  have i: "i < 32" "entry_matches (va div 128) m (pageTable m ! i)" "valid_bit (pageTable m ! i)"
    using map by (auto simp: mapped_def entry_matches_def)
  have frame: "unat (physicalPage (pageTable m ! i)) < 32" using paging_okD(6) [OF ok i(1,3)] .
  have bound: "phys va i m + sz \<le> 4096"
    using frame aligned_in_page [OF al] unfolding phys_def by linarith
  have uniq: "j = i" if "j \<in> set pt_indices" "entry_matches (va div 128) m (pageTable m ! j)" for j
    using mapped_unique [OF ok _ map, of j] that by (simp add: mapped_def set_pt_indices)
  have "foldE (Translate_scan (va div 128)) pt_indices (None, m) =
    Inr (Some i, m\<lparr>pagehit := pagehit m + 1,
      pageLasttime := (pageLasttime m)[unat (physicalPage (pageTable m ! i)) := curTicks m]\<rparr>)"
    using i(1) by (intro Translate_scan_hit [OF _ distinct_pt_indices i(2) frame uniq]) (simp_all add: set_pt_indices)
  moreover have "\<not> ((sz = 4 \<and> va AND 3 \<noteq> 0) \<or> (sz = 2 \<and> va AND 1 \<noteq> 0))"
    using al by (auto simp: aligned_def)
  ultimately show ?thesis
    using i(1) frame bound paging_okD(1) [OF ok] paging_okD(9) [OF ok i(1)]
    by (cases w) (simp_all add: Translate_def Translate_entry_def hit_state_def phys_def Let_def)
qed

lemma hit_state_fields [simp]:
  "physicalPage (pageTable (hit_state i w m) ! j) = physicalPage (pageTable m ! j)"
  "virtualPage (pageTable (hit_state i w m) ! j) = virtualPage (pageTable m ! j)"
  "valid_bit (pageTable (hit_state i w m) ! j) = valid_bit (pageTable m ! j)"
  "readOnly (pageTable (hit_state i w m) ! j) = readOnly (pageTable m ! j)"
  "pt_tid (pageTable (hit_state i w m) ! j) = pt_tid (pageTable m ! j)"
  "length (pageTable (hit_state i w m)) = length (pageTable m)"
  "length (pageLasttime (hit_state i w m)) = length (pageLasttime m)"
  "tlb (hit_state i w m) = tlb m" "memBitMap (hit_state i w m) = memBitMap m"
  "curTid (hit_state i w m) = curTid m" "mainMemory (hit_state i w m) = mainMemory m"
  "registers (hit_state i w m) = registers m" "swap (hit_state i w m) = swap m"
  by (simp_all add: hit_state_def
      nth_update_field [where f = "\<lambda>x. x\<lparr>use_bit := True, dirty_bit := (w \<or> dirty_bit x)\<rparr>"])

lemma hit_state_use:
  "i < length (pageTable m) \<Longrightarrow>
   use_bit (pageTable (hit_state i w m) ! j) \<longleftrightarrow> j = i \<or> use_bit (pageTable m ! j)"
  by (cases "i = j") (simp_all add: hit_state_def)

lemma paging_ok_hit:
  assumes "paging_ok m" "mapped va i m"
  shows "paging_ok (hit_state i w m)"
proof -
  have "i < length (pageTable m)" "valid_bit (pageTable m ! i)"
    using assms by (auto simp: mapped_def entry_matches_def paging_okD(2))
  then show ?thesis using assms(1) by (simp add: paging_ok_def hit_state_use)
qed

lemma all_used_hit: "all_used m \<Longrightarrow> i < length (pageTable m) \<Longrightarrow> all_used (hit_state i w m)"
  by (auto simp: all_used_def hit_state_use)

lemma mapped_hit [simp]: "mapped va j (hit_state i w m) = mapped va j m"
  by (simp add: mapped_def entry_matches_def)

lemma phys_hit [simp]: "phys va j (hit_state i w m) = phys va j m"
  by (simp add: phys_def)

text \<open>The store of bytes does not affect translation.\<close>

lemma store_bytes_fields [simp]:
  "pageTable (store_bytes a bs m) = pageTable m" "pageLasttime (store_bytes a bs m) = pageLasttime m"
  "tlb (store_bytes a bs m) = tlb m" "memBitMap (store_bytes a bs m) = memBitMap m"
  "curTid (store_bytes a bs m) = curTid m" "registers (store_bytes a bs m) = registers m"
  "swap (store_bytes a bs m) = swap m" "mstatus (store_bytes a bs m) = mstatus m"
  by (simp_all add: store_bytes_def)

lemma paging_ok_store [simp]: "paging_ok (store_bytes a bs m) = paging_ok m"
  by (simp add: paging_ok_def)

lemma mapped_store [simp]: "mapped va i (store_bytes a bs m) = mapped va i m"
  by (simp add: mapped_def entry_matches_def)

lemma phys_store [simp]: "phys va i (store_bytes a bs m) = phys va i m"
  by (simp add: phys_def)

section \<open>Reading and writing mapped memory\<close>

definition load_val :: "nat \<Rightarrow> nat \<Rightarrow> Machine \<Rightarrow> 32 word" where
  "load_val sz a m = (if sz = 1 then scast (mainMemory m a) else if sz = 2 then mem_half a m else mem_word a m)"

definition store_val :: "nat \<Rightarrow> 32 word \<Rightarrow> byte list" where
  "store_val sz v = take sz (word_bytes v)"

text \<open>What a store of \<open>sz\<close> bytes followed by a load of \<open>sz\<close> bytes keeps of a value.\<close>

definition trunc_val :: "nat \<Rightarrow> 32 word \<Rightarrow> 32 word" where
  "trunc_val sz v = (if sz = 1 then scast (ucast v :: byte) else if sz = 2 then v AND 0xFFFF else v)"

lemma aligned_sizes: "aligned va sz \<Longrightarrow> sz = 1 \<or> sz = 2 \<or> sz = 4"
  by (auto simp: aligned_def)

lemma length_store_val [simp]: "sz \<le> 4 \<Longrightarrow> length (store_val sz v) = sz"
  by (simp add: store_val_def)

lemma ReadMem_hit:
  assumes "paging_ok m" "aligned va sz" "mapped va i m"
  shows "ReadMem va sz m = Inr (Some (load_val sz (phys va i m) m), hit_state i False m)"
  using aligned_sizes [OF assms(2)] Translate_hit [OF assms]
  by (auto simp: ReadMem_def load_val_def mem_half_def mem_word_def)

lemma WriteMem_hit:
  assumes "paging_ok m" "aligned va sz" "mapped va i m"
  shows "WriteMem va sz v m = Inr (True, store_bytes (phys va i m) (store_val sz v) (hit_state i True m))"
  using aligned_sizes [OF assms(2)] Translate_hit [OF assms]
  by (auto simp: WriteMem_def store_val_def word_bytes_def numeral_eq_Suc)

lemma load_store_same:
  assumes "sz = 1 \<or> sz = 2 \<or> sz = 4"
  shows "load_val sz a (store_bytes a (store_val sz v) m) = trunc_val sz v"
proof -
  have half: "ucast (ucast v :: byte) OR push_bit 8 (ucast (ucast (drop_bit 8 v) :: byte)) = v AND 0xFFFF"
    (is "?l = ?r")
  proof (rule bit_word_eqI)
    fix n assume "n < LENGTH(32)"
    moreover have "(0xFFFF :: 32 word) = mask 16" by (simp add: mask_eq_exp_minus_1)
    then have "bit (0xFFFF :: 32 word) n \<longleftrightarrow> n < 16"
      by (simp only: bit_mask_iff) (auto simp: possible_bit_def)
    ultimately show "bit ?l n = bit ?r n"
      by (cases "n < 8"; cases "n < 16") (auto simp: bit_simps)
  qed
  have word: "bytes_word (word_bytes v) = v" by simp
  consider "sz = 1" | "sz = 2" | "sz = 4" using assms by blast
  then show ?thesis
  proof cases
    case 3
    then show ?thesis
      using word [unfolded word_bytes_def]
      by (simp add: load_val_def trunc_val_def store_val_def mem_word_def store_bytes_def)
        (simp add: word_bytes_def)
  qed (use half in \<open>auto simp: load_val_def trunc_val_def store_val_def mem_half_def store_bytes_def word_bytes_def\<close>)
qed

lemma load_val_fields [simp]:
  "load_val sz a (m\<lparr>curTid := t\<rparr>) = load_val sz a m"
  "load_val sz a (hit_state i w m) = load_val sz a m"
  by (simp_all add: load_val_def mem_half_def mem_word_def)

lemma load_store_other:
  assumes "sz = 1 \<or> sz = 2 \<or> sz = 4" "a + sz \<le> b \<or> b + length bs \<le> a"
  shows "load_val sz a (store_bytes b bs m) = load_val sz a m"
  using assms by (auto simp: load_val_def mem_half_def mem_word_def store_bytes_def)

text \<open>Addresses that map to different frames never overlap.\<close>

lemma phys_disjoint:
  assumes "paging_ok m" "i \<noteq> j" "i < 32" "j < 32" "valid_bit (pageTable m ! i)" "valid_bit (pageTable m ! j)"
    "aligned va sz" "aligned vb sz'"
  shows "phys va i m + sz \<le> phys vb j m \<or> phys vb j m + sz' \<le> phys va i m"
proof -
  have "physicalPage (pageTable m ! i) \<noteq> physicalPage (pageTable m ! j)"
    using paging_okD(8) [OF assms(1,3,4,5,6)] assms(2) by blast
  then have ne: "unat (physicalPage (pageTable m ! i)) \<noteq> unat (physicalPage (pageTable m ! j))"
    using unsigned_word_eqI by blast
  show ?thesis
    using aligned_in_page [OF assms(7)] aligned_in_page [OF assms(8)] ne unfolding phys_def by linarith
qed

section \<open>Page-fault handling\<close>

lemma LRU_victim_fold:
  fixes f :: "nat \<Rightarrow> int"
  assumes "r = fold (\<lambda>i (temp, temp_i). if f i < temp then (f i, i) else (temp, temp_i)) is acc"
    "set is \<subseteq> {..<n}" "snd acc < n"
  shows "snd r < n \<and> fst r \<le> fst acc \<and> (\<forall>i\<in>set is. fst r \<le> f i) \<and>
    (fst r = f (snd r) \<or> r = acc)"
  using assms
proof (induction "is" arbitrary: acc)
  case (Cons i "is")
  let ?acc = "if f i < fst acc then (f i, i) else acc"
  have "snd r < n \<and> fst r \<le> fst ?acc \<and> (\<forall>i\<in>set is. fst r \<le> f i) \<and> (fst r = f (snd r) \<or> r = ?acc)"
    using Cons.prems by (intro Cons.IH) (auto split: prod.splits)
  then show ?case by (auto split: if_splits)
qed simp

lemma LRU_victim_spec:
  "LRU_victim m < 32"
  "(\<exists>i<32. pageLasttime m ! i < 2147483644) \<Longrightarrow>
     \<forall>i<32. pageLasttime m ! LRU_victim m \<le> pageLasttime m ! i"
proof -
  let ?r = "fold (\<lambda>i (temp, temp_i). if pageLasttime m ! i < temp then (pageLasttime m ! i, i) else (temp, temp_i))
       pt_indices (2147483644, 0)"
  have sub: "set pt_indices \<subseteq> {..<32}" by (auto simp: set_pt_indices)
  have r: "snd ?r < 32" "\<forall>i\<in>set pt_indices. fst ?r \<le> pageLasttime m ! i"
    "fst ?r = pageLasttime m ! snd ?r \<or> ?r = (2147483644, 0)"
    using LRU_victim_fold [OF refl sub, of "(2147483644, 0)" "\<lambda>i. pageLasttime m ! i"] by simp_all
  show "LRU_victim m < 32" using r(1) by (simp add: LRU_victim_def)
  assume "\<exists>i<32. pageLasttime m ! i < 2147483644"
  then have "fst ?r = pageLasttime m ! snd ?r"
    using r(2,3) by (metis fst_conv leD set_pt_indices)
  then show "\<forall>i<32. pageLasttime m ! LRU_victim m \<le> pageLasttime m ! i"
    using r(2) by (simp add: LRU_victim_def set_pt_indices)
qed

lemma sint_page_base: "0 \<le> sint va \<Longrightarrow> 0 \<le> sint (va div 128 * 128)" for va :: "32 word"
proof -
  assume va: "0 \<le> sint va"
  have small: "sint w = uint w" if "uint w < 2 ^ 31" for w :: "32 word"
  proof -
    have "- (2 ^ 31) \<le> uint w" by (rule order_trans [of _ 0]) simp_all
    then show ?thesis using that signed_take_bit_int_eq_self [of 31 "uint w"] by (simp add: sint_uint)
  qed
  have "uint va < 2 ^ 31"
  proof (rule ccontr)
    assume "\<not> uint va < 2 ^ 31"
    then have "uint va div 2 ^ 31 = 1"
      using uint_lt2p [of va] by (intro int_div_pos_eq [where r = "uint va - 2 ^ 31"]) simp_all
    then have "bit (uint va) 31" by (simp add: bit_iff_odd)
    then have "sint va < 0" by (simp add: sint_uint signed_take_bit_negative_iff)
    then show False using va by simp
  qed
  moreover have le: "uint va div 128 * 128 \<le> uint va"
    using div_mult_mod_eq [of "uint va" 128] pos_mod_sign [of 128 "uint va"] by linarith
  moreover have "uint (va div 128 * 128) = uint va div 128 * 128"
  proof -
    have "0 \<le> uint va div 128 * 128" "uint va div 128 * 128 < 2 ^ 32"
      using le uint_lt2p [of va] by (simp_all add: pos_imp_zdiv_nonneg_iff)
    then show ?thesis
      using take_bit_int_eq_self [of "uint va div 128 * 128" 32] by (simp add: uint_word_arith_bintrs(3) uint_div)
  qed
  ultimately show ?thesis using small [of "va div 128 * 128"] by (simp add: pos_imp_zdiv_nonneg_iff)
qed

text \<open>Installing a new mapping in an entry keeps the invariant.\<close>

lemma paging_ok_install:
  assumes ok: "paging_ok m" and i: "i < 32"
    and e: "valid_bit e" "unat (physicalPage e) < 32" "\<not> readOnly e" "0 \<le> sint (virtualPage e * 128)"
      "int (unat (physicalPage e)) \<in> marked bm"
    and bm: "wf_map bm" "numBits bm = 32" "marked (memBitMap m) \<subseteq> marked bm"
      "card (marked bm) = (if valid_bit (pageTable m ! i) then card (marked (memBitMap m))
         else Suc (card (marked (memBitMap m))))"
    and new: "\<And>j. j < 32 \<Longrightarrow> j \<noteq> i \<Longrightarrow> valid_bit (pageTable m ! j) \<Longrightarrow>
        physicalPage (pageTable m ! j) \<noteq> physicalPage e \<and>
        \<not> (pt_tid (pageTable m ! j) = pt_tid e \<and> virtualPage (pageTable m ! j) = virtualPage e)"
  shows "paging_ok (m\<lparr>memBitMap := bm, pageTable := (pageTable m)[i := e]\<rparr>)"
proof -
  note d = paging_okD [OF ok]
  let ?V = "{j. j < 32 \<and> valid_bit (pageTable m ! j)}"
  have "{j. j < 32 \<and> valid_bit ((pageTable m)[i := e] ! j)} = insert i ?V"
    using e(1) i d(2) by (auto simp: nth_list_update)
  moreover have "card (insert i ?V) = card (marked bm)"
    using bm(4) d(11) i by (auto simp: card_insert_if)
  moreover have "\<forall>j<32. \<forall>k<32. valid_bit ((pageTable m)[i := e] ! j) \<and> valid_bit ((pageTable m)[i := e] ! k) \<and>
        (physicalPage ((pageTable m)[i := e] ! j) = physicalPage ((pageTable m)[i := e] ! k) \<or>
         pt_tid ((pageTable m)[i := e] ! j) = pt_tid ((pageTable m)[i := e] ! k) \<and>
         virtualPage ((pageTable m)[i := e] ! j) = virtualPage ((pageTable m)[i := e] ! k)) \<longrightarrow> j = k"
  proof (intro allI impI)
    fix j k assume "j < (32::nat)" "k < (32::nat)"
      and "valid_bit ((pageTable m)[i := e] ! j) \<and> valid_bit ((pageTable m)[i := e] ! k) \<and>
        (physicalPage ((pageTable m)[i := e] ! j) = physicalPage ((pageTable m)[i := e] ! k) \<or>
         pt_tid ((pageTable m)[i := e] ! j) = pt_tid ((pageTable m)[i := e] ! k) \<and>
         virtualPage ((pageTable m)[i := e] ! j) = virtualPage ((pageTable m)[i := e] ! k))"
    then show "j = k"
      using new [of j] new [of k] d(8) [of j k] d(2) i by (cases "j = i"; cases "k = i") auto
  qed
  moreover have "int (unat (physicalPage ((pageTable m)[i := e] ! j))) \<in> marked bm"
    "unat (physicalPage ((pageTable m)[i := e] ! j)) < 32" "0 \<le> sint (virtualPage ((pageTable m)[i := e] ! j) * 128)"
    if "j < 32" "valid_bit ((pageTable m)[i := e] ! j)" for j
    using that e bm(3) d(2) d(6,7,12) [of j] i by (auto simp: nth_list_update split: if_splits)
  moreover have "\<not> readOnly ((pageTable m)[i := e] ! j)" if "j < 32" for j
    using that e(3) d(2,9) i by (auto simp: nth_list_update)
  moreover have "valid_bit ((pageTable m)[i := e] ! j)" if "j < 32" "use_bit ((pageTable m)[i := e] ! j)" for j
    using that e(1) d(2,10) i by (auto simp: nth_list_update split: if_splits)
  ultimately show ?thesis using d(1-3) bm(1,2) by (simp add: paging_ok_def)
qed

lemma find_pt_Some:
  assumes "find P pt_indices = Some i"
  shows "i < 32" "P i"
  using assms set_pt_indices by (auto simp: find_Some_iff set_conv_nth)

lemma find_pt_None: "find P pt_indices = None \<Longrightarrow> i < 32 \<Longrightarrow> \<not> P i"
  using set_pt_indices by (auto simp: find_None_iff)

lemma paging_ok_swap [simp]: "paging_ok (m\<lparr>swap := f\<rparr>) = paging_ok m"
  by (simp add: paging_ok_def)

lemma free_frame:
  assumes ok: "paging_ok m" and i: "i < 32" "\<not> valid_bit (pageTable m ! i)"
  shows "\<exists>f bm. BitMap_Find (memBitMap m) = Inr (f, bm) \<and> 0 \<le> f \<and> f < 32 \<and> f \<notin> marked (memBitMap m) \<and>
    wf_map bm \<and> numBits bm = 32 \<and> marked bm = insert f (marked (memBitMap m))"
proof -
  have "{j. j < 32 \<and> valid_bit (pageTable m ! j)} \<subseteq> {..<32} - {i}" using i by auto
  then have "card {j. j < 32 \<and> valid_bit (pageTable m ! j)} \<le> card ({..<32} - {i})"
    by (intro card_mono) auto
  then have "card (marked (memBitMap m)) < 32" using i(1) paging_okD(11) [OF ok] by simp
  then have "marked (memBitMap m) \<noteq> {0..<numBits (memBitMap m)}"
    by (auto simp: paging_okD(5) [OF ok])
  from BitMap_Find_free [OF paging_okD(4) [OF ok] this] show ?thesis
    by (auto simp: paging_okD(5) [OF ok])
qed

lemma swap_read_fields:
  assumes "swap m = Some f" "0 \<le> sint pos"
  shows "swap_read a pos m = Inr (store_bytes a (ReadPartial (nat (sint pos)) 128 f) m)"
  using assms by (simp add: swap_read_def)

lemma swap_write_fields:
  assumes "swap m = Some f" "0 \<le> sint pos"
  shows "swap_write bs pos m = Inr (m\<lparr>swap := Some (WriteFile (nat (sint pos)) bs f)\<rparr>)"
  using assms by (simp add: swap_write_def)

lemma swap_commute: "m\<lparr>swap := x, pageTable := y\<rparr> = m\<lparr>pageTable := y, swap := x\<rparr>" for m :: Machine
  by (cases m) simp

lemma store_bytes_memory:
  "mainMemory m1 = mainMemory m \<Longrightarrow> mainMemory (store_bytes a bs m1) = mainMemory (store_bytes a bs m)"
  by (simp add: store_bytes_def cong: if_cong)

lemma pageTable_nonempty: "paging_ok m \<Longrightarrow> pageTable m \<noteq> []"
  using paging_okD(2) [of m] by auto

text \<open>The two branches of the handler: a free entry, or the eviction of a page.\<close>

lemma LRU_free_entry:
  assumes ok: "paging_ok m" and used: "all_used m" and sw: "swap m = Some f"
    and va: "registers m BadVAddrReg = va" "0 \<le> sint va" and miss: "\<And>i. \<not> mapped va i m"
    and free: "find (\<lambda>i. \<not> use_bit (pageTable m ! i)) pt_indices = Some i"
  shows "\<exists>m'. LRU m = Inr m' \<and> paging_ok m' \<and> mapped va i m' \<and> swap m' = Some f \<and>
    registers m' = registers m \<and> (\<forall>j<32. j \<noteq> i \<longrightarrow> pageTable m' ! j = pageTable m ! j) \<and>
    curTid m' = curTid m \<and> mainMemory m' = mainMemory (store_bytes (unat (physicalPage (pageTable m' ! i)) * 128)
      (ReadPartial (nat (sint (va div 128 * 128))) 128 f) m)"
proof -
  note d = paging_okD [OF ok]
  have i: "i < 32" "\<not> use_bit (pageTable m ! i)" using find_pt_Some [OF free] by auto
  then have inv: "\<not> valid_bit (pageTable m ! i)" using used by (auto simp: all_used_def)
  obtain fr bm where bm: "BitMap_Find (memBitMap m) = Inr (fr, bm)" "0 \<le> fr" "fr < 32"
    "fr \<notin> marked (memBitMap m)" "wf_map bm" "numBits bm = 32" "marked bm = insert fr (marked (memBitMap m))"
    using free_frame [OF ok i(1) inv] by blast
  define e where "e = (pageTable m ! i)\<lparr>physicalPage := word_of_int fr, pt_tid := curTid m,
     virtualPage := va div 128, valid_bit := True\<rparr>"
  define m1 where "m1 = m\<lparr>memBitMap := bm, pageTable := (pageTable m)[i := e]\<rparr>"
  have frame': "unat (word_of_int fr :: 32 word) = nat fr"
    using bm(2,3) by (simp add: unat_eq_nat_uint uint_word_of_int_eq take_bit_int_eq_self)
  then have frame: "unat (physicalPage e) = nat fr" by (simp add: e_def)
  have fr: "nat fr < 32" using bm(2,3) by simp
  have pos: "0 \<le> sint (va div 128 * 128)" by (rule sint_page_base [OF va(2)])
  have other: "physicalPage (pageTable m ! j) \<noteq> physicalPage e" if "j < 32" "valid_bit (pageTable m ! j)" for j
  proof
    assume eq: "physicalPage (pageTable m ! j) = physicalPage e"
    have "int (unat (physicalPage e)) \<in> marked (memBitMap m)" using d(7) [OF that] unfolding eq .
    then show False using bm(2,4) unfolding frame by simp
  qed
  have m1ok: "paging_ok m1"
    unfolding m1_def
  proof (rule paging_ok_install [OF ok i(1)])
    fix j assume j: "j < 32" "j \<noteq> i" "valid_bit (pageTable m ! j)"
    show "physicalPage (pageTable m ! j) \<noteq> physicalPage e \<and>
        \<not> (pt_tid (pageTable m ! j) = pt_tid e \<and> virtualPage (pageTable m ! j) = virtualPage e)"
      using miss [of j] j other by (auto simp: mapped_def entry_matches_def e_def)
  qed (use bm frame inv pos d(9) [OF i(1)] in \<open>auto simp: e_def\<close>)
  have "mapped va i m1" using i(1) d(2) by (simp add: mapped_def entry_matches_def m1_def e_def)
  moreover have "LRU m = Inr (store_bytes (nat fr * 128) (ReadPartial (nat (sint (va div 128 * 128))) 128 f) m1)"
    using free bm(1) fr va(1) i(1) d(2) frame' pageTable_nonempty [OF ok] swap_read_fields [OF _ pos, of m1 f] sw
    by (auto simp: LRU_def Let_def e_def [symmetric] m1_def)
  moreover have "physicalPage (pageTable m1 ! i) = physicalPage e" using i(1) d(2) by (simp add: m1_def)
  ultimately show ?thesis using m1ok sw frame store_bytes_memory [of m1 m] by (auto simp: m1_def)
qed

lemma LRU_evict:
  assumes ok: "paging_ok m" and sw: "swap m = Some f"
    and va: "registers m BadVAddrReg = va" "0 \<le> sint va" and miss: "\<And>i. \<not> mapped va i m"
    and full: "find (\<lambda>i. \<not> use_bit (pageTable m ! i)) pt_indices = None"
  defines "v \<equiv> LRU_victim m"
  shows "\<exists>m' f'. LRU m = Inr m' \<and> paging_ok m' \<and> mapped va v m' \<and> swap m' = Some f' \<and>
    registers m' = registers m \<and> use_bit (pageTable m' ! v) \<and>
    (\<forall>j<32. j \<noteq> v \<longrightarrow> pageTable m' ! j = pageTable m ! j) \<and> curTid m' = curTid m \<and>
    physicalPage (pageTable m' ! v) = physicalPage (pageTable m ! v) \<and>
    f' = WriteFile (nat (sint (virtualPage (pageTable m ! v) * 128))) (mem_page (unat (physicalPage (pageTable m ! v))) m) f \<and>
    mainMemory m' = mainMemory (store_bytes (unat (physicalPage (pageTable m ! v)) * 128)
      (ReadPartial (nat (sint (va div 128 * 128))) 128 f') m)"
proof -
  note d = paging_okD [OF ok]
  have v: "v < 32" unfolding v_def by (rule LRU_victim_spec)
  have use: "use_bit (pageTable m ! j)" if "j < 32" for j using find_pt_None [OF full that] by simp
  have val: "valid_bit (pageTable m ! v)" using d(10) [OF v use [OF v]] .
  define e where "e = (pageTable m ! v)\<lparr>pt_tid := curTid m, virtualPage := va div 128, valid_bit := True\<rparr>"
  let ?f = "WriteFile (nat (sint (virtualPage (pageTable m ! v) * 128)))
    (mem_page (unat (physicalPage (pageTable m ! v))) m) f"
  define m1 where "m1 = m\<lparr>memBitMap := memBitMap m, pageTable := (pageTable m)[v := e]\<rparr>"
  have pos: "0 \<le> sint (va div 128 * 128)" by (rule sint_page_base [OF va(2)])
  have m1ok: "paging_ok m1"
    unfolding m1_def
  proof (rule paging_ok_install [OF ok v])
    fix j assume j: "j < 32" "j \<noteq> v" "valid_bit (pageTable m ! j)"
    show "physicalPage (pageTable m ! j) \<noteq> physicalPage e \<and>
        \<not> (pt_tid (pageTable m ! j) = pt_tid e \<and> virtualPage (pageTable m ! j) = virtualPage e)"
      using miss [of j] j d(8) [OF j(1) v j(3) val] by (auto simp: mapped_def entry_matches_def e_def)
  qed (use d(4,5) d(6,7) [OF v val] d(9) [OF v] pos val in \<open>auto simp: e_def\<close>)
  have "LRU m = Inr (store_bytes (unat (physicalPage e) * 128)
      (ReadPartial (nat (sint (va div 128 * 128))) 128 ?f) (m1\<lparr>swap := Some ?f\<rparr>))"
    using pageTable_nonempty [OF ok] full va(1) v d(2) d(6) [OF v val] sw pos d(12) [OF v val]
    by (auto simp: LRU_def Let_def v_def [symmetric] swap_write_fields swap_read_fields e_def m1_def
        swap_commute)
  moreover have "mapped va v m1" using v d(2) by (simp add: mapped_def entry_matches_def m1_def e_def)
  ultimately show ?thesis
    using m1ok v d(2) use [OF v] store_bytes_memory [of "m1\<lparr>swap := Some ?f\<rparr>" m]
    by (auto simp: m1_def e_def mapped_def entry_matches_def)
qed

section \<open>Properties\<close>


definition machine0 :: Machine where
  "machine0 = Machine_new (replicate 32 0) (Some \<lparr>fbytes = (\<lambda>_. 7), fsize = 1024\<rparr>)
     \<lparr>numBits = 32, numWords = 1, bmap = [0]\<rparr> 1 100"

lemma marked_machine0: "marked \<lparr>numBits = 32, numWords = 1, bmap = [0]\<rparr> = {}"
proof -
  have "nat (i div 32) = 0" if "i < 32" for i :: int using that by simp
  then show ?thesis by (auto simp: marked_def bit_at_def)
qed

lemma paging_ok_machine0: "paging_ok machine0"
  by (simp add: paging_ok_def machine0_def Machine_new_def empty_entry_def wf_map_def divRoundUp_nonneg
      BitsInWord_def marked_machine0)

lemma all_used_machine0: "all_used machine0"
  by (simp add: all_used_def machine0_def Machine_new_def empty_entry_def)

lemma unmapped_machine0: "\<not> mapped va i machine0"
  by (cases "i < 32")
    (simp_all add: mapped_def entry_matches_def machine0_def Machine_new_def empty_entry_def)


text \<open>
  A page fault is resolved.  If the invariant holds, every resident page has
  been referenced and the faulting page of a non-negative address is not mapped,
  the handler returns, the invariant holds again, and the access that is then
  retried translates without an exception and restores the precondition for the
  next fault.
\<close>

theorem page_fault_resolved:
  assumes "paging_ok m" "all_used m" "swap m = Some f" "registers m BadVAddrReg = va" "0 \<le> sint va"
    "\<forall>i. \<not> mapped va i m" "aligned va sz"
  shows "\<exists>m' m'' a. ExceptionHandler PageFaultException m = Inr m' \<and> paging_ok m' \<and>
    Translate va sz w m' = Inr ((NoException, a), m'') \<and> paging_ok m'' \<and> all_used m''"
proof -
  obtain m' i where m': "LRU m = Inr m'" "paging_ok m'" "mapped va i m'" "i < 32"
    "\<forall>j<32. j \<noteq> i \<longrightarrow> pageTable m' ! j = pageTable m ! j"
  proof (cases "find (\<lambda>i. \<not> use_bit (pageTable m ! i)) pt_indices")
    case None
    then show thesis
      using LRU_evict [OF assms(1,3,4,5)] assms(6) that LRU_victim_spec(1) [of m] by blast
  next
    case (Some i)
    then show thesis
      using LRU_free_entry [OF assms(1,2,3,4,5)] assms(6) that find_pt_Some(1) [OF Some] by blast
  qed
  have len: "length (pageTable m') = 32" using paging_okD(2) [OF m'(2)] .
  have "all_used (hit_state i w m')"
    using assms(2) m'(4,5) len by (auto simp: all_used_def hit_state_use)
  moreover have "ExceptionHandler PageFaultException m = Inr m'"
    using m'(1) by (simp add: ExceptionHandler_def ReadRegister_def)
  ultimately show ?thesis
    using m'(2,3) Translate_hit [OF m'(2) assms(7) m'(3), of w] paging_ok_hit [OF m'(2,3), of w] by blast
qed

theorem page_fault_resolved_witness:
  "\<exists>m' m'' a. ExceptionHandler PageFaultException machine0 = Inr m' \<and> paging_ok m' \<and>
     Translate 0 4 True m' = Inr ((NoException, a), m'') \<and> paging_ok m'' \<and> all_used m''"
  by (rule page_fault_resolved [OF paging_ok_machine0 all_used_machine0])
    (simp_all add: unmapped_machine0 aligned_def, simp_all add: machine0_def Machine_new_def)

text \<open>
  A store that succeeds is read back by a load of the same size, and a load of
  any other mapped address whose bytes do not overlap is unaffected.
\<close>

theorem WriteMem_ReadMem:
  assumes "paging_ok m" "aligned va sz" "mapped va i m"
  shows "\<exists>m'. WriteMem va sz v m = Inr (True, m') \<and> paging_ok m' \<and>
    (\<exists>m''. ReadMem va sz m' = Inr (Some (trunc_val sz v), m'')) \<and>
    (\<forall>vb sz' j. aligned vb sz' \<and> mapped vb j m \<and>
        (phys vb j m + sz' \<le> phys va i m \<or> phys va i m + sz \<le> phys vb j m) \<longrightarrow>
      (\<exists>x s1 s2. ReadMem vb sz' m = Inr (Some x, s1) \<and> ReadMem vb sz' m' = Inr (Some x, s2)))"
proof -
  let ?m = "store_bytes (phys va i m) (store_val sz v) (hit_state i True m)"
  have ok: "paging_ok ?m" using paging_ok_hit [OF assms(1,3)] by simp
  have sz: "sz = 1 \<or> sz = 2 \<or> sz = 4" using aligned_sizes [OF assms(2)] .
  have "ReadMem va sz ?m = Inr (Some (trunc_val sz v), hit_state i False ?m)"
    using ReadMem_hit [OF ok assms(2), of i] assms(3) load_store_same [OF sz] by simp
  moreover have "\<exists>x s1 s2. ReadMem vb sz' m = Inr (Some x, s1) \<and> ReadMem vb sz' ?m = Inr (Some x, s2)"
    if *: "aligned vb sz'" "mapped vb j m"
      "phys vb j m + sz' \<le> phys va i m \<or> phys va i m + sz \<le> phys vb j m" for vb sz' j
  proof -
    have "length (store_val sz v) = sz" using sz by auto
    then have "load_val sz' (phys vb j m) ?m = load_val sz' (phys vb j m) (hit_state i True m)"
      using *(3) by (intro load_store_other [OF aligned_sizes [OF *(1)]]) auto
    then show ?thesis
      using ReadMem_hit [OF assms(1) *(1,2)] ReadMem_hit [OF ok *(1), of j] *(2) by simp
  qed
  ultimately show ?thesis using WriteMem_hit [OF assms, of v] ok by blast
qed

definition machine1 :: Machine where
  "machine1 = machine0\<lparr>memBitMap := \<lparr>numBits = 32, numWords = 1, bmap = [3]\<rparr>,
     pageTable := (pageTable machine0)
       [0 := \<lparr>virtualPage = 0, physicalPage = 0, valid_bit = True, readOnly = False, use_bit = True,
              dirty_bit = False, pt_tid = 1\<rparr>,
        1 := \<lparr>virtualPage = 0, physicalPage = 1, valid_bit = True, readOnly = False, use_bit = True,
              dirty_bit = False, pt_tid = 2\<rparr>]\<rparr>"

lemma machine1_entry:
  "i < 32 \<Longrightarrow> pageTable machine1 ! i =
     (if i = 0 \<or> i = 1 then \<lparr>virtualPage = 0, physicalPage = of_nat i, valid_bit = True, readOnly = False,
        use_bit = True, dirty_bit = False, pt_tid = int i + 1\<rparr> else empty_entry)"
  by (auto simp: machine1_def machine0_def Machine_new_def nth_list_update)

lemma marked_machine1: "marked \<lparr>numBits = 32, numWords = 1, bmap = [3]\<rparr> = {0, 1}"
proof -
  have "nat (i div 32) = 0" "i mod 32 = i" if "0 \<le> i" "i < 32" for i :: int using that by simp_all
  moreover have "bit (3 :: 32 word) (nat i) \<longleftrightarrow> i = 0 \<or> i = 1" if "0 \<le> i" for i
  proof -
    have "(3 :: 32 word) = mask 2" by (simp add: mask_eq_exp_minus_1)
    then have "bit (3 :: 32 word) (nat i) \<longleftrightarrow> nat i < 2"
      by (simp only: bit_mask_iff) (auto simp: possible_bit_def)
    then show ?thesis using that by auto
  qed
  ultimately show ?thesis by (auto simp: marked_def bit_at_def)
qed

lemma paging_ok_machine1: "paging_ok machine1"
proof -
  have valid: "{i. i < 32 \<and> valid_bit (pageTable machine1 ! i)} = {0, 1}"
    by (auto simp: machine1_entry empty_entry_def split: if_splits)
  have "unat (of_nat i :: 32 word) = i" if "i < 32" for i :: nat
    using that by (simp add: unat_of_nat)
  moreover have "tlb machine1 = None" "length (pageTable machine1) = 32" "length (pageLasttime machine1) = 32"
    "memBitMap machine1 = \<lparr>numBits = 32, numWords = 1, bmap = [3]\<rparr>"
    by (simp_all add: machine1_def machine0_def Machine_new_def)
  ultimately show ?thesis
    unfolding paging_ok_def valid
    by (auto simp: machine1_entry empty_entry_def marked_machine1 wf_map_def divRoundUp_nonneg BitsInWord_def
        split: if_splits)
qed

lemma mapped_machine1: "mapped 0 0 machine1" "mapped 0 1 (machine1\<lparr>curTid := 2\<rparr>)"
  by (simp_all add: mapped_def entry_matches_def machine1_def machine0_def Machine_new_def)

theorem WriteMem_ReadMem_witness:
  "\<exists>m' m''. WriteMem 0 4 1234567890 machine1 = Inr (True, m') \<and> ReadMem 0 4 m' = Inr (Some 1234567890, m'')"
  using WriteMem_ReadMem [OF paging_ok_machine1 _ mapped_machine1(1), of 4 1234567890]
  by (auto simp: aligned_def trunc_val_def)

text \<open>
  C26: isolation of address spaces.  A store by the current thread changes no byte
  that another thread can read: after switching to a thread with a different id,
  every mapped load returns what it would have returned before the store.
\<close>

theorem threads_isolated:
  assumes "paging_ok m" "aligned va sz" "mapped va i m" "t \<noteq> curTid m"
    "aligned vb sz'" "mapped vb j (m\<lparr>curTid := t\<rparr>)"
  shows "\<exists>m' x s1 s2. WriteMem va sz v m = Inr (True, m') \<and>
    ReadMem vb sz' (m\<lparr>curTid := t\<rparr>) = Inr (Some x, s1) \<and> ReadMem vb sz' (m'\<lparr>curTid := t\<rparr>) = Inr (Some x, s2)"
proof -
  let ?m = "store_bytes (phys va i m) (store_val sz v) (hit_state i True m)"
  have ok: "paging_ok (m\<lparr>curTid := t\<rparr>)" "paging_ok (?m\<lparr>curTid := t\<rparr>)"
    using assms(1) paging_ok_hit [OF assms(1,3), of True] by (simp_all add: paging_ok_def)
  have valid: "i < 32" "j < 32" "valid_bit (pageTable m ! i)" "valid_bit (pageTable m ! j)"
    "pt_tid (pageTable m ! i) = curTid m" "pt_tid (pageTable m ! j) = t"
    using assms(3,6) by (auto simp: mapped_def entry_matches_def)
  then have "i \<noteq> j" using assms(4) by auto
  from phys_disjoint [OF assms(1) this valid(1-4) assms(2,5)]
  have "load_val sz' (phys vb j m) ?m = load_val sz' (phys vb j m) (hit_state i True m)"
    using aligned_sizes [OF assms(2)] by (intro load_store_other [OF aligned_sizes [OF assms(5)]]) auto
  then have "load_val sz' (phys vb j (?m\<lparr>curTid := t\<rparr>)) (?m\<lparr>curTid := t\<rparr>) =
      load_val sz' (phys vb j (m\<lparr>curTid := t\<rparr>)) (m\<lparr>curTid := t\<rparr>)"
    by (simp add: phys_def)
  moreover have "mapped vb j (?m\<lparr>curTid := t\<rparr>)"
    using assms(6) by (simp add: mapped_def entry_matches_def)
  ultimately show ?thesis
    using WriteMem_hit [OF assms(1-3), of v] ReadMem_hit [OF ok(1) assms(5,6)] ReadMem_hit [OF ok(2) assms(5)]
    by auto
qed

theorem threads_isolated_witness:
  "\<exists>m' x s1 s2. WriteMem 0 4 99 machine1 = Inr (True, m') \<and>
    ReadMem 0 4 (machine1\<lparr>curTid := 2\<rparr>) = Inr (Some x, s1) \<and> ReadMem 0 4 (m'\<lparr>curTid := 2\<rparr>) = Inr (Some x, s2)"
  by (rule threads_isolated [OF paging_ok_machine1 _ mapped_machine1(1) _ _ mapped_machine1(2)])
    (simp_all add: aligned_def machine1_def machine0_def Machine_new_def)

text \<open>
  The replacement policy is least recently used.  When every entry is in use
  and some page was last referenced before the sentinel time, the entry evicted
  has the smallest recorded reference time.
\<close>

theorem LRU_evicts_least_recent:
  assumes "\<exists>i<NumPhysPages. pageLasttime m ! i < 2147483644"
  shows "LRU_victim m < NumPhysPages \<and>
    (\<forall>i<NumPhysPages. pageLasttime m ! LRU_victim m \<le> pageLasttime m ! i)"
  using LRU_victim_spec(1) LRU_victim_spec(2) [OF assms] by blast

theorem LRU_evicts_least_recent_witness:
  "LRU_victim (machine0\<lparr>pageLasttime := (replicate 32 9)[5 := 2]\<rparr>) < 32 \<and>
   pageLasttime (machine0\<lparr>pageLasttime := (replicate 32 9)[5 := 2]\<rparr>) !
     LRU_victim (machine0\<lparr>pageLasttime := (replicate 32 9)[5 := 2]\<rparr>) \<le> 2"
proof -
  let ?m = "machine0\<lparr>pageLasttime := (replicate 32 9)[5 := 2]\<rparr>"
  have five: "(5::nat) < 32" "pageLasttime ?m ! 5 = 2" by simp_all
  then have "\<exists>i<32. pageLasttime ?m ! i < 2147483644" by (intro exI [of _ 5]) simp
  from LRU_evicts_least_recent [OF this] show ?thesis using five by metis
qed

text \<open>
  The swap file has one slot per virtual page number, shared by all threads.
  When the evicted page belongs to another thread and has the number of the
  faulting page, the handler gives the faulting thread the other thread's data.
\<close>

theorem LRU_swap_slot_shared:
  assumes "length (pageTable m) = NumPhysPages" "\<forall>i<NumPhysPages. use_bit (pageTable m ! i)"
    "swap m = Some f" "registers m BadVAddrReg = va" "0 \<le> sint va"
    "virtualPage (pageTable m ! LRU_victim m) = va div 128"
    "unat (physicalPage (pageTable m ! LRU_victim m)) < NumPhysPages"
    "pt_tid (pageTable m ! LRU_victim m) \<noteq> curTid m"
  shows "\<exists>m'. LRU m = Inr m' \<and> mapped va (LRU_victim m) m' \<and>
    mem_page (unat (physicalPage (pageTable m' ! LRU_victim m))) m' =
    mem_page (unat (physicalPage (pageTable m ! LRU_victim m))) m"
proof -
  let ?v = "LRU_victim m"
  let ?e = "pageTable m ! ?v"
  let ?fr = "unat (physicalPage ?e)"
  have v: "?v < 32" by (rule LRU_victim_spec)
  have full: "find (\<lambda>i. \<not> use_bit (pageTable m ! i)) pt_indices = None"
    using assms(2) by (simp add: find_None_iff set_pt_indices)
  have pos: "0 \<le> sint (va div 128 * 128)" by (rule sint_page_base [OF assms(5)])
  have again: "ReadPartial p 128 (WriteFile p (mem_page ?fr m) f) = mem_page ?fr m" for p
    using ReadPartial_WriteFile_same [of p "mem_page ?fr m" f] by (simp add: mem_page_def)
  have ne: "pageTable m \<noteq> []" using assms(1) by auto
  obtain m' where m': "LRU m = Inr m'"
    "m' = store_bytes (?fr * 128) (mem_page ?fr m)
       (m\<lparr>pageTable := (pageTable m)[?v := ?e\<lparr>pt_tid := curTid m, virtualPage := va div 128, valid_bit := True\<rparr>],
          swap := Some (WriteFile (nat (sint (va div 128 * 128))) (mem_page ?fr m) f)\<rparr>)"
    using full assms(1,3,4,6,7) v ne pos again
    by (auto simp: LRU_def Let_def swap_write_fields swap_read_fields swap_commute)
  have "mapped va ?v m'" using v assms(1) by (simp add: m'(2) mapped_def entry_matches_def)
  moreover have "mem_page ?fr m' = mem_page ?fr m"
    by (auto simp: m'(2) mem_page_def store_bytes_def)
  ultimately show ?thesis using m' v assms(1) by auto
qed

definition full_machine :: Machine where
  "full_machine = machine0\<lparr>curTid := 2, pageTable := map (\<lambda>i. \<lparr>virtualPage = of_nat i, physicalPage = of_nat i,
     valid_bit = True, readOnly = False, use_bit = True, dirty_bit = True, pt_tid = 1\<rparr>) pt_indices\<rparr>"

lemma full_machine_victim: "LRU_victim full_machine = 0"
proof -
  let ?F = "\<lambda>i (temp, temp_i). if (0::int) < temp then (0, i) else (temp, temp_i)"
  have zero: "fold ?F is (0, 0) = (0, 0)" for "is" :: "nat list" by (induction "is") auto
  have "pageLasttime full_machine ! i = 0" if "i < 32" for i
    using that by (simp add: full_machine_def machine0_def Machine_new_def)
  then have eq: "fold (\<lambda>i (temp, temp_i). if pageLasttime full_machine ! i < temp
        then (pageLasttime full_machine ! i, i) else (temp, temp_i)) pt_indices (2147483644, 0) =
      fold ?F pt_indices (2147483644, 0)"
    by (intro fold_cong) (auto simp: set_pt_indices)
  have pt: "pt_indices = 0 # [1..<32]"
    unfolding pt_indices_def by (subst upt_conv_Cons) simp_all
  have "fold ?F pt_indices (2147483644, 0) = fold ?F [1..<32] (0, 0)"
    unfolding pt by (simp del: upt_rec_numeral)
  then show ?thesis unfolding LRU_victim_def eq zero by simp
qed

theorem LRU_swap_slot_shared_witness:
  "\<exists>m'. LRU full_machine = Inr m' \<and> mapped 0 0 m' \<and> curTid full_machine = 2 \<and>
     mem_page (unat (physicalPage (pageTable m' ! 0))) m' = mem_page 0 full_machine"
proof -
  have nth: "pageTable full_machine ! i = \<lparr>virtualPage = of_nat i, physicalPage = of_nat i,
     valid_bit = True, readOnly = False, use_bit = True, dirty_bit = True, pt_tid = 1\<rparr>" if "i < 32" for i
    unfolding full_machine_def pt_indices_def using that by (simp del: upt_rec_numeral)
  have f: "swap full_machine = Some \<lparr>fbytes = (\<lambda>_. 7), fsize = 1024\<rparr>" "length (pageTable full_machine) = 32"
    "registers full_machine 39 = 0" "curTid full_machine = 2"
    unfolding full_machine_def pt_indices_def by (simp_all add: machine0_def Machine_new_def del: upt_rec_numeral)
  show ?thesis
    using LRU_swap_slot_shared [of full_machine _ 0] f nth unfolding full_machine_victim by simp
qed

end
