(* ===== verification/Mips_Decode.thy ===== *)
theory Mips_Decode
  imports Nachos_Prelude
begin

text \<open>
  \<^verbatim>\<open>machine/mipssim.h\<close> and the routines \<^verbatim>\<open>Instruction::Decode\<close> and \<^verbatim>\<open>Mult\<close> of
  \<^verbatim>\<open>machine/mipssim.cc\<close>: the opcodes, the two decoding tables, the decoder, and the
  shift-and-add multiplication with its correctness for signed and unsigned
  operands.
\<close>

section \<open>Opcodes and decoding\<close>

datatype (plugins only: code size) opcode =
    OP_ADD | OP_ADDI | OP_ADDIU | OP_ADDU | OP_AND | OP_ANDI | OP_BEQ | OP_BGEZ | OP_BGEZAL |
  OP_BGTZ | OP_BLEZ | OP_BLTZ | OP_BLTZAL | OP_BNE | OP_DIV | OP_DIVU | OP_J | OP_JAL | OP_JALR |
  OP_JR | OP_LB | OP_LBU | OP_LH | OP_LHU | OP_LUI | OP_LW | OP_LWL | OP_LWR | OP_MFHI | OP_MFLO |
  OP_MTHI | OP_MTLO | OP_MULT | OP_MULTU | OP_NOR | OP_OR | OP_ORI | OP_RFE | OP_SB | OP_SH | OP_SLL
  | OP_SLLV | OP_SLT | OP_SLTI | OP_SLTIU | OP_SLTU | OP_SRA | OP_SRAV | OP_SRL | OP_SRLV | OP_SUB |
  OP_SUBU | OP_SW | OP_SWL | OP_SWR | OP_XOR | OP_XORI | OP_SYSCALL | OP_UNIMP | OP_RES | SPECIAL |
  BCOND

datatype format = IFMT | JFMT | RFMT

definition opTable :: "(opcode \<times> format) list" where
  "opTable = [
    (SPECIAL, RFMT), (BCOND, IFMT), (OP_J, JFMT), (OP_JAL, JFMT), (OP_BEQ, IFMT), (OP_BNE, IFMT),
    (OP_BLEZ, IFMT), (OP_BGTZ, IFMT), (OP_ADDI, IFMT), (OP_ADDIU, IFMT), (OP_SLTI, IFMT),
    (OP_SLTIU, IFMT), (OP_ANDI, IFMT), (OP_ORI, IFMT), (OP_XORI, IFMT), (OP_LUI, IFMT),
    (OP_UNIMP, IFMT), (OP_UNIMP, IFMT), (OP_UNIMP, IFMT), (OP_UNIMP, IFMT), (OP_RES, IFMT),
    (OP_RES, IFMT), (OP_RES, IFMT), (OP_RES, IFMT), (OP_RES, IFMT), (OP_RES, IFMT), (OP_RES, IFMT),
    (OP_RES, IFMT), (OP_RES, IFMT), (OP_RES, IFMT), (OP_RES, IFMT), (OP_RES, IFMT), (OP_LB, IFMT),
    (OP_LH, IFMT), (OP_LWL, IFMT), (OP_LW, IFMT), (OP_LBU, IFMT), (OP_LHU, IFMT), (OP_LWR, IFMT),
    (OP_RES, IFMT), (OP_SB, IFMT), (OP_SH, IFMT), (OP_SWL, IFMT), (OP_SW, IFMT), (OP_RES, IFMT),
    (OP_RES, IFMT), (OP_SWR, IFMT), (OP_RES, IFMT), (OP_UNIMP, IFMT), (OP_UNIMP, IFMT),
    (OP_UNIMP, IFMT), (OP_UNIMP, IFMT), (OP_RES, IFMT), (OP_RES, IFMT), (OP_RES, IFMT),
    (OP_RES, IFMT), (OP_UNIMP, IFMT), (OP_UNIMP, IFMT), (OP_UNIMP, IFMT), (OP_UNIMP, IFMT),
    (OP_RES, IFMT), (OP_RES, IFMT), (OP_RES, IFMT), (OP_RES, IFMT)]"

definition specialTable :: "opcode list" where
  "specialTable = [
    OP_SLL, OP_RES, OP_SRL, OP_SRA, OP_SLLV, OP_RES, OP_SRLV, OP_SRAV, OP_JR, OP_JALR, OP_RES,
    OP_RES, OP_SYSCALL, OP_UNIMP, OP_RES, OP_RES, OP_MFHI, OP_MTHI, OP_MFLO, OP_MTLO, OP_RES,
    OP_RES, OP_RES, OP_RES, OP_MULT, OP_MULTU, OP_DIV, OP_DIVU, OP_RES, OP_RES, OP_RES, OP_RES,
    OP_ADD, OP_ADDU, OP_SUB, OP_SUBU, OP_AND, OP_OR, OP_XOR, OP_NOR, OP_RES, OP_RES, OP_SLT,
    OP_SLTU, OP_RES, OP_RES, OP_RES, OP_RES, OP_RES, OP_RES, OP_RES, OP_RES, OP_RES, OP_RES,
    OP_RES, OP_RES, OP_RES, OP_RES, OP_RES, OP_RES, OP_RES, OP_RES, OP_RES, OP_RES]"

record Instruction =
  ivalue :: "32 word"
  opCode :: opcode
  rs :: nat
  rt :: nat
  rd :: nat
  extra :: "32 word"

abbreviation (input) SIGN_BIT :: "32 word" where "SIGN_BIT \<equiv> 0x80000000"
abbreviation (input) R31 :: nat where "R31 \<equiv> 31"

definition IndexToAddr :: "32 word \<Rightarrow> 32 word" where
  "IndexToAddr x = push_bit 2 x"

definition Decode :: "32 word \<Rightarrow> Instruction" where
  "Decode v =
     (let (op, fmt) = opTable ! unat (drop_bit 26 v AND 0x3f);
          ext = (case fmt of
                   IFMT \<Rightarrow> (let e = v AND 0xffff in if e AND 0x8000 \<noteq> 0 then e OR 0xffff0000 else e)
                 | RFMT \<Rightarrow> drop_bit 6 v AND 0x1f
                 | JFMT \<Rightarrow> v AND 0x3ffffff);
          op' = (if op = SPECIAL then specialTable ! unat (v AND 0x3f)
                 else if op = BCOND then
                   (let i = v AND 0x1f0000 in
                    if i = 0 then OP_BLTZ
                    else if i = 0x10000 then OP_BGEZ
                    else if i = 0x100000 then OP_BLTZAL
                    else if i = 0x110000 then OP_BGEZAL
                    else OP_UNIMP)
                 else op)
      in \<lparr>ivalue = v, opCode = op',
          rs = unat (drop_bit 21 v AND 0x1f), rt = unat (drop_bit 16 v AND 0x1f),
          rd = unat (drop_bit 11 v AND 0x1f), extra = ext\<rparr>)"

section \<open>Multiplication\<close>

text \<open>
  The loop over the bits of \<open>a\<close>: \<open>n\<close> iterations are left.  The shift \<^verbatim>\<open>a >>= 1\<close> is
  that of a signed \<^verbatim>\<open>int\<close>.
\<close>

fun Mult_loop ::
  "nat \<Rightarrow> 32 word \<Rightarrow> 32 word \<Rightarrow> 32 word \<Rightarrow> 32 word \<Rightarrow> 32 word \<Rightarrow> 32 word \<times> 32 word" where
  "Mult_loop 0 a bLo bHi lo hi = (hi, lo)"
| "Mult_loop (Suc n) a bLo bHi lo hi =
     (let lo' = (if a AND 1 \<noteq> 0 then lo + bLo else lo);
          hi' = (if a AND 1 \<noteq> 0 then (if lo' < bLo then hi + 1 else hi) + bHi else hi)
      in if a AND 1 \<noteq> 0 \<and> a AND 0xfffffffe = 0 then (hi', lo')
         else Mult_loop n (signed_drop_bit 1 a) (push_bit 1 bLo)
                (if bLo AND 0x80000000 \<noteq> 0 then push_bit 1 bHi OR 1 else push_bit 1 bHi) lo' hi')"

text \<open>\<open>Mult a b signedArith\<close> is the pair stored in \<^verbatim>\<open>(*hiPtr, *loPtr)\<close>.\<close>

definition Mult :: "32 word \<Rightarrow> 32 word \<Rightarrow> bool \<Rightarrow> 32 word \<times> 32 word" where
  "Mult a b signedArith =
     (if a = 0 \<or> b = 0 then (0, 0)
      else
        let negA = (signedArith \<and> sint a < 0); negB = (signedArith \<and> sint b < 0);
            negative = (negA \<noteq> negB);
            a' = (if negA then - a else a); b' = (if negB then - b else b);
            (hi, lo) = Mult_loop 32 a' b' 0 0 0
        in if negative
           then (let lo' = NOT lo + 1 in (if lo' = 0 then NOT hi + 1 else NOT hi, lo'))
           else (hi, lo))"

section \<open>Correctness of the multiplication\<close>

text \<open>The double word a pair of words stands for.\<close>

definition dword :: "32 word \<Rightarrow> 32 word \<Rightarrow> int" where
  "dword hi lo = uint hi * 4294967296 + uint lo"

lemma uint32_bounds: "0 \<le> uint w" "uint w < 4294967296" for w :: "32 word"
  using uint_lt2p [of w] by simp_all

lemma uint_plus32:
  "uint (x + y) = (if uint x + uint y < 4294967296 then uint x + uint y else uint x + uint y - 4294967296)"
  for x y :: "32 word"
  using uint_plus_if' [of x y] by simp

lemma bit31_iff: "bit (uint w) 31 \<longleftrightarrow> 2147483648 \<le> uint w" for w :: "32 word"
proof -
  have "uint w div 2147483648 = (if 2147483648 \<le> uint w then 1 else 0)"
    using uint32_bounds [of w]
    by (auto simp: div_pos_pos_trivial intro!: int_div_pos_eq [where r = "uint w - 2147483648"])
  then show ?thesis by (simp add: bit_iff_odd)
qed

lemma sign_bit_iff: "w AND 0x80000000 \<noteq> 0 \<longleftrightarrow> 2147483648 \<le> uint w" for w :: "32 word"
proof -
  have m: "(0x80000000 :: 32 word) = push_bit 31 1" by (simp add: push_bit_eq_mult)
  have b: "bit (0x80000000 :: 32 word) n \<longleftrightarrow> n = 31" for n
    unfolding m bit_push_bit_iff bit_1_iff by (auto simp: possible_bit_def)
  have "w AND 0x80000000 \<noteq> 0 \<longleftrightarrow> (\<exists>n. bit (w AND 0x80000000) n)"
    by (metis bit_0_eq bit_eq_iff bot_apply bot_bool_def)
  also have "\<dots> \<longleftrightarrow> bit w 31" by (simp only: bit_and_iff b) blast
  also have "\<dots> \<longleftrightarrow> bit (uint w) 31" by (simp add: bit_uint_iff)
  finally show ?thesis by (simp add: bit31_iff)
qed

lemma sint32: "sint w = (if 2147483648 \<le> uint w then uint w - 4294967296 else uint w)" for w :: "32 word"
proof -
  have "sint w = take_bit 32 (uint w) - 4294967296 * of_bool (bit (uint w) 31)"
    by (simp add: sint_uint signed_take_bit_eq_take_bit_minus)
  moreover have "take_bit 32 (uint w) = uint w"
    using uint32_bounds [of w] by (simp add: take_bit_int_eq_self)
  ultimately show ?thesis by (simp add: bit31_iff)
qed

lemma dword_add:
  assumes "dword hi lo + dword bHi bLo < 18446744073709551616"
  shows "dword ((if lo + bLo < bLo then hi + 1 else hi) + bHi) (lo + bLo) = dword hi lo + dword bHi bLo"
proof -
  note u = uint32_bounds [of hi] uint32_bounds [of lo] uint32_bounds [of bHi] uint32_bounds [of bLo]
  have carry: "lo + bLo < bLo \<longleftrightarrow> 4294967296 \<le> uint lo + uint bLo"
    using u by (simp add: word_less_def uint_plus32)
  have one: "uint (1 :: 32 word) = 1" by simp
  show ?thesis
  proof (cases "4294967296 \<le> uint lo + uint bLo")
    case True
    then have *: "uint hi + 1 + uint bHi < 4294967296" using assms u unfolding dword_def by linarith
    then have "uint hi + 1 < 4294967296" using u by linarith
    then have "uint (hi + 1) = uint hi + 1" using uint_plus32 [of hi 1] one by simp
    with * have "uint (hi + 1 + bHi) = uint hi + 1 + uint bHi" using uint_plus32 [of "hi + 1" bHi] by simp
    then show ?thesis using True carry by (simp add: dword_def uint_plus32)
  next
    case False
    then have "uint hi + uint bHi < 4294967296" using assms u unfolding dword_def by linarith
    then show ?thesis using False carry by (simp add: dword_def uint_plus32)
  qed
qed

lemma dword_shift:
  assumes "2 * dword bHi bLo < 18446744073709551616"
  shows "dword (if bLo AND 0x80000000 \<noteq> 0 then push_bit 1 bHi OR 1 else push_bit 1 bHi) (push_bit 1 bLo) =
    2 * dword bHi bLo"
proof -
  note u = uint32_bounds [of bHi] uint32_bounds [of bLo]
  have "uint bHi < 2147483648"
  proof (rule ccontr)
    assume "\<not> uint bHi < 2147483648"
    then have "2147483648 * 4294967296 \<le> uint bHi * 4294967296" by (intro mult_right_mono) simp_all
    then have "18446744073709551616 \<le> 2 * dword bHi bLo" using u(3) unfolding dword_def distrib_left by linarith
    then show False using assms by simp
  qed
  then have hi: "2 * uint bHi + 1 < 4294967296" by linarith
  have dbl: "push_bit 1 w = 2 * w" for w :: "32 word" by (simp add: push_bit_eq_mult)
  have udbl: "uint (2 * w) = (if 2 * uint w < 4294967296 then 2 * uint w else 2 * uint w - 4294967296)"
    for w :: "32 word" using uint_plus32 [of w w] unfolding mult_2 by simp
  have or1: "2 * bHi OR 1 = 2 * bHi + 1"
  proof (rule disjunctive_add [symmetric])
    fix n show "\<not> bit (2 * bHi) n \<or> \<not> bit 1 n" by (cases n) (auto simp: bit_1_iff bit_0)
  qed
  show ?thesis
  proof (cases "2147483648 \<le> uint bLo")
    case True
    have "uint (2 * bHi) = 2 * uint bHi" using hi by (simp add: udbl)
    then have "uint (2 * bHi + 1) = 2 * uint bHi + 1" using hi uint_plus32 [of "2 * bHi" 1] by simp
    moreover have "uint (2 * bLo) = 2 * uint bLo - 4294967296" using True by (simp add: udbl)
    ultimately show ?thesis using True sign_bit_iff [of bLo] unfolding dbl or1 dword_def by simp
  next
    case False
    have "uint (2 * bHi) = 2 * uint bHi" using hi by (simp add: udbl)
    moreover have "uint (2 * bLo) = 2 * uint bLo" using False by (simp add: udbl)
    ultimately show ?thesis using False sign_bit_iff [of bLo] unfolding dbl or1 dword_def by simp
  qed
qed

text \<open>After \<open>i\<close> rounds the loop has multiplied by the lowest \<open>i\<close> bits of \<open>A\<close>.\<close>

lemma low_bit_signed_shift: "i < 32 \<Longrightarrow> signed_drop_bit i A AND 1 \<noteq> 0 \<longleftrightarrow> bit A i" for A :: "32 word"
proof -
  assume i: "i < 32"
  have "signed_drop_bit i A AND 1 \<noteq> 0 \<longleftrightarrow> bit (signed_drop_bit i A) 0"
    by (simp add: and_one_eq bit_0 odd_iff_mod_2_eq_one)
  then show ?thesis using i by (simp add: bit_signed_drop_bit_iff)
qed

lemma rest_zero:
  fixes A :: "32 word"
  assumes "i < 32" "signed_drop_bit i A AND 0xfffffffe = 0"
  shows "uint A mod 2 ^ Suc i = uint A"
proof -
  have not1: "(0xfffffffe :: 32 word) = NOT 1" by simp
  have zero: "\<not> bit A k" if k: "i < k" for k
  proof
    assume "bit A k"
    then have "k < 32" using bit_imp_le_length by fastforce
    then have "\<not> 32 - i \<le> k - i" using k by linarith
    then have "bit (signed_drop_bit i A) (k - i)" using k \<open>bit A k\<close> by (simp add: bit_signed_drop_bit_iff)
    then have "bit (signed_drop_bit i A AND NOT 1) (k - i)"
      using k \<open>k < 32\<close> by (simp add: bit_and_iff bit_not_iff bit_1_iff)
    then show False using assms(2) not1 by simp
  qed
  have "take_bit (Suc i) (uint A) = uint A"
  proof (rule bit_eqI)
    fix n show "bit (take_bit (Suc i) (uint A)) n = bit (uint A) n"
      using zero [of n] by (cases "i < n") (auto simp: bit_take_bit_iff bit_uint_iff)
  qed
  then show ?thesis by (simp add: take_bit_eq_mod)
qed

lemma mod_Suc_bit: "uint A mod 2 ^ Suc i = uint A mod 2 ^ i + (if bit A i then 2 ^ i else 0)" for A :: "32 word"
proof -
  have b: "bit (uint A) i = bit A i" using bit_imp_le_length [of A i] by (auto simp: bit_uint_iff)
  show ?thesis
    using take_bit_Suc_from_most [of i "uint A"] unfolding take_bit_eq_mod b by simp
qed

lemma Mult_loop_correct:
  fixes A B :: "32 word"
  assumes "n = 32 - i" "i \<le> 32" "dword bHi bLo = uint B * 2 ^ i" "dword hi lo = uint B * (uint A mod 2 ^ i)"
  shows "\<exists>h l. Mult_loop n (signed_drop_bit i A) bLo bHi lo hi = (h, l) \<and> dword h l = uint B * uint A"
  using assms
proof (induction n arbitrary: i bHi bLo hi lo)
  case 0
  then have "i = 32" by simp
  then show ?case using 0 uint32_bounds [of A] by simp
next
  case (Suc n)
  then have i: "i < 32" and n: "n = 32 - Suc i" by auto
  note B = uint32_bounds [of B]
  define lo' where "lo' = (if bit A i then lo + bLo else lo)"
  define hi' where "hi' = (if bit A i then (if lo' < bLo then hi + 1 else hi) + bHi else hi)"
  have prod: "uint B * (uint A mod 2 ^ Suc i) < 18446744073709551616"
  proof -
    have "uint A mod 2 ^ Suc i \<le> uint A" using uint32_bounds [of A] by (simp add: zmod_le_nonneg_dividend)
    then have "uint B * (uint A mod 2 ^ Suc i) \<le> 4294967295 * 4294967295"
      using B uint32_bounds [of A] by (intro mult_mono) auto
    then show ?thesis by simp
  qed
  have step: "dword hi' lo' = uint B * (uint A mod 2 ^ Suc i)"
  proof (cases "bit A i")
    case True
    have sum: "dword hi lo + dword bHi bLo = uint B * (uint A mod 2 ^ Suc i)"
      unfolding mod_Suc_bit using Suc.prems(3,4) True by (simp add: algebra_simps)
    have "dword ((if lo + bLo < bLo then hi + 1 else hi) + bHi) (lo + bLo) = dword hi lo + dword bHi bLo"
      using prod by (intro dword_add) (simp only: sum)
    then show ?thesis using True sum by (simp add: lo'_def hi'_def)
  next
    case False
    then show ?thesis unfolding mod_Suc_bit using Suc.prems(4) by (simp add: lo'_def hi'_def)
  qed
  have low: "signed_drop_bit i A AND 1 \<noteq> 0 \<longleftrightarrow> bit A i" by (rule low_bit_signed_shift [OF i])
  show ?case
  proof (cases "bit A i \<and> signed_drop_bit i A AND 0xfffffffe = 0")
    case True
    then show ?thesis
      using step rest_zero [OF i] low by (simp add: lo'_def hi'_def Let_def)
  next
    case False
    let ?bHi = "if bLo AND 0x80000000 \<noteq> 0 then push_bit 1 bHi OR 1 else push_bit 1 bHi"
    have "uint B * 2 ^ Suc i < 18446744073709551616"
    proof -
      have "(2::int) ^ Suc i \<le> 2 ^ 32" using i by (intro power_increasing) simp_all
      then have "uint B * 2 ^ Suc i \<le> 4294967295 * 4294967296"
        using B by (intro mult_mono) simp_all
      then show ?thesis by simp
    qed
    then have "dword ?bHi (push_bit 1 bLo) = uint B * 2 ^ Suc i"
      using dword_shift [of bHi bLo] Suc.prems(3) by (simp add: algebra_simps)
    moreover have "signed_drop_bit 1 (signed_drop_bit i A) = signed_drop_bit (Suc i) A"
      by (rule bit_word_eqI) (use i in \<open>auto simp: bit_signed_drop_bit_iff\<close>)
    moreover have "Mult_loop (Suc n) (signed_drop_bit i A) bLo bHi lo hi =
        Mult_loop n (signed_drop_bit 1 (signed_drop_bit i A)) (push_bit 1 bLo) ?bHi lo' hi'"
      using False low by (simp add: Let_def lo'_def hi'_def)
    ultimately show ?thesis
      using Suc.IH [OF n _ _ step, of ?bHi "push_bit 1 bLo"] i by simp
  qed
qed

lemma Mult_loop_32: "\<exists>h l. Mult_loop 32 a b 0 0 0 = (h, l) \<and> dword h l = uint b * uint a"
  using Mult_loop_correct [of 32 0 0 b b 0 0 a] by (simp add: dword_def)

lemma uint_abs: "sint w < 0 \<Longrightarrow> uint (- w) = - sint w" "\<not> sint w < 0 \<Longrightarrow> uint w = sint w" for w :: "32 word"
proof -
  note u = uint32_bounds [of w]
  show "uint (- w) = - sint w" if neg: "sint w < 0"
  proof -
    have ge: "2147483648 \<le> uint w" using neg u(1) by (auto simp: sint32 split: if_splits)
    have "uint (- w) = (- uint w) mod 4294967296"
      using uint_word_ariths(4) [of w] by simp
    also have "\<dots> = 4294967296 - uint w"
      using ge u(2) by (intro int_mod_pos_eq [where q = "-1"]) auto
    finally show ?thesis using ge by (simp add: sint32)
  qed
  show "uint w = sint w" if "\<not> sint w < 0" using that u by (auto simp: sint32 split: if_splits)
qed

lemma abs_sint_bound: "\<bar>sint w\<bar> \<le> 2147483648" for w :: "32 word"
  using uint32_bounds [of w] by (auto simp: sint32)

text \<open>Two's complement of a double word.\<close>

lemma dword_negate:
  assumes "0 < dword hi lo" "dword hi lo \<le> 4611686018427387904"
  defines "lo' \<equiv> NOT lo + 1"
  defines "hi' \<equiv> (if lo' = 0 then NOT hi + 1 else NOT hi)"
  shows "sint hi' * 4294967296 + uint lo' = - dword hi lo"
proof -
  note u = uint32_bounds [of hi] uint32_bounds [of lo]
  have hi: "uint hi \<le> 1073741824" using assms(2) u unfolding dword_def by linarith
  have lo': "lo' = - lo" by (simp add: lo'_def not_eq_complement)
  have usub: "uint (- w) = (if w = 0 then 0 else 4294967296 - uint w)" for w :: "32 word"
  proof (cases "w = 0")
    case False
    then have "0 < uint w" using uint32_bounds(1) [of w] by (metis order_le_less uint_0_iff)
    then have "(- uint w) mod 4294967296 = 4294967296 - uint w"
      using uint32_bounds(2) [of w] by (intro int_mod_pos_eq [where q = "-1"]) auto
    then show ?thesis using False uint_word_ariths(4) [of w] by simp
  qed simp
  show ?thesis
  proof (cases "lo = 0")
    case True
    then have "0 < uint hi" using assms(1) by (simp add: dword_def)
    then have "hi \<noteq> 0" by auto
    have "hi' = - hi" using True lo' by (simp add: hi'_def not_eq_complement)
    then have "sint hi' = - uint hi"
      using hi \<open>0 < uint hi\<close> \<open>hi \<noteq> 0\<close> by (simp add: sint32 usub)
    then show ?thesis using True lo' by (simp add: dword_def)
  next
    case False
    then have "hi' = - hi - 1" using lo' by (simp add: hi'_def not_eq_complement)
    then have h: "hi' = - (hi + 1)" by simp
    have hp: "uint (hi + 1) = uint hi + 1" using hi uint_plus32 [of hi 1] by simp
    have "hi + 1 \<noteq> 0"
    proof
      assume "hi + 1 = 0"
      then have "uint hi + 1 = 0" using hp by simp
      then show False using u(1) by linarith
    qed
    then have "uint hi' = 4294967296 - (uint hi + 1)" unfolding h usub hp by simp
    then have "sint hi' = - (uint hi + 1)" using hi by (simp add: sint32)
    then show ?thesis using False lo' usub [of lo] by (simp add: dword_def)
  qed
qed

section \<open>Decoding\<close>

lemma unat_and_mask_less: "unat (w AND 0x1f) < 32" "unat (w AND 0x3f) < 64" for w :: "32 word"
proof -
  have "w AND 0x1f = take_bit 5 w" "w AND 0x3f = take_bit 6 w"
    by (simp_all add: take_bit_eq_mask mask_eq_exp_minus_1)
  then show "unat (w AND 0x1f) < 32" "unat (w AND 0x3f) < 64"
    by (simp_all add: take_bit_eq_mod unat_mod)
qed

lemma length_tables: "length opTable = 64" "length specialTable = 64"
  by (simp_all add: opTable_def specialTable_def)

lemma specialTable_ops: "op \<in> set specialTable \<Longrightarrow> op \<notin> {SPECIAL, BCOND, OP_RFE}"
  by (auto simp: specialTable_def)

lemma opTable_ops: "(op, fmt) \<in> set opTable \<Longrightarrow> op \<noteq> OP_RFE"
  by (auto simp: opTable_def)

lemma Decode_regs [simp]: "rs (Decode v) < 32" "rt (Decode v) < 32" "rd (Decode v) < 32"
  by (simp_all add: Decode_def Let_def unat_and_mask_less split: prod.splits)

lemma Decode_opcode: "opCode (Decode v) \<notin> {SPECIAL, BCOND, OP_RFE}"
proof -
  obtain op fmt where op: "opTable ! unat (drop_bit 26 v AND 0x3f) = (op, fmt)" by fastforce
  have "(op, fmt) \<in> set opTable"
    using nth_mem [of "unat (drop_bit 26 v AND 0x3f)" opTable] op unat_and_mask_less(2) by (simp add: length_tables)
  moreover have "specialTable ! unat (v AND 0x3f) \<in> set specialTable"
    using unat_and_mask_less(2) by (intro nth_mem) (simp add: length_tables)
  ultimately show ?thesis
    using opTable_ops specialTable_ops op by (auto simp: Decode_def Let_def)
qed

text \<open>The sign extension of the 16-bit immediate.\<close>

lemma sign_extend_imm:
  "(let e = v AND 0xffff in if e AND 0x8000 \<noteq> 0 then e OR 0xffff0000 else e) = scast (ucast v :: 16 word)"
  for v :: "32 word"
proof (rule bit_word_eqI)
  fix n assume n: "n < LENGTH(32)"
  have m: "(0xffff :: 32 word) = mask 16" "(0xffff0000 :: 32 word) = NOT (mask 16)"
    by (simp_all add: mask_eq_exp_minus_1)
  have lo: "bit (0xffff :: 32 word) n \<longleftrightarrow> n < 16" for n
    unfolding m bit_mask_iff by (auto simp: possible_bit_def)
  have hi: "bit (0xffff0000 :: 32 word) n \<longleftrightarrow> 16 \<le> n \<and> n < 32" for n
    unfolding m bit_not_iff bit_mask_iff by (auto simp: possible_bit_def)
  have s: "(0x8000 :: 32 word) = push_bit 15 1" by (simp add: push_bit_eq_mult)
  have b15: "bit (0x8000 :: 32 word) k \<longleftrightarrow> k = 15" for k
    unfolding s bit_push_bit_iff bit_1_iff by (auto simp: possible_bit_def)
  have "(v AND 0xffff) AND 0x8000 \<noteq> 0 \<longleftrightarrow> (\<exists>k. bit ((v AND 0xffff) AND 0x8000) k)"
    by (metis bit_0_eq bit_eq_iff bot_apply bot_bool_def)
  also have "\<dots> \<longleftrightarrow> bit v 15" by (simp only: bit_and_iff lo b15) auto
  finally have sign: "(v AND 0xffff) AND 0x8000 \<noteq> 0 \<longleftrightarrow> bit v 15" .
  show "bit (let e = v AND 0xffff in if e AND 0x8000 \<noteq> 0 then e OR 0xffff0000 else e) n =
      bit (scast (ucast v :: 16 word) :: 32 word) n"
  proof (cases "bit v 15")
    case True
    then have "(let e = v AND 0xffff in if e AND 0x8000 \<noteq> 0 then e OR 0xffff0000 else e) =
        (v AND 0xffff) OR 0xffff0000" using sign by (simp add: Let_def)
    moreover have "bit ((v AND 0xffff) OR 0xffff0000) n \<longleftrightarrow> bit v n \<and> n < 16 \<or> 16 \<le> n \<and> n < 32"
      by (simp only: bit_and_iff bit_or_iff lo hi)
    ultimately show ?thesis
      using True n by (cases "n = 15") (auto simp: bit_signed_iff bit_unsigned_iff min_def)
  next
    case False
    then have "(let e = v AND 0xffff in if e AND 0x8000 \<noteq> 0 then e OR 0xffff0000 else e) = v AND 0xffff"
      using sign by (simp add: Let_def)
    moreover have "bit (v AND 0xffff) n \<longleftrightarrow> bit v n \<and> n < 16" by (simp only: bit_and_iff lo)
    ultimately show ?thesis
      using False n by (cases "n = 15") (auto simp: bit_signed_iff bit_unsigned_iff min_def)
  qed
qed

section \<open>Properties\<close>

text \<open>
  The decoder.  For every 32-bit instruction word the three register numbers
  are below 32, the opcode is one the interpreter's \<^verbatim>\<open>switch\<close> has a case for, and
  the immediate of an I-format instruction is the sign extension of its low half.
\<close>

theorem Decode_correct:
  "rs (Decode v) < 32 \<and> rt (Decode v) < 32 \<and> rd (Decode v) < 32 \<and>
   opCode (Decode v) \<notin> {SPECIAL, BCOND, OP_RFE} \<and>
   extra (Decode v) =
     (case snd (opTable ! unat (drop_bit 26 v AND 0x3f)) of
        IFMT \<Rightarrow> scast (ucast v :: 16 word)
      | RFMT \<Rightarrow> drop_bit 6 v AND 0x1f
      | JFMT \<Rightarrow> v AND 0x3ffffff)"
proof -
  obtain op fmt where op: "opTable ! unat (drop_bit 26 v AND 0x3f) = (op, fmt)" by fastforce
  then have "extra (Decode v) = (case fmt of
        IFMT \<Rightarrow> (let e = v AND 0xffff in if e AND 0x8000 \<noteq> 0 then e OR 0xffff0000 else e)
      | RFMT \<Rightarrow> drop_bit 6 v AND 0x1f
      | JFMT \<Rightarrow> v AND 0x3ffffff)"
    by (simp add: Decode_def)
  then show ?thesis using op Decode_opcode [of v] unfolding sign_extend_imm by simp
qed

text \<open>
  C27: the shift-and-add routine multiplies.  For all operands the pair of words it
  stores is the 64-bit product: the unsigned product when \<^verbatim>\<open>signedArith\<close> is FALSE,
  and the product of the signed values, with a signed high word, when it is TRUE.
\<close>

theorem Mult_correct:
  "uint (fst (Mult a b False)) * 2 ^ 32 + uint (snd (Mult a b False)) = uint a * uint b \<and>
   sint (fst (Mult a b True)) * 2 ^ 32 + uint (snd (Mult a b True)) = sint a * sint b"
proof
  show "uint (fst (Mult a b False)) * 2 ^ 32 + uint (snd (Mult a b False)) = uint a * uint b"
    using Mult_loop_32 [of a b] by (auto simp: Mult_def Let_def dword_def mult.commute)
  show "sint (fst (Mult a b True)) * 2 ^ 32 + uint (snd (Mult a b True)) = sint a * sint b"
  proof (cases "a = 0 \<or> b = 0")
    case True
    then show ?thesis by (auto simp: Mult_def)
  next
    case False
    define a' where "a' = (if sint a < 0 then - a else a)"
    define b' where "b' = (if sint b < 0 then - b else b)"
    obtain h l where hl: "Mult_loop 32 a' b' 0 0 0 = (h, l)" "dword h l = uint b' * uint a'"
      using Mult_loop_32 by blast
    have abs: "uint a' = \<bar>sint a\<bar>" "uint b' = \<bar>sint b\<bar>"
      using uint_abs [of a] uint_abs [of b] by (auto simp: a'_def b'_def)
    have pos: "0 < \<bar>sint a\<bar>" "0 < \<bar>sint b\<bar>" using False by (auto simp: signed_eq_0_iff)
    then have dpos: "0 < dword h l" unfolding hl(2) abs by simp
    have "\<bar>sint b\<bar> * \<bar>sint a\<bar> \<le> 2147483648 * 2147483648"
      using abs_sint_bound [of a] abs_sint_bound [of b] by (intro mult_mono) simp_all
    then have dle: "dword h l \<le> 4611686018427387904" unfolding hl(2) abs by simp
    have eval: "Mult a b True = (case Mult_loop 32 a' b' 0 0 0 of (hi, lo) \<Rightarrow>
        if (sint a < 0) \<noteq> (sint b < 0) then (if NOT lo + 1 = 0 then NOT hi + 1 else NOT hi, NOT lo + 1)
        else (hi, lo))"
      unfolding Mult_def Let_def a'_def b'_def using False by simp
    show ?thesis
    proof (cases "(sint a < 0) \<noteq> (sint b < 0)")
      case True
      then have "Mult a b True = (if NOT l + 1 = 0 then NOT h + 1 else NOT h, NOT l + 1)"
        unfolding eval hl(1) by simp
      then show ?thesis
        using dword_negate [OF dpos dle] True hl(2) unfolding abs by (auto simp: abs_if mult.commute)
    next
      case same: False
      then have "Mult a b True = (h, l)"
        unfolding eval hl(1) by simp
      moreover have "uint h < 2147483648" using dle uint32_bounds(1) [of l] unfolding dword_def by linarith
      then have "sint h = uint h" by (simp add: sint32)
      ultimately show ?thesis
        using hl(2) same unfolding abs dword_def by (auto simp: abs_if mult.commute)
    qed
  qed
qed

end
