(* ===== verification/Mips_Sim.thy ===== *)
theory Mips_Sim
  imports Machine_Memory Mips_Decode
begin

text \<open>
  \<^verbatim>\<open>machine/mipssim.cc\<close>: execution of MIPS instructions.  Registers are 32-bit words; signed C comparisons, divisions and
  right shifts are written with the signed view of a word.  There is one
  definition per opcode of the \<^verbatim>\<open>switch\<close> in \<^verbatim>\<open>Machine::OneInstruction\<close>.
\<close>

section \<open>The instructions\<close>

text \<open>
  An instruction either finishes, giving the next program counter and the
  delayed load to start (register number and value), or returns early (\<open>None\<close>)
  after an exception.  \<open>pcAfter\<close> is the value computed before the \<^verbatim>\<open>switch\<close>.
\<close>

type_synonym outcome = "((32 word \<times> 32 word \<times> 32 word) option \<times> Machine) result"

definition nxt :: "32 word \<Rightarrow> Machine \<Rightarrow> outcome" where
  "nxt pc m = Inr (Some (pc, 0, 0), m)"

definition trap :: "ExceptionType \<Rightarrow> 32 word \<Rightarrow> Machine \<Rightarrow> outcome" where
  "trap e bad m = bindE (RaiseException e bad m) (\<lambda>m. Inr (None, m))"

abbreviation (input) reg :: "Machine \<Rightarrow> nat \<Rightarrow> 32 word" where "reg m r \<equiv> registers m r"

definition op_ADD :: "Instruction \<Rightarrow> 32 word \<Rightarrow> Machine \<Rightarrow> outcome" where
  "op_ADD i pcAfter m =
     (let sum = reg m (rs i) + reg m (rt i) in
      if (reg m (rs i) XOR reg m (rt i)) AND SIGN_BIT = 0 \<and> (reg m (rs i) XOR sum) AND SIGN_BIT \<noteq> 0
      then trap OverflowException 0 m
      else nxt pcAfter (setreg (rd i) sum m))"

definition op_ADDI :: "Instruction \<Rightarrow> 32 word \<Rightarrow> Machine \<Rightarrow> outcome" where
  "op_ADDI i pcAfter m =
     (let sum = reg m (rs i) + extra i in
      if (reg m (rs i) XOR extra i) AND SIGN_BIT = 0 \<and> (extra i XOR sum) AND SIGN_BIT \<noteq> 0
      then trap OverflowException 0 m
      else nxt pcAfter (setreg (rt i) sum m))"

definition op_ADDIU :: "Instruction \<Rightarrow> 32 word \<Rightarrow> Machine \<Rightarrow> outcome" where
  "op_ADDIU i pcAfter m = nxt pcAfter (setreg (rt i) (reg m (rs i) + extra i) m)"

definition op_ADDU :: "Instruction \<Rightarrow> 32 word \<Rightarrow> Machine \<Rightarrow> outcome" where
  "op_ADDU i pcAfter m = nxt pcAfter (setreg (rd i) (reg m (rs i) + reg m (rt i)) m)"

definition op_AND :: "Instruction \<Rightarrow> 32 word \<Rightarrow> Machine \<Rightarrow> outcome" where
  "op_AND i pcAfter m = nxt pcAfter (setreg (rd i) (reg m (rs i) AND reg m (rt i)) m)"

definition op_ANDI :: "Instruction \<Rightarrow> 32 word \<Rightarrow> Machine \<Rightarrow> outcome" where
  "op_ANDI i pcAfter m = nxt pcAfter (setreg (rt i) (reg m (rs i) AND (extra i AND 0xffff)) m)"

definition branch_target :: "Instruction \<Rightarrow> Machine \<Rightarrow> 32 word" where
  "branch_target i m = reg m NextPCReg + IndexToAddr (extra i)"

definition op_BEQ :: "Instruction \<Rightarrow> 32 word \<Rightarrow> Machine \<Rightarrow> outcome" where
  "op_BEQ i pcAfter m = nxt (if reg m (rs i) = reg m (rt i) then branch_target i m else pcAfter) m"

definition op_BGEZ :: "Instruction \<Rightarrow> 32 word \<Rightarrow> Machine \<Rightarrow> outcome" where
  "op_BGEZ i pcAfter m = nxt (if reg m (rs i) AND SIGN_BIT = 0 then branch_target i m else pcAfter) m"

definition op_BGEZAL :: "Instruction \<Rightarrow> 32 word \<Rightarrow> Machine \<Rightarrow> outcome" where
  "op_BGEZAL i pcAfter m = op_BGEZ i pcAfter (setreg R31 (reg m NextPCReg + 4) m)"

definition op_BGTZ :: "Instruction \<Rightarrow> 32 word \<Rightarrow> Machine \<Rightarrow> outcome" where
  "op_BGTZ i pcAfter m = nxt (if sint (reg m (rs i)) > 0 then branch_target i m else pcAfter) m"

definition op_BLEZ :: "Instruction \<Rightarrow> 32 word \<Rightarrow> Machine \<Rightarrow> outcome" where
  "op_BLEZ i pcAfter m = nxt (if sint (reg m (rs i)) \<le> 0 then branch_target i m else pcAfter) m"

definition op_BLTZ :: "Instruction \<Rightarrow> 32 word \<Rightarrow> Machine \<Rightarrow> outcome" where
  "op_BLTZ i pcAfter m = nxt (if reg m (rs i) AND SIGN_BIT \<noteq> 0 then branch_target i m else pcAfter) m"

definition op_BLTZAL :: "Instruction \<Rightarrow> 32 word \<Rightarrow> Machine \<Rightarrow> outcome" where
  "op_BLTZAL i pcAfter m = op_BLTZ i pcAfter (setreg R31 (reg m NextPCReg + 4) m)"

definition op_BNE :: "Instruction \<Rightarrow> 32 word \<Rightarrow> Machine \<Rightarrow> outcome" where
  "op_BNE i pcAfter m = nxt (if reg m (rs i) \<noteq> reg m (rt i) then branch_target i m else pcAfter) m"

text \<open>The quotient of the least integer by -1 does not fit: the host's division traps.\<close>

definition op_DIV :: "Instruction \<Rightarrow> 32 word \<Rightarrow> Machine \<Rightarrow> outcome" where
  "op_DIV i pcAfter m =
     (let a = sint (reg m (rs i)); b = sint (reg m (rt i)) in
      if b = 0 then nxt pcAfter (setreg HiReg 0 (setreg LoReg 0 m))
      else requireE ArithTrap (\<not> (a = - (2 ^ 31) \<and> b = -1))
        (nxt pcAfter (setreg HiReg (word_of_int (a smod b)) (setreg LoReg (word_of_int (a sdiv b)) m))))"

definition op_DIVU :: "Instruction \<Rightarrow> 32 word \<Rightarrow> Machine \<Rightarrow> outcome" where
  "op_DIVU i pcAfter m =
     (let a = reg m (rs i); b = reg m (rt i) in
      if b = 0 then nxt pcAfter (setreg HiReg 0 (setreg LoReg 0 m))
      else nxt pcAfter (setreg HiReg (a mod b) (setreg LoReg (a div b) m)))"

definition op_J :: "Instruction \<Rightarrow> 32 word \<Rightarrow> Machine \<Rightarrow> outcome" where
  "op_J i pcAfter m = nxt ((pcAfter AND 0xf0000000) OR IndexToAddr (extra i)) m"

definition op_JAL :: "Instruction \<Rightarrow> 32 word \<Rightarrow> Machine \<Rightarrow> outcome" where
  "op_JAL i pcAfter m = op_J i pcAfter (setreg R31 (reg m NextPCReg + 4) m)"

definition op_JR :: "Instruction \<Rightarrow> 32 word \<Rightarrow> Machine \<Rightarrow> outcome" where
  "op_JR i pcAfter m = nxt (reg m (rs i)) m"

definition op_JALR :: "Instruction \<Rightarrow> 32 word \<Rightarrow> Machine \<Rightarrow> outcome" where
  "op_JALR i pcAfter m = op_JR i pcAfter (setreg (rd i) (reg m NextPCReg + 4) m)"

text \<open>A load of the value \<open>f v\<close>, to appear in \<open>rt\<close> after the next instruction.\<close>

definition load_then ::
  "32 word \<Rightarrow> nat \<Rightarrow> Machine \<Rightarrow> (32 word \<Rightarrow> Machine \<Rightarrow> outcome) \<Rightarrow> outcome" where
  "load_then addr sz m k =
     bindE (ReadMem addr sz m) (\<lambda>(v, m). case v of None \<Rightarrow> Inr (None, m) | Some v \<Rightarrow> k v m)"

definition delayed :: "Instruction \<Rightarrow> 32 word \<Rightarrow> 32 word \<Rightarrow> Machine \<Rightarrow> outcome" where
  "delayed i pcAfter v m = Inr (Some (pcAfter, of_nat (rt i), v), m)"

definition op_LB :: "Instruction \<Rightarrow> 32 word \<Rightarrow> Machine \<Rightarrow> outcome" where
  "op_LB i pcAfter m =
     load_then (reg m (rs i) + extra i) 1 m (\<lambda>v m.
       delayed i pcAfter (if v AND 0x80 \<noteq> 0 \<and> opCode i = OP_LB then v OR 0xffffff00 else v AND 0xff) m)"

definition op_LH :: "Instruction \<Rightarrow> 32 word \<Rightarrow> Machine \<Rightarrow> outcome" where
  "op_LH i pcAfter m =
     (let tmp = reg m (rs i) + extra i in
      if tmp AND 1 \<noteq> 0 then trap AddressErrorException tmp m
      else load_then tmp 2 m (\<lambda>v m.
        delayed i pcAfter (if v AND 0x8000 \<noteq> 0 \<and> opCode i = OP_LH then v OR 0xffff0000 else v AND 0xffff) m))"

definition op_LUI :: "Instruction \<Rightarrow> 32 word \<Rightarrow> Machine \<Rightarrow> outcome" where
  "op_LUI i pcAfter m = nxt pcAfter (setreg (rt i) (push_bit 16 (extra i)) m)"

definition op_LW :: "Instruction \<Rightarrow> 32 word \<Rightarrow> Machine \<Rightarrow> outcome" where
  "op_LW i pcAfter m =
     (let tmp = reg m (rs i) + extra i in
      if tmp AND 3 \<noteq> 0 then trap AddressErrorException tmp m
      else load_then tmp 4 m (\<lambda>v m. delayed i pcAfter v m))"

text \<open>The value a partial-word load starts from: that of a load still pending into \<open>rt\<close>, if any.\<close>

definition pending_rt :: "Instruction \<Rightarrow> Machine \<Rightarrow> 32 word" where
  "pending_rt i m = (if reg m LoadReg = of_nat (rt i) then reg m LoadValueReg else reg m (rt i))"

definition op_LWL :: "Instruction \<Rightarrow> 32 word \<Rightarrow> Machine \<Rightarrow> outcome" where
  "op_LWL i pcAfter m =
     (let tmp = reg m (rs i) + extra i in
      ASSERT (tmp AND 3 = 0) (load_then tmp 4 m (\<lambda>v m.
        let old = pending_rt i m in
        delayed i pcAfter
          (if tmp AND 3 = 0 then v
           else if tmp AND 3 = 1 then (old AND 0xff) OR push_bit 8 v
           else if tmp AND 3 = 2 then (old AND 0xffff) OR push_bit 16 v
           else (old AND 0xffffff) OR push_bit 24 v) m)))"

definition op_LWR :: "Instruction \<Rightarrow> 32 word \<Rightarrow> Machine \<Rightarrow> outcome" where
  "op_LWR i pcAfter m =
     (let tmp = reg m (rs i) + extra i in
      ASSERT (tmp AND 3 = 0) (load_then tmp 4 m (\<lambda>v m.
        let old = pending_rt i m in
        delayed i pcAfter
          (if tmp AND 3 = 0 then (old AND 0xffffff00) OR (signed_drop_bit 24 v AND 0xff)
           else if tmp AND 3 = 1 then (old AND 0xffff0000) OR (signed_drop_bit 16 v AND 0xffff)
           else if tmp AND 3 = 2 then (old AND 0xff000000) OR (signed_drop_bit 8 v AND 0xffffff)
           else v) m)))"

definition op_MFHI :: "Instruction \<Rightarrow> 32 word \<Rightarrow> Machine \<Rightarrow> outcome" where
  "op_MFHI i pcAfter m = nxt pcAfter (setreg (rd i) (reg m HiReg) m)"

definition op_MFLO :: "Instruction \<Rightarrow> 32 word \<Rightarrow> Machine \<Rightarrow> outcome" where
  "op_MFLO i pcAfter m = nxt pcAfter (setreg (rd i) (reg m LoReg) m)"

definition op_MTHI :: "Instruction \<Rightarrow> 32 word \<Rightarrow> Machine \<Rightarrow> outcome" where
  "op_MTHI i pcAfter m = nxt pcAfter (setreg HiReg (reg m (rs i)) m)"

definition op_MTLO :: "Instruction \<Rightarrow> 32 word \<Rightarrow> Machine \<Rightarrow> outcome" where
  "op_MTLO i pcAfter m = nxt pcAfter (setreg LoReg (reg m (rs i)) m)"

definition op_MULT :: "Instruction \<Rightarrow> 32 word \<Rightarrow> Machine \<Rightarrow> outcome" where
  "op_MULT i pcAfter m =
     (let (hi, lo) = Mult (reg m (rs i)) (reg m (rt i)) True in
      nxt pcAfter (setreg LoReg lo (setreg HiReg hi m)))"

definition op_MULTU :: "Instruction \<Rightarrow> 32 word \<Rightarrow> Machine \<Rightarrow> outcome" where
  "op_MULTU i pcAfter m =
     (let (hi, lo) = Mult (reg m (rs i)) (reg m (rt i)) False in
      nxt pcAfter (setreg LoReg lo (setreg HiReg hi m)))"

definition op_NOR :: "Instruction \<Rightarrow> 32 word \<Rightarrow> Machine \<Rightarrow> outcome" where
  "op_NOR i pcAfter m = nxt pcAfter (setreg (rd i) (NOT (reg m (rs i) OR reg m (rt i))) m)"

text \<open>The source combines \<^verbatim>\<open>rs\<close> with itself.\<close>

definition op_OR :: "Instruction \<Rightarrow> 32 word \<Rightarrow> Machine \<Rightarrow> outcome" where
  "op_OR i pcAfter m = nxt pcAfter (setreg (rd i) (reg m (rs i) OR reg m (rs i)) m)"

definition op_ORI :: "Instruction \<Rightarrow> 32 word \<Rightarrow> Machine \<Rightarrow> outcome" where
  "op_ORI i pcAfter m = nxt pcAfter (setreg (rt i) (reg m (rs i) OR (extra i AND 0xffff)) m)"

definition store_then :: "32 word \<Rightarrow> nat \<Rightarrow> 32 word \<Rightarrow> 32 word \<Rightarrow> Machine \<Rightarrow> outcome" where
  "store_then addr sz v pcAfter m =
     bindE (WriteMem addr sz v m) (\<lambda>(ok, m). if \<not> ok then Inr (None, m) else nxt pcAfter m)"

definition op_SB :: "Instruction \<Rightarrow> 32 word \<Rightarrow> Machine \<Rightarrow> outcome" where
  "op_SB i pcAfter m = store_then (reg m (rs i) + extra i) 1 (reg m (rt i)) pcAfter m"

definition op_SH :: "Instruction \<Rightarrow> 32 word \<Rightarrow> Machine \<Rightarrow> outcome" where
  "op_SH i pcAfter m = store_then (reg m (rs i) + extra i) 2 (reg m (rt i)) pcAfter m"

definition op_SLL :: "Instruction \<Rightarrow> 32 word \<Rightarrow> Machine \<Rightarrow> outcome" where
  "op_SLL i pcAfter m = nxt pcAfter (setreg (rd i) (push_bit (unat (extra i)) (reg m (rt i))) m)"

definition op_SLLV :: "Instruction \<Rightarrow> 32 word \<Rightarrow> Machine \<Rightarrow> outcome" where
  "op_SLLV i pcAfter m =
     nxt pcAfter (setreg (rd i) (push_bit (unat (reg m (rs i) AND 0x1f)) (reg m (rt i))) m)"

definition op_SLT :: "Instruction \<Rightarrow> 32 word \<Rightarrow> Machine \<Rightarrow> outcome" where
  "op_SLT i pcAfter m =
     nxt pcAfter (setreg (rd i) (if sint (reg m (rs i)) < sint (reg m (rt i)) then 1 else 0) m)"

definition op_SLTI :: "Instruction \<Rightarrow> 32 word \<Rightarrow> Machine \<Rightarrow> outcome" where
  "op_SLTI i pcAfter m =
     nxt pcAfter (setreg (rt i) (if sint (reg m (rs i)) < sint (extra i) then 1 else 0) m)"

definition op_SLTIU :: "Instruction \<Rightarrow> 32 word \<Rightarrow> Machine \<Rightarrow> outcome" where
  "op_SLTIU i pcAfter m = nxt pcAfter (setreg (rt i) (if reg m (rs i) < extra i then 1 else 0) m)"

definition op_SLTU :: "Instruction \<Rightarrow> 32 word \<Rightarrow> Machine \<Rightarrow> outcome" where
  "op_SLTU i pcAfter m = nxt pcAfter (setreg (rd i) (if reg m (rs i) < reg m (rt i) then 1 else 0) m)"

definition op_SRA :: "Instruction \<Rightarrow> 32 word \<Rightarrow> Machine \<Rightarrow> outcome" where
  "op_SRA i pcAfter m = nxt pcAfter (setreg (rd i) (signed_drop_bit (unat (extra i)) (reg m (rt i))) m)"

definition op_SRAV :: "Instruction \<Rightarrow> 32 word \<Rightarrow> Machine \<Rightarrow> outcome" where
  "op_SRAV i pcAfter m =
     nxt pcAfter (setreg (rd i) (signed_drop_bit (unat (reg m (rs i) AND 0x1f)) (reg m (rt i))) m)"

text \<open>In the source the shifted variable \<^verbatim>\<open>tmp\<close> is a signed \<^verbatim>\<open>int\<close>.\<close>

definition op_SRL :: "Instruction \<Rightarrow> 32 word \<Rightarrow> Machine \<Rightarrow> outcome" where
  "op_SRL i pcAfter m = nxt pcAfter (setreg (rd i) (signed_drop_bit (unat (extra i)) (reg m (rt i))) m)"

definition op_SRLV :: "Instruction \<Rightarrow> 32 word \<Rightarrow> Machine \<Rightarrow> outcome" where
  "op_SRLV i pcAfter m =
     nxt pcAfter (setreg (rd i) (signed_drop_bit (unat (reg m (rs i) AND 0x1f)) (reg m (rt i))) m)"

definition op_SUB :: "Instruction \<Rightarrow> 32 word \<Rightarrow> Machine \<Rightarrow> outcome" where
  "op_SUB i pcAfter m =
     (let diff = reg m (rs i) - reg m (rt i) in
      if (reg m (rs i) XOR reg m (rt i)) AND SIGN_BIT \<noteq> 0 \<and> (reg m (rs i) XOR diff) AND SIGN_BIT \<noteq> 0
      then trap OverflowException 0 m
      else nxt pcAfter (setreg (rd i) diff m))"

definition op_SUBU :: "Instruction \<Rightarrow> 32 word \<Rightarrow> Machine \<Rightarrow> outcome" where
  "op_SUBU i pcAfter m = nxt pcAfter (setreg (rd i) (reg m (rs i) - reg m (rt i)) m)"

definition op_SW :: "Instruction \<Rightarrow> 32 word \<Rightarrow> Machine \<Rightarrow> outcome" where
  "op_SW i pcAfter m = store_then (reg m (rs i) + extra i) 4 (reg m (rt i)) pcAfter m"

definition op_SWL :: "Instruction \<Rightarrow> 32 word \<Rightarrow> Machine \<Rightarrow> outcome" where
  "op_SWL i pcAfter m =
     (let tmp = reg m (rs i) + extra i in
      ASSERT (tmp AND 3 = 0) (load_then (tmp AND NOT 3) 4 m (\<lambda>v m.
        store_then (tmp AND NOT 3) 4
          (if tmp AND 3 = 0 then reg m (rt i)
           else if tmp AND 3 = 1 then (v AND 0xff000000) OR (signed_drop_bit 8 (reg m (rt i)) AND 0xffffff)
           else if tmp AND 3 = 2 then (v AND 0xffff0000) OR (signed_drop_bit 16 (reg m (rt i)) AND 0xffff)
           else (v AND 0xffffff00) OR (signed_drop_bit 24 (reg m (rt i)) AND 0xff)) pcAfter m)))"

definition op_SWR :: "Instruction \<Rightarrow> 32 word \<Rightarrow> Machine \<Rightarrow> outcome" where
  "op_SWR i pcAfter m =
     (let tmp = reg m (rs i) + extra i in
      ASSERT (tmp AND 3 = 0) (load_then (tmp AND NOT 3) 4 m (\<lambda>v m.
        store_then (tmp AND NOT 3) 4
          (if tmp AND 3 = 0 then (v AND 0xffffff) OR push_bit 24 (reg m (rt i))
           else if tmp AND 3 = 1 then (v AND 0xffff) OR push_bit 16 (reg m (rt i))
           else if tmp AND 3 = 2 then (v AND 0xff) OR push_bit 8 (reg m (rt i))
           else reg m (rt i)) pcAfter m)))"

definition op_SYSCALL :: "Instruction \<Rightarrow> 32 word \<Rightarrow> Machine \<Rightarrow> outcome" where
  "op_SYSCALL i pcAfter m = trap SyscallException 0 m"

definition op_XOR :: "Instruction \<Rightarrow> 32 word \<Rightarrow> Machine \<Rightarrow> outcome" where
  "op_XOR i pcAfter m = nxt pcAfter (setreg (rd i) (reg m (rs i) XOR reg m (rt i)) m)"

definition op_XORI :: "Instruction \<Rightarrow> 32 word \<Rightarrow> Machine \<Rightarrow> outcome" where
  "op_XORI i pcAfter m = nxt pcAfter (setreg (rt i) (reg m (rs i) XOR (extra i AND 0xffff)) m)"

definition op_illegal :: "Instruction \<Rightarrow> 32 word \<Rightarrow> Machine \<Rightarrow> outcome" where
  "op_illegal i pcAfter m = trap IllegalInstrException 0 m"

text \<open>The \<^verbatim>\<open>switch\<close> on the opcode.\<close>

definition exec_op :: "Instruction \<Rightarrow> 32 word \<Rightarrow> Machine \<Rightarrow> outcome" where
  "exec_op i pcAfter m =
     (case opCode i of
        OP_ADD \<Rightarrow> op_ADD i pcAfter m
      | OP_ADDI \<Rightarrow> op_ADDI i pcAfter m
      | OP_ADDIU \<Rightarrow> op_ADDIU i pcAfter m
      | OP_ADDU \<Rightarrow> op_ADDU i pcAfter m
      | OP_AND \<Rightarrow> op_AND i pcAfter m
      | OP_ANDI \<Rightarrow> op_ANDI i pcAfter m
      | OP_BEQ \<Rightarrow> op_BEQ i pcAfter m
      | OP_BGEZ \<Rightarrow> op_BGEZ i pcAfter m
      | OP_BGEZAL \<Rightarrow> op_BGEZAL i pcAfter m
      | OP_BGTZ \<Rightarrow> op_BGTZ i pcAfter m
      | OP_BLEZ \<Rightarrow> op_BLEZ i pcAfter m
      | OP_BLTZ \<Rightarrow> op_BLTZ i pcAfter m
      | OP_BLTZAL \<Rightarrow> op_BLTZAL i pcAfter m
      | OP_BNE \<Rightarrow> op_BNE i pcAfter m
      | OP_DIV \<Rightarrow> op_DIV i pcAfter m
      | OP_DIVU \<Rightarrow> op_DIVU i pcAfter m
      | OP_J \<Rightarrow> op_J i pcAfter m
      | OP_JAL \<Rightarrow> op_JAL i pcAfter m
      | OP_JALR \<Rightarrow> op_JALR i pcAfter m
      | OP_JR \<Rightarrow> op_JR i pcAfter m
      | OP_LB \<Rightarrow> op_LB i pcAfter m
      | OP_LBU \<Rightarrow> op_LB i pcAfter m
      | OP_LH \<Rightarrow> op_LH i pcAfter m
      | OP_LHU \<Rightarrow> op_LH i pcAfter m
      | OP_LUI \<Rightarrow> op_LUI i pcAfter m
      | OP_LW \<Rightarrow> op_LW i pcAfter m
      | OP_LWL \<Rightarrow> op_LWL i pcAfter m
      | OP_LWR \<Rightarrow> op_LWR i pcAfter m
      | OP_MFHI \<Rightarrow> op_MFHI i pcAfter m
      | OP_MFLO \<Rightarrow> op_MFLO i pcAfter m
      | OP_MTHI \<Rightarrow> op_MTHI i pcAfter m
      | OP_MTLO \<Rightarrow> op_MTLO i pcAfter m
      | OP_MULT \<Rightarrow> op_MULT i pcAfter m
      | OP_MULTU \<Rightarrow> op_MULTU i pcAfter m
      | OP_NOR \<Rightarrow> op_NOR i pcAfter m
      | OP_OR \<Rightarrow> op_OR i pcAfter m
      | OP_ORI \<Rightarrow> op_ORI i pcAfter m
      | OP_SB \<Rightarrow> op_SB i pcAfter m
      | OP_SH \<Rightarrow> op_SH i pcAfter m
      | OP_SLL \<Rightarrow> op_SLL i pcAfter m
      | OP_SLLV \<Rightarrow> op_SLLV i pcAfter m
      | OP_SLT \<Rightarrow> op_SLT i pcAfter m
      | OP_SLTI \<Rightarrow> op_SLTI i pcAfter m
      | OP_SLTIU \<Rightarrow> op_SLTIU i pcAfter m
      | OP_SLTU \<Rightarrow> op_SLTU i pcAfter m
      | OP_SRA \<Rightarrow> op_SRA i pcAfter m
      | OP_SRAV \<Rightarrow> op_SRAV i pcAfter m
      | OP_SRL \<Rightarrow> op_SRL i pcAfter m
      | OP_SRLV \<Rightarrow> op_SRLV i pcAfter m
      | OP_SUB \<Rightarrow> op_SUB i pcAfter m
      | OP_SUBU \<Rightarrow> op_SUBU i pcAfter m
      | OP_SW \<Rightarrow> op_SW i pcAfter m
      | OP_SWL \<Rightarrow> op_SWL i pcAfter m
      | OP_SWR \<Rightarrow> op_SWR i pcAfter m
      | OP_XOR \<Rightarrow> op_XOR i pcAfter m
      | OP_XORI \<Rightarrow> op_XORI i pcAfter m
      | OP_SYSCALL \<Rightarrow> op_SYSCALL i pcAfter m
      | OP_UNIMP \<Rightarrow> op_illegal i pcAfter m
      | OP_RES \<Rightarrow> op_illegal i pcAfter m
      | _ \<Rightarrow> Inl AssertFailed)"

section \<open>One instruction\<close>

definition OneInstruction :: "Machine \<Rightarrow> Machine result" where
  "OneInstruction m =
     bindE (ReadMem (reg m PCReg) 4 m) (\<lambda>(raw, m).
       case raw of
         None \<Rightarrow> Inr m
       | Some v \<Rightarrow>
           let i = Decode v; pcAfter = reg m NextPCReg + 4 in
           bindE (exec_op i pcAfter m) (\<lambda>(r, m).
             case r of
               None \<Rightarrow> Inr m
             | Some (pcAfter, nextLoadReg, nextLoadValue) \<Rightarrow>
                 bindE (DelayedLoad nextLoadReg nextLoadValue m) (\<lambda>m.
                   let m = setreg PrevPCReg (reg m PCReg) m;
                       m = setreg PCReg (reg m NextPCReg) m
                   in Inr (setreg NextPCReg pcAfter m))))"

section \<open>Registers through memory accesses and traps\<close>

lemma setreg_registers [simp]: "registers (setreg r v m) = (registers m)(r := v)"
  by (simp add: setreg_def)

lemma Translate_entry_ok:
  "Translate_entry e off sz w = Inr (r, e') \<Longrightarrow> physicalPage e' = physicalPage e"
  by (auto simp: Translate_entry_def Let_def result_simps split: if_splits)

lemma Translate_scan_registers:
  assumes "foldE (Translate_scan vpn) is (e, m) = Inr (e', m')"
  shows "registers m' = registers m"
proof -
  have "registers (snd (e', m')) = registers m"
    by (rule foldE_invariant [OF assms, where P = "\<lambda>s. registers (snd s) = registers m"])
      (auto simp: Translate_scan_def Let_def result_simps split: if_splits)
  then show ?thesis by simp
qed

lemma Translate_registers: "Translate va sz w m = Inr (r, m') \<Longrightarrow> registers m' = registers m"
  by (auto simp: Translate_def Let_def result_simps split: if_splits option.splits prod.splits
      dest!: Translate_scan_registers)

lemma swap_registers:
  "swap_read a p m = Inr m' \<Longrightarrow> registers m' = registers m"
  "swap_write bs p m = Inr m' \<Longrightarrow> registers m' = registers m"
  by (auto simp: swap_read_def swap_write_def result_simps split: option.splits)

lemma LRU_registers: "LRU m = Inr m' \<Longrightarrow> registers m' = registers m"
  by (auto simp: LRU_def Let_def result_simps split: option.splits dest!: swap_registers)

text \<open>The register file after \<^verbatim>\<open>DelayedLoad\<close>.\<close>

definition delayed_regs :: "32 word \<Rightarrow> 32 word \<Rightarrow> (nat \<Rightarrow> 32 word) \<Rightarrow> nat \<Rightarrow> 32 word" where
  "delayed_regs nr nv r = r(unat (r LoadReg) := r LoadValueReg, LoadReg := nr, LoadValueReg := nv, 0 := 0)"

lemma DelayedLoad_registers:
  "DelayedLoad nr nv m = Inr m' \<Longrightarrow> registers m' = delayed_regs nr nv (registers m)"
  by (auto simp: DelayedLoad_def Let_def delayed_regs_def result_simps fun_eq_iff split: if_splits)

lemma RaiseException_registers:
  assumes "RaiseException e bad m = Inr m'"
  shows "registers m' = delayed_regs 0 0 ((registers m)(BadVAddrReg := bad))"
proof -
  from assms obtain m1 m2 where m: "DelayedLoad 0 0 (setreg BadVAddrReg bad m) = Inr m1"
    "ExceptionHandler e (m1\<lparr>mstatus := SystemMode\<rparr>) = Inr m2" "m' = m2\<lparr>mstatus := UserMode\<rparr>"
    by (auto simp: RaiseException_def result_simps)
  have "registers m2 = registers m1"
    using m(2) by (auto simp: ExceptionHandler_def result_simps split: if_splits dest: LRU_registers)
  then show ?thesis using DelayedLoad_registers [OF m(1)] m(3) by simp
qed

lemma ReadMem_registers:
  assumes "ReadMem a sz m = Inr (r, m')"
  shows "case r of None \<Rightarrow> registers m' = delayed_regs 0 0 ((registers m)(BadVAddrReg := a))
    | Some v \<Rightarrow> registers m' = registers m"
  using assms
  by (auto simp: ReadMem_def result_simps split: if_splits option.splits prod.splits
      dest!: Translate_registers RaiseException_registers)

lemma WriteMem_registers:
  assumes "WriteMem a sz v m = Inr (r, m')"
  shows "if r then registers m' = registers m else registers m' = delayed_regs 0 0 ((registers m)(BadVAddrReg := a))"
  using assms
  by (auto simp: WriteMem_def result_simps split: if_splits prod.splits
      dest!: Translate_registers RaiseException_registers)

text \<open>
  What every instruction does to the control registers: if it finishes, it has
  only written registers below 34 and starts a delayed load into a general
  register; if it traps, the register file is that of the start of the
  instruction with the pending load completed.
\<close>

definition step_ok :: "Machine \<Rightarrow> outcome \<Rightarrow> bool" where
  "step_ok m out \<longleftrightarrow> (\<forall>r m'. out = Inr (r, m') \<longrightarrow>
     (case r of
        None \<Rightarrow> \<exists>bad. registers m' = delayed_regs 0 0 ((registers m)(BadVAddrReg := bad))
      | Some (pc, nr, nv) \<Rightarrow> unat nr < 32 \<and> (\<forall>k\<ge>34. registers m' k = registers m k)))"

named_theorems step_rules \<open>rules for the effect of one instruction on the control registers\<close>

lemma step_ok_nxt [step_rules]: "(\<And>k. 34 \<le> k \<Longrightarrow> registers m' k = registers m k) \<Longrightarrow> step_ok m (nxt pc m')"
  by (simp add: step_ok_def nxt_def)

lemma step_ok_trap [step_rules]: "step_ok m (trap e bad m)"
  by (auto simp: step_ok_def trap_def result_simps dest: RaiseException_registers)

lemma step_ok_delayed [step_rules]:
  "rt i < 32 \<Longrightarrow> (\<And>k. 34 \<le> k \<Longrightarrow> registers m' k = registers m k) \<Longrightarrow> step_ok m (delayed i pc v m')"
  by (simp add: step_ok_def delayed_def unat_of_nat)

lemma step_ok_load [step_rules]:
  assumes "\<And>v m'. registers m' = registers m \<Longrightarrow> step_ok m (k v m')"
  shows "step_ok m (load_then a sz m k)"
proof -
  have "case r of
        None \<Rightarrow> \<exists>bad. registers m' = delayed_regs 0 0 ((registers m)(BadVAddrReg := bad))
      | Some (pc, nr, nv) \<Rightarrow> unat nr < 32 \<and> (\<forall>k\<ge>34. registers m' k = registers m k)"
    if out: "load_then a sz m k = Inr (r, m')" for r m'
  proof -
    obtain v m1 where rd: "ReadMem a sz m = Inr (v, m1)"
      "(case v of None \<Rightarrow> Inr (None, m1) | Some v \<Rightarrow> k v m1) = Inr (r, m')"
      using out by (auto simp: load_then_def result_simps)
    show ?thesis
    proof (cases v)
      case None
      then show ?thesis using rd ReadMem_registers [OF rd(1)] by auto
    next
      case (Some x)
      then have "step_ok m (k x m1)" using assms ReadMem_registers [OF rd(1)] by simp
      then show ?thesis using rd(2) Some by (auto simp: step_ok_def)
    qed
  qed
  then show ?thesis by (simp add: step_ok_def)
qed

lemma step_ok_store [step_rules]:
  assumes "registers m' = registers m"
  shows "step_ok m (store_then a sz v pc m')"
  using assms by (auto simp: step_ok_def store_then_def nxt_def result_simps split: if_splits
      dest!: WriteMem_registers)

lemma step_ok_ASSERT [step_rules]: "(b \<Longrightarrow> step_ok m k) \<Longrightarrow> step_ok m (ASSERT b k)"
  by (cases b) (simp_all add: step_ok_def)

lemma step_ok_requireE [step_rules]: "(b \<Longrightarrow> step_ok m k) \<Longrightarrow> step_ok m (requireE e b k)"
  by (cases b) (simp_all add: step_ok_def)

lemmas op_defs =
  op_ADD_def op_ADDI_def op_ADDIU_def op_ADDU_def op_AND_def op_ANDI_def op_BEQ_def op_BGEZ_def
  op_BGEZAL_def op_BGTZ_def op_BLEZ_def op_BLTZ_def op_BLTZAL_def op_BNE_def op_DIV_def op_DIVU_def
  op_J_def op_JAL_def op_JR_def op_JALR_def op_LB_def op_LH_def op_LUI_def op_LW_def op_LWL_def
  op_LWR_def op_MFHI_def op_MFLO_def op_MTHI_def op_MTLO_def op_MULT_def op_MULTU_def op_NOR_def
  op_OR_def op_ORI_def op_SB_def op_SH_def op_SLL_def op_SLLV_def op_SLT_def op_SLTI_def
  op_SLTIU_def op_SLTU_def op_SRA_def op_SRAV_def op_SRL_def op_SRLV_def op_SUB_def op_SUBU_def
  op_SW_def op_SWL_def op_SWR_def op_SYSCALL_def op_XOR_def op_XORI_def op_illegal_def

lemma step_ok_exec:
  assumes "rs i < 32" "rt i < 32" "rd i < 32"
  shows "step_ok m (exec_op i pc m)"
proof -
  have fault: "step_ok m (Inl f)" for f by (simp add: step_ok_def)
  show ?thesis
    using assms fault
    by (cases "opCode i") (auto simp: exec_op_def op_defs Let_def split: prod.splits intro!: step_rules)
qed

definition regs_ok :: "Machine \<Rightarrow> bool" where
  "regs_ok m \<longleftrightarrow> registers m 0 = 0 \<and> unat (registers m LoadReg) < 32"

lemma regs_ok_delayed: "unat nr < 32 \<Longrightarrow> registers m' = delayed_regs nr nv r \<Longrightarrow> regs_ok m'"
  by (simp add: regs_ok_def delayed_regs_def)

text \<open>The two ways an instruction can end.\<close>

lemma OneInstruction_cases:
  assumes "OneInstruction m = Inr m'"
  obtains (trapped) bad where "registers m' = delayed_regs 0 0 ((registers m)(BadVAddrReg := bad))"
  | (completed) m1 :: Machine and pc nr nv where "unat nr < 32" "\<forall>k\<ge>34. registers m1 k = registers m k"
      "registers m' = (delayed_regs nr nv (registers m1))
         (PrevPCReg := delayed_regs nr nv (registers m1) PCReg,
          PCReg := delayed_regs nr nv (registers m1) NextPCReg, NextPCReg := pc)"
proof -
  from assms obtain raw m0 where fetch: "ReadMem (reg m PCReg) 4 m = Inr (raw, m0)"
    by (auto simp: OneInstruction_def result_simps)
  note f = ReadMem_registers [OF fetch]
  show thesis
  proof (cases raw)
    case None
    then show thesis using f fetch assms trapped by (auto simp: OneInstruction_def)
  next
    case (Some v)
    then have regs: "registers m0 = registers m" using f by simp
    from assms Some fetch obtain r m1 where ex:
      "exec_op (Decode v) (reg m0 NextPCReg + 4) m0 = Inr (r, m1)"
      by (auto simp: OneInstruction_def result_simps)
    have ok: "step_ok m0 (exec_op (Decode v) (reg m0 NextPCReg + 4) m0)"
      by (rule step_ok_exec) simp_all
    show thesis
    proof (cases r)
      case None
      then show thesis
        using ok ex regs assms Some fetch trapped by (auto simp: OneInstruction_def step_ok_def)
    next
      case (Some t)
      obtain pc nr nv where t: "t = (pc, nr, nv)" by (cases t)
      have "unat nr < 32" "\<forall>k\<ge>34. registers m1 k = registers m k"
        using ok ex regs Some t by (auto simp: step_ok_def)
      moreover obtain m2 where "DelayedLoad nr nv m1 = Inr m2"
          "m' = (let m = setreg PrevPCReg (reg m2 PCReg) m2; m = setreg PCReg (reg m NextPCReg) m
                in setreg NextPCReg pc m)"
        using assms \<open>raw = Some v\<close> fetch ex Some t by (auto simp: OneInstruction_def result_simps)
      then have "registers m' = (delayed_regs nr nv (registers m1))
         (PrevPCReg := delayed_regs nr nv (registers m1) PCReg,
          PCReg := delayed_regs nr nv (registers m1) NextPCReg, NextPCReg := pc)"
        using DelayedLoad_registers [of nr nv m1 m2] by (simp add: Let_def)
      ultimately show thesis using completed by blast
    qed
  qed
qed

section \<open>Signs and overflow\<close>

lemma sign_iff: "w AND 0x80000000 \<noteq> 0 \<longleftrightarrow> sint w < 0" for w :: "32 word"
  using uint32_bounds [of w] by (simp add: sign_bit_iff sint32)

lemma sign_xor: "(x XOR y) AND 0x80000000 \<noteq> 0 \<longleftrightarrow> (sint x < 0) \<noteq> (sint y < 0)" for x y :: "32 word"
proof -
  have b: "w AND 0x80000000 \<noteq> 0 \<longleftrightarrow> bit w 31" for w :: "32 word"
    by (simp add: sign_bit_iff bit31_iff [symmetric] bit_uint_iff)
  show ?thesis unfolding sign_iff [symmetric] b bit_xor_iff by blast
qed

text \<open>The three overflow tests of the source are exact.\<close>

definition signed_view :: "int \<Rightarrow> int" where
  "signed_view x = (if 2147483648 \<le> x then x - 4294967296 else x)"

lemma add_overflow_int:
  fixes x y z :: int
  assumes "0 \<le> x" "x < 4294967296" "0 \<le> y" "y < 4294967296"
    "z = (if x + y < 4294967296 then x + y else x + y - 4294967296)"
  shows "((signed_view x < 0) = (signed_view y < 0)) \<and> ((signed_view x < 0) \<noteq> (signed_view z < 0)) \<longleftrightarrow>
    \<not> (- 2147483648 \<le> signed_view x + signed_view y \<and> signed_view x + signed_view y < 2147483648)"
  using assms by (auto simp: signed_view_def split: if_splits)

lemma sub_overflow_int:
  fixes x y z :: int
  assumes "0 \<le> x" "x < 4294967296" "0 \<le> y" "y < 4294967296"
    "z = (if y \<le> x then x - y else x - y + 4294967296)"
  shows "((signed_view x < 0) \<noteq> (signed_view y < 0)) \<and> ((signed_view x < 0) \<noteq> (signed_view z < 0)) \<longleftrightarrow>
    \<not> (- 2147483648 \<le> signed_view x - signed_view y \<and> signed_view x - signed_view y < 2147483648)"
  using assms by (auto simp: signed_view_def split: if_splits)

lemma sint_signed_view: "sint w = signed_view (uint w)" for w :: "32 word"
  by (simp add: sint32 signed_view_def)

lemma add_overflow:
  fixes a b :: "32 word"
  shows "((sint a < 0) = (sint b < 0)) \<and> ((sint a < 0) \<noteq> (sint (a + b) < 0)) \<longleftrightarrow>
    \<not> (- (2 ^ 31) \<le> sint a + sint b \<and> sint a + sint b < 2 ^ 31)"
  using add_overflow_int [OF uint32_bounds [of a] uint32_bounds [of b] uint_plus32 [of a b]]
  by (simp add: sint_signed_view)

lemma uint_minus32:
  "uint (x - y) = (if uint y \<le> uint x then uint x - uint y else uint x - uint y + 4294967296)"
  for x y :: "32 word"
  using uint_sub_if' [of x y] by simp

lemma sub_overflow:
  fixes a b :: "32 word"
  shows "((sint a < 0) \<noteq> (sint b < 0)) \<and> ((sint a < 0) \<noteq> (sint (a - b) < 0)) \<longleftrightarrow>
    \<not> (- (2 ^ 31) \<le> sint a - sint b \<and> sint a - sint b < 2 ^ 31)"
  using sub_overflow_int [OF uint32_bounds [of a] uint32_bounds [of b] uint_minus32 [of a b]]
  by (simp add: sint_signed_view)

lemma sign_xor_eq: "(x XOR y) AND 0x80000000 = 0 \<longleftrightarrow> (sint x < 0) = (sint y < 0)" for x y :: "32 word"
  using sign_xor [of x y] by blast

lemma op_ADD_cases:
  "op_ADD i pc m = (let x = sint (registers m (rs i)) + sint (registers m (rt i)) in
     if - (2 ^ 31) \<le> x \<and> x < 2 ^ 31 then nxt pc (setreg (rd i) (word_of_int x) m)
     else trap OverflowException 0 m)"
  unfolding op_ADD_def Let_def sign_xor_eq
  using add_overflow [of "registers m (rs i)" "registers m (rt i)"] by auto

lemma op_ADDI_cases:
  "op_ADDI i pc m = (let x = sint (registers m (rs i)) + sint (extra i) in
     if - (2 ^ 31) \<le> x \<and> x < 2 ^ 31 then nxt pc (setreg (rt i) (word_of_int x) m)
     else trap OverflowException 0 m)"
  unfolding op_ADDI_def Let_def sign_xor_eq
  using add_overflow [of "extra i" "registers m (rs i)"] by (auto simp: add.commute)

lemma op_SUB_cases:
  "op_SUB i pc m = (let x = sint (registers m (rs i)) - sint (registers m (rt i)) in
     if - (2 ^ 31) \<le> x \<and> x < 2 ^ 31 then nxt pc (setreg (rd i) (word_of_int x) m)
     else trap OverflowException 0 m)"
  unfolding op_SUB_def Let_def sign_xor_eq
  using sub_overflow [of "registers m (rs i)" "registers m (rt i)"] by auto

section \<open>Properties\<close>

text \<open>
  The overflow traps of ADD, ADDI and SUB are exact: the instruction traps
  with an overflow exception if and only if the signed result does not fit in 32
  bits, and otherwise writes the destination with the exact signed result.
\<close>

theorem overflow_exact:
  fixes i :: Instruction and m :: Machine
  defines "fits \<equiv> \<lambda>x. - (2 ^ 31) \<le> x \<and> x < (2 ^ 31 :: int)"
  defines "a \<equiv> sint (registers m (rs i))" and "b \<equiv> sint (registers m (rt i))" and "c \<equiv> sint (extra i)"
  shows "(if fits (a + b) then op_ADD i pc m = nxt pc (setreg (rd i) (word_of_int (a + b)) m)
          else op_ADD i pc m = trap OverflowException 0 m) \<and>
    (if fits (a + c) then op_ADDI i pc m = nxt pc (setreg (rt i) (word_of_int (a + c)) m)
          else op_ADDI i pc m = trap OverflowException 0 m) \<and>
    (if fits (a - b) then op_SUB i pc m = nxt pc (setreg (rd i) (word_of_int (a - b)) m)
          else op_SUB i pc m = trap OverflowException 0 m)"
  unfolding op_ADD_cases op_ADDI_cases op_SUB_cases Let_def fits_def a_def b_def c_def by simp

text \<open>
  C28: control flow and precise exceptions.  From a state in which the pending load
  targets a general register, one instruction either completes, moving the old
  next-PC into the PC and the old PC into the previous-PC, or traps to the kernel
  and leaves the PC, the next-PC and every general register except the target of
  the pending load as they were, so that the instruction can be restarted.  In
  both cases register 0 is zero afterwards and the invariant holds again.
\<close>

theorem OneInstruction_control:
  assumes "regs_ok m" "OneInstruction m = Inr m'"
  shows "regs_ok m' \<and>
    (registers m' PCReg = registers m NextPCReg \<and> registers m' PrevPCReg = registers m PCReg \<or>
     registers m' PCReg = registers m PCReg \<and> registers m' NextPCReg = registers m NextPCReg \<and>
     (\<forall>r. 0 < r \<and> r < 34 \<longrightarrow> registers m' r =
        (if r = unat (registers m LoadReg) then registers m LoadValueReg else registers m r)))"
  using assms(2)
proof (cases rule: OneInstruction_cases)
  case (trapped bad)
  then show ?thesis
    using assms(1) regs_ok_delayed [OF _ trapped] by (auto simp: delayed_regs_def regs_ok_def)
next
  case (completed m1 pc nr nv)
  have "unat (registers m1 LoadReg) < 32" using assms(1) completed(2) by (simp add: regs_ok_def)
  then show ?thesis
    using completed by (auto simp: delayed_regs_def regs_ok_def)
qed

lemma OneInstruction_machine1: "\<exists>m'. OneInstruction machine1 = Inr m'"
proof -
  have al: "aligned 0 4" by (simp add: aligned_def)
  have z: "registers machine1 = (\<lambda>_. 0)" "mainMemory machine1 = (\<lambda>_. 0)"
    by (simp_all add: machine1_def machine0_def Machine_new_def)
  have "load_val 4 (phys 0 0 machine1) machine1 = 0"
    by (simp add: load_val_def mem_word_def z bytes_word_def)
  then have "ReadMem 0 4 machine1 = Inr (Some 0, hit_state 0 False machine1)"
    using ReadMem_hit [OF paging_ok_machine1 al mapped_machine1(1)] by simp
  moreover have "Decode 0 = \<lparr>ivalue = 0, opCode = OP_SLL, rs = 0, rt = 0, rd = 0, extra = 0\<rparr>"
    by (simp add: Decode_def opTable_def specialTable_def)
  ultimately show ?thesis
    by (simp add: OneInstruction_def z exec_op_def op_SLL_def nxt_def DelayedLoad_def Let_def)
qed

theorem OneInstruction_control_witness:
  "\<exists>m'. OneInstruction machine1 = Inr m' \<and> regs_ok m' \<and> registers m' PCReg = 0"
proof -
  obtain m' where m': "OneInstruction machine1 = Inr m'" using OneInstruction_machine1 by blast
  have z: "registers machine1 = (\<lambda>_. 0)" by (simp add: machine1_def machine0_def Machine_new_def)
  then have "regs_ok machine1" by (simp add: regs_ok_def)
  from OneInstruction_control [OF this m'] show ?thesis using m' z by auto
qed

lemma byte_extend:
  fixes x :: byte
  defines "v \<equiv> scast x :: 32 word"
  shows "v AND 0x80 \<noteq> 0 \<Longrightarrow> v OR 0xffffff00 = scast x" "v AND 0xff = ucast x"
    "v AND 0x80 = 0 \<Longrightarrow> ucast x = (scast x :: 32 word)"
proof -
  have m: "(0xff :: 32 word) = mask 8" "(0xffffff00 :: 32 word) = NOT (mask 8)" "(0x80 :: 32 word) = push_bit 7 1"
    by (simp_all add: mask_eq_exp_minus_1 push_bit_eq_mult)
  have bv: "bit v n \<longleftrightarrow> n < 32 \<and> bit x (min n 7)" for n by (auto simp: v_def bit_signed_iff min_def)
  have lo: "bit (0xff :: 32 word) n \<longleftrightarrow> n < 8" for n unfolding m bit_mask_iff by (auto simp: possible_bit_def)
  have hi: "bit (0xffffff00 :: 32 word) n \<longleftrightarrow> 8 \<le> n \<and> n < 32" for n
    unfolding m bit_not_iff bit_mask_iff by (auto simp: possible_bit_def)
  have b7: "bit (0x80 :: 32 word) n \<longleftrightarrow> n = 7" for n
    unfolding m bit_push_bit_iff bit_1_iff by (auto simp: possible_bit_def)
  have "v AND 0x80 \<noteq> 0 \<longleftrightarrow> (\<exists>n. bit (v AND 0x80) n)"
    by (metis bit_0_eq bit_eq_iff bot_apply bot_bool_def)
  also have "\<dots> \<longleftrightarrow> bit x 7" by (simp only: bit_and_iff b7 bv) auto
  finally have sign: "v AND 0x80 \<noteq> 0 \<longleftrightarrow> bit x 7" .
  have mid: "min n 7 = 7" if "8 \<le> n" for n :: nat using that by simp
  show "v OR 0xffffff00 = scast x" if "v AND 0x80 \<noteq> 0"
  proof -
    have "bit (v OR 0xffffff00) n = bit v n" for n
      using that sign mid [of n] by (simp only: bit_or_iff hi bv) auto
    then show ?thesis unfolding v_def by (intro bit_word_eqI) blast
  qed
  have hb: "\<not> bit x n" if "8 \<le> n" for n using that by (rule bit_byte_high)
  have ub: "bit (ucast x :: 32 word) n \<longleftrightarrow> n < 8 \<and> bit x n" for n
    using hb [of n] by (cases "n < 8") (auto simp: bit_unsigned_iff)
  have and_b: "bit (v AND 0xff) n \<longleftrightarrow> n < 8 \<and> bit x n" for n
  proof (cases "n < 8")
    case True
    then have "min n 7 = n" by simp
    then show ?thesis using True by (simp only: bit_and_iff lo bv) auto
  qed (simp only: bit_and_iff lo bv, simp)
  show "v AND 0xff = ucast x" by (rule bit_word_eqI) (simp only: and_b ub)
  show "ucast x = (scast x :: 32 word)" if "v AND 0x80 = 0"
  proof (rule bit_word_eqI)
    fix n assume n: "n < LENGTH(32)"
    have "\<not> bit x 7" using that sign by blast
    then have "bit v n \<longleftrightarrow> n < 8 \<and> bit x n"
      using n mid [of n] by (cases "n < 8") (auto simp: bv min_def)
    then show "bit (ucast x :: 32 word) n = bit (scast x :: 32 word) n" using ub unfolding v_def by blast
  qed
qed

lemma mem_half_low: "mem_half a m AND 0xffff = mem_half a m"
proof (rule bit_word_eqI)
  fix n assume "n < LENGTH(32)"
  have m: "(0xffff :: 32 word) = mask 16" by (simp add: mask_eq_exp_minus_1)
  have lo: "bit (0xffff :: 32 word) n \<longleftrightarrow> n < 16" unfolding m bit_mask_iff by (auto simp: possible_bit_def)
  have "n < 16" if "bit (mem_half a m) n"
  proof (rule ccontr)
    assume "\<not> n < 16"
    then have "8 \<le> n" "8 \<le> n - 8" by arith+
    then show False
      using that bit_byte_high [of n "mainMemory m a"] bit_byte_high [of "n - 8" "mainMemory m (a + 1)"]
      by (auto simp: mem_half_def bit_or_iff bit_push_bit_iff bit_unsigned_iff)
  qed
  then show "bit (mem_half a m AND 0xffff) n = bit (mem_half a m) n"
    by (simp only: bit_and_iff lo) blast
qed

lemma half_extend:
  "(if mem_half a m AND 0x8000 \<noteq> 0 then mem_half a m OR 0xffff0000 else mem_half a m AND 0xffff) =
     scast (ucast (mem_half a m) :: 16 word)"
  using sign_extend_imm [of "mem_half a m"] unfolding mem_half_low Let_def .

text \<open>
  Byte and halfword loads.  On a mapped address LB delivers the sign extension
  and LBU the zero extension of the byte in memory, and LH and LHU those of the
  little-endian halfword, to be loaded into \<^verbatim>\<open>rt\<close> after the next instruction.
\<close>

theorem loads_extend:
  fixes i :: Instruction and m :: Machine
  defines "a \<equiv> registers m (rs i) + extra i"
  assumes "paging_ok m" "mapped a j m"
  shows "op_LB i pc m = delayed i pc
      (if opCode i = OP_LB then scast (mainMemory m (phys a j m)) else ucast (mainMemory m (phys a j m)))
      (hit_state j False m) \<and>
    (aligned a 2 \<longrightarrow> op_LH i pc m = delayed i pc
      (if opCode i = OP_LH then scast (ucast (mem_half (phys a j m) m) :: 16 word)
       else mem_half (phys a j m) m) (hit_state j False m))"
proof
  have al: "aligned a 1" by (simp add: aligned_def)
  let ?x = "mainMemory m (phys a j m)"
  have "ReadMem a 1 m = Inr (Some (scast ?x), hit_state j False m)"
    using ReadMem_hit [OF assms(2) al assms(3)] by (simp add: load_val_def)
  then show "op_LB i pc m = delayed i pc (if opCode i = OP_LB then scast ?x else ucast ?x) (hit_state j False m)"
    using byte_extend [of ?x] by (auto simp: op_LB_def load_then_def a_def)
  show "aligned a 2 \<longrightarrow> op_LH i pc m = delayed i pc
      (if opCode i = OP_LH then scast (ucast (mem_half (phys a j m) m) :: 16 word)
       else mem_half (phys a j m) m) (hit_state j False m)"
  proof
    assume al: "aligned a 2"
    have "ReadMem a 2 m = Inr (Some (mem_half (phys a j m) m), hit_state j False m)"
      using ReadMem_hit [OF assms(2) al assms(3)] by (simp add: load_val_def)
    moreover have "a AND 1 = 0" using al by (simp add: aligned_def)
    ultimately show "op_LH i pc m = delayed i pc
      (if opCode i = OP_LH then scast (ucast (mem_half (phys a j m) m) :: 16 word)
       else mem_half (phys a j m) m) (hit_state j False m)"
      using half_extend [of "phys a j m" m] mem_half_low [of "phys a j m" m]
      by (cases "opCode i = OP_LH") (simp_all add: op_LH_def load_then_def Let_def a_def [symmetric])
  qed
qed

theorem loads_extend_witness:
  "op_LB \<lparr>ivalue = 0, opCode = OP_LB, rs = 0, rt = 3, rd = 0, extra = 5\<rparr> 8
      (machine1\<lparr>mainMemory := (\<lambda>_. 200)\<rparr>) =
    delayed \<lparr>ivalue = 0, opCode = OP_LB, rs = 0, rt = 3, rd = 0, extra = 5\<rparr> 8 (- 56)
      (hit_state 0 False (machine1\<lparr>mainMemory := (\<lambda>_. 200)\<rparr>))"
proof -
  let ?m = "machine1\<lparr>mainMemory := (\<lambda>_. 200)\<rparr>"
  let ?i = "\<lparr>ivalue = 0, opCode = OP_LB, rs = 0, rt = 3, rd = 0, extra = 5\<rparr>"
  have "paging_ok ?m" using paging_ok_machine1 by (simp add: paging_ok_def)
  moreover have "registers ?m 0 = 0" by (simp add: machine1_def machine0_def Machine_new_def)
  moreover have "mapped (registers ?m 0 + 5) 0 ?m"
    by (simp add: mapped_def entry_matches_def machine1_def machine0_def Machine_new_def)
  moreover have "(scast (200 :: byte) :: 32 word) = - 56" by simp
  ultimately show ?thesis using loads_extend [of ?m ?i 0 8] by simp
qed

text \<open>
  The logical right shifts SRL and SRLV shift in copies of the sign bit: for
  an operand with the top bit set and a shift distance from 1 to 31, the register
  written differs from the logical shift the architecture defines.
\<close>

theorem SRL_not_logical:
  assumes "bit (registers m (rt i)) 31" "0 < unat (extra i)" "unat (extra i) < 32"
  shows "\<exists>m'. op_SRL i pc m = nxt pc m' \<and> registers m' (rd i) \<noteq> drop_bit (unat (extra i)) (registers m (rt i))"
proof -
  let ?w = "registers m (rt i)"
  have "32 - unat (extra i) \<le> 31" using assms(2) by arith
  then have "bit (signed_drop_bit (unat (extra i)) ?w) 31" using assms by (simp add: bit_signed_drop_bit_iff)
  moreover have "\<not> bit (drop_bit (unat (extra i)) ?w) 31"
    using assms(2) bit_imp_le_length [of ?w "unat (extra i) + 31"] by (auto simp: bit_drop_bit_eq)
  ultimately have "signed_drop_bit (unat (extra i)) ?w \<noteq> drop_bit (unat (extra i)) ?w" by auto
  then show ?thesis by (auto simp: op_SRL_def)
qed

theorem SRL_not_logical_witness:
  "\<exists>m'. op_SRL \<lparr>ivalue = 0, opCode = OP_SRL, rs = 0, rt = 2, rd = 3, extra = 4\<rparr> 8
      (setreg 2 0x80000000 machine1) = nxt 8 m' \<and> registers m' 3 \<noteq> 0x08000000"
proof -
  have "(0x80000000 :: 32 word) = push_bit 31 1" by (simp add: push_bit_eq_mult)
  then have "bit (0x80000000 :: 32 word) 31" by (simp only: bit_push_bit_iff) simp
  then show ?thesis
    using SRL_not_logical [of "setreg 2 0x80000000 machine1"
        "\<lparr>ivalue = 0, opCode = OP_SRL, rs = 0, rt = 2, rd = 3, extra = 4\<rparr>" 8] by simp
qed

text \<open>
  The OR instruction ignores its second operand: the register written is the
  bitwise or of the operands only when every bit of \<^verbatim>\<open>rt\<close> is also set in \<^verbatim>\<open>rs\<close>.
\<close>

theorem OR_ignores_rt:
  "\<exists>m'. op_OR i pc m = nxt pc m' \<and>
     (registers m' (rd i) = registers m (rs i) OR registers m (rt i) \<longleftrightarrow>
      registers m (rt i) AND NOT (registers m (rs i)) = 0)"
proof -
  have "a = a OR b \<longleftrightarrow> b AND NOT a = 0" for a b :: "32 word"
  proof -
    have "a = a OR b \<longleftrightarrow> (\<forall>n. bit b n \<longrightarrow> bit a n)"
      using bit_imp_le_length [of b] by (fastforce simp: bit_eq_iff bit_or_iff)
    also have "\<dots> \<longleftrightarrow> b AND NOT a = 0"
      using bit_imp_le_length [of b] by (auto simp: bit_eq_iff bit_and_iff bit_not_iff possible_bit_def)
    finally show ?thesis .
  qed
  then show ?thesis
    by (intro exI [of _ "setreg (rd i) (registers m (rs i)) m"]) (simp add: op_OR_def)
qed

end
