(* ===== verification/Virtual_Memory.thy ===== *)
theory Virtual_Memory
  imports Mips_Sim
begin

text \<open>
  Demand paging as a whole: page table, frames and swap file together behave as a flat
  array of bytes.

  An instruction whose access faults is not completed; \<^verbatim>\<open>Machine::Run\<close> executes it again
  after the handler has returned.  \<open>retry_read\<close> and \<open>retry_write\<close> are such accesses.  They
  are compared with loads and stores on a function from addresses to bytes.
\<close>

section \<open>Accesses that are repeated after a fault\<close>

definition retry_read :: "32 word \<Rightarrow> nat \<Rightarrow> Machine \<Rightarrow> (32 word \<times> Machine) result" where
  "retry_read va sz m =
     bindE (ReadMem va sz m) (\<lambda>(r, m). case r of Some v \<Rightarrow> Inr (v, m)
       | None \<Rightarrow> bindE (ReadMem va sz m) (\<lambda>(r, m). case r of Some v \<Rightarrow> Inr (v, m) | None \<Rightarrow> Inl Diverges))"

definition retry_write :: "32 word \<Rightarrow> nat \<Rightarrow> 32 word \<Rightarrow> Machine \<Rightarrow> Machine result" where
  "retry_write va sz v m =
     bindE (WriteMem va sz v m) (\<lambda>(ok, m). if ok then Inr m
       else bindE (WriteMem va sz v m) (\<lambda>(ok, m). if ok then Inr m else Inl Diverges))"

datatype access = Load "32 word" nat | Store "32 word" nat "32 word"

fun vm_run :: "access list \<Rightarrow> Machine \<Rightarrow> (32 word list \<times> Machine) result" where
  "vm_run [] m = Inr ([], m)"
| "vm_run (Load va sz # xs) m =
     bindE (retry_read va sz m) (\<lambda>(v, m). bindE (vm_run xs m) (\<lambda>(vs, m). Inr (v # vs, m)))"
| "vm_run (Store va sz v # xs) m = bindE (retry_write va sz v m) (vm_run xs)"

section \<open>The flat memory\<close>

definition flat_load :: "nat \<Rightarrow> nat \<Rightarrow> (nat \<Rightarrow> byte) \<Rightarrow> 32 word" where
  "flat_load sz a A = (if sz = 1 then scast (A a)
     else if sz = 2 then ucast (A a) OR push_bit 8 (ucast (A (a + 1)))
     else bytes_word [A a, A (a + 1), A (a + 2), A (a + 3)])"

definition flat_store :: "nat \<Rightarrow> byte list \<Rightarrow> (nat \<Rightarrow> byte) \<Rightarrow> nat \<Rightarrow> byte" where
  "flat_store a bs A = (\<lambda>x. if a \<le> x \<and> x < a + length bs then bs ! (x - a) else A x)"

fun flat_run :: "access list \<Rightarrow> (nat \<Rightarrow> byte) \<Rightarrow> 32 word list \<times> (nat \<Rightarrow> byte)" where
  "flat_run [] A = ([], A)"
| "flat_run (Load va sz # xs) A = (case flat_run xs A of (vs, A') \<Rightarrow> (flat_load sz (unat va) A # vs, A'))"
| "flat_run (Store va sz v # xs) A = flat_run xs (flat_store (unat va) (store_val sz v) A)"

fun access_ok :: "nat \<Rightarrow> access \<Rightarrow> bool" where
  "access_ok L (Load va sz) \<longleftrightarrow> aligned va sz \<and> unat va < L"
| "access_ok L (Store va sz v) \<longleftrightarrow> aligned va sz \<and> unat va < L"

section \<open>The abstraction\<close>

definition live :: "nat \<Rightarrow> Machine \<Rightarrow> bool" where
  "live i m \<longleftrightarrow> i < NumPhysPages \<and> valid_bit (pageTable m ! i)"

definition frame_of :: "nat \<Rightarrow> Machine \<Rightarrow> nat" where
  "frame_of i m = unat (physicalPage (pageTable m ! i))"

definition vpage :: "nat \<Rightarrow> Machine \<Rightarrow> nat" where
  "vpage i m = unat (virtualPage (pageTable m ! i))"

text \<open>
  \<open>vm_holds L A m\<close>: the machine holds the bytes \<open>A\<close> of an address space of \<open>L\<close> bytes that
  belongs to the current thread.  A page with an entry is in the frame of the entry, any
  other page in the swap file.
\<close>

definition vm_holds :: "nat \<Rightarrow> (nat \<Rightarrow> byte) \<Rightarrow> Machine \<Rightarrow> bool" where
  "vm_holds L A m \<longleftrightarrow> paging_ok m \<and> 128 dvd L \<and> L \<le> 2 ^ 31 \<and>
     (\<forall>i. live i m \<longrightarrow> pt_tid (pageTable m ! i) = curTid m \<and> vpage i m * 128 < L) \<and>
     (\<forall>i k. live i m \<and> k < 128 \<longrightarrow> mainMemory m (frame_of i m * 128 + k) = A (vpage i m * 128 + k)) \<and>
     (\<exists>f. swap m = Some f \<and> L \<le> fsize f \<and> (\<forall>a<L. (\<forall>i. live i m \<longrightarrow> vpage i m \<noteq> a div 128) \<longrightarrow> fbytes f a = A a))"

lemma vm_holdsD:
  assumes "vm_holds L A m"
  shows "paging_ok m" "128 dvd L" "L \<le> 2147483648"
    and "\<And>i. live i m \<Longrightarrow> pt_tid (pageTable m ! i) = curTid m"
    and "\<And>i. live i m \<Longrightarrow> vpage i m * 128 < L"
    and "\<And>i k. live i m \<Longrightarrow> k < 128 \<Longrightarrow> mainMemory m (frame_of i m * 128 + k) = A (vpage i m * 128 + k)"
    and "\<exists>f. swap m = Some f \<and> L \<le> fsize f \<and> (\<forall>a<L. (\<forall>i. live i m \<longrightarrow> vpage i m \<noteq> a div 128) \<longrightarrow> fbytes f a = A a)"
  using assms unfolding vm_holds_def by auto

lemma vm_holdsI:
  assumes "paging_ok m" "128 dvd L" "L \<le> 2147483648"
    and "\<And>i. live i m \<Longrightarrow> pt_tid (pageTable m ! i) = curTid m \<and> vpage i m * 128 < L"
    and "\<And>i k. live i m \<Longrightarrow> k < 128 \<Longrightarrow> mainMemory m (frame_of i m * 128 + k) = A (vpage i m * 128 + k)"
    and "swap m = Some f" "L \<le> fsize f"
    and "\<And>a. a < L \<Longrightarrow> \<forall>i. live i m \<longrightarrow> vpage i m \<noteq> a div 128 \<Longrightarrow> fbytes f a = A a"
  shows "vm_holds L A m"
  using assms unfolding vm_holds_def by simp

lemma unat_page: "unat (va div 128) = unat va div 128" "unat (va mod 128) = unat va mod 128" for va :: "32 word"
  by (simp_all add: unat_div unat_mod)

lemma mapped_iff_live:
  assumes "vm_holds L A m"
  shows "mapped va i m \<longleftrightarrow> live i m \<and> vpage i m = unat va div 128"
proof -
  have "virtualPage (pageTable m ! i) = va div 128 \<longleftrightarrow> vpage i m = unat va div 128"
    unfolding vpage_def unat_page(1) [symmetric] by (simp add: word_unat_eq_iff)
  then show ?thesis
    using vm_holdsD(4) [OF assms, of i] by (auto simp: mapped_def entry_matches_def live_def)
qed

text \<open>Addresses of one page.\<close>

lemma page_split:
  fixes a k :: nat
  assumes "a mod 128 + k < 128"
  shows "(a + k) div 128 = a div 128" "(a + k) mod 128 = a mod 128 + k"
proof -
  have "a + k = (a mod 128 + k) + a div 128 * 128" using div_mult_mod_eq [of a 128] by linarith
  then show "(a + k) div 128 = a div 128" "(a + k) mod 128 = a mod 128 + k"
    using assms by (metis div_mult_self1 div_less add.left_neutral zero_neq_numeral add.commute)
      (metis \<open>a + k = (a mod 128 + k) + a div 128 * 128\<close> assms mod_less mod_mult_self1)
qed

lemma frames_apart:
  assumes "paging_ok m" "live i m" "live j m" "i \<noteq> j"
  shows "frame_of i m \<noteq> frame_of j m"
  using paging_okD(8) [OF assms(1), of i j] assms(2-4) unfolding frame_of_def live_def
  by (auto simp: word_unat_eq_iff)

lemma pages_apart:
  assumes "vm_holds L A m" "live i m" "live j m" "i \<noteq> j"
  shows "vpage i m \<noteq> vpage j m"
  using paging_okD(8) [OF vm_holdsD(1) [OF assms(1)], of i j] assms(2-4) vm_holdsD(4) [OF assms(1)]
  unfolding vpage_def live_def by (auto simp: word_unat_eq_iff)

section \<open>Hits\<close>

lemma live_hit [simp]: "live j (hit_state i w m) = live j m" "frame_of j (hit_state i w m) = frame_of j m"
  "vpage j (hit_state i w m) = vpage j m"
  by (simp_all add: live_def frame_of_def vpage_def)

lemma live_store [simp]: "live j (store_bytes a bs m) = live j m" "frame_of j (store_bytes a bs m) = frame_of j m"
  "vpage j (store_bytes a bs m) = vpage j m"
  by (simp_all add: live_def frame_of_def vpage_def)

lemma vm_holds_hit:
  assumes "vm_holds L A m" "mapped va i m"
  shows "vm_holds L A (hit_state i w m)"
  using assms paging_ok_hit [OF vm_holdsD(1) [OF assms(1)] assms(2), of w] unfolding vm_holds_def by simp

lemma phys_frame: "phys va i m = frame_of i m * 128 + unat va mod 128"
  by (simp add: phys_def frame_of_def unat_page)

lemma load_hit:
  assumes "vm_holds L A m" "aligned va sz" "mapped va i m"
  shows "load_val sz (phys va i m) m = flat_load sz (unat va) A"
proof -
  have i: "live i m" "vpage i m = unat va div 128" using assms(3) by (simp_all add: mapped_iff_live [OF assms(1)])
  have "mainMemory m (phys va i m + k) = A (unat va + k)" if "k < sz" for k
  proof -
    have "unat va mod 128 + k < 128" using aligned_in_page [OF assms(2)] that by (simp add: unat_page)
    then have "mainMemory m (frame_of i m * 128 + (unat va mod 128 + k)) = A (vpage i m * 128 + (unat va mod 128 + k))"
      by (rule vm_holdsD(6) [OF assms(1) i(1)])
    then show ?thesis unfolding i(2) by (simp add: phys_frame flip: add.assoc)
  qed
  from this [of 0] this [of 1] this [of 2] this [of 3] show ?thesis
    using aligned_sizes [OF assms(2)]
    by (auto simp: load_val_def flat_load_def mem_half_def mem_word_def)
qed

lemma store_hit:
  assumes "vm_holds L A m" "aligned va sz" "mapped va i m" "length bs = sz"
  shows "vm_holds L (flat_store (unat va) bs A) (store_bytes (phys va i m) bs m)"
proof -
  note d = vm_holdsD [OF assms(1)]
  have i: "live i m" "vpage i m = unat va div 128" using assms(3) by (simp_all add: mapped_iff_live [OF assms(1)])
  have sz: "unat va mod 128 + sz \<le> 128" using aligned_in_page [OF assms(2)] by (simp add: unat_page)
  have va: "unat va = vpage i m * 128 + unat va mod 128" unfolding i(2) by simp
  have mem: "mainMemory (store_bytes (phys va i m) bs m) (frame_of j m * 128 + k) =
      flat_store (unat va) bs A (vpage j m * 128 + k)" if j: "live j m" and k: "k < 128" for j k
  proof (cases "j = i")
    case True
    have "unat va \<le> vpage i m * 128 + k \<longleftrightarrow> phys va i m \<le> frame_of i m * 128 + k"
      "vpage i m * 128 + k < unat va + length bs \<longleftrightarrow> frame_of i m * 128 + k < phys va i m + length bs"
      "vpage i m * 128 + k - unat va = frame_of i m * 128 + k - phys va i m"
      using va unfolding phys_frame by linarith+
    then show ?thesis using d(6) [OF i(1) k] True by (simp add: store_bytes_def flat_store_def)
  next
    case False
    have "frame_of j m \<noteq> frame_of i m" "vpage j m \<noteq> vpage i m"
      using frames_apart [OF d(1) j i(1) False] pages_apart [OF assms(1) j i(1) False] .
    then have "\<not> (phys va i m \<le> frame_of j m * 128 + k \<and> frame_of j m * 128 + k < phys va i m + length bs)"
      "\<not> (unat va \<le> vpage j m * 128 + k \<and> vpage j m * 128 + k < unat va + length bs)"
      using sz k assms(4) va unfolding phys_frame by linarith+
    then show ?thesis using d(6) [OF j k] by (auto simp: store_bytes_def flat_store_def)
  qed
  have out: "flat_store (unat va) bs A a = A a" if "\<forall>j. live j m \<longrightarrow> vpage j m \<noteq> a div 128" for a
  proof -
    have "vpage i m \<noteq> a div 128" using that i(1) by blast
    then have "\<not> (unat va \<le> a \<and> a < unat va + length bs)"
      using sz va assms(4) div_mult_mod_eq [of a 128] mod_less_divisor [of 128 a] by linarith
    then show ?thesis by (auto simp: flat_store_def)
  qed
  obtain f where f: "swap m = Some f" "L \<le> fsize f"
    "\<And>a. a < L \<Longrightarrow> \<forall>i. live i m \<longrightarrow> vpage i m \<noteq> a div 128 \<Longrightarrow> fbytes f a = A a"
    using d(7) by blast
  show ?thesis
  proof (rule vm_holdsI [where f = f])
    show "fbytes f a = flat_store (unat va) bs A a"
      if "a < L" "\<forall>j. live j (store_bytes (phys va i m) bs m) \<longrightarrow> vpage j (store_bytes (phys va i m) bs m) \<noteq> a div 128" for a
      using f(3) [OF that(1)] out [of a] that(2) by simp
  qed (use d(1-5) f(1,2) mem in simp_all)
qed

section \<open>Faults\<close>

text \<open>The swap position of a page.\<close>

lemma sint_small: "unat w < 2147483648 \<Longrightarrow> sint w = int (unat w)" for w :: "32 word"
proof -
  assume "unat w < 2147483648"
  then have "uint w < 2147483648"
    unfolding unat_eq_nat_uint using nat_less_iff [of "uint w" 2147483648] by simp
  then show ?thesis by (simp add: sint32)
qed

lemma unat_times_128: "unat w * 128 < 2147483648 \<Longrightarrow> unat (w * 128) = unat w * 128" for w :: "32 word"
  using unat_mult_lem [of w 128] by simp

lemma swap_position: "unat w * 128 < 2147483648 \<Longrightarrow> nat (sint (w * 128)) = unat w * 128" for w :: "32 word"
proof -
  assume "unat w * 128 < 2147483648"
  then have "sint (w * 128) = int (unat w * 128)" using sint_small [of "w * 128"] unat_times_128 [of w] by metis
  then show ?thesis by (simp only: nat_int)
qed

lemma ReadPartial_full: "p + 128 \<le> fsize f \<Longrightarrow> ReadPartial p 128 f = map (fbytes f) [p..<p + 128]"
  by (simp add: ReadPartial_def)

lemma page_within: "128 dvd L \<Longrightarrow> p * 128 < L \<Longrightarrow> p * 128 + 128 \<le> L" for p L :: nat
proof -
  assume "128 dvd L" "p * 128 < L"
  then obtain q where "L = 128 * q" "p < q" by (auto elim!: dvdE)
  then show "p * 128 + 128 \<le> L" by simp
qed

text \<open>A page is brought into frame \<open>fr\<close> of entry \<open>i\<close>, from a swap file that holds it.\<close>

lemma vm_holds_install:
  assumes h: "vm_holds L A m" and ok: "paging_ok m'" and i: "mapped va i m'" and va: "unat va < L"
    and miss: "\<And>j. \<not> mapped va j m" and tid: "curTid m' = curTid m"
    and tab: "\<forall>j<32. j \<noteq> i \<longrightarrow> pageTable m' ! j = pageTable m ! j"
    and sw: "swap m' = Some f'" "L \<le> fsize f'"
    and f': "\<And>a. a < L \<Longrightarrow> (\<forall>j. live j m \<and> j \<noteq> i \<longrightarrow> vpage j m \<noteq> a div 128) \<Longrightarrow> fbytes f' a = A a"
    and mem: "mainMemory m' = mainMemory (store_bytes (frame_of i m' * 128) (ReadPartial (nat (sint (va div 128 * 128))) 128 f') m)"
  shows "vm_holds L A m'"
proof -
  note d = vm_holdsD [OF h]
  have page: "unat va div 128 * 128 + 128 \<le> L" using page_within [OF d(2), of "unat va div 128"] va
    by (metis div_times_less_eq_dividend le_less_trans)
  have pos: "nat (sint (va div 128 * 128)) = unat va div 128 * 128"
    using swap_position [of "va div 128"] page d(3) unfolding unat_page by linarith
  have li: "live i m'" "vpage i m' = unat va div 128" "pt_tid (pageTable m' ! i) = curTid m'"
    using i unfolding mapped_def entry_matches_def live_def vpage_def by (auto simp: unat_page)
  have old: "live j m" "frame_of j m' = frame_of j m" "vpage j m' = vpage j m" "pageTable m' ! j = pageTable m ! j"
    if "live j m'" "j \<noteq> i" for j
    using that tab by (auto simp: live_def frame_of_def vpage_def)
  have buf: "ReadPartial (nat (sint (va div 128 * 128))) 128 f' = map (fbytes f') [unat va div 128 * 128..<unat va div 128 * 128 + 128]"
    unfolding pos using page sw(2) by (intro ReadPartial_full) linarith
  have mem': "mainMemory m' x = (if frame_of i m' * 128 \<le> x \<and> x < frame_of i m' * 128 + 128
      then fbytes f' (unat va div 128 * 128 + (x - frame_of i m' * 128)) else mainMemory m x)" for x
    unfolding mem buf by (auto simp: store_bytes_def)
  have new: "fbytes f' (unat va div 128 * 128 + k) = A (unat va div 128 * 128 + k)" if "k < 128" for k
  proof (rule f')
    show "unat va div 128 * 128 + k < L" using page that by simp
    show "\<forall>j. live j m \<and> j \<noteq> i \<longrightarrow> vpage j m \<noteq> (unat va div 128 * 128 + k) div 128"
      using miss that by (simp add: mapped_iff_live [OF h])
  qed
  have r1: "mainMemory m' (frame_of j m' * 128 + k) = A (vpage j m' * 128 + k)" if j: "live j m'" and k: "k < 128" for j k
  proof (cases "j = i")
    case True
    then show ?thesis using new [OF k] k li(2) by (simp add: mem')
  next
    case False
    have "frame_of j m' \<noteq> frame_of i m'" by (rule frames_apart [OF ok j li(1) False])
    then have "\<not> (frame_of i m' * 128 \<le> frame_of j m' * 128 + k \<and> frame_of j m' * 128 + k < frame_of i m' * 128 + 128)"
      using k by linarith
    then show ?thesis using d(6) [OF old(1) [OF j False] k] old [OF j False] by (auto simp: mem')
  qed
  have r2: "pt_tid (pageTable m' ! j) = curTid m' \<and> vpage j m' * 128 < L" if j: "live j m'" for j
  proof (cases "j = i")
    case False
    then show ?thesis using d(4,5) [OF old(1) [OF j False]] old [OF j False] tid by simp
  qed (use li page in simp)
  have r3: "fbytes f' a = A a" if "a < L" "\<forall>j. live j m' \<longrightarrow> vpage j m' \<noteq> a div 128" for a
  proof (rule f' [OF that(1)])
    show "\<forall>j. live j m \<and> j \<noteq> i \<longrightarrow> vpage j m \<noteq> a div 128"
      using that(2) tab by (auto simp: live_def vpage_def)
  qed
  show ?thesis by (rule vm_holdsI [OF ok d(2,3) r2 r1 sw r3])
qed

text \<open>The handler \<^verbatim>\<open>Machine::LRU\<close> keeps the contents and maps the page; only the new entry may be unused.\<close>

definition used_but :: "nat \<Rightarrow> Machine \<Rightarrow> bool" where
  "used_but i m \<longleftrightarrow> (\<forall>j<NumPhysPages. j \<noteq> i \<and> valid_bit (pageTable m ! j) \<longrightarrow> use_bit (pageTable m ! j))"

lemma used_but_hit:
  assumes "used_but i m" "i < length (pageTable m)"
  shows "all_used (hit_state i w m)"
  using assms by (auto simp: all_used_def used_but_def hit_state_use)

lemma used_but_tab:
  "all_used m \<Longrightarrow> \<forall>j<32. j \<noteq> i \<longrightarrow> pageTable m' ! j = pageTable m ! j \<Longrightarrow> used_but i m'"
  by (auto simp: used_but_def all_used_def)

lemma fbytes_WriteFile_page:
  "fbytes (WriteFile p (mem_page fr m) f) a =
    (if p \<le> a \<and> a < p + 128 then mainMemory m (fr * 128 + (a - p)) else if a < fsize f then fbytes f a else 0)"
  "fsize (WriteFile p (mem_page fr m) f) = max (fsize f) (p + 128)"
  by (auto simp: WriteFile_def mem_page_def)

lemma LRU_holds:
  assumes h: "vm_holds L A m" and used: "all_used m" and va: "registers m BadVAddrReg = va" "unat va < L"
    and miss: "\<And>j. \<not> mapped va j m"
  shows "\<exists>m' i. LRU m = Inr m' \<and> vm_holds L A m' \<and> mapped va i m' \<and> used_but i m'"
proof -
  note d = vm_holdsD [OF h]
  obtain f where f: "swap m = Some f" "L \<le> fsize f"
    "\<And>a. a < L \<Longrightarrow> \<forall>i. live i m \<longrightarrow> vpage i m \<noteq> a div 128 \<Longrightarrow> fbytes f a = A a"
    using d(7) by blast
  have "unat va < 2147483648" using va(2) d(3) by simp
  then have va0: "0 \<le> sint va" by (simp add: sint_small)
  show ?thesis
  proof (cases "find (\<lambda>i. \<not> use_bit (pageTable m ! i)) pt_indices")
    case (Some i)
    from LRU_free_entry [OF d(1) used f(1) va(1) va0 miss Some]
    obtain m' where m': "LRU m = Inr m'" "paging_ok m'" "mapped va i m'" "swap m' = Some f"
      "\<forall>j<32. j \<noteq> i \<longrightarrow> pageTable m' ! j = pageTable m ! j" "curTid m' = curTid m"
      "mainMemory m' = mainMemory (store_bytes (frame_of i m' * 128) (ReadPartial (nat (sint (va div 128 * 128))) 128 f) m)"
      unfolding frame_of_def by blast
    have "\<not> live i m" using find_pt_Some [OF Some] used by (auto simp: live_def all_used_def)
    then have "vm_holds L A m'"
      by (intro vm_holds_install [OF h m'(2,3) va(2) miss m'(6,5,4) f(2) _ m'(7)] f(3)) auto
    then show ?thesis using m'(1,3) used_but_tab [OF used m'(5)] by blast
  next
    case None
    define v where "v = LRU_victim m"
    from LRU_evict [OF d(1) f(1) va(1) va0 miss None, folded v_def]
    obtain m' f' where m': "LRU m = Inr m'" "paging_ok m'" "mapped va v m'" "swap m' = Some f'"
      "\<forall>j<32. j \<noteq> v \<longrightarrow> pageTable m' ! j = pageTable m ! j" "curTid m' = curTid m"
      "physicalPage (pageTable m' ! v) = physicalPage (pageTable m ! v)"
      "f' = WriteFile (nat (sint (virtualPage (pageTable m ! v) * 128))) (mem_page (frame_of v m) m) f"
      "mainMemory m' = mainMemory (store_bytes (frame_of v m * 128) (ReadPartial (nat (sint (va div 128 * 128))) 128 f') m)"
      unfolding frame_of_def by blast
    have v: "v < 32" unfolding v_def by (rule LRU_victim_spec)
    then have live: "live v m" using paging_okD(10) [OF d(1) v] find_pt_None [OF None v] by (simp add: live_def)
    have "vpage v m * 128 < 2147483648" using d(5) [OF live] d(3) by simp
    then have pos: "nat (sint (virtualPage (pageTable m ! v) * 128)) = vpage v m * 128"
      unfolding vpage_def by (rule swap_position)
    have fr: "frame_of v m' = frame_of v m" using m'(7) by (simp add: frame_of_def)
    have big: "L \<le> fsize f'" unfolding m'(8) fbytes_WriteFile_page(2) using f(2) by simp
    have "fbytes f' a = A a" if a: "a < L" "\<forall>j. live j m \<and> j \<noteq> v \<longrightarrow> vpage j m \<noteq> a div 128" for a
    proof (cases "vpage v m = a div 128")
      case True
      then have "a = vpage v m * 128 + a mod 128" by simp
      moreover have "a mod 128 < 128" by simp
      ultimately show ?thesis using d(6) [OF live, of "a mod 128"]
        unfolding m'(8) pos fbytes_WriteFile_page by (metis add_diff_cancel_left' le_add1 nat_add_left_cancel_less)
    next
      case False
      then have "\<not> (vpage v m * 128 \<le> a \<and> a < vpage v m * 128 + 128)"
        using div_mult_mod_eq [of a 128] mod_less_divisor [of 128 a] by linarith
      moreover have "fbytes f a = A a" using f(3) [OF a(1)] a(2) False by metis
      ultimately show ?thesis using a(1) f(2) unfolding m'(8) pos fbytes_WriteFile_page by auto
    qed
    then have "vm_holds L A m'"
      using vm_holds_install [OF h m'(2,3) va(2) miss m'(6,5,4) big _ m'(9) [folded fr]] by blast
    then show ?thesis using m'(1,3) used_but_tab [OF used m'(5)] by blast
  qed
qed

text \<open>Registers, counters and status are not part of the contents.\<close>

lemma paging_fields [simp]:
  "paging_ok (m\<lparr>registers := r\<rparr>) = paging_ok m" "paging_ok (m\<lparr>mstatus := st\<rparr>) = paging_ok m"
  "paging_ok (m\<lparr>pagemiss := n\<rparr>) = paging_ok m" "paging_ok (m\<lparr>curTicks := n\<rparr>) = paging_ok m"
  by (simp_all add: paging_ok_def)

lemma holds_fields [simp]:
  "vm_holds L A (m\<lparr>registers := r\<rparr>) = vm_holds L A m" "vm_holds L A (m\<lparr>mstatus := st\<rparr>) = vm_holds L A m"
  "vm_holds L A (m\<lparr>pagemiss := n\<rparr>) = vm_holds L A m" "vm_holds L A (m\<lparr>curTicks := n\<rparr>) = vm_holds L A m"
  by (simp_all add: vm_holds_def live_def frame_of_def vpage_def)

lemma used_fields [simp]:
  "all_used (m\<lparr>registers := r\<rparr>) = all_used m" "all_used (m\<lparr>mstatus := st\<rparr>) = all_used m"
  "all_used (m\<lparr>pagemiss := n\<rparr>) = all_used m" "all_used (m\<lparr>curTicks := n\<rparr>) = all_used m"
  "used_but i (m\<lparr>mstatus := st\<rparr>) = used_but i m"
  by (simp_all add: all_used_def used_but_def)

lemma mapped_fields [simp]:
  "mapped va i (m\<lparr>registers := r\<rparr>) = mapped va i m" "mapped va i (m\<lparr>mstatus := st\<rparr>) = mapped va i m"
  "mapped va i (m\<lparr>pagemiss := n\<rparr>) = mapped va i m" "mapped va i (m\<lparr>curTicks := n\<rparr>) = mapped va i m"
  by (simp_all add: mapped_def entry_matches_def)

text \<open>A page fault as a whole, from \<^verbatim>\<open>RaiseException\<close> to its return.\<close>

lemma DelayedLoad_ok:
  "unat (registers m LoadReg) < 32 \<Longrightarrow> DelayedLoad nr nv m = Inr (m\<lparr>registers := delayed_regs nr nv (registers m)\<rparr>)"
  by (simp add: DelayedLoad_def Let_def delayed_regs_def setreg_def)

lemma page_fault_holds:
  assumes "vm_holds L A m" "all_used m" "regs_ok m" "unat va < L" "\<And>j. \<not> mapped va j m"
  shows "\<exists>m' i. RaiseException PageFaultException va m = Inr m' \<and> vm_holds L A m' \<and> mapped va i m' \<and>
    used_but i m' \<and> registers m' = delayed_regs 0 0 ((registers m)(BadVAddrReg := va)) \<and> regs_ok m'"
proof -
  let ?r = "delayed_regs 0 0 ((registers m)(BadVAddrReg := va))"
  let ?m = "m\<lparr>registers := ?r, mstatus := SystemMode\<rparr>"
  have load: "unat (registers m LoadReg) < 32" using assms(3) by (simp add: regs_ok_def)
  then have bad: "registers ?m BadVAddrReg = va" by (simp add: delayed_regs_def)
  obtain m1 i where m1: "LRU ?m = Inr m1" "vm_holds L A m1" "mapped va i m1" "used_but i m1"
    using LRU_holds [of L A ?m, OF _ _ bad assms(4)] assms(1,2,5) by auto
  have "RaiseException PageFaultException va m = Inr (m1\<lparr>mstatus := UserMode\<rparr>)"
    using m1(1) load by (simp add: RaiseException_def DelayedLoad_ok setreg_def ExceptionHandler_def ReadRegister_def)
  moreover from RaiseException_registers [OF this] have "registers (m1\<lparr>mstatus := UserMode\<rparr>) = ?r" .
  ultimately show ?thesis using m1 regs_ok_delayed [of 0 "m1\<lparr>mstatus := UserMode\<rparr>"] by auto
qed

lemma vm_length: "vm_holds L A m \<Longrightarrow> mapped va i m \<Longrightarrow> i < length (pageTable m)"
  using paging_okD(2) [OF vm_holdsD(1)] by (simp add: mapped_def)

lemma regs_ok_fields [simp]:
  "registers (hit_state i w m) = registers m" "regs_ok (hit_state i w m) = regs_ok m" "regs_ok (store_bytes a bs m) = regs_ok m" "regs_ok (m\<lparr>pagemiss := n\<rparr>) = regs_ok m"
  by (simp_all add: regs_ok_def hit_state_def)

lemma used_store [simp]: "all_used (store_bytes a bs m) = all_used m"
  by (simp add: all_used_def)

text \<open>An access to an address of the space either hits or faults, and the second attempt hits.\<close>

lemma read_attempt:
  assumes "vm_holds L A m" "regs_ok m" "aligned va sz" "mapped va i m" "used_but i m"
  shows "\<exists>m'. ReadMem va sz m = Inr (Some (flat_load sz (unat va) A), m') \<and>
    vm_holds L A m' \<and> all_used m' \<and> regs_ok m' \<and> registers m' = registers m"
  using ReadMem_hit [OF vm_holdsD(1) [OF assms(1)] assms(3,4)] load_hit [OF assms(1,3,4)]
    vm_holds_hit [OF assms(1,4), of False] used_but_hit [OF assms(5) vm_length [OF assms(1,4)], of False] assms(2)
  by auto

lemma write_attempt:
  assumes "vm_holds L A m" "regs_ok m" "aligned va sz" "mapped va i m" "used_but i m"
  shows "\<exists>m'. WriteMem va sz v m = Inr (True, m') \<and>
    vm_holds L (flat_store (unat va) (store_val sz v) A) m' \<and> all_used m' \<and> regs_ok m'"
proof -
  have sz: "length (store_val sz v) = sz" using aligned_sizes [OF assms(3)] by auto
  have m: "mapped va i (hit_state i True m)" "vm_holds L A (hit_state i True m)"
    using assms(4) vm_holds_hit [OF assms(1,4)] by simp_all
  show ?thesis
    using WriteMem_hit [OF vm_holdsD(1) [OF assms(1)] assms(3,4), of v] store_hit [OF m(2) assms(3) m(1) sz]
      used_but_hit [OF assms(5) vm_length [OF assms(1,4)], of True] assms(2)
    by simp
qed

lemma all_used_but: "all_used m \<Longrightarrow> used_but i m"
  by (simp add: all_used_def used_but_def)

lemma retry_read_ok:
  assumes "vm_holds L A m" "all_used m" "regs_ok m" "aligned va sz" "unat va < L"
  shows "\<exists>m'. retry_read va sz m = Inr (flat_load sz (unat va) A, m') \<and> vm_holds L A m' \<and> all_used m' \<and> regs_ok m'"
proof (cases "\<exists>i. mapped va i m")
  case True
  then obtain i where "mapped va i m" ..
  from read_attempt [OF assms(1,3,4) this all_used_but [OF assms(2)]] show ?thesis by (auto simp: retry_read_def)
next
  case False
  then obtain m1 i where m1: "RaiseException PageFaultException va (m\<lparr>pagemiss := pagemiss m + 1\<rparr>) = Inr m1"
    "vm_holds L A m1" "mapped va i m1" "used_but i m1" "regs_ok m1"
    using page_fault_holds [of L A "m\<lparr>pagemiss := pagemiss m + 1\<rparr>" va] assms by auto
  have "ReadMem va sz m = Inr (None, m1)"
    using Translate_miss [OF vm_holdsD(1) [OF assms(1)] assms(4), of False] False m1(1) by (simp add: ReadMem_def)
  then show ?thesis using read_attempt [OF m1(2,5) assms(4) m1(3,4)] by (auto simp: retry_read_def)
qed

lemma retry_write_ok:
  assumes "vm_holds L A m" "all_used m" "regs_ok m" "aligned va sz" "unat va < L"
  shows "\<exists>m'. retry_write va sz v m = Inr m' \<and> vm_holds L (flat_store (unat va) (store_val sz v) A) m' \<and> all_used m' \<and> regs_ok m'"
proof (cases "\<exists>i. mapped va i m")
  case True
  then obtain i where "mapped va i m" ..
  from write_attempt [OF assms(1,3,4) this all_used_but [OF assms(2)], of v] show ?thesis by (auto simp: retry_write_def)
next
  case False
  then obtain m1 i where m1: "RaiseException PageFaultException va (m\<lparr>pagemiss := pagemiss m + 1\<rparr>) = Inr m1"
    "vm_holds L A m1" "mapped va i m1" "used_but i m1" "regs_ok m1"
    using page_fault_holds [of L A "m\<lparr>pagemiss := pagemiss m + 1\<rparr>" va] assms by auto
  have "WriteMem va sz v m = Inr (False, m1)"
    using Translate_miss [OF vm_holdsD(1) [OF assms(1)] assms(4), of True] False m1(1) by (simp add: WriteMem_def)
  then show ?thesis using write_attempt [OF m1(2,5) assms(4) m1(3,4), of v] by (auto simp: retry_write_def)
qed

lemma vm_run_refines:
  assumes "vm_holds L A m" "all_used m" "regs_ok m" "list_all (access_ok L) xs"
  shows "yields (vm_run xs m) (\<lambda>(vs, m'). vs = fst (flat_run xs A) \<and> vm_holds L (snd (flat_run xs A)) m' \<and>
    all_used m' \<and> regs_ok m')"
  using assms
proof (induction xs arbitrary: A m)
  case (Cons x xs)
  show ?case
  proof (cases x)
    case (Load va sz)
    then obtain m1 where m1: "retry_read va sz m = Inr (flat_load sz (unat va) A, m1)" "vm_holds L A m1" "all_used m1" "regs_ok m1"
      using retry_read_ok [of L A m va sz] Cons.prems by auto
    from Cons.IH [OF m1(2-4)] Cons.prems(4) show ?thesis
      using m1(1) unfolding Load yields_def by (auto split: prod.splits)
  next
    case (Store va sz v)
    then obtain m1 where m1: "retry_write va sz v m = Inr m1" "vm_holds L (flat_store (unat va) (store_val sz v) A) m1"
      "all_used m1" "regs_ok m1"
      using retry_write_ok [of L A m va sz v] Cons.prems by auto
    from Cons.IH [OF m1(2-4)] Cons.prems(4) show ?thesis using m1(1) unfolding Store by simp
  qed
qed simp

section \<open>Properties\<close>


lemma machine0_holds: "vm_holds 1024 (\<lambda>_. 7) machine0" "regs_ok machine0"
proof -
  have "swap machine0 = Some \<lparr>fbytes = (\<lambda>_. 7), fsize = 1024\<rparr>" "\<not> live i machine0" for i
    by (auto simp: live_def machine0_def Machine_new_def empty_entry_def)
  then show "vm_holds 1024 (\<lambda>_. 7) machine0" 
    by (intro vm_holdsI [where f = "\<lparr>fbytes = (\<lambda>_. 7), fsize = 1024\<rparr>", OF paging_ok_machine0]) simp_all
  show "regs_ok machine0" by (simp add: regs_ok_def machine0_def Machine_new_def)
qed


end
