(* ===== verification/Program_Loader.thy ===== *)
theory Program_Loader
  imports Virtual_Memory
begin

text \<open>
  Loading and starting a user program: the NOFF format (\<^verbatim>\<open>bin/noff.h\<close>), the address space
  (\<^verbatim>\<open>userprog/addrspace.cc\<close>), \<^verbatim>\<open>StartProcess\<close> (\<^verbatim>\<open>userprog/progtest.cc\<close>), the loop of the
  simulator (\<^verbatim>\<open>Machine::Run\<close>) and the user registers of a thread.

  The executable is a file of the stub file system.  \<open>big\<close> says whether the host is
  big-endian.  The constructor reads the header into a local variable; what was on the stack
  there before is the argument \<open>stk\<close>, since a short file leaves part of it in place.
\<close>

section \<open>The NOFF header\<close>

record Segment =
  virtualAddr :: "32 word"
  inFileAddr :: "32 word"
  seg_size :: "32 word"

record NoffHeader =
  noffMagic :: "32 word"
  code_seg :: Segment
  initData :: Segment
  uninitData :: Segment

abbreviation (input) NOFFMAGIC :: "32 word" where "NOFFMAGIC \<equiv> 0xbadfad"
abbreviation (input) UserStackSize :: "32 word" where "UserStackSize \<equiv> 1024"

text \<open>The value the host gives to four bytes of memory, and the conversion of \<^verbatim>\<open>translate.cc\<close>.\<close>

definition host_word :: "bool \<Rightarrow> byte list \<Rightarrow> 32 word" where
  "host_word big bs = bytes_word (if big then rev bs else bs)"

definition WordToHost :: "bool \<Rightarrow> 32 word \<Rightarrow> 32 word" where
  "WordToHost big w =
    (if big then (drop_bit 24 w AND 0xff) OR (drop_bit 8 w AND 0xff00) OR (push_bit 8 w AND 0xff0000) OR
       (push_bit 24 w AND 0xff000000)
     else w)"

definition segment_of_bytes :: "bool \<Rightarrow> byte list \<Rightarrow> Segment" where
  "segment_of_bytes big bs = \<lparr>virtualAddr = host_word big (slice 0 4 bs), inFileAddr = host_word big (slice 4 4 bs),
     seg_size = host_word big (slice 8 4 bs)\<rparr>"

definition noff_of_bytes :: "bool \<Rightarrow> byte list \<Rightarrow> NoffHeader" where
  "noff_of_bytes big bs = \<lparr>noffMagic = host_word big (slice 0 4 bs), code_seg = segment_of_bytes big (slice 4 12 bs),
     initData = segment_of_bytes big (slice 16 12 bs), uninitData = segment_of_bytes big (slice 28 12 bs)\<rparr>"

definition swap_segment :: "bool \<Rightarrow> Segment \<Rightarrow> Segment" where
  "swap_segment big s = \<lparr>virtualAddr = WordToHost big (virtualAddr s), inFileAddr = WordToHost big (inFileAddr s),
     seg_size = WordToHost big (seg_size s)\<rparr>"

definition SwapHeader :: "bool \<Rightarrow> NoffHeader \<Rightarrow> NoffHeader" where
  "SwapHeader big h = \<lparr>noffMagic = WordToHost big (noffMagic h), code_seg = swap_segment big (code_seg h),
     initData = swap_segment big (initData h), uninitData = swap_segment big (uninitData h)\<rparr>"

section \<open>The address space\<close>

text \<open>One round of the copy loops: a byte travels through \<^verbatim>\<open>mainMemory[0]\<close> to the swap file.\<close>

definition copy_byte :: "OpenFileStub \<Rightarrow> 32 word \<times> 32 word \<times> Machine \<Rightarrow> (32 word \<times> 32 word \<times> Machine) result" where
  "copy_byte executable = (\<lambda>(pos, diskPos, m).
     bindE (Stub_ReadAt 1 (sint pos) executable) (\<lambda>bs.
     let m = store_bytes 0 bs m in
     bindE (swap_write [mainMemory m 0] diskPos m) (\<lambda>m. Inr (pos + 1, diskPos + 1, m))))"

definition copy_segment :: "OpenFileStub \<Rightarrow> Segment \<Rightarrow> 32 word \<times> Machine \<Rightarrow> (32 word \<times> Machine) result" where
  "copy_segment executable seg = (\<lambda>(diskPos, m).
     if sint (seg_size seg) > 0 then
       bindE (foldE (\<lambda>_. copy_byte executable) [0..<nat (sint (seg_size seg))] (inFileAddr seg, diskPos, m))
         (\<lambda>(_, diskPos, m). Inr (diskPos, m))
     else Inr (diskPos, m))"

text \<open>The constructor returns the member \<^verbatim>\<open>numPages\<close>; it never sets \<^verbatim>\<open>pageTable\<close>.\<close>

definition AddrSpace_new :: "bool \<Rightarrow> byte list \<Rightarrow> OpenFileStub \<Rightarrow> Machine \<Rightarrow> (32 word \<times> Machine) result" where
  "AddrSpace_new big stk executable m =
     bindE (Stub_ReadAt 40 0 executable) (\<lambda>bs.
     let noffH = noff_of_bytes big (bs @ drop (length bs) stk);
         noffH = (if noffMagic noffH \<noteq> NOFFMAGIC \<and> WordToHost big (noffMagic noffH) = NOFFMAGIC
                  then SwapHeader big noffH else noffH)
     in ASSERT (noffMagic noffH = NOFFMAGIC)
       (let sz = seg_size (code_seg noffH) + seg_size (initData noffH) + seg_size (uninitData noffH) + UserStackSize;
            numPages = sz div 128 + (if sz mod 128 > 0 then 1 else 0)
        in bindE (copy_segment executable (code_seg noffH) (0, m)) (\<lambda>(diskPos, m).
           bindE (copy_segment executable (initData noffH) (diskPos, m)) (\<lambda>(diskPos, m).
             Inr (numPages, m)))))"

definition InitRegisters :: "32 word \<Rightarrow> Machine \<Rightarrow> Machine result" where
  "InitRegisters numPages m =
     bindE (foldE (\<lambda>i. WriteRegister i 0) [0..int NumTotalRegs - 1] m) (\<lambda>m.
     bindE (WriteRegister (int PCReg) 0 m) (\<lambda>m.
     bindE (WriteRegister (int NextPCReg) 4 m) (\<lambda>m.
       WriteRegister (int StackReg) (numPages * 128 - 16) m)))"

section \<open>Running\<close>

text \<open>
  \<^verbatim>\<open>Machine::Run\<close> with a bound on the number of instructions; \<open>user_tick\<close> is
  \<^verbatim>\<open>Interrupt::OneTick\<close> while no device has an interrupt pending.
\<close>

definition user_tick :: "Machine \<Rightarrow> Machine" where
  "user_tick m = m\<lparr>curTicks := curTicks m + (if mstatus m = SystemMode then 10 else 1)\<rparr>"

fun Run_loop :: "nat \<Rightarrow> Machine \<Rightarrow> Machine result" where
  "Run_loop 0 m = Inr m"
| "Run_loop (Suc n) m = bindE (OneInstruction m) (\<lambda>m. Run_loop n (user_tick m))"

definition Machine_Run :: "nat \<Rightarrow> Machine \<Rightarrow> Machine result" where
  "Machine_Run n m = Run_loop n (m\<lparr>mstatus := UserMode\<rparr>)"

text \<open>
  \<open>host\<close> gives the file behind a name (\<^verbatim>\<open>OpenForReadWrite\<close>).  A name without a file is reported
  and the routine returns.
\<close>

definition StartProcess :: "(string \<Rightarrow> unix_file option) \<Rightarrow> bool \<Rightarrow> byte list \<Rightarrow> nat \<Rightarrow> string \<Rightarrow> Machine \<Rightarrow> Machine result" where
  "StartProcess host big stk n filename m =
    (case host filename of
       None \<Rightarrow> Inr m
     | Some f \<Rightarrow>
         bindE (AddrSpace_new big stk \<lparr>sfile = f, scurrentOffset = 0\<rparr> m) (\<lambda>(numPages, m).
         bindE (InitRegisters numPages m) (Machine_Run n)))"

text \<open>The user registers a thread keeps while another one runs.\<close>

definition SaveUserState :: "Machine \<Rightarrow> (32 word list) result" where
  "SaveUserState m = foldE (\<lambda>i regs. bindE (ReadRegister i m) (\<lambda>v. Inr (regs @ [v]))) [0..int NumTotalRegs - 1] []"

definition RestoreUserState :: "32 word list \<Rightarrow> Machine \<Rightarrow> Machine result" where
  "RestoreUserState regs m = foldE (\<lambda>i m. WriteRegister i (regs ! nat i) m) [0..int NumTotalRegs - 1] m"

section \<open>Byte order\<close>

lemma WordToHost_reverses:
  assumes "length bs = 4"
  shows "WordToHost True (bytes_word (rev bs)) = bytes_word bs"
proof -
  obtain a b c d where bs: "bs = [a, b, c, d]"
    using assms by (auto simp: numeral_eq_Suc length_Suc_conv)
  have "WordToHost True (bytes_word [d, c, b, a]) = bytes_word [a, b, c, d]"
  proof (rule bit_word_eqI)
    fix n assume n: "n < LENGTH(32)"
    have m: "(0xff :: 32 word) = mask 8" "(0xff00 :: 32 word) = push_bit 8 (mask 8)"
      "(0xff0000 :: 32 word) = push_bit 16 (mask 8)" "(0xff000000 :: 32 word) = push_bit 24 (mask 8)"
      by (simp_all add: mask_eq_exp_minus_1 push_bit_eq_mult)
    have out: "\<not> bit x k" if "8 \<le> k" for x :: byte and k using that bit_imp_le_length [of x k] by force
    consider "n < 8" | "8 \<le> n" "n < 16" | "16 \<le> n" "n < 24" | "24 \<le> n" by linarith
    then show "bit (WordToHost True (bytes_word [d, c, b, a])) n = bit (bytes_word [a, b, c, d]) n"
      using n unfolding WordToHost_def bytes_word_def m
      by cases (auto simp: bit_simps out)
  qed
  then show ?thesis by (simp add: bs)
qed

lemma WordToHost_host_word: "length bs = 4 \<Longrightarrow> WordToHost True (host_word True bs) = host_word False bs"
  using WordToHost_reverses by (simp add: host_word_def)

lemma SwapHeader_reads: "40 \<le> length bs \<Longrightarrow> SwapHeader True (noff_of_bytes True bs) = noff_of_bytes False bs"
  by (simp add: SwapHeader_def noff_of_bytes_def swap_segment_def segment_of_bytes_def WordToHost_host_word)

section \<open>Copying the segments\<close>

lemma WriteFile_Nil [simp]: "WriteFile p [] f = f"
  by (simp add: WriteFile_def)

lemma WriteFile_append: "WriteFile (p + length bs) [b] (WriteFile p bs f) = WriteFile p (bs @ [b]) f"
proof (cases "bs = []")
  case False
  then show ?thesis by (auto simp: WriteFile_def fun_eq_iff nth_append)
qed simp

lemma WriteFile_twice: "WriteFile (p + length bs) cs (WriteFile p bs f) = WriteFile p (bs @ cs) f"
proof (induction cs rule: rev_induct)
  case (snoc c cs)
  have "WriteFile (p + length bs) (cs @ [c]) g = WriteFile (p + length bs + length cs) [c] (WriteFile (p + length bs) cs g)" for g
    by (simp add: WriteFile_append)
  then have "WriteFile (p + length bs) (cs @ [c]) (WriteFile p bs f) =
      WriteFile (p + length (bs @ cs)) [c] (WriteFile p (bs @ cs) f)"
    using snoc by (simp add: add.assoc)
  then show ?case unfolding WriteFile_append by simp
qed simp

text \<open>\<open>loaded d bs m\<close>: the machine after the bytes \<open>bs\<close> have gone to position \<open>d\<close> of the swap file.\<close>

definition loaded :: "nat \<Rightarrow> byte list \<Rightarrow> Machine \<Rightarrow> Machine" where
  "loaded d bs m = m\<lparr>swap := map_option (WriteFile d bs) (swap m),
     mainMemory := (if bs = [] then mainMemory m else (mainMemory m)(0 := last bs))\<rparr>"

lemma loaded_Nil [simp]: "loaded d [] m = m"
  by (cases m; cases "swap m") (simp_all add: loaded_def)

lemma loaded_twice: "loaded (d + length bs) cs (loaded d bs m) = loaded d (bs @ cs) m"
  by (cases m) (auto simp: loaded_def option.map_comp comp_def WriteFile_twice cong: map_option_cong)

lemma of_nat_small: "n < 2147483648 \<Longrightarrow> sint (of_nat n :: 32 word) = int n"
proof -
  assume "n < 2147483648"
  moreover have "unat (of_nat n :: 32 word) = n" using calculation by (simp add: unat_of_nat)
  ultimately show ?thesis using sint_small [of "of_nat n"] by simp
qed

lemma copy_byte_ok:
  assumes "p < fsize (sfile e)" "p < 2147483648" "d < 2147483648" "swap m = Some f"
  shows "copy_byte e (of_nat p, of_nat d, m) = Inr (of_nat (Suc p), of_nat (Suc d), loaded d [fbytes (sfile e) p] m)"
proof -
  have r: "ReadPartial p (Suc 0) (sfile e) = [fbytes (sfile e) p]" using assms(1) by (simp add: ReadPartial_def)
  have "store_bytes 0 [b] m = m\<lparr>mainMemory := (mainMemory m)(0 := b)\<rparr>" for b
    by (auto simp: store_bytes_def fun_eq_iff intro!: arg_cong [where f = "\<lambda>g. m\<lparr>mainMemory := g\<rparr>"])
  then show ?thesis using assms of_nat_small [of p] of_nat_small [of d] r
    by (cases m) (simp add: copy_byte_def Stub_ReadAt_def Lseek_def swap_write_def loaded_def add.commute)
qed

lemma copy_loop:
  assumes "p + n \<le> fsize (sfile e)" "p + n \<le> 2147483648" "d + n \<le> 2147483648" "swap m \<noteq> None"
  shows "foldE (\<lambda>_. copy_byte e) [0..<n] (of_nat p, of_nat d, m) =
    Inr (of_nat (p + n), of_nat (d + n), loaded d (map (fbytes (sfile e)) [p..<p + n]) m)"
  using assms
proof (induction n)
  case (Suc n)
  let ?bs = "map (fbytes (sfile e)) [p..<p + n]"
  obtain f where "swap (loaded d ?bs m) = Some f" using Suc.prems(4) by (auto simp: loaded_def)
  moreover have "loaded (d + n) [b] (loaded d ?bs m) = loaded d (?bs @ [b]) m" for b
    using loaded_twice [of d ?bs "[b]" m] by simp
  ultimately show ?case using Suc copy_byte_ok [of "p + n" e "d + n" "loaded d ?bs m" f] by (simp add: foldE_append)
qed simp

section \<open>The contents of an executable\<close>

definition noff_header :: "unix_file \<Rightarrow> NoffHeader" where
  "noff_header f = noff_of_bytes False (map (fbytes f) [0..<40])"

definition seg_bytes :: "unix_file \<Rightarrow> Segment \<Rightarrow> byte list" where
  "seg_bytes f seg = map (fbytes f) [unat (inFileAddr seg)..<unat (inFileAddr seg) + unat (seg_size seg)]"

definition noff_image :: "unix_file \<Rightarrow> byte list" where
  "noff_image f = seg_bytes f (code_seg (noff_header f)) @ seg_bytes f (initData (noff_header f))"

definition noff_pages :: "unix_file \<Rightarrow> 32 word" where
  "noff_pages f = (let h = noff_header f;
     sz = seg_size (code_seg h) + seg_size (initData h) + seg_size (uninitData h) + UserStackSize
     in sz div 128 + (if sz mod 128 > 0 then 1 else 0))"

text \<open>A segment that is not empty lies inside the file.\<close>

definition seg_ok :: "unix_file \<Rightarrow> Segment \<Rightarrow> bool" where
  "seg_ok f seg \<longleftrightarrow> seg_size seg = 0 \<or>
     unat (inFileAddr seg) + unat (seg_size seg) \<le> fsize f \<and> unat (inFileAddr seg) + unat (seg_size seg) < 2 ^ 31"

definition noff_ok :: "unix_file \<Rightarrow> bool" where
  "noff_ok f \<longleftrightarrow> 40 \<le> fsize f \<and> noffMagic (noff_header f) = NOFFMAGIC \<and> seg_ok f (code_seg (noff_header f)) \<and>
     seg_ok f (initData (noff_header f)) \<and> length (noff_image f) < 2 ^ 31"

lemma length_seg_bytes [simp]: "length (seg_bytes f seg) = unat (seg_size seg)"
  by (simp add: seg_bytes_def)

lemma loaded_swap [simp]: "swap (loaded d bs m) = None \<longleftrightarrow> swap m = None"
  by (simp add: loaded_def)

lemma copy_segment_ok:
  assumes "seg_ok (sfile e) seg" "d + unat (seg_size seg) < 2147483648" "swap m \<noteq> None"
  shows "copy_segment e seg (of_nat d, m) = Inr (of_nat (d + unat (seg_size seg)), loaded d (seg_bytes (sfile e) seg) m)"
proof (cases "seg_size seg = 0")
  case True
  then show ?thesis by (simp add: copy_segment_def seg_bytes_def)
next
  case False
  then have s: "unat (inFileAddr seg) + unat (seg_size seg) \<le> fsize (sfile e)"
    "unat (inFileAddr seg) + unat (seg_size seg) \<le> 2147483648"
    using assms(1) by (simp_all add: seg_ok_def)
  have sz: "sint (seg_size seg) = int (unat (seg_size seg))" using assms(2) by (intro sint_small) linarith
  have "0 < unat (seg_size seg)" using False by (simp add: unat_gt_0)
  then have c: "0 < sint (seg_size seg)" "nat (sint (seg_size seg)) = unat (seg_size seg)"
    unfolding sz by (simp_all only: nat_int of_nat_0_less_iff)
  have "d + unat (seg_size seg) \<le> 2147483648" using assms(2) by simp
  from copy_loop [OF s this assms(3)] show ?thesis
    using c by (simp add: copy_segment_def seg_bytes_def)
qed

text \<open>The constructor, on a host of either byte order and whatever was on the stack.\<close>

lemma header_read:
  assumes "40 \<le> fsize f"
  shows "Stub_ReadAt 40 0 \<lparr>sfile = f, scurrentOffset = 0\<rparr> = Inr (map (fbytes f) [0..<40])"
  using assms by (simp add: Stub_ReadAt_def Lseek_def ReadPartial_def min_absorb1)

lemma header_order:
  assumes "noffMagic (noff_of_bytes False bs) = NOFFMAGIC" "40 \<le> length bs"
  shows "(if noffMagic (noff_of_bytes big bs) \<noteq> NOFFMAGIC \<and> WordToHost big (noffMagic (noff_of_bytes big bs)) = NOFFMAGIC
      then SwapHeader big (noff_of_bytes big bs) else noff_of_bytes big bs) = noff_of_bytes False bs"
proof (cases big)
  case True
  let ?w = "host_word True (slice 0 4 bs)"
  have w: "WordToHost True ?w = NOFFMAGIC"
    using assms by (simp add: WordToHost_host_word noff_of_bytes_def)
  have "WordToHost True NOFFMAGIC \<noteq> NOFFMAGIC" by (simp add: WordToHost_def)
  then have "?w \<noteq> NOFFMAGIC" using w by metis
  moreover have "noffMagic (noff_of_bytes True bs) = ?w" by (simp add: noff_of_bytes_def)
  ultimately show ?thesis using True w SwapHeader_reads [OF assms(2)] by simp
qed (use assms in \<open>simp add: WordToHost_def\<close>)

lemma AddrSpace_new_ok:
  assumes "noff_ok f" "swap m \<noteq> None"
  shows "AddrSpace_new big stk \<lparr>sfile = f, scurrentOffset = 0\<rparr> m = Inr (noff_pages f, loaded 0 (noff_image f) m)"
proof -
  let ?h = "noff_header f" and ?e = "\<lparr>sfile = f, scurrentOffset = 0\<rparr>"
  have ok: "40 \<le> fsize f" "noffMagic ?h = NOFFMAGIC" "seg_ok (sfile ?e) (code_seg ?h)" "seg_ok (sfile ?e) (initData ?h)"
    "unat (seg_size (code_seg ?h)) + unat (seg_size (initData ?h)) < 2147483648"
    using assms(1) by (simp_all add: noff_ok_def noff_image_def)
  let ?bs = "map (fbytes f) [0..<40] @ drop 40 stk"
  have long: "40 \<le> length ?bs" by simp
  have "noff_of_bytes False ?bs = ?h"
    by (simp add: noff_header_def noff_of_bytes_def slice_def)
  then have hd: "noffMagic (noff_of_bytes False ?bs) = NOFFMAGIC" using ok(2) by simp
  have c1: "copy_segment ?e (code_seg ?h) (0, m) =
      Inr (of_nat (unat (seg_size (code_seg ?h))), loaded 0 (seg_bytes f (code_seg ?h)) m)"
    using copy_segment_ok [OF ok(3), of 0 m] ok(5) assms(2) by simp
  have c2: "copy_segment ?e (initData ?h) (of_nat (unat (seg_size (code_seg ?h))), loaded 0 (seg_bytes f (code_seg ?h)) m) =
      Inr (of_nat (unat (seg_size (code_seg ?h)) + unat (seg_size (initData ?h))), loaded 0 (noff_image f) m)"
    using copy_segment_ok [OF ok(4), of "unat (seg_size (code_seg ?h))" "loaded 0 (seg_bytes f (code_seg ?h)) m"] ok(5)
      loaded_twice [of 0 "seg_bytes f (code_seg ?h)" "seg_bytes f (initData ?h)" m] assms(2)
    by (simp add: noff_image_def)
  show ?thesis
    unfolding AddrSpace_new_def header_read [OF ok(1)] bindE_Inr length_map length_upt diff_zero Let_def
      header_order [OF hd long] \<open>noff_of_bytes False ?bs = ?h\<close>
    using ok(2) c1 c2 by (simp add: noff_pages_def Let_def)
qed

section \<open>Registers\<close>

lemma upto_snoc: "[0..int (Suc n) - 1] = [0..int n - 1] @ [int n]"
  using upto_rec2 [of 0 "int n"] by simp

lemma WriteRegister_ok: "n < 40 \<Longrightarrow> WriteRegister (int n) v m = Inr (m\<lparr>registers := (registers m)(n := v)\<rparr>)"
  by (simp add: WriteRegister_def setreg_def)

lemma write_registers_loop:
  assumes "n \<le> 40"
  shows "foldE (\<lambda>i m. WriteRegister i (g i) m) [0..int n - 1] m =
    Inr (m\<lparr>registers := (\<lambda>r. if r < n then g (int r) else registers m r)\<rparr>)"
  using assms
proof (induction n)
  case (Suc n)
  have "(\<lambda>r. if r < n then g (int r) else registers m r)(n := g (int n)) =
      (\<lambda>r. if r < Suc n then g (int r) else registers m r)"
    by (auto simp: fun_eq_iff less_Suc_eq)
  then show ?case unfolding upto_snoc using Suc by (simp add: foldE_append WriteRegister_ok)
qed simp

definition init_regs :: "32 word \<Rightarrow> (nat \<Rightarrow> 32 word) \<Rightarrow> nat \<Rightarrow> 32 word" where
  "init_regs numPages r = (\<lambda>k. if k < 40 then 0 else r k)(NextPCReg := 4, StackReg := numPages * 128 - 16)"

lemma InitRegisters_ok: "InitRegisters numPages m = Inr (m\<lparr>registers := init_regs numPages (registers m)\<rparr>)"
proof -
  have "(\<lambda>k. if k < 40 then 0 else registers m k)(34 := 0, 35 := 4, 29 := numPages * 128 - 16) = init_regs numPages (registers m)"
    by (auto simp: init_regs_def fun_eq_iff)
  then show ?thesis
    using write_registers_loop [of 40 "\<lambda>_. 0" m] WriteRegister_ok [of 34] WriteRegister_ok [of 35] WriteRegister_ok [of 29]
    by (simp add: InitRegisters_def)
qed

lemma SaveUserState_ok: "SaveUserState m = Inr (map (registers m) [0..<40])"
proof -
  have "foldE (\<lambda>i rg. bindE (ReadRegister i m) (\<lambda>v. Inr (rg @ [v]))) [0..int n - 1] [] = Inr (map (registers m) [0..<n])"
    if "n \<le> 40" for n
    using that
  proof (induction n)
    case (Suc n)
    then show ?case unfolding upto_snoc by (simp add: foldE_append ReadRegister_def)
  qed simp
  from this [of 40] show ?thesis unfolding SaveUserState_def by (simp del: upt_rec_numeral)
qed

lemma RestoreUserState_ok:
  "RestoreUserState regs m = Inr (m\<lparr>registers := (\<lambda>r. if r < 40 then regs ! r else registers m r)\<rparr>)"
  using write_registers_loop [of 40 "\<lambda>i. regs ! nat i" m] by (simp add: RestoreUserState_def cong: if_cong)

section \<open>A loaded program\<close>

text \<open>The memory a program starts with: its image, and behind it whatever the swap file held.\<close>

definition program_memory :: "unix_file \<Rightarrow> unix_file \<Rightarrow> nat \<Rightarrow> byte" where
  "program_memory f sw a = (if a < length (noff_image f) then noff_image f ! a else fbytes sw a)"

definition no_pages :: "Machine \<Rightarrow> bool" where
  "no_pages m \<longleftrightarrow> (\<forall>i<NumPhysPages. \<not> valid_bit (pageTable m ! i))"

definition started :: "unix_file \<Rightarrow> Machine \<Rightarrow> Machine" where
  "started f m = (loaded 0 (noff_image f) m)\<lparr>registers := init_regs (noff_pages f) (registers m)\<rparr>"

lemma started_eq:
  assumes "noff_ok f" "swap m \<noteq> None"
  shows "bindE (AddrSpace_new big stk \<lparr>sfile = f, scurrentOffset = 0\<rparr> m) (\<lambda>(np, m). bindE (InitRegisters np m) k) = k (started f m)"
  using AddrSpace_new_ok [OF assms, of big stk] by (simp add: InitRegisters_ok started_def) (simp add: loaded_def)

lemma started_holds:
  assumes "paging_ok m" "no_pages m" "swap m = Some sw" "128 dvd L" "L \<le> fsize sw" "L \<le> 2 ^ 31"
  shows "vm_holds L (program_memory f sw) (started f m)" "all_used (started f m)" "regs_ok (started f m)"
proof -
  have ok: "paging_ok (started f m)" using assms(1) by (simp add: started_def loaded_def paging_ok_def)
  have none: "\<not> live i (started f m)" for i
    using assms(2) by (simp add: live_def no_pages_def started_def loaded_def)
  have sw: "swap (started f m) = Some (WriteFile 0 (noff_image f) sw)"
    using assms(3) by (simp add: started_def loaded_def)
  show "vm_holds L (program_memory f sw) (started f m)"
  proof (rule vm_holdsI [OF ok assms(4) _ _ _ sw])
    show "L \<le> 2147483648" using assms(6) by simp
    show "L \<le> fsize (WriteFile 0 (noff_image f) sw)" using assms(5) by (auto simp: WriteFile_def)
    show "fbytes (WriteFile 0 (noff_image f) sw) a = program_memory f sw a" if "a < L" for a
      using that assms(5) by (auto simp: WriteFile_def program_memory_def)
  qed (use none in simp_all)
  show "all_used (started f m)" using assms(2) by (auto simp: all_used_def no_pages_def started_def loaded_def)
  show "regs_ok (started f m)" by (simp add: regs_ok_def started_def init_regs_def)
qed


text \<open>The smallest executable: it calls \<^verbatim>\<open>Halt\<close>.\<close>

definition halt_noff :: unix_file where
  "halt_noff = \<lparr>fbytes = (\<lambda>a. concat (map word_bytes [0xbadfad, 0, 40, 8, 0, 0, 0, 0, 0, 0, 0x24020000, 0xc]) ! a), fsize = 48\<rparr>"

lemma halt_noff_header: "noff_header halt_noff = \<lparr>noffMagic = 0xbadfad,
    code_seg = \<lparr>virtualAddr = 0, inFileAddr = 40, seg_size = 8\<rparr>,
    initData = \<lparr>virtualAddr = 0, inFileAddr = 0, seg_size = 0\<rparr>,
    uninitData = \<lparr>virtualAddr = 0, inFileAddr = 0, seg_size = 0\<rparr>\<rparr>"
  by code_simp

lemma halt_noff_image: "noff_image halt_noff = word_bytes 0x24020000 @ word_bytes 0xc"
  by code_simp

lemma halt_noff_ok: "noff_ok halt_noff"
  by (simp add: noff_ok_def halt_noff_header seg_ok_def halt_noff_image) (simp add: halt_noff_def)

lemma machine0_empty: "no_pages machine0" "swap machine0 = Some \<lparr>fbytes = (\<lambda>_. 7), fsize = 1024\<rparr>"
  by (simp_all add: no_pages_def machine0_def Machine_new_def empty_entry_def)


section \<open>A program that halts\<close>

lemma tick_fields [simp]:
  "vm_holds L A (user_tick m) = vm_holds L A m" "all_used (user_tick m) = all_used m" "used_but i (user_tick m) = used_but i m"
  "mapped va i (user_tick m) = mapped va i m" "registers (user_tick m) = registers m" "regs_ok (user_tick m) = regs_ok m"
  by (simp_all add: user_tick_def used_but_def regs_ok_def)

lemma fetch_fault:
  assumes "vm_holds L A m" "all_used m" "regs_ok m" "aligned (registers m PCReg) 4" "unat (registers m PCReg) < L"
    "\<And>j. \<not> mapped (registers m PCReg) j m"
  shows "\<exists>m' i. OneInstruction m = Inr m' \<and> vm_holds L A m' \<and> mapped (registers m PCReg) i m' \<and> used_but i m' \<and>
    registers m' = delayed_regs 0 0 ((registers m)(BadVAddrReg := registers m PCReg)) \<and> regs_ok m'"
proof -
  let ?va = "registers m PCReg"
  obtain m1 i where m1: "RaiseException PageFaultException ?va (m\<lparr>pagemiss := pagemiss m + 1\<rparr>) = Inr m1"
    "vm_holds L A m1" "mapped ?va i m1" "used_but i m1" "regs_ok m1"
    "registers m1 = delayed_regs 0 0 ((registers m)(BadVAddrReg := ?va))"
    using page_fault_holds [of L A "m\<lparr>pagemiss := pagemiss m + 1\<rparr>" ?va] assms by auto
  have "ReadMem ?va 4 m = Inr (None, m1)"
    using Translate_miss [OF vm_holdsD(1) [OF assms(1)] assms(4), of False] assms(6) m1(1) by (simp add: ReadMem_def)
  then show ?thesis using m1 by (auto simp: OneInstruction_def)
qed

lemma fetch_hit:
  assumes "vm_holds L A m" "regs_ok m" "aligned (registers m PCReg) 4" "mapped (registers m PCReg) i m" "used_but i m"
  obtains m' where "vm_holds L A m'" "all_used m'" "regs_ok m'" "registers m' = registers m"
    "\<And>va j. mapped va j m' = mapped va j m"
    "OneInstruction m = (bindE (exec_op (Decode (flat_load 4 (unat (registers m PCReg)) A)) (reg m' NextPCReg + 4) m') (\<lambda>(r, m).
       case r of None \<Rightarrow> Inr m
       | Some (pcAfter, nextLoadReg, nextLoadValue) \<Rightarrow>
           bindE (DelayedLoad nextLoadReg nextLoadValue m) (\<lambda>m.
             let m = setreg PrevPCReg (reg m PCReg) m; m = setreg PCReg (reg m NextPCReg) m
             in Inr (setreg NextPCReg pcAfter m))))"
proof -
  let ?m = "hit_state i False m"
  have "ReadMem (registers m PCReg) 4 m = Inr (Some (flat_load 4 (unat (registers m PCReg)) A), ?m)"
    using ReadMem_hit [OF vm_holdsD(1) [OF assms(1)] assms(3,4)] load_hit [OF assms(1,3,4)] by simp
  then show thesis
    using that [of ?m] vm_holds_hit [OF assms(1,4), of False] used_but_hit [OF assms(5) vm_length [OF assms(1,4)], of False] assms(2)
    by (simp add: OneInstruction_def Let_def)
qed

lemma Decode_halt:
  "Decode 0x24020000 = \<lparr>ivalue = 0x24020000, opCode = OP_ADDIU, rs = 0, rt = 2, rd = 0, extra = 0\<rparr>"
  "opCode (Decode 0xc) = OP_SYSCALL"
  by (simp_all add: Decode_def opTable_def specialTable_def)

lemma run_addiu:
  assumes "vm_holds L A m" "regs_ok m" "aligned (registers m PCReg) 4" "mapped (registers m PCReg) i m" "used_but i m"
    "flat_load 4 (unat (registers m PCReg)) A = 0x24020000" "registers m LoadReg = 0"
  shows "\<exists>m'. OneInstruction m = Inr m' \<and> vm_holds L A m' \<and> all_used m' \<and> regs_ok m' \<and>
    (\<forall>va j. mapped va j m' = mapped va j m) \<and> registers m' 2 = 0 \<and> registers m' PCReg = registers m NextPCReg \<and>
    registers m' LoadReg = 0"
proof -
  from fetch_hit [OF assms(1-5)] obtain m1 where m1: "vm_holds L A m1" "all_used m1" "regs_ok m1" "registers m1 = registers m"
    "\<And>va j. mapped va j m1 = mapped va j m"
    "OneInstruction m = (bindE (exec_op (Decode 0x24020000) (reg m1 NextPCReg + 4) m1) (\<lambda>(r, m).
       case r of None \<Rightarrow> Inr m
       | Some (pcAfter, nextLoadReg, nextLoadValue) \<Rightarrow>
           bindE (DelayedLoad nextLoadReg nextLoadValue m) (\<lambda>m.
             let m = setreg PrevPCReg (reg m PCReg) m; m = setreg PCReg (reg m NextPCReg) m
             in Inr (setreg NextPCReg pcAfter m))))"
    unfolding assms(6) by blast
  have "registers m 0 = 0" using assms(2) by (simp add: regs_ok_def)
  then show ?thesis using m1 assms(7)
    by (simp add: Decode_halt exec_op_def op_ADDIU_def nxt_def DelayedLoad_ok setreg_def Let_def delayed_regs_def regs_ok_def)
qed

lemma run_syscall:
  assumes "vm_holds L A m" "regs_ok m" "aligned (registers m PCReg) 4" "mapped (registers m PCReg) i m" "used_but i m"
    "flat_load 4 (unat (registers m PCReg)) A = 0xc" "registers m LoadReg = 0" "registers m 2 = 0"
  shows "OneInstruction m = Inl Halted"
proof -
  from fetch_hit [OF assms(1-5)] obtain m1 where m1: "vm_holds L A m1" "all_used m1" "regs_ok m1" "registers m1 = registers m"
    "\<And>va j. mapped va j m1 = mapped va j m"
    "OneInstruction m = (bindE (exec_op (Decode 0xc) (reg m1 NextPCReg + 4) m1) (\<lambda>(r, m).
       case r of None \<Rightarrow> Inr m
       | Some (pcAfter, nextLoadReg, nextLoadValue) \<Rightarrow>
           bindE (DelayedLoad nextLoadReg nextLoadValue m) (\<lambda>m.
             let m = setreg PrevPCReg (reg m PCReg) m; m = setreg PCReg (reg m NextPCReg) m
             in Inr (setreg NextPCReg pcAfter m))))"
    unfolding assms(6) by blast
  show ?thesis using m1(4,6) assms(7,8)
    by (simp add: Decode_halt exec_op_def op_SYSCALL_def trap_def RaiseException_def DelayedLoad_ok setreg_def
        delayed_regs_def ExceptionHandler_def ReadRegister_def SC_Halt_def)
qed

lemma image_word:
  assumes "drop k (noff_image f) = word_bytes w @ rest"
  shows "flat_load 4 k (program_memory f sw) = w"
proof -
  have l: "length (drop k (noff_image f)) = 4 + length rest" unfolding assms by simp
  then have k: "k + 4 \<le> length (noff_image f)" by simp
  have n: "noff_image f ! (k + j) = word_bytes w ! j" if "j < 4" for j
  proof -
    have "noff_image f ! (k + j) = drop k (noff_image f) ! j" using k by simp
    then show ?thesis unfolding assms using that by (simp add: nth_append)
  qed
  have "flat_load 4 k (program_memory f sw) =
      bytes_word [word_bytes w ! 0, word_bytes w ! 1, word_bytes w ! 2, word_bytes w ! 3]"
    using n [of 0] n [of 1] n [of 2] n [of 3] k by (simp add: flat_load_def program_memory_def)
  moreover have "[word_bytes w ! 0, word_bytes w ! 1, word_bytes w ! 2, word_bytes w ! 3] = word_bytes w"
    by (simp add: word_bytes_def)
  ultimately show ?thesis by simp
qed



section \<open>The missing swap file\<close>

lemma copy_byte_no_swap: "swap m = None \<Longrightarrow> 0 \<le> sint p \<Longrightarrow> copy_byte e (p, d, m) = Inl WildPointer"
  by (simp add: copy_byte_def Stub_ReadAt_def Lseek_def swap_write_def)

lemma copy_segment_no_swap:
  assumes "seg_ok f seg" "seg_size seg \<noteq> 0" "swap m = None"
  shows "copy_segment e seg (d, m) = Inl WildPointer"
proof -
  have b: "unat (inFileAddr seg) < 2147483648" "unat (seg_size seg) < 2147483648" "0 < unat (seg_size seg)"
    using assms(1,2) by (auto simp: seg_ok_def unat_gt_0)
  have sz: "0 < sint (seg_size seg)" "nat (sint (seg_size seg)) = Suc (unat (seg_size seg) - 1)"
    unfolding sint_small [OF b(2)] using b(3) by (simp_all only: nat_int of_nat_0_less_iff Suc_pred')
  have "copy_byte e (inFileAddr seg, d, m) = Inl WildPointer"
    using copy_byte_no_swap [OF assms(3)] sint_small [OF b(1)] by simp
  then show ?thesis using sz by (simp add: copy_segment_def upt_conv_Cons del: upt_Suc)
qed

text \<open>
  C39: in the configuration of the repository no user program can run.  The constructor of the machine leaves
  its swap file unset, and starting any well-formed executable that has code then follows that unset pointer.
\<close>

theorem no_program_starts:
  assumes "host name = Some f" "noff_ok f" "seg_size (code_seg (noff_header f)) \<noteq> 0"
  shows "StartProcess host big stk n name (Machine_new pageLast None bm thread ticks) = Inl WildPointer"
proof -
  let ?m = "Machine_new pageLast None bm thread ticks" and ?h = "noff_header f"
  have ok: "40 \<le> fsize f" "noffMagic ?h = NOFFMAGIC" "seg_ok f (code_seg ?h)" "swap ?m = None"
    using assms(2) by (simp_all add: noff_ok_def Machine_new_def)
  let ?bs = "map (fbytes f) [0..<40] @ drop 40 stk"
  have long: "40 \<le> length ?bs" by simp
  have h: "noff_of_bytes False ?bs = ?h" by (simp add: noff_header_def noff_of_bytes_def slice_def)
  then have hd: "noffMagic (noff_of_bytes False ?bs) = NOFFMAGIC" using ok(2) by simp
  have "AddrSpace_new big stk \<lparr>sfile = f, scurrentOffset = 0\<rparr> ?m = Inl WildPointer"
    unfolding AddrSpace_new_def header_read [OF ok(1)] bindE_Inr length_map length_upt diff_zero Let_def
      header_order [OF hd long] h
    using ok(2) copy_segment_no_swap [OF ok(3) assms(3) ok(4)] by simp
  then show ?thesis using assms(1) by (simp add: StartProcess_def)
qed

theorem no_program_starts_witness:
  "StartProcess [''../test/halt'' \<mapsto> halt_noff] False [] 1 ''../test/halt''
     (Machine_new [] None \<lparr>numBits = 32, numWords = 1, bmap = [0]\<rparr> 0 0) = Inl WildPointer"
  using no_program_starts [of "[''../test/halt'' \<mapsto> halt_noff]" "''../test/halt''", OF _ halt_noff_ok]
  by (simp add: halt_noff_header)

end
