(* ===== verification/Coff_Noff.thy ===== *)
theory Coff_Noff
  imports Program_Loader
begin

text \<open>
  The converter of object files, \<^verbatim>\<open>bin/coff2noff.c\<close> (formats in \<^verbatim>\<open>bin/coff.h\<close> and \<^verbatim>\<open>bin/noff.h\<close>), on a
  little-endian host with 32-bit \<^verbatim>\<open>long\<close>, where the byte-order conversions do nothing.

  The program exits with a message and no output file (an error here) or with the finished
  file.  \<open>writable\<close> says whether the output could be opened; the program does not test it before
  the first write.  Fields of the header that it never sets come from \<open>junk\<close>.  The behaviour of
  \<^verbatim>\<open>read\<close> with a negative count belongs to the host: the model stops with \<open>HostDependent\<close>.
\<close>

section \<open>The program\<close>

datatype coff_error = CannotOpen | FileTooShort | CannotWrite | NotMipsel | NotOmagic | BothData | BothBss
  | UnknownSegment | HostDependent

type_synonym 'a conv = "coff_error + 'a"

definition bindC :: "'a conv \<Rightarrow> ('a \<Rightarrow> 'b conv) \<Rightarrow> 'b conv" where
  "bindC m k = (case m of Inl e \<Rightarrow> Inl e | Inr x \<Rightarrow> k x)"

fun foldC :: "('a \<Rightarrow> 's \<Rightarrow> 's conv) \<Rightarrow> 'a list \<Rightarrow> 's \<Rightarrow> 's conv" where
  "foldC f [] s = Inr s"
| "foldC f (x # xs) s = bindC (f x s) (foldC f xs)"

abbreviation (input) MIPSELMAGIC :: "16 word" where "MIPSELMAGIC \<equiv> 0x0162"
abbreviation (input) OMAGIC :: "16 word" where "OMAGIC \<equiv> 0x107"

record scnhdr =
  s_name :: "byte list"
  s_paddr :: "32 word"
  s_size :: "32 word"
  s_scnptr :: "32 word"

definition bytes_half :: "byte list \<Rightarrow> 16 word" where
  "bytes_half bs = ucast (bs ! 0) OR push_bit 8 (ucast (bs ! 1))"

definition scnhdr_of_bytes :: "byte list \<Rightarrow> scnhdr" where
  "scnhdr_of_bytes bs = \<lparr>s_name = slice 0 8 bs, s_paddr = bytes_word (slice 8 4 bs),
     s_size = bytes_word (slice 16 4 bs), s_scnptr = bytes_word (slice 20 4 bs)\<rparr>"

text \<open>\<^verbatim>\<open>!strcmp(s_name, str)\<close> for a name shorter than the field.\<close>

definition named :: "string \<Rightarrow> scnhdr \<Rightarrow> bool" where
  "named str s \<longleftrightarrow> take (Suc (length str)) (s_name s) = map of_char str @ [0]"

text \<open>\<^verbatim>\<open>Read\<close> at a position of the input.\<close>

definition read_coff :: "unix_file \<Rightarrow> nat \<Rightarrow> int \<Rightarrow> byte list conv" where
  "read_coff f pos nBytes =
    (if nBytes < 0 then Inl HostDependent
     else let buf = ReadPartial pos (nat nBytes) f in
       if int (length buf) \<noteq> nBytes then Inl FileTooShort else Inr buf)"

text \<open>The variables of \<^verbatim>\<open>main\<close> during the loop, with the positions of the two descriptors.\<close>

record conv_state =
  noffH :: NoffHeader
  outFile :: unix_file
  inNoffFile :: "32 word"
  inPos :: nat
  outPos :: nat

definition copy_raw :: "bool \<Rightarrow> unix_file \<Rightarrow> scnhdr \<Rightarrow> conv_state \<Rightarrow> conv_state conv" where
  "copy_raw writable coff s st =
    (let pos = (if sint (s_scnptr s) \<ge> 0 then nat (sint (s_scnptr s)) else inPos st) in
     bindC (read_coff coff pos (sint (s_size s))) (\<lambda>buffer.
     if \<not> writable then Inl CannotWrite
     else Inr (st\<lparr>outFile := WriteFile (outPos st) buffer (outFile st), outPos := outPos st + length buffer,
       inPos := pos + length buffer, inNoffFile := inNoffFile st + s_size s\<rparr>)))"

definition section_step :: "bool \<Rightarrow> unix_file \<Rightarrow> scnhdr \<Rightarrow> conv_state \<Rightarrow> conv_state conv" where
  "section_step writable coff s st =
    (let h = noffH st in
     if s_size s = 0 then Inr st
     else if named ''.text'' s then
       copy_raw writable coff s (st\<lparr>noffH := h\<lparr>code_seg :=
         \<lparr>virtualAddr = s_paddr s, inFileAddr = inNoffFile st, seg_size = s_size s\<rparr>\<rparr>\<rparr>)
     else if named ''.data'' s \<or> named ''.rdata'' s then
       if seg_size (initData h) \<noteq> 0 then Inl BothData
       else copy_raw writable coff s (st\<lparr>noffH := h\<lparr>initData :=
         \<lparr>virtualAddr = s_paddr s, inFileAddr = inNoffFile st, seg_size = s_size s\<rparr>\<rparr>\<rparr>)
     else if named ''.bss'' s \<or> named ''.sbss'' s then
       let u = uninitData h in
       if seg_size u \<noteq> 0 then
         if s_paddr s = virtualAddr u + seg_size u then Inl BothBss
         else Inr (st\<lparr>noffH := h\<lparr>uninitData := u\<lparr>seg_size := seg_size u + s_size s\<rparr>\<rparr>\<rparr>)
       else Inr (st\<lparr>noffH := h\<lparr>uninitData := u\<lparr>virtualAddr := s_paddr s, seg_size := s_size s\<rparr>\<rparr>\<rparr>)
     else Inl UnknownSegment)"

definition segment_bytes :: "Segment \<Rightarrow> byte list" where
  "segment_bytes s = word_bytes (virtualAddr s) @ word_bytes (inFileAddr s) @ word_bytes (seg_size s)"

definition noff_bytes :: "NoffHeader \<Rightarrow> byte list" where
  "noff_bytes h = word_bytes (noffMagic h) @ segment_bytes (code_seg h) @ segment_bytes (initData h) @ segment_bytes (uninitData h)"

definition clear_size :: "Segment \<Rightarrow> Segment" where
  "clear_size s = s\<lparr>seg_size := 0\<rparr>"

definition coff_sections :: "nat \<Rightarrow> byte list \<Rightarrow> scnhdr list" where
  "coff_sections n bs = map (\<lambda>i. scnhdr_of_bytes (slice (40 * i) 40 bs)) [0..<n]"

definition conv_start :: "NoffHeader \<Rightarrow> nat \<Rightarrow> conv_state" where
  "conv_start junk pos =
     \<lparr>noffH = \<lparr>noffMagic = NOFFMAGIC, code_seg = clear_size (code_seg junk), initData = clear_size (initData junk),
        uninitData = clear_size (uninitData junk)\<rparr>,
      outFile = \<lparr>fbytes = (\<lambda>_. 0), fsize = 0\<rparr>, inNoffFile = 40, inPos = pos, outPos = 40\<rparr>"

definition coff2noff :: "NoffHeader \<Rightarrow> bool \<Rightarrow> unix_file option \<Rightarrow> unix_file conv" where
  "coff2noff junk writable input =
    (case input of
       None \<Rightarrow> Inl CannotOpen
     | Some coff \<Rightarrow>
         bindC (read_coff coff 0 20) (\<lambda>fileh.
         if bytes_half (slice 0 2 fileh) \<noteq> MIPSELMAGIC then Inl NotMipsel else
         bindC (read_coff coff 20 56) (\<lambda>systemh.
         if bytes_half (slice 0 2 systemh) \<noteq> OMAGIC then Inl NotOmagic else
         let numsections = unat (bytes_half (slice 2 2 fileh)) in
         bindC (read_coff coff 76 (int numsections * 40)) (\<lambda>sections.
         bindC (foldC (section_step writable coff) (coff_sections numsections sections)
             (conv_start junk (76 + numsections * 40))) (\<lambda>st.
         if \<not> writable then Inl CannotWrite
         else Inr (WriteFile 0 (noff_bytes (noffH st)) (outFile st)))))))"

section \<open>The header on disk\<close>

lemma segment_roundtrip: "segment_of_bytes False (segment_bytes s @ rest) = s"
  by (simp add: segment_of_bytes_def segment_bytes_def slice_def host_word_def)

lemma length_segment_bytes [simp]: "length (segment_bytes s) = 12"
  by (simp add: segment_bytes_def)

lemma noff_roundtrip: "noff_of_bytes False (noff_bytes h) = h"
  using segment_roundtrip [of "code_seg h" "[]"] segment_roundtrip [of "initData h" "[]"] segment_roundtrip [of "uninitData h" "[]"]
  by (simp add: noff_of_bytes_def noff_bytes_def slice_def host_word_def)

lemma length_noff_bytes [simp]: "length (noff_bytes h) = 40"
  by (simp add: noff_bytes_def)

section \<open>What the conversion is for\<close>

definition is_text :: "scnhdr \<Rightarrow> bool" where
  "is_text s \<longleftrightarrow> s_size s \<noteq> 0 \<and> named ''.text'' s"

definition is_data :: "scnhdr \<Rightarrow> bool" where
  "is_data s \<longleftrightarrow> s_size s \<noteq> 0 \<and> \<not> named ''.text'' s \<and> (named ''.data'' s \<or> named ''.rdata'' s)"

definition is_bss :: "scnhdr \<Rightarrow> bool" where
  "is_bss s \<longleftrightarrow> s_size s \<noteq> 0 \<and> \<not> named ''.text'' s \<and> \<not> named ''.data'' s \<and> \<not> named ''.rdata'' s \<and>
     (named ''.bss'' s \<or> named ''.sbss'' s)"

definition raw :: "unix_file \<Rightarrow> scnhdr \<Rightarrow> byte list" where
  "raw f s = map (fbytes f) [unat (s_scnptr s)..<unat (s_scnptr s) + unat (s_size s)]"

definition copied :: "scnhdr list \<Rightarrow> nat" where
  "copied ss = sum_list (map (\<lambda>s. if is_text s \<or> is_data s then unat (s_size s) else 0) ss)"

text \<open>At most one section of each kind, every name known, and the raw data inside the file.\<close>

definition sections_ok :: "unix_file \<Rightarrow> scnhdr list \<Rightarrow> bool" where
  "sections_ok f ss \<longleftrightarrow> list_all (\<lambda>s. s_size s = 0 \<or> is_bss s \<or>
       (is_text s \<or> is_data s) \<and> unat (s_scnptr s) + unat (s_size s) \<le> fsize f \<and> unat (s_scnptr s) + unat (s_size s) < 2 ^ 31) ss \<and>
     length (filter is_text ss) \<le> 1 \<and> length (filter is_data ss) \<le> 1 \<and> length (filter is_bss ss) \<le> 1 \<and> 40 + copied ss < 2 ^ 31"

definition coff_nscns :: "unix_file \<Rightarrow> nat" where
  "coff_nscns f = unat (bytes_half [fbytes f 2, fbytes f 3])"

definition coff_table :: "unix_file \<Rightarrow> scnhdr list" where
  "coff_table f = coff_sections (coff_nscns f) (map (fbytes f) [76..<76 + coff_nscns f * 40])"

definition coff_ok :: "unix_file \<Rightarrow> bool" where
  "coff_ok f \<longleftrightarrow> 76 + coff_nscns f * 40 \<le> fsize f \<and> bytes_half [fbytes f 0, fbytes f 1] = MIPSELMAGIC \<and>
     bytes_half [fbytes f 20, fbytes f 21] = OMAGIC \<and> sections_ok f (coff_table f)"

section \<open>The loop over the sections\<close>

text \<open>A segment of the header describes the sections of its kind seen so far.\<close>

definition seg_inv :: "unix_file \<Rightarrow> unix_file \<Rightarrow> nat \<Rightarrow> scnhdr list \<Rightarrow> Segment \<Rightarrow> bool" where
  "seg_inv f out k xs seg \<longleftrightarrow> xs = [] \<and> seg_size seg = 0 \<or>
     (\<exists>s a. xs = [s] \<and> seg = \<lparr>virtualAddr = s_paddr s, inFileAddr = of_nat a, seg_size = s_size s\<rparr> \<and> 40 \<le> a \<and>
        a + unat (s_size s) \<le> k \<and> a + unat (s_size s) \<le> fsize out \<and>
        map (fbytes out) [a..<a + unat (s_size s)] = raw f s)"

definition conv_inv :: "unix_file \<Rightarrow> scnhdr list \<Rightarrow> conv_state \<Rightarrow> bool" where
  "conv_inv f P st \<longleftrightarrow> (let k = 40 + copied P in
     outPos st = k \<and> inNoffFile st = of_nat k \<and> fsize (outFile st) \<le> k \<and> noffMagic (noffH st) = NOFFMAGIC \<and>
     seg_inv f (outFile st) k (filter is_text P) (code_seg (noffH st)) \<and>
     seg_inv f (outFile st) k (filter is_data P) (initData (noffH st)) \<and>
     (filter is_bss P = [] \<longrightarrow> seg_size (uninitData (noffH st)) = 0))"

lemma fbytes_append:
  "x < p \<Longrightarrow> x < fsize f \<Longrightarrow> fbytes (WriteFile p bs f) x = fbytes f x"
  "i < length bs \<Longrightarrow> fbytes (WriteFile p bs f) (p + i) = bs ! i"
  by (auto simp: WriteFile_def)

lemma fsize_append: "bs \<noteq> [] \<Longrightarrow> fsize (WriteFile p bs f) = max (fsize f) (p + length bs)"
  by (simp add: WriteFile_def)

lemma seg_inv_write:
  assumes "seg_inv f out k xs seg" "bs \<noteq> []"
  shows "seg_inv f (WriteFile k bs out) (k + length bs) xs seg"
proof (cases "xs = []")
  case False
  then obtain s a where s: "xs = [s]" "seg = \<lparr>virtualAddr = s_paddr s, inFileAddr = of_nat a, seg_size = s_size s\<rparr>" "40 \<le> a"
    "a + unat (s_size s) \<le> k" "a + unat (s_size s) \<le> fsize out" "map (fbytes out) [a..<a + unat (s_size s)] = raw f s"
    using assms(1) unfolding seg_inv_def by blast
  have "map (fbytes (WriteFile k bs out)) [a..<a + unat (s_size s)] = map (fbytes out) [a..<a + unat (s_size s)]"
    using s(4,5) by (intro map_cong refl fbytes_append(1)) auto
  then show ?thesis using s fsize_append [OF assms(2), of k out] unfolding seg_inv_def by fastforce
qed (use assms in \<open>simp add: seg_inv_def\<close>)

lemma length_raw [simp]: "length (raw f s) = unat (s_size s)"
  by (simp add: raw_def)

lemma seg_inv_new:
  assumes "40 \<le> k" "s_size s \<noteq> 0"
  shows "seg_inv f (WriteFile k (raw f s) out) (k + unat (s_size s)) [s]
    \<lparr>virtualAddr = s_paddr s, inFileAddr = of_nat k, seg_size = s_size s\<rparr>"
proof -
  have ne: "raw f s \<noteq> []" using assms(2) length_raw [of f s] by (metis length_0_conv unat_eq_zero)
  have "map (fbytes (WriteFile k (raw f s) out)) [k..<k + unat (s_size s)] = raw f s"
    by (rule nth_equalityI) (simp_all add: fbytes_append(2))
  then show ?thesis using assms(1) fsize_append [OF ne, of k out] unfolding seg_inv_def by auto
qed

lemma copy_raw_ok:
  assumes "unat (s_scnptr s) + unat (s_size s) \<le> fsize f" "unat (s_scnptr s) + unat (s_size s) < 2147483648"
  shows "copy_raw True f s st = Inr (st\<lparr>outFile := WriteFile (outPos st) (raw f s) (outFile st),
    outPos := outPos st + unat (s_size s), inPos := unat (s_scnptr s) + unat (s_size s), inNoffFile := inNoffFile st + s_size s\<rparr>)"
proof -
  have p: "sint (s_scnptr s) = int (unat (s_scnptr s))" "sint (s_size s) = int (unat (s_size s))"
    using assms(2) by (intro sint_small; linarith)+
  then have q: "0 \<le> sint (s_scnptr s)" "nat (sint (s_scnptr s)) = unat (s_scnptr s)" "\<not> sint (s_size s) < 0"
    "nat (sint (s_size s)) = unat (s_size s)"
    by (simp_all only: nat_int of_nat_0_le_iff not_less)
  have r: "ReadPartial (unat (s_scnptr s)) (unat (s_size s)) f = raw f s"
    using assms(1) by (simp add: ReadPartial_def raw_def min_absorb1)
  have "int (length (raw f s)) = sint (s_size s)" unfolding p(2) by simp
  then have "read_coff f (unat (s_scnptr s)) (sint (s_size s)) = Inr (raw f s)"
    using q(3) unfolding read_coff_def q(4) r by simp
  then show ?thesis using q(1,2) by (simp add: copy_raw_def bindC_def)
qed

lemma kinds_exclusive:
  "is_text s \<Longrightarrow> \<not> is_data s" "is_text s \<Longrightarrow> \<not> is_bss s" "is_data s \<Longrightarrow> \<not> is_bss s"
  by (auto simp: is_text_def is_data_def is_bss_def)

lemma copied_snoc: "copied (P @ [s]) = copied P + (if is_text s \<or> is_data s then unat (s_size s) else 0)"
  by (simp add: copied_def)

lemma section_step_inv:
  assumes inv: "conv_inv f P st" and ok: "sections_ok f (P @ s # ss)"
  shows "\<exists>st'. section_step True f s st = Inr st' \<and> conv_inv f (P @ [s]) st'"
proof -
  let ?k = "40 + copied P"
  note i = inv [unfolded conv_inv_def Let_def]
  have k: "of_nat ?k + s_size s = (of_nat (?k + unat (s_size s)) :: 32 word)" by simp
  consider (empty) "s_size s = 0" | (code) "is_text s" | (init) "is_data s" | (uninit) "is_bss s"
    using ok unfolding sections_ok_def by auto
  then show ?thesis
  proof cases
    case empty
    then have "\<not> is_text s" "\<not> is_data s" "\<not> is_bss s" by (simp_all add: is_text_def is_data_def is_bss_def)
    then show ?thesis using empty inv by (simp add: section_step_def conv_inv_def copied_snoc)
  next
    case uninit
    then have "\<not> is_text s" "\<not> is_data s" using kinds_exclusive by blast+
    moreover have "filter is_bss P = []" using ok uninit by (simp add: sections_ok_def)
    ultimately show ?thesis using inv uninit by (simp add: section_step_def conv_inv_def copied_snoc is_bss_def Let_def)
  next
    case code
    then have fit: "unat (s_scnptr s) + unat (s_size s) \<le> fsize f" "unat (s_scnptr s) + unat (s_size s) < 2147483648"
      "filter is_text P = []" "s_size s \<noteq> 0" "named ''.text'' s"
      using ok kinds_exclusive(2) [OF code] by (auto simp: sections_ok_def is_text_def)
    have ne: "raw f s \<noteq> []" using fit(4) length_raw [of f s] by (metis length_0_conv unat_eq_zero)
    have k40: "40 \<le> ?k" by simp
    show ?thesis
      using i fit code kinds_exclusive [of s] seg_inv_new [OF k40 fit(4), of f "outFile st"]
        seg_inv_write [OF _ ne, of f "outFile st" ?k "filter is_data P"] fsize_append [OF ne, of ?k "outFile st"] k
      unfolding conv_inv_def Let_def copied_snoc
      by (simp add: section_step_def copy_raw_ok [OF fit(1,2)] add.assoc)
  next
    case init
    then have fit: "unat (s_scnptr s) + unat (s_size s) \<le> fsize f" "unat (s_scnptr s) + unat (s_size s) < 2147483648"
      "filter is_data P = []" "s_size s \<noteq> 0" "\<not> named ''.text'' s" "named ''.data'' s \<or> named ''.rdata'' s"
      using ok kinds_exclusive(3) [OF init] by (auto simp: sections_ok_def is_data_def)
    have ne: "raw f s \<noteq> []" using fit(4) length_raw [of f s] by (metis length_0_conv unat_eq_zero)
    have k40: "40 \<le> ?k" by simp
    have nt: "\<not> is_text s" "\<not> is_bss s" using kinds_exclusive init by blast+
    have "seg_size (initData (noffH st)) = 0" using i fit(3) by (simp add: seg_inv_def)
    then show ?thesis
      using i fit init nt seg_inv_new [OF k40 fit(4), of f "outFile st"]
        seg_inv_write [OF _ ne, of f "outFile st" ?k "filter is_text P"] fsize_append [OF ne, of ?k "outFile st"] k
      unfolding conv_inv_def Let_def copied_snoc
      by (simp add: section_step_def copy_raw_ok [OF fit(1,2)] add.assoc)
  qed
qed

lemma sections_loop:
  assumes "conv_inv f P st" "sections_ok f (P @ ss)"
  shows "\<exists>st'. foldC (section_step True f) ss st = Inr st' \<and> conv_inv f (P @ ss) st'"
  using assms
proof (induction ss arbitrary: P st)
  case (Cons s ss)
  then obtain st1 where "section_step True f s st = Inr st1" "conv_inv f (P @ [s]) st1"
    using section_step_inv [of f P st s ss] by auto
  then show ?case using Cons.IH [of "P @ [s]" st1] Cons.prems(2) by (simp add: bindC_def)
qed simp

section \<open>The result\<close>

text \<open>A segment read back from the finished file, whose header occupies the first 40 bytes.\<close>

lemma final_segment:
  assumes "seg_inv f out k xs seg" "k < 2147483648" "noff = WriteFile 0 (noff_bytes h) out"
  shows "seg_bytes noff seg = concat (map (raw f) xs)" "seg_ok noff seg"
proof -
  have "seg_bytes noff seg = concat (map (raw f) xs) \<and> seg_ok noff seg"
  proof (cases "xs = []")
    case True
    then show ?thesis using assms(1) by (simp add: seg_inv_def seg_bytes_def seg_ok_def)
  next
    case False
    then obtain s a where s: "xs = [s]" "seg = \<lparr>virtualAddr = s_paddr s, inFileAddr = of_nat a, seg_size = s_size s\<rparr>" "40 \<le> a"
      "a + unat (s_size s) \<le> k" "a + unat (s_size s) \<le> fsize out" "map (fbytes out) [a..<a + unat (s_size s)] = raw f s"
      using assms(1) unfolding seg_inv_def by blast
    have a: "unat (of_nat a :: 32 word) = a" using s(4) assms(2) by (simp add: unat_of_nat)
    have "fbytes noff x = fbytes out x" if "a \<le> x" "x < a + unat (s_size s)" for x
      using that s(3,5) unfolding assms(3) WriteFile_def by auto
    then have "map (fbytes noff) [a..<a + unat (s_size s)] = map (fbytes out) [a..<a + unat (s_size s)]"
      by (intro map_cong) auto
    moreover have "fsize out \<le> fsize noff" unfolding assms(3) WriteFile_def by auto
    ultimately show ?thesis using s(1,2,4-6) a assms(2) by (simp add: seg_bytes_def seg_ok_def)
  qed
  then show "seg_bytes noff seg = concat (map (raw f) xs)" "seg_ok noff seg" by simp_all
qed

lemma final_header: "noff_header (WriteFile 0 (noff_bytes h) out) = h"
proof -
  have "map (fbytes (WriteFile 0 (noff_bytes h) out)) [0..<40] = noff_bytes h"
    by (rule nth_equalityI) (use fbytes_append(2) [of _ "noff_bytes h" 0 out] in simp_all)
  then show ?thesis by (simp only: noff_header_def noff_roundtrip)
qed

lemma read_coff_ok: "0 \<le> n \<Longrightarrow> p + nat n \<le> fsize f \<Longrightarrow> read_coff f p n = Inr (map (fbytes f) [p..<p + nat n])"
  by (simp add: read_coff_def ReadPartial_def min_absorb1)

lemma slice_two: "p + 2 \<le> b - a \<Longrightarrow> slice p 2 (map g [a..<b]) = [g (a + p), g (a + p + 1)]"
proof -
  assume "p + 2 \<le> b - a"
  then have "[a + p..<b] = (a + p) # Suc (a + p) # [Suc (Suc (a + p))..<b]" by (simp add: upt_conv_Cons)
  then show ?thesis by (simp add: slice_def drop_map)
qed

text \<open>The parts of the headers that the converters read.\<close>

lemma coff_reads:
  assumes "76 + coff_nscns f * 40 \<le> fsize f"
  shows "read_coff f 0 20 = Inr (map (fbytes f) [0..<20])" "read_coff f 20 56 = Inr (map (fbytes f) [20..<76])"
    "read_coff f 76 (int (coff_nscns f) * 40) = Inr (map (fbytes f) [76..<76 + coff_nscns f * 40])"
    "slice 0 2 (map (fbytes f) [0..<20]) = [fbytes f 0, fbytes f 1]"
    "slice 2 2 (map (fbytes f) [0..<20]) = [fbytes f 2, fbytes f 3]" "slice 0 2 (map (fbytes f) [20..<76]) = [fbytes f 20, fbytes f 21]"
proof -
  show "read_coff f 0 20 = Inr (map (fbytes f) [0..<20])" "read_coff f 20 56 = Inr (map (fbytes f) [20..<76])"
    "read_coff f 76 (int (coff_nscns f) * 40) = Inr (map (fbytes f) [76..<76 + coff_nscns f * 40])"
    using read_coff_ok [of 20 0 f] read_coff_ok [of 56 20 f] read_coff_ok [of "int (coff_nscns f) * 40" 76 f] assms
    by (simp_all add: nat_mult_distrib del: upt_rec_numeral)
  show "slice 0 2 (map (fbytes f) [0..<20]) = [fbytes f 0, fbytes f 1]"
    "slice 2 2 (map (fbytes f) [0..<20]) = [fbytes f 2, fbytes f 3]" "slice 0 2 (map (fbytes f) [20..<76]) = [fbytes f 20, fbytes f 21]"
    using slice_two [of 0 20 0 "fbytes f"] slice_two [of 2 20 0 "fbytes f"] slice_two [of 0 76 20 "fbytes f"]
    by (simp_all del: upt_rec_numeral add: eval_nat_numeral)
qed

lemma coff2noff_runs:
  assumes "coff_ok f"
  shows "\<exists>st. coff2noff junk True (Some f) = Inr (WriteFile 0 (noff_bytes (noffH st)) (outFile st)) \<and> conv_inv f (coff_table f) st"
proof -
  have ok: "76 + coff_nscns f * 40 \<le> fsize f" "bytes_half [fbytes f 0, fbytes f 1] = MIPSELMAGIC"
    "bytes_half [fbytes f 20, fbytes f 21] = OMAGIC" "sections_ok f ([] @ coff_table f)"
    using assms by (simp_all add: coff_ok_def)
  have start: "conv_inv f [] (conv_start junk p)" for p
    by (simp add: conv_inv_def copied_def conv_start_def seg_inv_def clear_size_def)
  from sections_loop [OF start ok(4)] obtain st where
    st: "foldC (section_step True f) (coff_table f) (conv_start junk (76 + coff_nscns f * 40)) = Inr st" "conv_inv f (coff_table f) st"
    by auto
  note r = coff_reads(1-3) [OF ok(1)] and s = coff_reads(4-6) [OF ok(1)]
  show ?thesis using st ok(2,3)
    unfolding coff2noff_def r s bindC_def option.case sum.case Let_def coff_nscns_def [symmetric] coff_table_def [symmetric] r(3)
    by auto
qed

lemma length_image:
  "length (concat (map (raw f) (filter is_text ss))) + length (concat (map (raw f) (filter is_data ss))) = copied ss"
proof (induction ss)
  case (Cons s ss)
  then show ?case using kinds_exclusive(1) [of s] by (auto simp: copied_def)
qed (simp add: copied_def)

text \<open>
  C14: the conversion keeps the program.  For a well-formed COFF file with at most one section of each
  kind the converter succeeds, its output is a well-formed executable for the loader, and the image in
  it is the raw data of the text section followed by that of the data section, whatever their order in the input,
  with the addresses of the sections in the header.
\<close>

theorem coff2noff_correct:
  assumes "coff_ok f"
  shows "\<exists>noff. coff2noff junk True (Some f) = Inr noff \<and> noff_ok noff \<and>
    noff_image noff = concat (map (raw f) (filter is_text (coff_table f))) @ concat (map (raw f) (filter is_data (coff_table f))) \<and>
    (\<forall>s. filter is_text (coff_table f) = [s] \<longrightarrow> virtualAddr (code_seg (noff_header noff)) = s_paddr s) \<and>
    (\<forall>s. filter is_data (coff_table f) = [s] \<longrightarrow> virtualAddr (initData (noff_header noff)) = s_paddr s)"
proof -
  from coff2noff_runs [OF assms] obtain st where
    st: "coff2noff junk True (Some f) = Inr (WriteFile 0 (noff_bytes (noffH st)) (outFile st))" "conv_inv f (coff_table f) st" by blast
  define noff where "noff = WriteFile 0 (noff_bytes (noffH st)) (outFile st)"
  let ?k = "40 + copied (coff_table f)"
  have k: "?k < 2147483648" using assms by (simp add: coff_ok_def sections_ok_def)
  have i: "noffMagic (noffH st) = NOFFMAGIC" "seg_inv f (outFile st) ?k (filter is_text (coff_table f)) (code_seg (noffH st))"
    "seg_inv f (outFile st) ?k (filter is_data (coff_table f)) (initData (noffH st))"
    using st(2) by (simp_all add: conv_inv_def Let_def)
  have h: "noff_header noff = noffH st" unfolding noff_def by (rule final_header)
  note c = final_segment [OF i(2) k noff_def] and d = final_segment [OF i(3) k noff_def]
  have img: "noff_image noff = concat (map (raw f) (filter is_text (coff_table f))) @ concat (map (raw f) (filter is_data (coff_table f)))"
    by (simp add: noff_image_def h c d)
  have "length (noff_image noff) = copied (coff_table f)" unfolding img length_append by (rule length_image)
  moreover have "40 \<le> fsize noff" using fsize_append [of "noff_bytes (noffH st)" 0 "outFile st"] length_noff_bytes [of "noffH st"]
    unfolding noff_def by fastforce
  ultimately have "noff_ok noff" using i(1) k c(2) d(2) by (simp add: noff_ok_def h)
  then show ?thesis using st(1) img i(2,3) unfolding noff_def [symmetric] by (auto simp: seg_inv_def h)
qed

text \<open>An object file with a text section of eight bytes and a bss section.\<close>

definition halt_coff :: unix_file where
  "halt_coff = \<lparr>fbytes = (\<lambda>a. ([0x62, 1, 2, 0] @ replicate 16 0 @ [7, 1] @ replicate 54 0 @
     [0x2e, 0x74, 0x65, 0x78, 0x74, 0, 0, 0] @ word_bytes 0 @ word_bytes 0 @ word_bytes 8 @ word_bytes 156 @ replicate 16 0 @
     [0x2e, 0x62, 0x73, 0x73, 0, 0, 0, 0] @ word_bytes 8 @ word_bytes 8 @ word_bytes 16 @ word_bytes 0 @ replicate 16 0 @
     word_bytes 0x24020000 @ word_bytes 0xc) ! a), fsize = 164\<rparr>"

lemma halt_coff_table: "coff_table halt_coff =
  [\<lparr>s_name = [0x2e, 0x74, 0x65, 0x78, 0x74, 0, 0, 0], s_paddr = 0, s_size = 8, s_scnptr = 156\<rparr>,
   \<lparr>s_name = [0x2e, 0x62, 0x73, 0x73, 0, 0, 0, 0], s_paddr = 8, s_size = 16, s_scnptr = 0\<rparr>]"
  by code_simp

lemma halt_coff_kinds:
  "map is_text (coff_table halt_coff) = [True, False]" "map is_data (coff_table halt_coff) = [False, False]"
  "map is_bss (coff_table halt_coff) = [False, True]"
  unfolding halt_coff_table is_text_def is_data_def is_bss_def named_def by simp_all

lemma halt_coff_raw: "raw halt_coff (hd (coff_table halt_coff)) = word_bytes 0x24020000 @ word_bytes 0xc"
  unfolding halt_coff_table by code_simp

lemma halt_coff_ok: "coff_ok halt_coff"
proof -
  have "coff_nscns halt_coff = 2" "bytes_half [fbytes halt_coff 0, fbytes halt_coff 1] = MIPSELMAGIC"
    "bytes_half [fbytes halt_coff 20, fbytes halt_coff 21] = OMAGIC"
    by code_simp+
  moreover have "fsize halt_coff = 164" by (simp add: halt_coff_def)
  moreover have "sections_ok halt_coff (coff_table halt_coff)"
    using halt_coff_kinds \<open>fsize halt_coff = 164\<close> unfolding halt_coff_table sections_ok_def copied_def by simp
  ultimately show ?thesis by (simp add: coff_ok_def)
qed

theorem coff2noff_correct_witness:
  "\<exists>noff. coff2noff (noff_header halt_noff) True (Some halt_coff) = Inr noff \<and> noff_ok noff \<and>
     noff_image noff = word_bytes 0x24020000 @ word_bytes 0xc"
  using coff2noff_correct [OF halt_coff_ok, of "noff_header halt_noff"] halt_coff_kinds halt_coff_raw
  unfolding halt_coff_table by auto

end
