(* ===== verification/Coff_Flat.thy ===== *)
theory Coff_Flat
  imports Coff_Noff
begin

text \<open>
  The converter to flat files, \<^verbatim>\<open>bin/coff2flat.c\<close>, with the structures of the object file as in \<open>Coff_Noff\<close>.  A flat file is
  meant to be the contents of memory from address 0, with a stack of zeros at the end.
\<close>

section \<open>The program\<close>

abbreviation (input) FlatStackSize :: int where "FlatStackSize \<equiv> 1024"

record flat_state =
  ftop :: int
  flatFile :: unix_file
  flatInPos :: nat
  flatOutPos :: nat

definition is_zeroed :: "scnhdr \<Rightarrow> bool" where
  "is_zeroed s \<longleftrightarrow> named ''.bss'' s \<or> named ''.sbss'' s"

definition flat_section :: "bool \<Rightarrow> unix_file \<Rightarrow> scnhdr \<Rightarrow> flat_state \<Rightarrow> flat_state conv" where
  "flat_section writable coff s st =
    (let e = sint (s_paddr s + s_size s); st = (if e > ftop st then st\<lparr>ftop := e\<rparr> else st) in
     if is_zeroed s then Inr st
     else let pos = (if sint (s_scnptr s) \<ge> 0 then nat (sint (s_scnptr s)) else flatInPos st) in
       bindC (read_coff coff pos (sint (s_size s))) (\<lambda>buffer.
       if \<not> writable then Inl CannotWrite
       else Inr (st\<lparr>flatFile := WriteFile (flatOutPos st) buffer (flatFile st), flatOutPos := flatOutPos st + length buffer,
         flatInPos := pos + length buffer\<rparr>)))"

definition coff2flat :: "bool \<Rightarrow> unix_file option \<Rightarrow> unix_file conv" where
  "coff2flat writable input =
    (case input of
       None \<Rightarrow> Inl CannotOpen
     | Some coff \<Rightarrow>
         bindC (read_coff coff 0 20) (\<lambda>fileh.
         if bytes_half (slice 0 2 fileh) \<noteq> MIPSELMAGIC then Inl NotMipsel else
         bindC (read_coff coff 20 56) (\<lambda>systemh.
         if bytes_half (slice 0 2 systemh) \<noteq> OMAGIC then Inl NotOmagic else
         let numsections = unat (bytes_half (slice 2 2 fileh)) in
         bindC (read_coff coff 76 (int numsections * 40)) (\<lambda>sections.
         bindC (foldC (flat_section writable coff) (coff_sections numsections sections)
             \<lparr>ftop = 0, flatFile = \<lparr>fbytes = (\<lambda>_. 0), fsize = 0\<rparr>, flatInPos = 76 + numsections * 40, flatOutPos = 0\<rparr>) (\<lambda>st.
         let p = to_int32 (ftop st + FlatStackSize - 4); pos = (if 0 \<le> p then nat p else flatOutPos st) in
         if \<not> writable then Inl CannotWrite else Inr (WriteFile pos (word_bytes 0) (flatFile st)))))))"

section \<open>Object files without gaps\<close>

text \<open>The sections with contents follow each other in memory from address \<open>k\<close>.\<close>

fun packed :: "unix_file \<Rightarrow> nat \<Rightarrow> scnhdr list \<Rightarrow> bool" where
  "packed f k [] \<longleftrightarrow> True"
| "packed f k (s # ss) \<longleftrightarrow> unat (s_paddr s) + unat (s_size s) < 2 ^ 31 - 1024 \<and>
     (if is_zeroed s then packed f k ss
      else unat (s_paddr s) = k \<and> unat (s_scnptr s) + unat (s_size s) \<le> fsize f \<and> unat (s_scnptr s) + unat (s_size s) < 2 ^ 31 \<and>
        packed f (k + unat (s_size s)) ss)"

definition flat_top :: "scnhdr list \<Rightarrow> nat" where
  "flat_top ss = foldr (\<lambda>s m. max (unat (s_paddr s) + unat (s_size s)) m) ss 0"

definition flat_size :: "scnhdr list \<Rightarrow> nat" where
  "flat_size ss = sum_list (map (\<lambda>s. if is_zeroed s then 0 else unat (s_size s)) ss)"

lemma flat_simps [simp]:
  "flat_top [] = 0" "flat_top (s # ss) = max (unat (s_paddr s) + unat (s_size s)) (flat_top ss)"
  "flat_size [] = 0" "flat_size (s # ss) = (if is_zeroed s then 0 else unat (s_size s)) + flat_size ss"
  by (simp_all add: flat_top_def flat_size_def)

lemma packed_top: "packed f k ss \<Longrightarrow> flat_top ss < 2 ^ 31 - 1024" "packed f k ss \<Longrightarrow> k + flat_size ss \<le> max k (flat_top ss)"
  by (induction ss arbitrary: k) (fastforce split: if_splits)+

lemma packed_end:
  assumes "packed f k ss" "s \<in> set ss" "\<not> is_zeroed s"
  shows "unat (s_paddr s) + unat (s_size s) \<le> k + flat_size ss"
  using assms by (induction ss arbitrary: k) (fastforce split: if_splits)+

lemma read_raw:
  assumes "unat (s_scnptr s) + unat (s_size s) \<le> fsize f" "unat (s_scnptr s) + unat (s_size s) < 2147483648"
  shows "sint (s_scnptr s) \<ge> 0" "nat (sint (s_scnptr s)) = unat (s_scnptr s)"
    "read_coff f (unat (s_scnptr s)) (sint (s_size s)) = Inr (raw f s)"
proof -
  have p: "sint (s_scnptr s) = int (unat (s_scnptr s))" "sint (s_size s) = int (unat (s_size s))"
    using assms(2) by (intro sint_small; linarith)+
  then show "sint (s_scnptr s) \<ge> 0" "nat (sint (s_scnptr s)) = unat (s_scnptr s)" by (simp_all only: nat_int of_nat_0_le_iff)
  show "read_coff f (unat (s_scnptr s)) (sint (s_size s)) = Inr (raw f s)"
    unfolding p(2) using assms(1) by (subst read_coff_ok) (simp_all add: raw_def)
qed

lemma flat_loop:
  assumes "packed f k ss" "flatOutPos st = k" "fsize (flatFile st) = k" "0 \<le> ftop st"
  shows "\<exists>st'. foldC (flat_section True f) ss st = Inr st' \<and> fsize (flatFile st') = k + flat_size ss \<and> ftop st' = max (ftop st) (int (flat_top ss)) \<and>
     (\<forall>x < k. fbytes (flatFile st') x = fbytes (flatFile st) x) \<and>
     (\<forall>s \<in> set ss. \<not> is_zeroed s \<longrightarrow> map (fbytes (flatFile st')) [unat (s_paddr s)..<unat (s_paddr s) + unat (s_size s)] = raw f s)"
  using assms
proof (induction ss arbitrary: k st)
  case (Cons s ss)
  let ?e = "unat (s_paddr s) + unat (s_size s)"
  have "unat (s_paddr s + s_size s) = ?e" using Cons.prems(1) by (subst unat_add_lem [THEN iffD1]) simp_all
  then have e: "sint (s_paddr s + s_size s) = int ?e" using sint_small [of "s_paddr s + s_size s"] Cons.prems(1) by simp
  define st1 where "st1 = (if sint (s_paddr s + s_size s) > ftop st then st\<lparr>ftop := sint (s_paddr s + s_size s)\<rparr> else st)"
  have t: "ftop st1 = max (ftop st) (int ?e)" "flatFile st1 = flatFile st" "flatOutPos st1 = flatOutPos st" "flatInPos st1 = flatInPos st"
    using e by (auto simp: st1_def)
  have mx: "max (ftop st) (int (flat_top (s # ss))) = max (ftop st1) (int (flat_top ss))" "0 \<le> ftop st1"
    using Cons.prems(4) by (simp_all only: t(1) flat_simps of_nat_max max.assoc max.coboundedI1)
  show ?case
  proof (cases "is_zeroed s")
    case True
    then have "flat_section True f s st = Inr st1" by (simp add: flat_section_def st1_def Let_def)
    then show ?thesis unfolding mx(1) using Cons.IH [of k st1] Cons.prems True t(2,3) mx(2) by (simp add: bindC_def)
  next
    case False
    then have r: "unat (s_paddr s) = k" "unat (s_scnptr s) + unat (s_size s) \<le> fsize f" "unat (s_scnptr s) + unat (s_size s) < 2147483648"
      "packed f (k + unat (s_size s)) ss" using Cons.prems(1) by simp_all
    let ?st = "st1\<lparr>flatFile := WriteFile k (raw f s) (flatFile st), flatOutPos := k + unat (s_size s), flatInPos := unat (s_scnptr s) + unat (s_size s)\<rparr>"
    have step: "flat_section True f s st = Inr ?st"
      using False read_raw [OF r(2,3)] t Cons.prems(2) unfolding flat_section_def Let_def st1_def [symmetric] by (simp add: bindC_def)
    have sz: "fsize (flatFile ?st) = k + unat (s_size s)" using Cons.prems(3) by (simp add: WriteFile_def) (metis length_raw list.size(3) add_0_right)
    have new: "map (fbytes (flatFile ?st)) [k..<k + unat (s_size s)] = raw f s"
      by (rule nth_equalityI) (simp_all add: fbytes_append(2))
    have old: "fbytes (flatFile ?st) x = fbytes (flatFile st) x" if "x < k" for x
      using that Cons.prems(3) fbytes_append(1) [of x k "flatFile st"] by simp
    obtain st' where st': "foldC (flat_section True f) ss ?st = Inr st'" "fsize (flatFile st') = k + unat (s_size s) + flat_size ss"
       "ftop st' = max (ftop st1) (int (flat_top ss))" "\<forall>x < k + unat (s_size s). fbytes (flatFile st') x = fbytes (flatFile ?st) x"
       "\<forall>s \<in> set ss. \<not> is_zeroed s \<longrightarrow> map (fbytes (flatFile st')) [unat (s_paddr s)..<unat (s_paddr s) + unat (s_size s)] = raw f s"
      using Cons.IH [OF r(4), of ?st] sz mx(2) by auto
    have "map (fbytes (flatFile st')) [k..<k + unat (s_size s)] = map (fbytes (flatFile ?st)) [k..<k + unat (s_size s)]"
      using st'(4) by (intro map_cong) auto
    then have "map (fbytes (flatFile st')) [k..<k + unat (s_size s)] = raw f s" using new by (rule trans)
    then show ?thesis unfolding mx(1) using step st' False r(1) old by (auto simp: bindC_def)
  qed
qed simp

section \<open>The result\<close>

text \<open>
  C16: for an object file whose sections follow each other in memory from address 0 the flat file is the memory image: every section with contents
  is at its address, the rest up to the end of the stack is zero.
\<close>

theorem coff2flat_correct:
  assumes "76 + coff_nscns f * 40 \<le> fsize f" "bytes_half [fbytes f 0, fbytes f 1] = MIPSELMAGIC"
    "bytes_half [fbytes f 20, fbytes f 21] = OMAGIC" "packed f 0 (coff_table f)"
  shows "\<exists>flat. coff2flat True (Some f) = Inr flat \<and> fsize flat = flat_top (coff_table f) + 1024 \<and>
     (\<forall>s \<in> set (coff_table f). \<not> is_zeroed s \<longrightarrow> map (fbytes flat) [unat (s_paddr s)..<unat (s_paddr s) + unat (s_size s)] = raw f s) \<and>
     (\<forall>x. flat_size (coff_table f) \<le> x \<longrightarrow> x < fsize flat \<longrightarrow> fbytes flat x = 0)"
proof -
  let ?ss = "coff_table f"
  let ?st = "\<lparr>ftop = 0, flatFile = \<lparr>fbytes = (\<lambda>_. 0), fsize = 0\<rparr>, flatInPos = 76 + coff_nscns f * 40, flatOutPos = 0\<rparr>"
  obtain st where st: "foldC (flat_section True f) ?ss ?st = Inr st" "fsize (flatFile st) = flat_size ?ss" "ftop st = int (flat_top ?ss)"
     "\<forall>s \<in> set ?ss. \<not> is_zeroed s \<longrightarrow> map (fbytes (flatFile st)) [unat (s_paddr s)..<unat (s_paddr s) + unat (s_size s)] = raw f s"
    using flat_loop [OF assms(4), of ?st] by auto
  note top = packed_top [OF assms(4)]
  let ?p = "flat_top ?ss + 1020"
  have p: "to_int32 (ftop st + FlatStackSize - 4) = int ?p"
  proof -
    have "unat (of_nat ?p :: 32 word) = ?p" using top(1) by (subst unat_of_nat) simp
    then have "sint (of_nat ?p :: 32 word) = int ?p" using sint_small [of "of_nat ?p"] top(1) by simp
    moreover have "ftop st + FlatStackSize - 4 = int ?p" using st(3) by simp
    ultimately show ?thesis unfolding to_int32_def by (simp only: of_int_of_nat_eq)
  qed
  define flat where "flat = WriteFile ?p (word_bytes 0) (flatFile st)"
  have wb: "word_bytes 0 = [0, 0, 0, 0]" by (simp add: word_bytes_def)
  note r = coff_reads [OF assms(1)]
  have run: "coff2flat True (Some f) = Inr flat"
    using st(1) assms(2,3) p
    unfolding coff2flat_def r(1,2) r(4-6) bindC_def option.case sum.case Let_def coff_nscns_def [symmetric] r(3) coff_table_def [symmetric]
    by (simp add: flat_def nat_add_distrib)
  have sz: "fsize flat = flat_top ?ss + 1024" using top(2) st(2) by (simp add: flat_def wb WriteFile_def)
  have in_range: "fbytes flat x = fbytes (flatFile st) x" if "x < flat_size ?ss" for x
    using that top(2) st(2) by (simp add: flat_def wb WriteFile_def)
  have zero: "fbytes flat x = 0" if "flat_size ?ss \<le> x" "x < fsize flat" for x
    using that st(2) by (simp add: flat_def wb WriteFile_def nth_Cons' split: if_splits)
  have "map (fbytes flat) [unat (s_paddr s)..<unat (s_paddr s) + unat (s_size s)] = raw f s" if s: "s \<in> set ?ss" "\<not> is_zeroed s" for s
  proof -
    have "map (fbytes flat) [unat (s_paddr s)..<unat (s_paddr s) + unat (s_size s)] =
        map (fbytes (flatFile st)) [unat (s_paddr s)..<unat (s_paddr s) + unat (s_size s)]"
      using packed_end [OF assms(4) s] by (intro map_cong refl in_range) auto
    then show ?thesis using st(4) s by simp
  qed
  then show ?thesis using run sz zero by blast
qed

text \<open>The object file of \<open>Coff_Noff\<close>: eight bytes of text at address 0 and sixteen zeroed bytes after them.\<close>

theorem coff2flat_correct_witness:
  "\<exists>flat. coff2flat True (Some halt_coff) = Inr flat \<and> fsize flat = 1048 \<and>
     map (fbytes flat) [0..<8] = word_bytes 0x24020000 @ word_bytes 0xc \<and> fbytes flat 8 = 0"
proof -
  have c: "76 + coff_nscns halt_coff * 40 \<le> fsize halt_coff" "bytes_half [fbytes halt_coff 0, fbytes halt_coff 1] = MIPSELMAGIC"
    "bytes_half [fbytes halt_coff 20, fbytes halt_coff 21] = OMAGIC" using halt_coff_ok by (simp_all add: coff_ok_def)
  have z: "map is_zeroed (coff_table halt_coff) = [False, True]" unfolding halt_coff_table is_zeroed_def named_def by simp
  then have p: "packed halt_coff 0 (coff_table halt_coff)" "flat_top (coff_table halt_coff) = 24" "flat_size (coff_table halt_coff) = 8"
    unfolding halt_coff_table by (simp_all add: halt_coff_def)
  let ?s = "hd (coff_table halt_coff)"
  have s: "?s \<in> set (coff_table halt_coff)" "\<not> is_zeroed ?s" "unat (s_paddr ?s) = 0" "unat (s_size ?s) = 8"
    using z unfolding halt_coff_table by simp_all
  obtain flat where f: "coff2flat True (Some halt_coff) = Inr flat" "fsize flat = 1048"
      "\<forall>s \<in> set (coff_table halt_coff). \<not> is_zeroed s \<longrightarrow> map (fbytes flat) [unat (s_paddr s)..<unat (s_paddr s) + unat (s_size s)] = raw halt_coff s"
      "\<forall>x. 8 \<le> x \<longrightarrow> x < fsize flat \<longrightarrow> fbytes flat x = 0"
    using coff2flat_correct [OF c p(1)] unfolding p(2,3) by auto
  have "map (fbytes flat) [0..<8] = raw halt_coff ?s" using f(3) s by fastforce
  then show ?thesis using f(1,2,4) halt_coff_raw by auto
qed

end
