(* ===== verification/Mips_Interp.thy ===== *)
theory Mips_Interp
  imports Mips_Sim
begin

text \<open>
  The stand-alone MIPS interpreter (\<^verbatim>\<open>bin/execute.c\<close>, \<^verbatim>\<open>bin/instr.h\<close>, \<^verbatim>\<open>bin/encode.h\<close>, \<^verbatim>\<open>bin/int.h\<close>), and its agreement
  with the simulator of the kernel (\<^verbatim>\<open>machine/mipssim.cc\<close>).

  Registers are 32-bit words, \<open>imem\<close> is the array \<^verbatim>\<open>mem\<close>; an access outside it is a fault.  A shift of an \<^verbatim>\<open>int\<close> to
  the right is arithmetic.  C leaves a shift by 32 or more undefined, so it has no result here.  System calls are an argument \<open>sys\<close>:
  \<^verbatim>\<open>bin/system.c\<close> passes them to the host.  \<^verbatim>\<open>u()\<close> and the messages about coprocessors exit (\<open>Halted\<close>).
\<close>

section \<open>The interpreter\<close>

record Interp =
  Reg :: "nat \<Rightarrow> 32 word"
  HI :: "32 word"
  LO :: "32 word"
  ipc :: "32 word"
  inpc :: "32 word"
  imem :: "nat \<Rightarrow> byte"

type_synonym itr = "Interp \<Rightarrow> Interp result"

abbreviation (input) MEMSIZE :: int where "MEMSIZE \<equiv> 0x1000000"
abbreviation (input) memoffset :: int where "memoffset \<equiv> 0x10000000"

definition i_rd :: "32 word \<Rightarrow> nat" where "i_rd i = unat (signed_drop_bit 11 i AND 0x1f)"
definition i_rt :: "32 word \<Rightarrow> nat" where "i_rt i = unat (signed_drop_bit 16 i AND 0x1f)"
definition i_rs :: "32 word \<Rightarrow> nat" where "i_rs i = unat (signed_drop_bit 21 i AND 0x1f)"
definition i_shamt :: "32 word \<Rightarrow> nat" where "i_shamt i = unat (signed_drop_bit 6 i AND 0x1f)"

definition immed :: "32 word \<Rightarrow> 32 word" where
  "immed i = (if i AND 0x8000 \<noteq> 0 then i OR - 0x8000 else i AND 0x7fff)"

text \<open>The index into \<^verbatim>\<open>mem\<close> of the \<open>n\<close> bytes at a simulated address.\<close>

definition host_index :: "32 word \<Rightarrow> int \<Rightarrow> nat result" where
  "host_index a n = (let k = sint a - memoffset in requireE OutOfBounds (0 \<le> k \<and> k + n \<le> MEMSIZE) (Inr (nat k)))"

definition fetch :: "32 word \<Rightarrow> Interp \<Rightarrow> 32 word result" where
  "fetch a s = bindE (host_index a 4) (\<lambda>k. Inr (bytes_word [imem s k, imem s (k + 1), imem s (k + 2), imem s (k + 3)]))"

definition usfetch :: "32 word \<Rightarrow> Interp \<Rightarrow> 32 word result" where
  "usfetch a s = bindE (host_index a 2) (\<lambda>k. Inr (ucast (imem s k) OR push_bit 8 (ucast (imem s (k + 1)))))"

definition sfetch :: "32 word \<Rightarrow> Interp \<Rightarrow> 32 word result" where
  "sfetch a s = bindE (usfetch a s) (\<lambda>v. Inr (if v AND 0x8000 \<noteq> 0 then v OR 0xffff0000 else v))"

definition ucfetch :: "32 word \<Rightarrow> Interp \<Rightarrow> 32 word result" where
  "ucfetch a s = bindE (host_index a 1) (\<lambda>k. Inr (ucast (imem s k)))"

definition cfetch :: "32 word \<Rightarrow> Interp \<Rightarrow> 32 word result" where
  "cfetch a s = bindE (ucfetch a s) (\<lambda>v. Inr (if v AND 0x80 \<noteq> 0 then v OR 0xffffff00 else v))"

definition istore :: "int \<Rightarrow> 32 word \<Rightarrow> 32 word \<Rightarrow> itr" where
  "istore n a v s = bindE (host_index a n) (\<lambda>k.
     Inr (s\<lparr>imem := (\<lambda>j. if k \<le> j \<and> j < k + nat n then word_bytes v ! (j - k) else imem s j)\<rparr>))"

definition setReg :: "nat \<Rightarrow> 32 word \<Rightarrow> itr" where
  "setReg r v s = Inr (s\<lparr>Reg := (Reg s)(r := v)\<rparr>)"

definition shift_ok :: "32 word \<Rightarrow> 'a result \<Rightarrow> 'a result" where
  "shift_ok n r = requireE ArithTrap (n < 32) r"

text \<open>\<^verbatim>\<open>MULT\<close> and \<^verbatim>\<open>MULTU\<close>: the high word is put together from products of halves.\<close>

definition high_word :: "32 word \<Rightarrow> 32 word \<Rightarrow> 32 word" where
  "high_word t1 t2 =
    (let t1l = t1 AND 0xffff; t1h = signed_drop_bit 16 t1 AND 0xffff; t2l = t2 AND 0xffff; t2h = signed_drop_bit 16 t2 AND 0xffff in
     t1h * t2h + signed_drop_bit 16 (t1h * t2l) + signed_drop_bit 16 (t2h * t1l))"

definition i_MULT :: "32 word \<Rightarrow> 32 word \<Rightarrow> itr" where
  "i_MULT a b s =
    (let t1 = (if sint a < 0 then - a else a); t2 = (if sint b < 0 then - b else b);
         neg = ((sint a < 0) \<noteq> (sint b < 0)); lo = t1 * t2; hi = high_word t1 t2 in
     if neg then (let lo = NOT lo + 1 in Inr (s\<lparr>LO := lo, HI := (if lo = 0 then NOT hi + 1 else NOT hi)\<rparr>))
     else Inr (s\<lparr>LO := lo, HI := hi\<rparr>))"

definition i_MULTU :: "32 word \<Rightarrow> 32 word \<Rightarrow> itr" where
  "i_MULTU a b s = Inr (s\<lparr>LO := a * b, HI := high_word a b\<rparr>)"

definition i_DIV :: "32 word \<Rightarrow> 32 word \<Rightarrow> itr" where
  "i_DIV a b s = requireE ArithTrap (b \<noteq> 0 \<and> \<not> (sint a = - (2 ^ 31) \<and> sint b = -1))
     (Inr (s\<lparr>LO := word_of_int (sint a sdiv sint b), HI := word_of_int (sint a smod sint b)\<rparr>))"

definition i_DIVU :: "32 word \<Rightarrow> 32 word \<Rightarrow> itr" where
  "i_DIVU a b s = requireE ArithTrap (b \<noteq> 0) (Inr (s\<lparr>LO := a div b, HI := a mod b\<rparr>))"

text \<open>The \<^verbatim>\<open>switch\<close> of the case \<^verbatim>\<open>I_SPECIAL\<close>.\<close>

definition i_special :: "itr \<Rightarrow> 32 word \<Rightarrow> 32 word \<Rightarrow> itr" where
  "i_special sys instr xpc s =
    (let f = unat (instr AND 0x3f); a = Reg s (i_rs instr); b = Reg s (i_rt instr); d = i_rd instr; n = i_shamt instr in
     if f = 0 then setReg d (push_bit n b) s
     else if f = 2 then setReg d (drop_bit n b) s
     else if f = 3 then setReg d (signed_drop_bit n b) s
     else if f = 4 then shift_ok a (setReg d (push_bit (unat a) b) s)
     else if f = 6 then shift_ok a (setReg d (drop_bit (unat a) b) s)
     else if f = 7 then shift_ok a (setReg d (signed_drop_bit (unat a) b) s)
     else if f = 8 then Inr (s\<lparr>inpc := a\<rparr>)
     else if f = 9 then setReg d (xpc + 8) (s\<lparr>inpc := a\<rparr>)
     else if f = 12 then sys s
     else if f = 13 then sys s
     else if f = 16 then setReg d (HI s) s
     else if f = 17 then Inr (s\<lparr>HI := a\<rparr>)
     else if f = 18 then setReg d (LO s) s
     else if f = 19 then Inr (s\<lparr>LO := a\<rparr>)
     else if f = 24 then i_MULT a b s
     else if f = 25 then i_MULTU a b s
     else if f = 26 then i_DIV a b s
     else if f = 27 then i_DIVU a b s
     else if f = 32 \<or> f = 33 then setReg d (a + b) s
     else if f = 34 \<or> f = 35 then setReg d (a - b) s
     else if f = 36 then setReg d (a AND b) s
     else if f = 37 then setReg d (a OR b) s
     else if f = 38 then setReg d (a XOR b) s
     else if f = 39 then setReg d (NOT (a OR b)) s
     else if f = 42 then setReg d (if sint a < sint b then 1 else 0) s
     else if f = 43 then setReg d (if a < b then 1 else 0) s
     else Inl Halted)"

definition i_branch :: "bool \<Rightarrow> 32 word \<Rightarrow> 32 word \<Rightarrow> Interp \<Rightarrow> Interp" where
  "i_branch b instr xpc s = (if b then s\<lparr>inpc := xpc + 4 + push_bit 2 (immed instr)\<rparr> else s)"

definition i_bcond :: "32 word \<Rightarrow> 32 word \<Rightarrow> itr" where
  "i_bcond instr xpc s =
    (let link = s\<lparr>Reg := (Reg s)(31 := xpc + 8)\<rparr> in
     if i_rt instr = 0 then Inr (i_branch (sint (Reg s (i_rs instr)) < 0) instr xpc s)
     else if i_rt instr = 1 then Inr (i_branch (sint (Reg s (i_rs instr)) \<ge> 0) instr xpc s)
     else if i_rt instr = 16 then Inr (i_branch (sint (Reg link (i_rs instr)) < 0) instr xpc link)
     else if i_rt instr = 17 then Inr (i_branch (sint (Reg link (i_rs instr)) \<ge> 0) instr xpc link)
     else Inl Halted)"

definition i_jump :: "32 word \<Rightarrow> 32 word \<Rightarrow> Interp \<Rightarrow> Interp" where
  "i_jump instr xpc s = s\<lparr>inpc := (xpc AND 0xf0000000) OR push_bit 2 (instr AND 0x03ffffff)\<rparr>"

definition i_load :: "(32 word \<Rightarrow> Interp \<Rightarrow> 32 word result) \<Rightarrow> 32 word \<Rightarrow> itr" where
  "i_load get instr s = bindE (get (Reg s (i_rs instr) + immed instr) s) (\<lambda>v. setReg (i_rt instr) v s)"

definition i_LWL :: "32 word \<Rightarrow> itr" where
  "i_LWL instr s =
    (let i = Reg s (i_rs instr) + immed instr; t = i_rt instr;
         old = Reg s t AND signed_drop_bit (8 * unat (- i AND 3)) (- 1) in
     bindE (fetch (i AND 0xfffffffc) s) (\<lambda>v. setReg t (old OR push_bit (8 * unat (i AND 3)) v) s))"

definition i_LWR :: "32 word \<Rightarrow> itr" where
  "i_LWR instr s =
    (let i = Reg s (i_rs instr) + immed instr; t = i_rt instr;
         old = (if i AND 3 = 0 then 0 else Reg s t AND push_bit (8 * unat (i AND 3)) (- 1)) in
     bindE (fetch (i AND 0xfffffffc) s) (\<lambda>v. setReg t (old OR signed_drop_bit (8 * unat (- i AND 3)) v) s))"

text \<open>The outer \<^verbatim>\<open>switch\<close>.\<close>

definition i_execute :: "itr \<Rightarrow> 32 word \<Rightarrow> 32 word \<Rightarrow> itr" where
  "i_execute sys instr xpc s =
    (let n = unat (signed_drop_bit 26 instr AND 0x3f); a = Reg s (i_rs instr); b = Reg s (i_rt instr); t = i_rt instr; im = immed instr in
     if n = 0 then i_special sys instr xpc s
     else if n = 1 then i_bcond instr xpc s
     else if n = 2 then Inr (i_jump instr xpc s)
     else if n = 3 then Inr (i_jump instr xpc (s\<lparr>Reg := (Reg s)(31 := xpc + 8)\<rparr>))
     else if n = 4 then Inr (i_branch (a = b) instr xpc s)
     else if n = 5 then Inr (i_branch (a \<noteq> b) instr xpc s)
     else if n = 6 then Inr (i_branch (sint a \<le> 0) instr xpc s)
     else if n = 7 then Inr (i_branch (sint a > 0) instr xpc s)
     else if n = 8 \<or> n = 9 then setReg t (a + im) s
     else if n = 10 then setReg t (if sint a < sint im then 1 else 0) s
     else if n = 11 then setReg t (if a < im then 1 else 0) s
     else if n = 12 then setReg t (a AND im) s
     else if n = 13 then setReg t (a OR im) s
     else if n = 14 then setReg t (a XOR im) s
     else if n = 15 then setReg t (push_bit 16 instr) s
     else if n = 32 then i_load cfetch instr s
     else if n = 33 then i_load sfetch instr s
     else if n = 34 then i_LWL instr s
     else if n = 35 then i_load fetch instr s
     else if n = 36 then i_load ucfetch instr s
     else if n = 37 then i_load usfetch instr s
     else if n = 38 then i_LWR instr s
     else if n = 40 then istore 1 (a + im) b s
     else if n = 41 then istore 2 (a + im) b s
     else if n = 43 then istore 4 (a + im) b s
     else Inl Halted)"

text \<open>One round of the loop of \<^verbatim>\<open>runprogram\<close>.\<close>

definition interp_step :: "itr \<Rightarrow> itr" where
  "interp_step sys s =
    (let xpc = ipc s; s = s\<lparr>ipc := inpc s, inpc := inpc s + 4\<rparr> in
     bindE (fetch xpc s) (\<lambda>instr.
       let s = s\<lparr>Reg := (Reg s)(0 := 0)\<rparr> in
       if instr \<noteq> 0 then i_execute sys instr xpc s else Inr s))"

section \<open>The two decoders\<close>

lemma field_eq:
  fixes v :: "32 word"
  shows "i_rd v = rd (Decode v)" "i_rt v = rt (Decode v)" "i_rs v = rs (Decode v)"
    "unat (signed_drop_bit 26 v AND 0x3f) = unat (drop_bit 26 v AND 0x3f)" "i_shamt v = unat (drop_bit 6 v AND 0x1f)"
proof -
  have m: "(0x1f :: 32 word) = mask 5" "(0x3f :: 32 word) = mask 6" by (simp_all add: mask_eq_exp_minus_1)
  have e: "signed_drop_bit k v AND 0x1f = drop_bit k v AND 0x1f" if "k + 5 \<le> 32" for k
  proof (rule bit_word_eqI)
    fix n show "bit (signed_drop_bit k v AND 0x1f) n = bit (drop_bit k v AND 0x1f) n"
      unfolding m bit_and_iff bit_mask_iff using that by (auto simp: bit_signed_drop_bit_iff bit_drop_bit_eq)
  qed
  have f: "signed_drop_bit 26 v AND 0x3f = drop_bit 26 v AND 0x3f"
  proof (rule bit_word_eqI)
    fix n show "bit (signed_drop_bit 26 v AND 0x3f) n = bit (drop_bit 26 v AND 0x3f) n"
      unfolding m bit_and_iff bit_mask_iff by (auto simp: bit_signed_drop_bit_iff bit_drop_bit_eq)
  qed
  show "i_rd v = rd (Decode v)" "i_rt v = rt (Decode v)" "i_rs v = rs (Decode v)"
    "unat (signed_drop_bit 26 v AND 0x3f) = unat (drop_bit 26 v AND 0x3f)" "i_shamt v = unat (drop_bit 6 v AND 0x1f)"
    by (simp_all add: i_rd_def i_rt_def i_rs_def i_shamt_def Decode_def Let_def e f split: prod.splits)
qed

lemma immed_eq: "immed v = (let e = v AND 0xffff in if e AND 0x8000 \<noteq> 0 then e OR 0xffff0000 else e)"
proof -
  have m: "(0xffff :: 32 word) = mask 16" "(0x7fff :: 32 word) = mask 15" "(0x8000 :: 32 word) = push_bit 15 1"
    "- 0x8000 = push_bit 15 (- 1 :: 32 word)" "(0xffff0000 :: 32 word) = push_bit 16 (- 1)"
    by (simp_all add: mask_eq_exp_minus_1 push_bit_eq_mult)
  have b15: "w AND 0x8000 \<noteq> 0 \<longleftrightarrow> bit w 15" for w :: "32 word"
  proof -
    have "w AND 0x8000 \<noteq> 0 \<longleftrightarrow> (\<exists>n. bit (w AND 0x8000) n)" by (metis bit_0_eq bit_eq_iff bot_apply bot_bool_def)
    also have "\<dots> \<longleftrightarrow> bit w 15" unfolding m bit_and_iff bit_push_bit_iff bit_1_iff by (auto simp: possible_bit_def)
    finally show ?thesis .
  qed
  have e15: "bit (v AND 0xffff) 15 = bit v 15" unfolding m bit_and_iff bit_mask_iff by (simp add: possible_bit_def)
  show ?thesis
  proof (cases "bit v 15")
    case True
    have "v OR - 0x8000 = (v AND 0xffff) OR 0xffff0000"
    proof (rule bit_word_eqI)
      fix n :: nat assume "n < LENGTH(32)"
      then show "bit (v OR - 0x8000) n = bit ((v AND 0xffff) OR 0xffff0000) n"
        unfolding m(1,4,5) bit_or_iff bit_and_iff bit_mask_iff bit_push_bit_iff using True
        by (cases "n = 15") (auto simp: possible_bit_def)
    qed
    then show ?thesis using True by (simp add: immed_def Let_def b15 e15)
  next
    case False
    have "v AND 0x7fff = v AND 0xffff"
    proof (rule bit_word_eqI)
      fix n show "bit (v AND 0x7fff) n = bit (v AND 0xffff) n"
        unfolding m bit_and_iff bit_mask_iff using False by (cases "n = 15") (auto simp: possible_bit_def)
    qed
    then show ?thesis using False by (simp add: immed_def Let_def b15 e15)
  qed
qed

section \<open>Where the two agree\<close>

text \<open>
  The instructions on which the interpreter and the kernel's simulator do the same, with the conditions under which they do: no
  overflow trap in the simulator, immediates of the logical operations without sign bit (the interpreter extends
  the sign), shift amounts in range, right operands of \<^verbatim>\<open>SRL\<close> and \<^verbatim>\<open>OR\<close> on which the faults of the simulator do not show,
  branches outside delay slots.  Multiplications, memory accesses and system calls are not among them.
\<close>

definition alike :: "Instruction \<Rightarrow> Machine \<Rightarrow> bool" where
  "alike i m =
    (let a = reg m (rs i); b = reg m (rt i); slot = (reg m NextPCReg = reg m PCReg + 4) in
     case opCode i of
       OP_ADD \<Rightarrow> int32 (sint a + sint b) | OP_ADDI \<Rightarrow> int32 (sint a + sint (extra i)) | OP_SUB \<Rightarrow> int32 (sint a - sint b)
     | OP_ADDIU \<Rightarrow> True | OP_ADDU \<Rightarrow> True | OP_SUBU \<Rightarrow> True | OP_AND \<Rightarrow> True | OP_XOR \<Rightarrow> True | OP_NOR \<Rightarrow> True
     | OP_SLT \<Rightarrow> True | OP_SLTU \<Rightarrow> True | OP_SLTI \<Rightarrow> True | OP_SLTIU \<Rightarrow> True | OP_LUI \<Rightarrow> True | OP_SLL \<Rightarrow> True | OP_SRA \<Rightarrow> True
     | OP_MFHI \<Rightarrow> True | OP_MFLO \<Rightarrow> True | OP_MTHI \<Rightarrow> True | OP_MTLO \<Rightarrow> True | OP_JR \<Rightarrow> True
     | OP_ANDI \<Rightarrow> extra i AND 0x8000 = 0 | OP_ORI \<Rightarrow> extra i AND 0x8000 = 0 | OP_XORI \<Rightarrow> extra i AND 0x8000 = 0
     | OP_SLLV \<Rightarrow> a < 32 | OP_SRAV \<Rightarrow> a < 32 | OP_SRL \<Rightarrow> 0 \<le> sint b | OP_SRLV \<Rightarrow> a < 32 \<and> 0 \<le> sint b
     | OP_OR \<Rightarrow> a OR b = a
     | OP_DIV \<Rightarrow> b \<noteq> 0 \<and> \<not> (sint a = - (2 ^ 31) \<and> sint b = -1) | OP_DIVU \<Rightarrow> b \<noteq> 0
     | OP_BEQ \<Rightarrow> slot | OP_BNE \<Rightarrow> slot | OP_BLEZ \<Rightarrow> slot | OP_BGTZ \<Rightarrow> slot
     | OP_BLTZ \<Rightarrow> slot | OP_BGEZ \<Rightarrow> slot | OP_BLTZAL \<Rightarrow> slot | OP_BGEZAL \<Rightarrow> slot
     | OP_JALR \<Rightarrow> slot \<and> rd i \<noteq> rs i
     | OP_J \<Rightarrow> slot \<and> reg m PCReg AND 0xf0000000 = (reg m PCReg + 8) AND 0xf0000000
     | OP_JAL \<Rightarrow> slot \<and> reg m PCReg AND 0xf0000000 = (reg m PCReg + 8) AND 0xf0000000
     | _ \<Rightarrow> False)"

text \<open>The registers of the two machines, and the positions in the program.\<close>

definition regs_agree :: "Machine \<Rightarrow> Interp \<Rightarrow> bool" where
  "regs_agree m s \<longleftrightarrow> (\<forall>r < 32. r \<noteq> 0 \<longrightarrow> Reg s r = reg m r) \<and> HI s = reg m HiReg \<and> LO s = reg m LoReg"

definition agree :: "Machine \<Rightarrow> Interp \<Rightarrow> bool" where
  "agree m s \<longleftrightarrow> regs_agree m s \<and> reg m 0 = 0 \<and> ipc s = reg m PCReg \<and> inpc s = reg m NextPCReg \<and> reg m LoadReg = 0"

lemma alike_ops:
  "alike i m \<Longrightarrow> opCode i \<notin> {OP_UNIMP, OP_RES, OP_LB, OP_LH, OP_LWL, OP_LW, OP_LBU, OP_LHU, OP_LWR, OP_SB, OP_SH, OP_SWL, OP_SW, OP_SWR,
     OP_SYSCALL, OP_MULT, OP_MULTU}"
  by (auto simp: alike_def Let_def)

lemma Decode_primary:
  fixes v :: "32 word"
  defines "n \<equiv> unat (drop_bit 26 v AND 0x3f)"
  shows "opTable ! n = (op, IFMT) \<Longrightarrow> op \<noteq> SPECIAL \<Longrightarrow> op \<noteq> BCOND \<Longrightarrow> opCode (Decode v) = op \<and> extra (Decode v) = immed v"
    "opTable ! n = (op, JFMT) \<Longrightarrow> op \<noteq> SPECIAL \<Longrightarrow> op \<noteq> BCOND \<Longrightarrow> opCode (Decode v) = op \<and> extra (Decode v) = v AND 0x3ffffff"
    "n = 0 \<Longrightarrow> opCode (Decode v) = specialTable ! unat (v AND 0x3f) \<and> extra (Decode v) = drop_bit 6 v AND 0x1f"
    "n = 1 \<Longrightarrow> extra (Decode v) = immed v"
  by (simp_all add: Decode_def n_def immed_eq Let_def) (simp_all add: opTable_def)

lemma alike_primary:
  assumes "alike (Decode v) m"
  shows "unat (drop_bit 26 v AND 0x3f) < 16"
proof (rule ccontr)
  let ?n = "unat (drop_bit 26 v AND 0x3f)"
  assume n: "\<not> ?n < 16"
  have l: "?n < 64" "length opTable = 64" by (simp_all add: unat_and_mask_less length_tables)
  have "\<forall>e \<in> set (drop 16 opTable). snd e = IFMT \<and> fst e \<in> {OP_UNIMP, OP_RES, OP_LB, OP_LH, OP_LWL, OP_LW, OP_LBU, OP_LHU, OP_LWR, OP_SB, OP_SH, OP_SWL,
      OP_SW, OP_SWR}" by (simp add: opTable_def)
  moreover have "opTable ! ?n \<in> set (drop 16 opTable)"
    using n l nth_mem [of "?n - 16" "drop 16 opTable"] by (simp add: nth_drop)
  ultimately obtain op where "opTable ! ?n = (op, IFMT)" "op \<in> {OP_UNIMP, OP_RES, OP_LB, OP_LH, OP_LWL, OP_LW, OP_LBU, OP_LHU, OP_LWR, OP_SB, OP_SH, OP_SWL,
      OP_SW, OP_SWR}" by (metis prod.collapse)
  then show False using Decode_primary(1) [of v op] alike_ops [OF assms] by auto
qed

text \<open>The outcomes of one instruction in the two machines.\<close>

definition same_outcome :: "Machine \<Rightarrow> Interp \<Rightarrow> outcome \<Rightarrow> Interp result \<Rightarrow> bool" where
  "same_outcome m s out out' \<longleftrightarrow> (\<exists>pc m' s'. out = nxt pc m' \<and> out' = Inr s' \<and> regs_agree m' s' \<and> inpc s' = pc \<and> ipc s' = ipc s \<and>
     (\<forall>r \<ge> 34. reg m' r = reg m r) \<and> m'\<lparr>registers := registers m\<rparr> = m \<and> imem s' = imem s)"

lemma outcome_write:
  assumes "regs_agree m s" "r < 32" "v' = v" "inpc s = pc"
  shows "same_outcome m s (nxt pc (setreg r v m)) (setReg r v' s)"
  unfolding same_outcome_def using assms
  by (intro exI [of _ pc] exI [of _ "setreg r v m"] exI [of _ "s\<lparr>Reg := (Reg s)(r := v)\<rparr>"]) (auto simp: setReg_def regs_agree_def setreg_def)

lemma outcome_branch:
  assumes "regs_agree m s" "b' = b" "inpc s = pc" "t = xpc + 4 + push_bit 2 (immed v)"
  shows "same_outcome m s (nxt (if b then t else pc) m) (Inr (i_branch b' v xpc s))"
  unfolding same_outcome_def using assms
  by (intro exI [of _ "if b then t else pc"] exI [of _ m] exI [of _ "i_branch b' v xpc s"]) (auto simp: i_branch_def regs_agree_def)

lemma outcome_state:
  assumes "regs_agree m' s'" "inpc s' = pc" "ipc s' = ipc s" "\<And>r. 34 \<le> r \<Longrightarrow> reg m' r = reg m r" "m'\<lparr>registers := registers m\<rparr> = m" "imem s' = imem s"
  shows "same_outcome m s (nxt pc m') (Inr s')"
  unfolding same_outcome_def using assms by blast

text \<open>Operands of the arithmetic instructions.\<close>

lemma sint_add_word: "word_of_int (sint a + sint b) = a + b" "word_of_int (sint a - sint b) = a - b" for a b :: "32 word"
  by simp_all

lemma low_mask_imm:
  assumes "immed v AND 0x8000 = 0"
  shows "immed v AND 0xffff = immed v"
proof (cases "(v AND 0xffff) AND 0x8000 = 0")
  case True
  then show ?thesis by (simp add: immed_eq Let_def and.assoc)
next
  case False
  have "((v AND 0xffff) OR 0xffff0000) AND 0x8000 = ((v AND 0xffff) AND 0x8000) OR (0xffff0000 AND 0x8000)"
    by (simp only: bit.conj_disj_distrib2)
  then have "((v AND 0xffff) OR 0xffff0000) AND 0x8000 = (v AND 0xffff) AND 0x8000" by simp
  then show ?thesis using assms False by (simp add: immed_eq Let_def)
qed

lemma shift_amount: "a < 32 \<Longrightarrow> unat (a AND 0x1f) = unat a" for a :: "32 word"
proof -
  assume a: "a < 32"
  have m: "(0x1f :: 32 word) = mask 5" by (simp add: mask_eq_exp_minus_1)
  have "unat (a AND 0x1f) = take_bit 5 (unat a)" unfolding m take_bit_eq_mask [symmetric] by (simp add: unsigned_take_bit_eq)
  moreover have "unat a < 32" using a by (simp add: word_less_nat_alt)
  ultimately show ?thesis by (simp add: take_bit_nat_eq_self_iff)
qed

lemma sint_neg_bit: "sint b < 0 \<longleftrightarrow> bit b 31" for b :: "32 word"
  using uint32_bounds [of b] bit31_iff [of b] by (auto simp: sint32 bit_uint_iff)

lemma sint_0_iff: "sint b = 0 \<longleftrightarrow> b = 0" for b :: "32 word"
  by (metis signed_0 signed_word_eqI)

lemma drop_nonneg: "0 \<le> sint b \<Longrightarrow> signed_drop_bit n b = drop_bit n b" for b :: "32 word"
proof -
  assume "0 \<le> sint b"
  then have nb: "\<not> bit b 31" using sint_neg_bit [of b] by simp
  show ?thesis
  proof (rule bit_word_eqI)
    fix k :: nat assume "k < LENGTH(32)"
    then show "bit (signed_drop_bit n b) k = bit (drop_bit n b) k"
      using nb bit_imp_le_length [of b "n + k"] by (auto simp: bit_signed_drop_bit_iff bit_drop_bit_eq)
  qed
qed

text \<open>The second switches: \<^verbatim>\<open>SPECIAL\<close> and \<^verbatim>\<open>BCOND\<close>.\<close>

lemma special_writes:
  assumes r: "\<And>r. r < 32 \<Longrightarrow> Reg s r = reg m r" "HI s = reg m HiReg" "LO s = reg m LoReg"
    and pc: "inpc s = reg m NextPCReg + 4" and n: "unat (drop_bit 26 v AND 0x3f) = 0" and al: "alike (Decode v) m"
    and f: "unat (v AND 0x3f) \<in> set [0, 2, 3, 4, 6, 7, 16, 18, 32, 33, 34, 35, 36, 37, 38, 39, 42, 43]"
  shows "same_outcome m s (exec_op (Decode v) (reg m NextPCReg + 4) m) (i_special sys v (reg m PCReg) s)"
proof -
  let ?i = "Decode v" and ?f = "unat (v AND 0x3f)"
  let ?goal = "same_outcome m s (exec_op ?i (reg m NextPCReg + 4) m) (i_special sys v (reg m PCReg) s)"
  have g: "regs_agree m s" using r by (simp add: regs_agree_def)
  have d: "opCode ?i = specialTable ! ?f" "unat (extra ?i) = i_shamt v" using Decode_primary(3) [of v] n field_eq(5) [of v] by simp_all
  have ab: "Reg s (rs ?i) = reg m (rs ?i)" "Reg s (rt ?i) = reg m (rt ?i)" using r(1) by simp_all
  have put: "?goal" if "exec_op ?i (reg m NextPCReg + 4) m = nxt (reg m NextPCReg + 4) (setreg (rd ?i) x m)"
      "i_special sys v (reg m PCReg) s = setReg (rd ?i) x s" for x
    unfolding that using outcome_write [OF g Decode_regs(3) _ pc] by simp
  note unf = exec_op_def alike_def i_special_def Let_def field_eq(1-3) ab d(2) [symmetric] specialTable_def
  have o0: "?f = 0 \<Longrightarrow> ?goal"
    by (rule put [of "push_bit (i_shamt v) (reg m (rt ?i))"]) (use al d(1) in \<open>simp_all add: unf op_SLL_def\<close>)
  have o2: "?f = 2 \<Longrightarrow> ?goal"
    by (rule put [of "drop_bit (i_shamt v) (reg m (rt ?i))"]) (use al d(1) in \<open>simp_all add: unf op_SRL_def drop_nonneg\<close>)
  have o3: "?f = 3 \<Longrightarrow> ?goal"
    by (rule put [of "signed_drop_bit (i_shamt v) (reg m (rt ?i))"]) (use al d(1) in \<open>simp_all add: unf op_SRA_def\<close>)
  have o4: "?f = 4 \<Longrightarrow> ?goal"
    by (rule put [of "push_bit (unat (reg m (rs ?i))) (reg m (rt ?i))"]) (use al d(1) in \<open>simp_all add: unf op_SLLV_def shift_amount shift_ok_def\<close>)
  have o6: "?f = 6 \<Longrightarrow> ?goal"
    by (rule put [of "drop_bit (unat (reg m (rs ?i))) (reg m (rt ?i))"]) (use al d(1) in \<open>simp_all add: unf op_SRLV_def shift_amount shift_ok_def drop_nonneg\<close>)
  have o7: "?f = 7 \<Longrightarrow> ?goal"
    by (rule put [of "signed_drop_bit (unat (reg m (rs ?i))) (reg m (rt ?i))"]) (use al d(1) in \<open>simp_all add: unf op_SRAV_def shift_amount shift_ok_def\<close>)
  have o16: "?f = 16 \<Longrightarrow> ?goal"
    by (rule put [of "reg m HiReg"]) (use al d(1) in \<open>simp_all add: unf op_MFHI_def r(2)\<close>)
  have o18: "?f = 18 \<Longrightarrow> ?goal"
    by (rule put [of "reg m LoReg"]) (use al d(1) in \<open>simp_all add: unf op_MFLO_def r(3)\<close>)
  have o32: "?f = 32 \<Longrightarrow> ?goal"
    by (rule put [of "reg m (rs ?i) + reg m (rt ?i)"]) (use al d(1) in \<open>simp_all add: unf op_ADD_cases int32_def sint_add_word\<close>)
  have o33: "?f = 33 \<Longrightarrow> ?goal"
    by (rule put [of "reg m (rs ?i) + reg m (rt ?i)"]) (use al d(1) in \<open>simp_all add: unf op_ADDU_def\<close>)
  have o34: "?f = 34 \<Longrightarrow> ?goal"
    by (rule put [of "reg m (rs ?i) - reg m (rt ?i)"]) (use al d(1) in \<open>simp_all add: unf op_SUB_cases int32_def sint_add_word\<close>)
  have o35: "?f = 35 \<Longrightarrow> ?goal"
    by (rule put [of "reg m (rs ?i) - reg m (rt ?i)"]) (use al d(1) in \<open>simp_all add: unf op_SUBU_def\<close>)
  have o36: "?f = 36 \<Longrightarrow> ?goal"
    by (rule put [of "reg m (rs ?i) AND reg m (rt ?i)"]) (use al d(1) in \<open>simp_all add: unf op_AND_def\<close>)
  have o37: "?f = 37 \<Longrightarrow> ?goal"
    by (rule put [of "reg m (rs ?i) OR reg m (rt ?i)"]) (use al d(1) in \<open>simp_all add: unf op_OR_def\<close>)
  have o38: "?f = 38 \<Longrightarrow> ?goal"
    by (rule put [of "reg m (rs ?i) XOR reg m (rt ?i)"]) (use al d(1) in \<open>simp_all add: unf op_XOR_def\<close>)
  have o39: "?f = 39 \<Longrightarrow> ?goal"
    by (rule put [of "NOT (reg m (rs ?i) OR reg m (rt ?i))"]) (use al d(1) in \<open>simp_all add: unf op_NOR_def\<close>)
  have o42: "?f = 42 \<Longrightarrow> ?goal"
    by (rule put [of "if sint (reg m (rs ?i)) < sint (reg m (rt ?i)) then 1 else 0"]) (use al d(1) in \<open>simp_all add: unf op_SLT_def\<close>)
  have o43: "?f = 43 \<Longrightarrow> ?goal"
    by (rule put [of "if reg m (rs ?i) < reg m (rt ?i) then 1 else 0"]) (use al d(1) in \<open>simp_all add: unf op_SLTU_def\<close>)
  from f show ?thesis
    using o0 o2 o3 o4 o6 o7 o16 o18 o32 o33 o34 o35 o36 o37 o38 o39 o42 o43 by (simp del: unat_eq_0) blast
qed

lemma special_moves:
  assumes r: "\<And>r. r < 32 \<Longrightarrow> Reg s r = reg m r" "HI s = reg m HiReg" "LO s = reg m LoReg"
    and pc: "inpc s = reg m NextPCReg + 4" and n: "unat (drop_bit 26 v AND 0x3f) = 0" and al: "alike (Decode v) m"
    and f: "unat (v AND 0x3f) \<in> set [8, 9, 17, 19, 26, 27]"
  shows "same_outcome m s (exec_op (Decode v) (reg m NextPCReg + 4) m) (i_special sys v (reg m PCReg) s)"
proof -
  let ?i = "Decode v" and ?f = "unat (v AND 0x3f)"
  let ?goal = "same_outcome m s (exec_op ?i (reg m NextPCReg + 4) m) (i_special sys v (reg m PCReg) s)"
  have g: "regs_agree m s" using r by (simp add: regs_agree_def)
  have d: "opCode ?i = specialTable ! ?f" "unat (extra ?i) = i_shamt v" using Decode_primary(3) [of v] n field_eq(5) [of v] by simp_all
  have ab: "Reg s (rs ?i) = reg m (rs ?i)" "Reg s (rt ?i) = reg m (rt ?i)" using r(1) by simp_all
  have state: "?goal" if "exec_op ?i (reg m NextPCReg + 4) m = nxt npc m'" "i_special sys v (reg m PCReg) s = Inr s'"
      "regs_agree m' s'" "inpc s' = npc" "ipc s' = ipc s" "\<And>r. 34 \<le> r \<Longrightarrow> reg m' r = reg m r" "m'\<lparr>registers := registers m\<rparr> = m" "imem s' = imem s" for npc m' s'
    unfolding that(1,2) using that(3-8) by (rule outcome_state)
  note unf = exec_op_def alike_def i_special_def Let_def field_eq(1-3) ab d(2) [symmetric] specialTable_def
  have rne: "\<And>r. 32 \<le> r \<Longrightarrow> rd ?i \<noteq> r" "\<not> 34 \<le> rd ?i" using Decode_regs(3) [of v] by linarith+
  let ?a = "reg m (rs ?i)" and ?b = "reg m (rt ?i)"
  have o8: "?f = 8 \<Longrightarrow> ?goal"
    by (rule state [of "reg m (rs ?i)" m "s\<lparr>inpc := reg m (rs ?i)\<rparr>"])
      (use al d(1) g in \<open>simp_all add: unf op_JR_def regs_agree_def\<close>)
  have o9: "?f = 9 \<Longrightarrow> ?goal"
    by (rule state [of "reg m (rs ?i)" "setreg (rd ?i) (reg m NextPCReg + 4) m" "s\<lparr>inpc := reg m (rs ?i), Reg := (Reg s)(rd ?i := reg m PCReg + 8)\<rparr>"])
      (use al d(1) g rne in \<open>auto simp: unf op_JALR_def op_JR_def regs_agree_def setReg_def setreg_def\<close>)
  have o17: "?f = 17 \<Longrightarrow> ?goal"
    by (rule state [of "reg m NextPCReg + 4" "setreg HiReg (reg m (rs ?i)) m" "s\<lparr>HI := reg m (rs ?i)\<rparr>"])
      (use al d(1) g pc in \<open>simp_all add: unf op_MTHI_def regs_agree_def setreg_def\<close>)
  have o19: "?f = 19 \<Longrightarrow> ?goal"
    by (rule state [of "reg m NextPCReg + 4" "setreg LoReg (reg m (rs ?i)) m" "s\<lparr>LO := reg m (rs ?i)\<rparr>"])
      (use al d(1) g pc in \<open>simp_all add: unf op_MTLO_def regs_agree_def setreg_def\<close>)
  have o26: "?f = 26 \<Longrightarrow> ?goal"
    by (rule state [of "reg m NextPCReg + 4" "setreg HiReg (word_of_int (sint ?a smod sint ?b)) (setreg LoReg (word_of_int (sint ?a sdiv sint ?b)) m)"
          "s\<lparr>LO := word_of_int (sint ?a sdiv sint ?b), HI := word_of_int (sint ?a smod sint ?b)\<rparr>"])
      (use al d(1) g pc in \<open>simp_all add: unf op_DIV_def i_DIV_def regs_agree_def setreg_def sint_0_iff\<close>)
  have o27: "?f = 27 \<Longrightarrow> ?goal"
    by (rule state [of "reg m NextPCReg + 4" "setreg HiReg (?a mod ?b) (setreg LoReg (?a div ?b) m)" "s\<lparr>LO := ?a div ?b, HI := ?a mod ?b\<rparr>"])
      (use al d(1) g pc in \<open>simp_all add: unf op_DIVU_def i_DIVU_def regs_agree_def setreg_def\<close>)
  from f show ?thesis
    using o8 o9 o17 o19 o26 o27 by (simp del: unat_eq_0) blast
qed

lemma special_agrees:
  assumes r: "\<And>r. r < 32 \<Longrightarrow> Reg s r = reg m r" "HI s = reg m HiReg" "LO s = reg m LoReg"
    and pc: "inpc s = reg m NextPCReg + 4" and n: "unat (drop_bit 26 v AND 0x3f) = 0" and al: "alike (Decode v) m"
  shows "same_outcome m s (exec_op (Decode v) (reg m NextPCReg + 4) m) (i_special sys v (reg m PCReg) s)"
proof -
  let ?f = "unat (v AND 0x3f)"
  have d: "opCode (Decode v) = specialTable ! ?f" using Decode_primary(3) [of v] n by simp
  have "\<forall>k \<in> set [0..<64]. specialTable ! k \<in> set [OP_RES, OP_UNIMP, OP_SYSCALL, OP_MULT, OP_MULTU] \<or>
      k \<in> set [0, 2, 3, 4, 6, 7, 8, 9, 16, 17, 18, 19, 26, 27, 32, 33, 34, 35, 36, 37, 38, 39, 42, 43]"
    by code_simp
  moreover have "?f \<in> set [0..<64]" using unat_and_mask_less(2) [of v] by simp
  moreover have "specialTable ! ?f \<notin> set [OP_RES, OP_UNIMP, OP_SYSCALL, OP_MULT, OP_MULTU]" using alike_ops [OF al] d by simp
  ultimately have "?f \<in> set [0, 2, 3, 4, 6, 7, 16, 18, 32, 33, 34, 35, 36, 37, 38, 39, 42, 43] \<or> ?f \<in> set [8, 9, 17, 19, 26, 27]" by auto
  then show ?thesis using special_writes [OF r pc n al] special_moves [OF r pc n al] by blast
qed

lemma bcond_field: "v AND 0x1f0000 = push_bit 16 (of_nat (rt (Decode v)))" for v :: "32 word"
proof -
  have m: "(0x1f :: 32 word) = mask 5" "(0x1f0000 :: 32 word) = push_bit 16 (mask 5)" by (simp_all add: mask_eq_exp_minus_1 push_bit_eq_mult)
  have "rt (Decode v) = unat (drop_bit 16 v AND 0x1f)" by (simp add: Decode_def Let_def split: prod.splits)
  moreover have "v AND 0x1f0000 = push_bit 16 (drop_bit 16 v AND 0x1f)"
  proof (rule bit_word_eqI)
    fix k show "bit (v AND 0x1f0000) k = bit (push_bit 16 (drop_bit 16 v AND 0x1f)) k"
      unfolding m bit_and_iff bit_push_bit_iff bit_mask_iff bit_drop_bit_eq by (auto simp: possible_bit_def)
  qed
  ultimately show ?thesis by simp
qed

lemma Decode_bcond:
  assumes "unat (drop_bit 26 v AND 0x3f) = 1"
  shows "opCode (Decode v) = (let t = rt (Decode v) in if t = 0 then OP_BLTZ else if t = 1 then OP_BGEZ else if t = 16 then OP_BLTZAL
     else if t = 17 then OP_BGEZAL else OP_UNIMP)"
proof -
  have e: "v AND 0x1f0000 = push_bit 16 (of_nat k) \<longleftrightarrow> rt (Decode v) = k" if "k < 32" for k
  proof -
    have "push_bit 16 (of_nat j :: 32 word) = of_nat (j * 65536)" for j by (simp add: push_bit_eq_mult)
    moreover have "unat (of_nat (j * 65536) :: 32 word) = j * 65536" if "j < 32" for j
      using that by (subst unat_of_nat) simp
    ultimately show ?thesis unfolding bcond_field using Decode_regs(2) [of v] that
      by (metis mult_cancel2 zero_neq_numeral)
  qed
  have p: "push_bit 16 (of_nat 0) = (0 :: 32 word)" "push_bit 16 (of_nat 1) = (0x10000 :: 32 word)"
    "push_bit 16 (of_nat 16) = (0x100000 :: 32 word)" "push_bit 16 (of_nat 17) = (0x110000 :: 32 word)" by (simp_all add: push_bit_eq_mult)
  have "opCode (Decode v) = (let i = v AND 0x1f0000 in if i = 0 then OP_BLTZ else if i = 0x10000 then OP_BGEZ
      else if i = 0x100000 then OP_BLTZAL else if i = 0x110000 then OP_BGEZAL else OP_UNIMP)"
    using assms by (simp add: Decode_def opTable_def Let_def)
  then show ?thesis using e [of 0] e [of 1] e [of 16] e [of 17] unfolding p Let_def by simp
qed

lemma bcond_agrees:
  assumes r: "\<And>r. r < 32 \<Longrightarrow> Reg s r = reg m r" "HI s = reg m HiReg" "LO s = reg m LoReg"
    and pc: "inpc s = reg m NextPCReg + 4" and n: "unat (drop_bit 26 v AND 0x3f) = 1" and al: "alike (Decode v) m"
  shows "same_outcome m s (exec_op (Decode v) (reg m NextPCReg + 4) m) (i_bcond v (reg m PCReg) s)"
proof -
  let ?i = "Decode v" and ?t = "rt (Decode v)"
  let ?lm = "setreg R31 (reg m NextPCReg + 4) m" and ?ls = "s\<lparr>Reg := (Reg s)(31 := reg m PCReg + 8)\<rparr>"
  have t: "?t \<in> {0, 1, 16, 17}" using alike_ops [OF al] Decode_bcond [OF n] by (auto simp: Let_def split: if_splits)
  have slot: "reg m NextPCReg = reg m PCReg + 4" using al t Decode_bcond [OF n] by (auto simp: alike_def Let_def)
  have x: "extra ?i = immed v" by (rule Decode_primary(4) [OF n])
  have neg: "w AND SIGN_BIT \<noteq> 0 \<longleftrightarrow> sint w < 0" for w :: "32 word"
    using sign_bit_iff [of w] uint32_bounds [of w] by (auto simp: sint32)
  have g: "regs_agree m s" "regs_agree ?lm ?ls" using r slot by (simp_all add: regs_agree_def)
  have target: "branch_target ?i m' = reg m PCReg + 4 + push_bit 2 (immed v)" if "reg m' NextPCReg = reg m NextPCReg" for m'
    using that slot x by (simp add: branch_target_def IndexToAddr_def)
  have br: ?thesis if "exec_op ?i (reg m NextPCReg + 4) m = nxt (if b then branch_target ?i m else reg m NextPCReg + 4) m"
      "i_bcond v (reg m PCReg) s = Inr (i_branch b v (reg m PCReg) s)" for b
    unfolding that by (rule outcome_branch [OF g(1) refl pc]) (simp add: target)
  have link: ?thesis if "exec_op ?i (reg m NextPCReg + 4) m = nxt (if b then branch_target ?i ?lm else reg m NextPCReg + 4) ?lm"
      "i_bcond v (reg m PCReg) s = Inr (i_branch b v (reg m PCReg) ?ls)" for b
    unfolding that
    by (rule outcome_state) (use g(2) pc target [of ?lm] in \<open>auto simp: i_branch_def regs_agree_def setreg_def\<close>)
  note d = Decode_bcond [OF n] exec_op_def i_bcond_def Let_def field_eq(1-3) op_BLTZ_def op_BGEZ_def op_BLTZAL_def op_BGEZAL_def
  let ?a = "reg m (rs ?i)" and ?l = "reg ?lm (rs ?i)"
  have a: "Reg s (rs ?i) = ?a" "Reg ?ls (rs ?i) = ?l" using r(1) slot by simp_all
  have nn: "w AND SIGN_BIT = 0 \<longleftrightarrow> 0 \<le> sint w" for w :: "32 word" using neg [of w] by auto
  consider "?t = 0" | "?t = 1" | "?t = 16" | "?t = 17" using t by auto
  then show ?thesis
  proof cases
    case 1 then show ?thesis using a neg by (intro br [of "sint ?a < 0"]) (simp_all add: d)
  next
    case 2 then show ?thesis using a nn by (intro br [of "0 \<le> sint ?a"]) (simp_all add: d)
  next
    case 3 then show ?thesis using a neg by (intro link [of "sint ?l < 0"]) (simp_all add: d)
  next
    case 4 then show ?thesis using a nn by (intro link [of "0 \<le> sint ?l"]) (simp_all add: d)
  qed
qed

lemma lui_imm: "push_bit 16 (immed v) = push_bit 16 v" for v :: "32 word"
proof -
  have m: "(0xffff :: 32 word) = mask 16" "(0xffff0000 :: 32 word) = push_bit 16 (- 1)" by (simp_all add: mask_eq_exp_minus_1 push_bit_eq_mult)
  have "push_bit 16 (v AND 0xffff) = push_bit 16 v" "push_bit 16 ((v AND 0xffff) OR 0xffff0000) = push_bit 16 v"
    unfolding m by (auto intro!: bit_word_eqI simp: bit_push_bit_iff bit_and_iff bit_or_iff bit_not_iff bit_mask_iff possible_bit_def)
  then show ?thesis by (simp add: immed_eq Let_def)
qed

lemma immediate_agrees:
  assumes r: "\<And>r. r < 32 \<Longrightarrow> Reg s r = reg m r" "HI s = reg m HiReg" "LO s = reg m LoReg"
    and pc: "inpc s = reg m NextPCReg + 4" and n: "unat (drop_bit 26 v AND 0x3f) \<in> {8..<16}" and al: "alike (Decode v) m"
  shows "same_outcome m s (exec_op (Decode v) (reg m NextPCReg + 4) m) (i_execute sys v (reg m PCReg) s)"
proof -
  let ?i = "Decode v" and ?n = "unat (drop_bit 26 v AND 0x3f)"
  let ?goal = "same_outcome m s (exec_op ?i (reg m NextPCReg + 4) m) (i_execute sys v (reg m PCReg) s)"
  let ?a = "reg m (rs ?i)" and ?x = "immed v"
  have g: "regs_agree m s" using r by (simp add: regs_agree_def)
  have ab: "Reg s (rs ?i) = ?a" using r(1) by simp
  have put: "?goal" if "exec_op ?i (reg m NextPCReg + 4) m = nxt (reg m NextPCReg + 4) (setreg (rt ?i) x m)"
      "i_execute sys v (reg m PCReg) s = setReg (rt ?i) x s" for x
    unfolding that using outcome_write [OF g Decode_regs(2) _ pc] by simp
  have d: "opCode ?i = op \<and> extra ?i = ?x" if "?n = k" "opTable ! k = (op, IFMT)" "op \<noteq> SPECIAL" "op \<noteq> BCOND" for op k
    using Decode_primary(1) that by blast
  note unf = exec_op_def alike_def i_execute_def Let_def field_eq(1-4) ab
  have o8: "?n = 8 \<Longrightarrow> ?goal"
    by (rule put [of "?a + ?x"]) (use al d [of 8 OP_ADDI] in \<open>simp_all add: opTable_def unf op_ADDI_cases int32_def sint_add_word\<close>)
  have o9: "?n = 9 \<Longrightarrow> ?goal"
    by (rule put [of "?a + ?x"]) (use al d [of 9 OP_ADDIU] in \<open>simp_all add: opTable_def unf op_ADDIU_def\<close>)
  have o10: "?n = 10 \<Longrightarrow> ?goal"
    by (rule put [of "if sint ?a < sint ?x then 1 else 0"]) (use al d [of 10 OP_SLTI] in \<open>simp_all add: opTable_def unf op_SLTI_def\<close>)
  have o11: "?n = 11 \<Longrightarrow> ?goal"
    by (rule put [of "if ?a < ?x then 1 else 0"]) (use al d [of 11 OP_SLTIU] in \<open>simp_all add: opTable_def unf op_SLTIU_def\<close>)
  have o12: "?n = 12 \<Longrightarrow> ?goal"
    by (rule put [of "?a AND ?x"]) (use al d [of 12 OP_ANDI] in \<open>simp_all add: opTable_def unf op_ANDI_def low_mask_imm\<close>)
  have o13: "?n = 13 \<Longrightarrow> ?goal"
    by (rule put [of "?a OR ?x"]) (use al d [of 13 OP_ORI] in \<open>simp_all add: opTable_def unf op_ORI_def low_mask_imm\<close>)
  have o14: "?n = 14 \<Longrightarrow> ?goal"
    by (rule put [of "?a XOR ?x"]) (use al d [of 14 OP_XORI] in \<open>simp_all add: opTable_def unf op_XORI_def low_mask_imm\<close>)
  have o15: "?n = 15 \<Longrightarrow> ?goal"
    by (rule put [of "push_bit 16 v"]) (use al d [of 15 OP_LUI] in \<open>simp_all add: opTable_def unf op_LUI_def lui_imm\<close>)
  show ?thesis using n o8 o9 o10 o11 o12 o13 o14 o15 by (simp add: le_less_Suc_eq) linarith
qed

lemma jump_agrees:
  assumes r: "\<And>r. r < 32 \<Longrightarrow> Reg s r = reg m r" "HI s = reg m HiReg" "LO s = reg m LoReg"
    and pc: "inpc s = reg m NextPCReg + 4" and n: "unat (drop_bit 26 v AND 0x3f) \<in> {2..<8}" and al: "alike (Decode v) m"
  shows "same_outcome m s (exec_op (Decode v) (reg m NextPCReg + 4) m) (i_execute sys v (reg m PCReg) s)"
proof -
  let ?i = "Decode v" and ?n = "unat (drop_bit 26 v AND 0x3f)"
  let ?goal = "same_outcome m s (exec_op ?i (reg m NextPCReg + 4) m) (i_execute sys v (reg m PCReg) s)"
  let ?a = "reg m (rs ?i)" and ?b = "reg m (rt ?i)"
  have g: "regs_agree m s" using r by (simp add: regs_agree_def)
  have ab: "Reg s (rs ?i) = ?a" "Reg s (rt ?i) = ?b" using r(1) by simp_all
  have d: "opCode ?i = op \<and> extra ?i = immed v" if "?n = k" "opTable ! k = (op, IFMT)" "op \<noteq> SPECIAL" "op \<noteq> BCOND" for op k
    using Decode_primary(1) that by blast
  have dj: "opCode ?i = op \<and> extra ?i = v AND 0x3ffffff" if "?n = k" "opTable ! k = (op, JFMT)" "op \<noteq> SPECIAL" "op \<noteq> BCOND" for op k
    using Decode_primary(2) that by blast
  have br: "?goal" if "reg m NextPCReg = reg m PCReg + 4" "extra ?i = immed v"
      "exec_op ?i (reg m NextPCReg + 4) m = nxt (if b then branch_target ?i m else reg m NextPCReg + 4) m"
      "i_execute sys v (reg m PCReg) s = Inr (i_branch b v (reg m PCReg) s)" for b
    unfolding that(3,4) by (rule outcome_branch [OF g refl pc]) (simp add: branch_target_def IndexToAddr_def that)
  have state: "?goal" if "exec_op ?i (reg m NextPCReg + 4) m = nxt npc m'" "i_execute sys v (reg m PCReg) s = Inr s'"
      "regs_agree m' s'" "inpc s' = npc" "ipc s' = ipc s" "\<And>r. 34 \<le> r \<Longrightarrow> reg m' r = reg m r" "m'\<lparr>registers := registers m\<rparr> = m" "imem s' = imem s" for npc m' s'
    unfolding that(1,2) using that(3-8) by (rule outcome_state)
  note unf = exec_op_def alike_def i_execute_def Let_def field_eq(1-4) ab
  have o4: "?n = 4 \<Longrightarrow> ?goal"
    by (rule br [of "?a = ?b"]) (use al d [of 4 OP_BEQ] in \<open>simp_all add: opTable_def unf op_BEQ_def\<close>)
  have o5: "?n = 5 \<Longrightarrow> ?goal"
    by (rule br [of "?a \<noteq> ?b"]) (use al d [of 5 OP_BNE] in \<open>simp_all add: opTable_def unf op_BNE_def\<close>)
  have o6: "?n = 6 \<Longrightarrow> ?goal"
    by (rule br [of "sint ?a \<le> 0"]) (use al d [of 6 OP_BLEZ] in \<open>simp_all add: opTable_def unf op_BLEZ_def\<close>)
  have o7: "?n = 7 \<Longrightarrow> ?goal"
    by (rule br [of "0 < sint ?a"]) (use al d [of 7 OP_BGTZ] in \<open>simp_all add: opTable_def unf op_BGTZ_def\<close>)
  let ?t = "((reg m NextPCReg + 4) AND 0xf0000000) OR push_bit 2 (v AND 0x3ffffff)"
  let ?lm = "setreg R31 (reg m NextPCReg + 4) m" and ?ls = "s\<lparr>Reg := (Reg s)(31 := reg m PCReg + 8)\<rparr>"
  have o2: "?n = 2 \<Longrightarrow> ?goal"
    by (rule state [of ?t m "i_jump v (reg m PCReg) s"])
      (use al g dj [of 2 OP_J] in \<open>simp_all add: opTable_def unf op_J_def i_jump_def regs_agree_def setreg_def IndexToAddr_def add.assoc\<close>)
  have o3: "?n = 3 \<Longrightarrow> ?goal"
    by (rule state [of ?t ?lm "i_jump v (reg m PCReg) ?ls"])
      (use al g dj [of 3 OP_JAL] in \<open>simp_all add: opTable_def unf op_JAL_def op_J_def i_jump_def regs_agree_def setreg_def IndexToAddr_def add.assoc\<close>)
  show ?thesis using n o2 o3 o4 o5 o6 o7 by (simp add: le_less_Suc_eq) linarith
qed

lemma execute_agrees:
  assumes r: "\<And>r. r < 32 \<Longrightarrow> Reg s r = reg m r" "HI s = reg m HiReg" "LO s = reg m LoReg"
    and pc: "inpc s = reg m NextPCReg + 4" and al: "alike (Decode v) m"
  shows "same_outcome m s (exec_op (Decode v) (reg m NextPCReg + 4) m) (i_execute sys v (reg m PCReg) s)"
proof -
  let ?n = "unat (drop_bit 26 v AND 0x3f)"
  consider "?n = 0" | "?n = 1" | "?n \<in> {2..<8}" | "?n \<in> {8..<16}" using alike_primary [OF al] by fastforce
  then show ?thesis
  proof cases
    case 1 then show ?thesis using special_agrees [OF r pc 1 al, of sys] by (simp add: i_execute_def field_eq Let_def)
  next
    case 2 then show ?thesis using bcond_agrees [OF r pc 2 al] by (simp add: i_execute_def field_eq Let_def)
  qed (use jump_agrees [OF r pc _ al] immediate_agrees [OF r pc _ al] in blast)+
qed

section \<open>Whole runs\<close>

text \<open>
  Two machines with the same registers whose memories hold the same words wherever the current thread has a page.  \<open>runs_alike n\<close>:
  each of the next \<open>n\<close> instructions of the simulator is fetched from a page in memory and is one on which the two agree.
\<close>

definition coupled :: "Machine \<Rightarrow> Interp \<Rightarrow> bool" where
  "coupled m s \<longleftrightarrow> agree m s \<and> paging_ok m \<and>
     (\<forall>va i. mapped va i m \<and> aligned va 4 \<longrightarrow> fetch va s = Inr (load_val 4 (phys va i m) m))"

primrec run_for :: "nat \<Rightarrow> ('s \<Rightarrow> 's result) \<Rightarrow> 's \<Rightarrow> 's result" where
  "run_for 0 f s = Inr s"
| "run_for (Suc n) f s = bindE (f s) (run_for n f)"

primrec runs_alike :: "nat \<Rightarrow> Machine \<Rightarrow> bool" where
  "runs_alike 0 m = True"
| "runs_alike (Suc n) m =
     (case ReadMem (reg m PCReg) 4 m of
        Inr (Some v, m1) \<Rightarrow> alike (Decode v) m \<and> (case OneInstruction m of Inr m' \<Rightarrow> runs_alike n m' | Inl _ \<Rightarrow> False)
      | _ \<Rightarrow> False)"

lemma alike_regs:
  assumes "registers m' = registers m"
  shows "alike i m' = alike i m"
  unfolding alike_def assms ..

lemma only_registers:
  assumes "m'\<lparr>registers := f\<rparr> = m"
  shows "mainMemory m' = mainMemory m" "pageTable m' = pageTable m" "curTid m' = curTid m" "paging_ok m' = paging_ok m"
    "mapped va i m' = mapped va i m" "phys va i m' = phys va i m" "load_val k a m' = load_val k a m"
  using assms by (auto simp: paging_ok_def mapped_def entry_matches_def phys_def load_val_def mem_half_def mem_word_def)

lemma fetched_mapped:
  assumes "paging_ok m" "ReadMem va 4 m = Inr (Some v, m1)"
  obtains i where "mapped va i m" "aligned va 4" "v = load_val 4 (phys va i m) m" "m1 = hit_state i False m"
proof -
  have al: "aligned va 4" using assms(2) by (auto simp: ReadMem_def Translate_def aligned_def result_simps split: if_splits)
  then obtain i where i: "mapped va i m"
    using assms Translate_miss [OF assms(1) al, of False] by (auto simp: ReadMem_def result_simps split: if_splits)
  show thesis using that [OF i al] ReadMem_hit [OF assms(1) al i] assms(2) by simp
qed

lemma step_coupled:
  assumes c: "coupled m s" and rd: "ReadMem (reg m PCReg) 4 m = Inr (Some v, m1)" and al: "alike (Decode v) m"
  shows "\<exists>m' s'. OneInstruction m = Inr m' \<and> interp_step sys s = Inr s' \<and> coupled m' s'"
proof -
  have g: "regs_agree m s" "reg m 0 = 0" "ipc s = reg m PCReg" "inpc s = reg m NextPCReg" "reg m LoadReg = 0" and ok: "paging_ok m"
    using c by (simp_all add: coupled_def agree_def)
  obtain i where i: "mapped (reg m PCReg) i m" "aligned (reg m PCReg) 4" "v = load_val 4 (phys (reg m PCReg) i m) m" "m1 = hit_state i False m"
    using fetched_mapped [OF ok rd] by blast
  let ?s = "s\<lparr>ipc := inpc s, inpc := inpc s + 4, Reg := (Reg s)(0 := 0)\<rparr>"
  have m1: "registers m1 = registers m" using i(4) by simp
  have f: "fetch (ipc s) (s\<lparr>ipc := inpc s, inpc := inpc s + 4\<rparr>) = Inr v"
    using c i g(3) by (auto simp: coupled_def fetch_def)
  have r: "\<And>r. r < 32 \<Longrightarrow> Reg ?s r = reg m1 r" "HI ?s = reg m1 HiReg" "LO ?s = reg m1 LoReg" "inpc ?s = reg m1 NextPCReg + 4"
    using g m1 by (auto simp: regs_agree_def)
  have "same_outcome m1 ?s (exec_op (Decode v) (reg m1 NextPCReg + 4) m1) (if v \<noteq> 0 then i_execute sys v (reg m1 PCReg) ?s else Inr ?s)"
  proof (cases "v = 0")
    case True
    have "Decode 0 = \<lparr>ivalue = 0, opCode = OP_SLL, rs = 0, rt = 0, rd = 0, extra = 0\<rparr>" by (simp add: Decode_def opTable_def specialTable_def)
    then have "exec_op (Decode v) (reg m1 NextPCReg + 4) m1 = nxt (reg m1 NextPCReg + 4) (setreg 0 (reg m1 0) m1)"
      using True by (simp add: exec_op_def op_SLL_def)
    then show ?thesis using True r(2-4) m1 g(1) by (auto intro!: outcome_state simp: regs_agree_def setreg_def)
  next
    case False
    then show ?thesis using execute_agrees [OF r] al alike_regs [OF m1] by simp
  qed
  then obtain pc m2 s' where o: "exec_op (Decode v) (reg m1 NextPCReg + 4) m1 = nxt pc m2" "(if v \<noteq> 0 then i_execute sys v (reg m1 PCReg) ?s else Inr ?s) = Inr s'"
      "regs_agree m2 s'" "inpc s' = pc" "ipc s' = reg m NextPCReg" "\<And>r. 34 \<le> r \<Longrightarrow> reg m2 r = reg m r" "m2\<lparr>registers := registers m1\<rparr> = m1" "imem s' = imem s"
    using g(4) m1 unfolding same_outcome_def by auto
  let ?m' = "setreg NextPCReg pc (setreg PCReg (reg m NextPCReg) (setreg PrevPCReg (reg m PCReg)
      (setreg 0 0 (setreg LoadValueReg 0 (setreg LoadReg 0 (setreg 0 (reg m2 LoadValueReg) m2))))))"
  have k: "OneInstruction m = Inr ?m'"
    using rd o(1,6) g(5) by (simp add: OneInstruction_def nxt_def DelayedLoad_def Let_def)
  have e: "interp_step sys s = Inr s'" using f o(2) g(3) m1 by (simp add: interp_step_def Let_def split: if_splits)
  have "m1 = ?m'\<lparr>registers := registers m1\<rparr>" using o(7) by (simp add: setreg_def)
  note fr = only_registers [OF this [symmetric]]
  have "agree ?m' s'" using o(3-6) by (auto simp: agree_def regs_agree_def)
  moreover have "paging_ok ?m'" using fr(4) paging_ok_hit [OF ok i(1)] i(4) by simp
  moreover have "fetch va s' = Inr (load_val 4 (phys va j ?m') ?m')" if "mapped va j ?m'" "aligned va 4" for va j
  proof -
    have "mapped va j m" using that(1) unfolding fr i(4) by simp
    moreover have "load_val 4 (phys va j ?m') ?m' = load_val 4 (phys va j m) m" unfolding fr i(4) by (simp add: load_val_def mem_word_def)
    moreover have "fetch va s' = fetch va s" using o(8) by (simp add: fetch_def)
    ultimately show ?thesis using c that(2) by (simp add: coupled_def)
  qed
  ultimately show ?thesis using k e by (auto simp: coupled_def)
qed


text \<open>Two instructions, \<^verbatim>\<open>addiu $1,$0,5\<close> and \<^verbatim>\<open>addu $2,$1,$1\<close>, at the start of the memory of the interpreter.\<close>

definition prog_bytes :: "nat \<Rightarrow> byte" where
  "prog_bytes k = (if k < 8 then [0x05, 0x00, 0x01, 0x24, 0x21, 0x10, 0x21, 0x00] ! k else 0)"

definition machine2 :: Machine where
  "machine2 = machine1\<lparr>mainMemory := prog_bytes, registers := (\<lambda>_. 0)(PCReg := 0x10000000, NextPCReg := 0x10000004),
     pageTable := (pageTable machine1)[0 := \<lparr>virtualPage = 0x200000, physicalPage = 0, valid_bit = True, readOnly = False, use_bit = True,
       dirty_bit = False, pt_tid = 1\<rparr>]\<rparr>"

definition interp2 :: Interp where
  "interp2 = \<lparr>Reg = (\<lambda>_. 0), HI = 0, LO = 0, ipc = 0x10000000, inpc = 0x10000004, imem = prog_bytes\<rparr>"

lemma machine2_entry:
  "i < 32 \<Longrightarrow> pageTable machine2 ! i =
     (if i = 0 then \<lparr>virtualPage = 0x200000, physicalPage = 0, valid_bit = True, readOnly = False, use_bit = True, dirty_bit = False, pt_tid = 1\<rparr>
      else pageTable machine1 ! i)"
  by (auto simp: machine2_def machine1_def machine0_def Machine_new_def nth_list_update)

lemma paging_ok_machine2: "paging_ok machine2"
proof -
  have entry: "i < 32 \<Longrightarrow> pageTable machine2 ! i =
     (if i = 0 \<or> i = 1 then \<lparr>virtualPage = (if i = 0 then 0x200000 else 0), physicalPage = of_nat i, valid_bit = True, readOnly = False,
        use_bit = True, dirty_bit = False, pt_tid = int i + 1\<rparr> else empty_entry)" for i
    by (simp add: machine2_entry machine1_entry)
  have valid: "{i. i < 32 \<and> valid_bit (pageTable machine2 ! i)} = {0, 1}"
    by (auto simp: entry empty_entry_def split: if_splits)
  have "unat (of_nat i :: 32 word) = i" if "i < 32" for i :: nat
    using that by (simp add: unat_of_nat)
  moreover have "tlb machine2 = None" "length (pageTable machine2) = 32" "length (pageLasttime machine2) = 32"
    "memBitMap machine2 = \<lparr>numBits = 32, numWords = 1, bmap = [3]\<rparr>"
    by (simp_all add: machine2_def machine1_def machine0_def Machine_new_def)
  ultimately show ?thesis
    unfolding paging_ok_def valid
    by (auto simp: entry empty_entry_def marked_machine1 wf_map_def divRoundUp_nonneg BitsInWord_def split: if_splits)
qed

lemma coupled_machine2: "coupled machine2 interp2"
proof -
  have "fetch va interp2 = Inr (load_val 4 (phys va i machine2) machine2)" if "mapped va i machine2" for va i
  proof -
    have t: "curTid machine2 = 1" by (simp add: machine2_def machine1_def machine0_def Machine_new_def)
    have i: "i = 0" "va div 128 = 0x200000"
      using that by (auto simp: mapped_def entry_matches_def t machine2_entry machine1_entry empty_entry_def split: if_splits)
    have "uint va div 128 = 0x200000" using arg_cong [OF i(2), of uint] by (simp add: uint_div)
    then have u: "uint va = 0x10000000 + uint va mod 128" using div_mult_mod_eq [of "uint va" 128] by simp
    then have "sint va = 0x10000000 + uint va mod 128" using uint32_bounds [of va] pos_mod_bound [of 128 "uint va"] by (simp add: sint32)
    moreover have "unat (va mod 128) = nat (uint va mod 128)" by (simp add: unat_mod nat_mod_distrib)
    moreover have "mainMemory machine2 = prog_bytes" by (simp add: machine2_def)
    moreover have "uint va mod 128 \<le> 16777212" using pos_mod_bound [of 128 "uint va"] by linarith
    ultimately show ?thesis using i
      by (simp add: fetch_def host_index_def Let_def interp2_def load_val_def mem_word_def phys_def machine2_entry)
  qed
  moreover have "agree machine2 interp2" by (simp add: agree_def regs_agree_def machine2_def interp2_def)
  ultimately show ?thesis using paging_ok_machine2 by (simp add: coupled_def)
qed

lemma runs_alike_machine2: "runs_alike 2 machine2"
proof -
  have z: "reg machine2 PCReg = 0x10000000" "mainMemory machine2 = prog_bytes" "curTid machine2 = 1"
    "registers machine2 = (\<lambda>_. 0)(PCReg := 0x10000000, NextPCReg := 0x10000004)"
    by (simp_all add: machine2_def machine1_def machine0_def Machine_new_def)
  have al: "aligned 0x10000000 4" "aligned 0x10000004 4" by (simp_all add: aligned_def)
  have mp: "mapped 0x10000000 0 machine2" "mapped 0x10000004 0 machine2"
    by (simp_all add: mapped_def entry_matches_def z machine2_entry)
  have w: "load_val 4 (phys 0x10000000 0 machine2) machine2 = 0x24010005" "load_val 4 (phys 0x10000004 0 machine2) machine2 = 0x00211021"
    by (simp_all add: load_val_def mem_word_def phys_def machine2_entry z prog_bytes_def bytes_word_def)
  let ?h = "hit_state 0 False machine2"
  have r0: "ReadMem 0x10000000 4 machine2 = Inr (Some 0x24010005, ?h)" using ReadMem_hit [OF paging_ok_machine2 al(1) mp(1)] w by simp
  have D: "Decode 0x24010005 = \<lparr>ivalue = 0x24010005, opCode = OP_ADDIU, rs = 0, rt = 1, rd = 0, extra = 5\<rparr>"
    "opCode (Decode 0x00211021) = OP_ADDU" by code_simp+
  obtain m' where m': "OneInstruction machine2 = Inr m'" "reg m' PCReg = 0x10000004" "m'\<lparr>registers := registers machine2\<rparr> = ?h"
    using r0 D(1) by (simp add: OneInstruction_def z exec_op_def op_ADDIU_def nxt_def DelayedLoad_def Let_def setreg_def)
  note fr = only_registers [OF m'(3)]
  have "paging_ok m'" "mapped 0x10000004 0 m'" using paging_ok_hit [OF paging_ok_machine2 mp(1)] mp(2) by (simp_all add: fr)
  moreover have "load_val 4 (phys 0x10000004 0 m') m' = 0x00211021" using w(2) by (simp add: fr)
  ultimately have r1: "ReadMem 0x10000004 4 m' = Inr (Some 0x00211021, hit_state 0 False m')" using ReadMem_hit [OF _ al(2), of m' 0] by simp
  have a: "alike (Decode 0x24010005) machine2" "alike (Decode 0x00211021) m'" using D by (simp_all add: alike_def)
  obtain s' where c: "coupled m' s'" using step_coupled [OF coupled_machine2 _ a(1)] r0 m'(1) z(1) by auto
  obtain m'' where m'': "OneInstruction m' = Inr m''" using step_coupled [OF c _ a(2)] r1 m'(2) by auto
  show ?thesis using r0 r1 m'(1,2) m'' a z(1) by (simp add: numeral_2_eq_2)
qed


text \<open>The high word of a product of halves loses the carry out of the middle products.\<close>

lemma MULTU_loses_carry:
  "i_MULTU 0x18000 0x18000 s = Inr (s\<lparr>LO := 0x40000000, HI := 1\<rparr>) \<and>
   uint (0x18000 :: 32 word) * uint (0x18000 :: 32 word) = 2 * 2 ^ 32 + 0x40000000"
proof -
  have "(0x18000 :: 32 word) AND 0xffff = 0x8000" "signed_drop_bit 16 (0x18000 :: 32 word) AND 0xffff = 1" "signed_drop_bit 16 (0x8000 :: 32 word) = 0"
    by code_simp+
  then show ?thesis by (simp add: i_MULTU_def high_word_def Let_def)
qed

end
