(* ===== verification/Context_Switch.thy ===== *)
theory Context_Switch
  imports Nachos_Prelude
begin

text \<open>
  The context switch on an i386 host (\<^verbatim>\<open>threads/switch.s\<close>, \<^verbatim>\<open>threads/switch.h\<close>) and the stack of a new thread
  (\<^verbatim>\<open>Thread::StackAllocate\<close> in \<^verbatim>\<open>threads/thread.cc\<close>).

  The processor has its eight registers, the instruction pointer and a memory of 32-bit words.  Words are accessed at
  multiples of four; other accesses have no result here.  \<^verbatim>\<open>SWITCH\<close> is the list of its instructions.  A thread object is known by its
  address: its stack pointer is at offset 0 and \<^verbatim>\<open>machineState\<close> follows.
\<close>

section \<open>The processor\<close>

datatype reg86 = EAX | EBX | ECX | EDX | ESI | EDI | EBP | ESP

record x86 =
  gpr :: "reg86 \<Rightarrow> 32 word"
  eip :: "32 word"
  wmem :: "32 word \<Rightarrow> 32 word"

datatype insn =
    MovR reg86 reg86
  | Load "32 word" reg86 reg86
  | Store reg86 "32 word" reg86
  | LoadAbs "32 word" reg86
  | StoreAbs reg86 "32 word"
  | Push reg86
  | Ret

definition word_aligned :: "32 word \<Rightarrow> bool" where "word_aligned a \<longleftrightarrow> a AND 3 = 0"

definition rd86 :: "32 word \<Rightarrow> x86 \<Rightarrow> 32 word result" where
  "rd86 a s = requireE OutOfBounds (word_aligned a) (Inr (wmem s a))"

definition wr86 :: "32 word \<Rightarrow> 32 word \<Rightarrow> x86 \<Rightarrow> x86 result" where
  "wr86 a v s = requireE OutOfBounds (word_aligned a) (Inr (s\<lparr>wmem := (wmem s)(a := v)\<rparr>))"

definition setr :: "reg86 \<Rightarrow> 32 word \<Rightarrow> x86 \<Rightarrow> x86" where
  "setr r v s = s\<lparr>gpr := (gpr s)(r := v)\<rparr>"

text \<open>\<open>Load n b r\<close> is \<^verbatim>\<open>movl n(b),r\<close> and \<open>Store r n b\<close> is \<^verbatim>\<open>movl r,n(b)\<close>.\<close>

fun exec86 :: "insn \<Rightarrow> x86 \<Rightarrow> x86 result" where
  "exec86 (MovR r q) s = Inr (setr q (gpr s r) s)"
| "exec86 (Load n b r) s = bindE (rd86 (gpr s b + n) s) (\<lambda>v. Inr (setr r v s))"
| "exec86 (Store r n b) s = wr86 (gpr s b + n) (gpr s r) s"
| "exec86 (LoadAbs a r) s = bindE (rd86 a s) (\<lambda>v. Inr (setr r v s))"
| "exec86 (StoreAbs r a) s = wr86 a (gpr s r) s"
| "exec86 (Push r) s = (let a = gpr s ESP - 4 in wr86 a (gpr s r) (setr ESP a s))"
| "exec86 Ret s = bindE (rd86 (gpr s ESP) s) (\<lambda>v. Inr (setr ESP (gpr s ESP + 4) s\<lparr>eip := v\<rparr>))"

section \<open>SWITCH\<close>

abbreviation (input) o_ESP :: "32 word" where "o_ESP \<equiv> 0"
abbreviation (input) o_EAX :: "32 word" where "o_EAX \<equiv> 4"
abbreviation (input) o_EBX :: "32 word" where "o_EBX \<equiv> 8"
abbreviation (input) o_ECX :: "32 word" where "o_ECX \<equiv> 12"
abbreviation (input) o_EDX :: "32 word" where "o_EDX \<equiv> 16"
abbreviation (input) o_EBP :: "32 word" where "o_EBP \<equiv> 20"
abbreviation (input) o_ESI :: "32 word" where "o_ESI \<equiv> 24"
abbreviation (input) o_EDI :: "32 word" where "o_EDI \<equiv> 28"
abbreviation (input) o_PC :: "32 word" where "o_PC \<equiv> 32"

definition SWITCH_save :: "32 word \<Rightarrow> insn list" where
  "SWITCH_save eax_save =
    [StoreAbs EAX eax_save, Load 4 ESP EAX,
     Store EBX o_EBX EAX, Store ECX o_ECX EAX, Store EDX o_EDX EAX, Store ESI o_ESI EAX, Store EDI o_EDI EAX, Store EBP o_EBP EAX, Store ESP o_ESP EAX,
     LoadAbs eax_save EBX, Store EBX o_EAX EAX, Load 0 ESP EBX, Store EBX o_PC EAX]"

definition SWITCH_load :: "32 word \<Rightarrow> insn list" where
  "SWITCH_load eax_save =
    [Load 8 ESP EAX, Load o_EAX EAX EBX, StoreAbs EBX eax_save,
     Load o_EBX EAX EBX, Load o_ECX EAX ECX, Load o_EDX EAX EDX, Load o_ESI EAX ESI, Load o_EDI EAX EDI, Load o_EBP EAX EBP, Load o_ESP EAX ESP,
     Load o_PC EAX EAX, Store EAX 4 ESP, LoadAbs eax_save EAX, Ret]"

definition SWITCH :: "32 word \<Rightarrow> x86 \<Rightarrow> x86 result" where
  "SWITCH eax_save s = foldE exec86 (SWITCH_save eax_save @ SWITCH_load eax_save) s"

section \<open>A new thread\<close>

abbreviation (input) StackSize :: nat where "StackSize \<equiv> 4 * 1024"

text \<open>
  \<open>StackAllocate86\<close> fills in the object at \<open>t\<close> and its stack; \<^verbatim>\<open>machineState[i]\<close> is at offset \<open>4 * (i + 1)\<close>.  The arguments
  \<open>root\<close>, \<open>enable\<close> and \<open>finish\<close> are the addresses of \<^verbatim>\<open>ThreadRoot\<close>, \<^verbatim>\<open>InterruptEnable\<close> and \<^verbatim>\<open>ThreadFinish\<close>.
\<close>

definition StackAllocate86 ::
  "32 word \<Rightarrow> 32 word \<Rightarrow> 32 word \<Rightarrow> 32 word \<Rightarrow> 32 word \<Rightarrow> 32 word \<Rightarrow> 32 word \<Rightarrow> x86 \<Rightarrow> x86" where
  "StackAllocate86 root enable finish t stack func arg s =
    (let stackTop = stack + 4 * of_nat (StackSize - 4) - 4 in
     s\<lparr>wmem := (wmem s)(stackTop := root, stack := 0xdeadbeef, t + o_ESP := stackTop, t + o_PC := root, t + o_ECX := enable,
        t + o_ESI := func, t + o_EDX := arg, t + o_EDI := finish)\<rparr>)"

text \<open>
  \<^verbatim>\<open>call *r\<close>: the return address is pushed and the function runs until it returns.  \<open>fn f\<close> is what the function at \<open>f\<close> does, from its entry to
  just after its \<^verbatim>\<open>ret\<close>; each call is noted with the word above the return address, the first argument.
\<close>

definition call86 :: "(32 word \<Rightarrow> x86 \<Rightarrow> x86) \<Rightarrow> 32 word \<Rightarrow> reg86 \<Rightarrow> x86 \<Rightarrow> ((32 word \<times> 32 word) \<times> x86) result" where
  "call86 fn ret r s =
     (let a = gpr s ESP - 4 in
      bindE (wr86 a ret (setr ESP a s)) (\<lambda>s'.
      bindE (rd86 (a + 4) s') (\<lambda>arg. Inr ((gpr s r, arg), fn (gpr s r) (s'\<lparr>eip := gpr s r\<rparr>)))))"

definition ThreadRoot86 :: "(32 word \<Rightarrow> x86 \<Rightarrow> x86) \<Rightarrow> x86 \<Rightarrow> ((32 word \<times> 32 word) list \<times> x86) result" where
  "ThreadRoot86 fn s =
     (let pc = eip s in
      bindE (foldE exec86 [Push EBP, MovR ESP EBP, Push EDX] s) (\<lambda>s.
      bindE (call86 fn (pc + 6) ECX s) (\<lambda>(c1, s).
      bindE (call86 fn (pc + 8) ESI s) (\<lambda>(c2, s).
      bindE (call86 fn (pc + 10) EDI s) (\<lambda>(c3, s). Inr ([c1, c2, c3], s))))))"

section \<open>Where a switch is safe\<close>

definition save_area :: "32 word \<Rightarrow> 32 word set" where
  "save_area t = {t, t + 4, t + 8, t + 12, t + 16, t + 20, t + 24, t + 28, t + 32}"

text \<open>
  \<^verbatim>\<open>SWITCH(t1, t2)\<close> has just been called in the state \<open>s\<close>.  \<open>b\<close> is the stack pointer saved for \<open>t2\<close>.  The two thread objects, the words of the two
  stacks and the variable are different words of memory.
\<close>

definition switch_ready :: "32 word \<Rightarrow> 32 word \<Rightarrow> 32 word \<Rightarrow> x86 \<Rightarrow> bool" where
  "switch_ready eax_save t1 t2 s \<longleftrightarrow>
     (let a = gpr s ESP; b = wmem s t2 in
      wmem s (a + 4) = t1 \<and> wmem s (a + 8) = t2 \<and>
      (\<forall>x \<in> {eax_save, t1, t2, a, b}. word_aligned x) \<and>
      save_area t1 \<inter> save_area t2 = {} \<and>
      ({a, a + 4, a + 8, b, b + 4} \<inter> (save_area t1 \<union> save_area t2 \<union> {eax_save}) = {}) \<and>
      {a, a + 4, a + 8} \<inter> {b, b + 4} = {} \<and> eax_save \<notin> save_area t1 \<union> save_area t2)"

lemma aligned_add: "word_aligned a \<Longrightarrow> word_aligned b \<Longrightarrow> word_aligned (a + b)"
proof -
  have m: "word_aligned x \<longleftrightarrow> uint x mod 4 = 0" for x
  proof -
    have "(3 :: 32 word) = mask 2" by (simp add: mask_eq_exp_minus_1)
    then have "uint (x AND 3) = take_bit 2 (uint x)" by (simp only: take_bit_eq_mask [symmetric] unsigned_take_bit_eq)
    then show ?thesis by (simp add: word_aligned_def take_bit_eq_mod flip: uint_0_iff)
  qed
  assume "word_aligned a" "word_aligned b"
  then have "(uint a + uint b) mod 4 = 0" unfolding m by presburger
  moreover have "uint (a + b) = (uint a + uint b) mod 4294967296" by (simp add: uint_word_ariths)
  moreover have "x mod 4294967296 mod 4 = x mod 4" for x :: int by (simp add: mod_mod_cancel)
  ultimately show ?thesis by (simp add: m)
qed

lemma aligned_offset:
  assumes "word_aligned a"
  shows "word_aligned (a + 4)" "word_aligned (a + 8)" "word_aligned (a + 12)" "word_aligned (a + 16)" "word_aligned (a + 20)"
    "word_aligned (a + 24)" "word_aligned (a + 28)" "word_aligned (a + 32)" "word_aligned (a - 4)"
proof -
  have "word_aligned (- 4)" by (simp add: word_aligned_def)
  then show "word_aligned (a - 4)" using aligned_add [OF assms] by (metis diff_conv_add_uminus)
qed (use aligned_add [OF assms] in \<open>simp_all add: word_aligned_def\<close>)

text \<open>What one switch does.\<close>

lemma ready_facts:
  assumes "switch_ready eax_save t1 t2 s"
  shows "\<forall>x \<in> {eax_save, t1, t2, gpr s ESP, wmem s t2}. word_aligned x"
    and "wmem s (gpr s ESP + 4) = t1" "wmem s (gpr s ESP + 8) = t2"
    and "\<forall>x \<in> save_area t1 \<union> save_area t2. x \<noteq> eax_save \<and> eax_save \<noteq> x"
    and "\<forall>x \<in> save_area t1. \<forall>y \<in> save_area t2. x \<noteq> y \<and> y \<noteq> x"
    and "\<forall>x \<in> {gpr s ESP, gpr s ESP + 4, gpr s ESP + 8, wmem s t2, wmem s t2 + 4}. \<forall>y \<in> save_area t1 \<union> save_area t2 \<union> {eax_save}. x \<noteq> y \<and> y \<noteq> x"
    and "gpr s ESP \<noteq> wmem s t2 + 4"
  using assms unfolding switch_ready_def Let_def by (blast | simp)+


lemma SWITCH_save_spec:
  assumes "switch_ready eax_save t1 t2 s"
  shows "\<exists>s'. foldE exec86 (SWITCH_save eax_save) s = Inr s' \<and> gpr s' ESP = gpr s ESP \<and> eip s' = eip s \<and>
     wmem s' = (wmem s)(eax_save := gpr s EAX, t1 + 8 := gpr s EBX, t1 + 12 := gpr s ECX, t1 + 16 := gpr s EDX, t1 + 24 := gpr s ESI,
        t1 + 28 := gpr s EDI, t1 + 20 := gpr s EBP, t1 := gpr s ESP, t1 + 4 := gpr s EAX, t1 + 32 := wmem s (gpr s ESP))"
proof -
  have al: "word_aligned eax_save" "word_aligned t1" "word_aligned (gpr s ESP)" using ready_facts(1) [OF assms] by simp_all
  note off = aligned_offset [OF al(2)] aligned_offset(1,2) [OF al(3)]
  have n1: "eax_save \<noteq> x" if "x \<in> save_area t1" for x using ready_facts(4) [OF assms] that by blast
  have n2: "gpr s ESP \<noteq> x" "gpr s ESP + 4 \<noteq> eax_save" if "x \<in> insert eax_save (save_area t1)" for x using ready_facts(6) [OF assms] that by blast+
  have mem: "t1 \<in> save_area t1" "t1 + 4 \<in> save_area t1" "t1 + 8 \<in> save_area t1" "t1 + 12 \<in> save_area t1" "t1 + 16 \<in> save_area t1"
    "t1 + 20 \<in> save_area t1" "t1 + 24 \<in> save_area t1" "t1 + 28 \<in> save_area t1" "t1 + 32 \<in> save_area t1" by (simp_all add: save_area_def)
  have n3: "gpr s ESP + 4 \<noteq> eax_save" using n2(2) by blast
  show ?thesis
    by (simp add: SWITCH_save_def rd86_def wr86_def setr_def al off ready_facts(2) [OF assms] n1 n2(1) n3 mem)
qed

lemma save_area_mem [simp]:
  "t \<in> save_area t" "t + 4 \<in> save_area t" "t + 8 \<in> save_area t" "t + 12 \<in> save_area t" "t + 16 \<in> save_area t"
  "t + 20 \<in> save_area t" "t + 24 \<in> save_area t" "t + 28 \<in> save_area t" "t + 32 \<in> save_area t"
  by (simp_all add: save_area_def)

lemma SWITCH_load_spec:
  assumes "wmem s (gpr s ESP + 8) = t2" "word_aligned eax_save" "word_aligned t2" "word_aligned (gpr s ESP)" "word_aligned (wmem s t2)"
    and "eax_save \<notin> save_area t2" "wmem s t2 \<noteq> eax_save" "wmem s t2 + 4 \<noteq> eax_save"
  shows "\<exists>s'. foldE exec86 (SWITCH_load eax_save) s = Inr s' \<and>
     gpr s' = (\<lambda>r. case r of EAX \<Rightarrow> wmem s (t2 + 4) | EBX \<Rightarrow> wmem s (t2 + 8) | ECX \<Rightarrow> wmem s (t2 + 12) | EDX \<Rightarrow> wmem s (t2 + 16) | EBP \<Rightarrow> wmem s (t2 + 20)
        | ESI \<Rightarrow> wmem s (t2 + 24) | EDI \<Rightarrow> wmem s (t2 + 28) | ESP \<Rightarrow> wmem s t2 + 4) \<and>
     eip s' = wmem s (wmem s t2) \<and> wmem s' = (wmem s)(eax_save := wmem s (t2 + 4), wmem s t2 + 4 := wmem s (t2 + 32))"
proof -
  have n: "x \<noteq> eax_save" "eax_save \<noteq> x" if "x \<in> save_area t2" for x using assms(6) that by blast+
  show ?thesis
    using assms(7,8) by (simp add: SWITCH_load_def rd86_def wr86_def setr_def assms(1-5) aligned_offset [OF assms(3)] aligned_offset(1,2) [OF assms(4)] aligned_offset(1) [OF assms(5)] n fun_eq_iff split: reg86.split)
qed

lemma SWITCH_spec:
  assumes "switch_ready eax_save t1 t2 s"
  shows "\<exists>s'. SWITCH eax_save s = Inr s' \<and>
     gpr s' = (\<lambda>r. case r of EAX \<Rightarrow> wmem s (t2 + 4) | EBX \<Rightarrow> wmem s (t2 + 8) | ECX \<Rightarrow> wmem s (t2 + 12) | EDX \<Rightarrow> wmem s (t2 + 16) | EBP \<Rightarrow> wmem s (t2 + 20)
        | ESI \<Rightarrow> wmem s (t2 + 24) | EDI \<Rightarrow> wmem s (t2 + 28) | ESP \<Rightarrow> wmem s t2 + 4) \<and>
     eip s' = wmem s (wmem s t2) \<and> wmem s' t1 = gpr s ESP \<and> wmem s' (t1 + 4) = gpr s EAX \<and> wmem s' (t1 + 8) = gpr s EBX \<and> wmem s' (t1 + 12) = gpr s ECX \<and>
     wmem s' (t1 + 16) = gpr s EDX \<and> wmem s' (t1 + 20) = gpr s EBP \<and> wmem s' (t1 + 24) = gpr s ESI \<and> wmem s' (t1 + 28) = gpr s EDI \<and>
     (\<forall>x. x \<notin> save_area t1 \<union> {eax_save, wmem s t2 + 4} \<longrightarrow> wmem s' x = wmem s x)"
proof -
  note f = ready_facts [OF assms]
  obtain s1 where s1: "foldE exec86 (SWITCH_save eax_save) s = Inr s1" "gpr s1 ESP = gpr s ESP" "eip s1 = eip s"
     "wmem s1 = (wmem s)(eax_save := gpr s EAX, t1 + 8 := gpr s EBX, t1 + 12 := gpr s ECX, t1 + 16 := gpr s EDX, t1 + 24 := gpr s ESI,
        t1 + 28 := gpr s EDI, t1 + 20 := gpr s EBP, t1 := gpr s ESP, t1 + 4 := gpr s EAX, t1 + 32 := wmem s (gpr s ESP))"
    using SWITCH_save_spec [OF assms] by blast
  have same: "wmem s1 x = wmem s x" if "x \<notin> insert eax_save (save_area t1)" for x
    using that unfolding s1(4) save_area_def by simp
  have m2: "wmem s1 x = wmem s x" if "x \<in> save_area t2 \<union> {gpr s ESP + 8, wmem s t2}" for x
    using that f(4-6) by (intro same) blast
  have t2: "wmem s1 t2 = wmem s t2" by (rule m2) simp
  have l: "eax_save \<notin> save_area t2" "wmem s t2 \<noteq> eax_save" "wmem s t2 + 4 \<noteq> eax_save" using f(4,6) by blast+
  obtain s' where s': "foldE exec86 (SWITCH_load eax_save) s1 = Inr s'"
     "gpr s' = (\<lambda>r. case r of EAX \<Rightarrow> wmem s1 (t2 + 4) | EBX \<Rightarrow> wmem s1 (t2 + 8) | ECX \<Rightarrow> wmem s1 (t2 + 12) | EDX \<Rightarrow> wmem s1 (t2 + 16) | EBP \<Rightarrow> wmem s1 (t2 + 20)
        | ESI \<Rightarrow> wmem s1 (t2 + 24) | EDI \<Rightarrow> wmem s1 (t2 + 28) | ESP \<Rightarrow> wmem s1 t2 + 4)"
     "eip s' = wmem s1 (wmem s1 t2)" "wmem s' = (wmem s1)(eax_save := wmem s1 (t2 + 4), wmem s1 t2 + 4 := wmem s1 (t2 + 32))"
    using SWITCH_load_spec [of s1 t2 eax_save] f(1,3) l s1(2) t2 m2 [of "gpr s ESP + 8"] by auto
  have slot: "wmem s' x = wmem s1 x" if "x \<in> save_area t1" for x
    using that f(4,6) unfolding s'(4) t2 by (metis (no_types, lifting) UnI1 fun_upd_other insertCI)
  have run: "SWITCH eax_save s = Inr s'" using s1(1) s'(1) by (simp add: SWITCH_def foldE_append)
  have out: "\<forall>x. x \<notin> save_area t1 \<union> {eax_save, wmem s t2 + 4} \<longrightarrow> wmem s' x = wmem s x"
    using same unfolding s'(4) t2 by auto
  have g: "gpr s' = (\<lambda>r. case r of EAX \<Rightarrow> wmem s (t2 + 4) | EBX \<Rightarrow> wmem s (t2 + 8) | ECX \<Rightarrow> wmem s (t2 + 12) | EDX \<Rightarrow> wmem s (t2 + 16)
      | EBP \<Rightarrow> wmem s (t2 + 20) | ESI \<Rightarrow> wmem s (t2 + 24) | EDI \<Rightarrow> wmem s (t2 + 28) | ESP \<Rightarrow> wmem s t2 + 4)"
    by (simp add: s'(2) fun_eq_iff m2 split: reg86.split)
  show ?thesis
    by (rule exI [of _ s'], intro conjI run out g) (simp_all add: s'(3) m2 t2 slot, simp_all add: s1(4))
qed

section \<open>Properties\<close>

text \<open>
  C9: a thread that is switched away from and later switched back to continues as if its call of \<^verbatim>\<open>SWITCH\<close> had returned: every register has its old
  value, the return address has been popped and control is at it.  Between the two switches only the thread's saved registers and
  its return address have to stay as they were.  Apart from them the second switch writes one word of the resumed stack, the first argument.
\<close>

theorem SWITCH_resumes:
  assumes "switch_ready v t1 t2 s" "SWITCH v s = Inr s1" "switch_ready v t t1 u"
    and "\<forall>x \<in> insert (gpr s ESP) (save_area t1). wmem u x = wmem s1 x"
  shows "\<exists>u'. SWITCH v u = Inr u' \<and> (\<forall>r. gpr u' r = (if r = ESP then gpr s ESP + 4 else gpr s r)) \<and> eip u' = wmem s (gpr s ESP) \<and>
    (\<forall>x. x \<notin> save_area t \<union> {v, gpr s ESP + 4} \<longrightarrow> wmem u' x = wmem u x)"
proof -
  have m: "wmem s1 t1 = gpr s ESP" "wmem s1 (t1 + 4) = gpr s EAX" "wmem s1 (t1 + 8) = gpr s EBX" "wmem s1 (t1 + 12) = gpr s ECX" "wmem s1 (t1 + 16) = gpr s EDX"
    "wmem s1 (t1 + 20) = gpr s EBP" "wmem s1 (t1 + 24) = gpr s ESI" "wmem s1 (t1 + 28) = gpr s EDI"
    and out: "\<forall>x. x \<notin> save_area t1 \<union> {v, wmem s t2 + 4} \<longrightarrow> wmem s1 x = wmem s x"
    using SWITCH_spec [OF assms(1)] assms(2) by auto
  have "gpr s ESP \<notin> save_area t1 \<union> {v, wmem s t2 + 4}" using ready_facts(6,7) [OF assms(1)] by blast
  then have ret: "wmem s1 (gpr s ESP) = wmem s (gpr s ESP)" using out by blast
  have k: "wmem u x = wmem s1 x" if "x \<in> insert (gpr s ESP) (save_area t1)" for x using assms(4) that by blast
  have u1: "wmem u t1 = gpr s ESP" using k [of t1] m(1) by simp
  from SWITCH_spec [OF assms(3)] obtain u' where u': "SWITCH v u = Inr u'"
     "gpr u' = (\<lambda>r. case r of EAX \<Rightarrow> wmem u (t1 + 4) | EBX \<Rightarrow> wmem u (t1 + 8) | ECX \<Rightarrow> wmem u (t1 + 12) | EDX \<Rightarrow> wmem u (t1 + 16) | EBP \<Rightarrow> wmem u (t1 + 20)
        | ESI \<Rightarrow> wmem u (t1 + 24) | EDI \<Rightarrow> wmem u (t1 + 28) | ESP \<Rightarrow> wmem u t1 + 4)"
     "eip u' = wmem u (wmem u t1)" "\<forall>x. x \<notin> save_area t \<union> {v, wmem u t1 + 4} \<longrightarrow> wmem u' x = wmem u x" by blast
  have "gpr u' r = (if r = ESP then gpr s ESP + 4 else gpr s r)" for r
    by (cases r) (simp_all add: u'(2) k m)
  moreover have "eip u' = wmem s (gpr s ESP)" using u'(3) u1 k [of "gpr s ESP"] ret by simp
  ultimately show ?thesis using u'(1,4) u1 by auto
qed

text \<open>Two threads at 0x2000 and 0x3000; the first, with its stack at 0x8000, gives the processor to the second.\<close>

definition caller86 :: x86 where
  "caller86 = \<lparr>gpr = (\<lambda>_. 7)(ESP := 0x8000), eip = 0, wmem = (\<lambda>_. 0)(0x8000 := 0x500, 0x8004 := 0x2000, 0x8008 := 0x3000, 0x3000 := 0x9000)\<rparr>"

definition callee86 :: "x86 \<Rightarrow> x86" where
  "callee86 s1 = \<lparr>gpr = (\<lambda>_. 9)(ESP := 0x9100), eip = 0, wmem = (wmem s1)(0x9104 := 0x3000, 0x9108 := 0x2000)\<rparr>"

theorem SWITCH_resumes_witness:
  "\<exists>s1 u'. SWITCH 0x1000 caller86 = Inr s1 \<and> SWITCH 0x1000 (callee86 s1) = Inr u' \<and> gpr u' EBX = 7 \<and> gpr u' ESP = 0x8004 \<and> eip u' = 0x500"
proof -
  have r: "switch_ready 0x1000 0x2000 0x3000 caller86" by (simp add: switch_ready_def caller86_def word_aligned_def save_area_def)
  from SWITCH_spec [OF r] obtain s1 where s1: "SWITCH 0x1000 caller86 = Inr s1" "wmem s1 0x2000 = 0x8000" by (auto simp: caller86_def)
  have r': "switch_ready 0x1000 0x3000 0x2000 (callee86 s1)" using s1(2) by (simp add: switch_ready_def callee86_def word_aligned_def save_area_def)
  have "\<forall>x \<in> insert (gpr caller86 ESP) (save_area 0x2000). wmem (callee86 s1) x = wmem s1 x" by (simp add: callee86_def caller86_def save_area_def)
  from SWITCH_resumes [OF r s1(1) r' this] s1(1) show ?thesis by (auto simp: caller86_def)
qed

text \<open>The C functions called by \<^verbatim>\<open>ThreadRoot\<close> follow the calling convention of the host.\<close>

definition keeps_registers :: "(32 word \<Rightarrow> x86 \<Rightarrow> x86) \<Rightarrow> 32 word \<Rightarrow> bool" where
  "keeps_registers fn f \<longleftrightarrow> (\<forall>s. (\<forall>r \<in> {EBX, ESI, EDI, EBP}. gpr (fn f s) r = gpr s r) \<and> gpr (fn f s) ESP = gpr s ESP + 4)"

definition keeps_frame :: "(32 word \<Rightarrow> x86 \<Rightarrow> x86) \<Rightarrow> 32 word \<Rightarrow> bool" where
  "keeps_frame fn f \<longleftrightarrow> (\<forall>s. wmem (fn f s) (gpr s ESP + 4) = wmem s (gpr s ESP + 4))"

lemma ThreadRoot_calls:
  assumes "word_aligned (gpr s ESP)" "keeps_registers fn (gpr s ECX)" "keeps_frame fn (gpr s ECX)" "keeps_registers fn (gpr s ESI)"
  shows "\<exists>x y s'. ThreadRoot86 fn s = Inr ([(gpr s ECX, x), (gpr s ESI, gpr s EDX), (gpr s EDI, y)], s')"
proof -
  let ?a = "gpr s ESP"
  have al: "word_aligned (?a - 4)" "word_aligned (?a - 8)" "word_aligned (?a - 12)"
    using aligned_offset(9) [OF assms(1)] aligned_offset(9) [of "?a - 4"] aligned_offset(9) [of "?a - 8"] by simp_all
  have k: "gpr (fn (gpr s ECX) q) ESI = gpr q ESI" "gpr (fn (gpr s ECX) q) EDI = gpr q EDI" "gpr (fn (gpr s ECX) q) ESP = gpr q ESP + 4"
    "wmem (fn (gpr s ECX) q) (gpr q ESP + 4) = wmem q (gpr q ESP + 4)"
    "gpr (fn (gpr s ESI) q) EDI = gpr q EDI" "gpr (fn (gpr s ESI) q) ESP = gpr q ESP + 4" for q
    using assms(2-4) by (auto simp: keeps_registers_def keeps_frame_def)
  have top: "wmem (fn (gpr s ECX) q) (?a - 8) = wmem q (?a - 8)" if "gpr q ESP = ?a - 12" for q using k(4) [of q] that by simp
  show ?thesis by (simp add: ThreadRoot86_def call86_def Let_def rd86_def wr86_def setr_def al k(1-3,5,6) top)
qed

text \<open>
  C15: the first switch to a new thread: control arrives at \<^verbatim>\<open>ThreadRoot\<close>, which enables interrupts, calls the function the thread was forked for with its
  argument, and then \<^verbatim>\<open>ThreadFinish\<close>.
\<close>

theorem new_thread_runs:
  assumes s: "s = StackAllocate86 root enable finish t2 stack func arg s0" and ready: "switch_ready v t1 t2 s"
    and top: "stack + 16364 \<notin> save_area t2"
    and fn: "keeps_registers fn enable" "keeps_frame fn enable" "keeps_registers fn func"
  shows "\<exists>s' x y s''. SWITCH v s = Inr s' \<and> eip s' = root \<and> ThreadRoot86 fn s' = Inr ([(enable, x), (func, arg), (finish, y)], s'')"
proof -
  let ?top = "stack + 16364"
  have off: "stack + 4 * of_nat (StackSize - 4) - 4 = ?top" by simp
  have ne: "?top \<noteq> t2" "?top \<noteq> t2 + 12" "?top \<noteq> t2 + 16" "?top \<noteq> t2 + 24" "?top \<noteq> t2 + 28" "?top \<noteq> t2 + 32" using top by (auto simp: save_area_def)
  have m: "wmem s t2 = ?top" "wmem s ?top = root" "wmem s (t2 + 12) = enable" "wmem s (t2 + 16) = arg" "wmem s (t2 + 24) = func" "wmem s (t2 + 28) = finish"
    using ne unfolding s StackAllocate86_def Let_def off by simp_all
  from SWITCH_spec [OF ready] obtain s' where s': "SWITCH v s = Inr s'" "gpr s' ECX = enable" "gpr s' EDX = arg" "gpr s' ESI = func" "gpr s' EDI = finish"
      "gpr s' ESP = ?top + 4" "eip s' = root" using m by auto
  have "word_aligned ?top" using ready_facts(1) [OF ready] m(1) by simp
  then have "word_aligned (gpr s' ESP)" unfolding s'(6) by (rule aligned_offset(1))
  then show ?thesis using ThreadRoot_calls [of s' fn] s' fn by auto
qed

definition fresh86 :: x86 where
  "fresh86 = StackAllocate86 0x600 0x700 0x800 0x3000 0x10000 0x900 42 caller86"

text \<open>Functions that return at once.\<close>

definition returns86 :: "32 word \<Rightarrow> x86 \<Rightarrow> x86" where
  "returns86 f s = s\<lparr>gpr := (gpr s)(ESP := gpr s ESP + 4), eip := wmem s (gpr s ESP)\<rparr>"

theorem new_thread_runs_witness:
  "\<exists>s' x y s''. SWITCH 0x1000 fresh86 = Inr s' \<and> eip s' = 0x600 \<and> ThreadRoot86 returns86 s' = Inr ([(0x700, x), (0x900, 42), (0x800, y)], s'')"
proof (rule new_thread_runs [OF fresh86_def])
  show "switch_ready 0x1000 0x2000 0x3000 fresh86"
    by (simp add: fresh86_def StackAllocate86_def switch_ready_def caller86_def word_aligned_def save_area_def)
qed (simp_all add: save_area_def keeps_registers_def keeps_frame_def returns86_def)

end
