(* ===== verification/Reader_Writer.thy ===== *)
theory Reader_Writer
  imports Nachos_Prelude
begin

text \<open>
  The readers/writer lock (\<^verbatim>\<open>class RWLock\<close> in \<^verbatim>\<open>threads/synch.h\<close> and \<^verbatim>\<open>threads/synch.cc\<close>), used by any number of
  threads.

  A method is the list of its pieces; another thread can run between any two of them.  \<^verbatim>\<open>rdlock\<close> is a \<^verbatim>\<open>Lock\<close>, so its
  \<^verbatim>\<open>Acquire\<close> and \<^verbatim>\<open>Release\<close> are the pieces of \<^verbatim>\<open>Lock\<close>: \<open>P\<close> and the assignment of the holder, the test of the
  holder, \<open>V\<close> and the reset of the holder.  A \<open>P\<close> on a semaphore of value zero cannot proceed, and otherwise
  decrements; this is what the theory \<open>Concurrency\<close> shows of the kernel's semaphores.
\<close>

section \<open>The lock\<close>

datatype rwop =
    AcqP | AcqHold | RelTest | RelV | RelUnhold
  | EnterTest | WrP | Incr | Decr | ExitTest | WrV
  | Reading | Writing

definition acquire_code :: "rwop list" where "acquire_code = [AcqP, AcqHold]"
definition release_code :: "rwop list" where "release_code = [RelTest]"
definition rdLock :: "rwop list" where "rdLock = acquire_code @ [EnterTest, Incr] @ release_code"
definition wrLock :: "rwop list" where "wrLock = [WrP]"
definition rdUnlock :: "rwop list" where "rdUnlock = acquire_code @ [Decr, ExitTest] @ release_code"
definition wrUnlock :: "rwop list" where "wrUnlock = [WrV]"

text \<open>Clients lock, work in their section and unlock.  \<open>todo t\<close> is the rest of the section thread \<open>t\<close> is in.\<close>

datatype role = Reader | Writer

fun sect :: "role \<Rightarrow> rwop list" where
  "sect Reader = rdLock @ [Reading] @ rdUnlock"
| "sect Writer = wrLock @ [Writing] @ wrUnlock"

record rwsys =
  rdvalue :: nat
  rdholder :: "nat option"
  wrvalue :: nat
  readers :: int
  todo :: "nat \<Rightarrow> rwop list"
  roles :: "nat \<Rightarrow> role list"

definition RWLock_new :: "(nat \<Rightarrow> role list) \<Rightarrow> rwsys" where
  "RWLock_new rs = \<lparr>rdvalue = 1, rdholder = None, wrvalue = 1, readers = 0, todo = (\<lambda>_. []), roles = rs\<rparr>"

text \<open>One piece of thread \<open>t\<close>; \<open>None\<close> when it cannot proceed.\<close>

definition rwexec :: "nat \<Rightarrow> rwop \<Rightarrow> rwop list \<Rightarrow> rwsys \<Rightarrow> rwsys option" where
  "rwexec t p rest s =
    (let go = (\<lambda>s ops. Some (s\<lparr>todo := (todo s)(t := ops)\<rparr>)) in
     case p of
       AcqP \<Rightarrow> if rdvalue s = 0 then None else go (s\<lparr>rdvalue := rdvalue s - 1\<rparr>) rest
     | AcqHold \<Rightarrow> go (s\<lparr>rdholder := Some t\<rparr>) rest
     | RelTest \<Rightarrow> go s (if rdholder s = Some t then RelV # RelUnhold # rest else rest)
     | RelV \<Rightarrow> go (s\<lparr>rdvalue := rdvalue s + 1\<rparr>) rest
     | RelUnhold \<Rightarrow> go (s\<lparr>rdholder := None\<rparr>) rest
     | EnterTest \<Rightarrow> go s (if readers s = 0 then WrP # rest else rest)
     | WrP \<Rightarrow> if wrvalue s = 0 then None else go (s\<lparr>wrvalue := wrvalue s - 1\<rparr>) rest
     | Incr \<Rightarrow> go (s\<lparr>readers := readers s + 1\<rparr>) rest
     | Decr \<Rightarrow> go (s\<lparr>readers := readers s - 1\<rparr>) rest
     | ExitTest \<Rightarrow> go s (if readers s = 0 then WrV # rest else rest)
     | WrV \<Rightarrow> go (s\<lparr>wrvalue := wrvalue s + 1\<rparr>) rest
     | Reading \<Rightarrow> go s rest
     | Writing \<Rightarrow> go s rest)"

definition rwmove :: "nat \<Rightarrow> rwsys \<Rightarrow> rwsys option" where
  "rwmove t s =
    (case todo s t of
       p # rest \<Rightarrow> rwexec t p rest s
     | [] \<Rightarrow> (case roles s t of
               [] \<Rightarrow> None
             | r # rs \<Rightarrow> Some (s\<lparr>todo := (todo s)(t := sect r), roles := (roles s)(t := rs)\<rparr>)))"

inductive rwreach :: "rwsys \<Rightarrow> rwsys \<Rightarrow> bool" for s0 where
  start: "rwreach s0 s0"
| move: "rwreach s0 s \<Longrightarrow> rwmove t s = Some s' \<Longrightarrow> rwreach s0 s'"

fun rwrun :: "nat list \<Rightarrow> rwsys \<Rightarrow> rwsys option" where
  "rwrun [] s = Some s"
| "rwrun (t # ts) s = Option.bind (rwmove t s) (rwrun ts)"

section \<open>Where a thread can be\<close>

definition tails :: "rwop list list" where
  "tails =
    (let after = Reading # rdUnlock in
     [[], [AcqP, AcqHold, EnterTest, Incr, RelTest] @ after, [AcqHold, EnterTest, Incr, RelTest] @ after, [EnterTest, Incr, RelTest] @ after,
      [WrP, Incr, RelTest] @ after, [Incr, RelTest] @ after, RelTest # after, [RelV, RelUnhold] @ after, RelUnhold # after, after,
      rdUnlock, [AcqHold, Decr, ExitTest, RelTest], [Decr, ExitTest, RelTest], [ExitTest, RelTest], [WrV, RelTest], [RelTest],
      [RelV, RelUnhold], [RelUnhold], [WrP, Writing, WrV], [Writing, WrV], [WrV]])"

text \<open>Inside the region that \<^verbatim>\<open>rdlock\<close> protects; counted in \<^verbatim>\<open>readers\<close>; responsible for the group of readers while it enters or leaves; a writer.\<close>

fun in_rd :: "rwop list \<Rightarrow> bool" where
  "in_rd (WrP # q # _) \<longleftrightarrow> q = Incr"
| "in_rd (WrV # q # _) \<longleftrightarrow> q = RelTest"
| "in_rd (q # _) \<longleftrightarrow> q \<in> set [AcqHold, EnterTest, Incr, RelTest, RelV, Decr, ExitTest]"
| "in_rd [] \<longleftrightarrow> False"

fun counted :: "rwop list \<Rightarrow> bool" where
  "counted (RelTest # q # _) \<longleftrightarrow> q = Reading"
| "counted (RelV # RelUnhold # q # _) \<longleftrightarrow> q = Reading"
| "counted (RelUnhold # q # _) \<longleftrightarrow> q = Reading"
| "counted (AcqP # AcqHold # q # _) \<longleftrightarrow> q = Decr"
| "counted (AcqHold # q # _) \<longleftrightarrow> q = Decr"
| "counted (q # _) \<longleftrightarrow> q = Reading \<or> q = Decr"
| "counted [] \<longleftrightarrow> False"

fun passing :: "rwop list \<Rightarrow> bool" where
  "passing (WrV # q # _) \<longleftrightarrow> q = RelTest"
| "passing (q # _) \<longleftrightarrow> q = Incr \<or> q = ExitTest"
| "passing [] \<longleftrightarrow> False"

fun writing :: "rwop list \<Rightarrow> bool" where
  "writing (Writing # _) \<longleftrightarrow> True"
| "writing [WrV] \<longleftrightarrow> True"
| "writing _ \<longleftrightarrow> False"

fun empty_group :: "rwop list \<Rightarrow> bool" where
  "empty_group (WrP # q # _) \<longleftrightarrow> q = Incr"
| "empty_group (WrV # q # _) \<longleftrightarrow> q = RelTest"
| "empty_group _ \<longleftrightarrow> False"

section \<open>The invariant\<close>

definition region :: "nat \<Rightarrow> (nat \<Rightarrow> rwop list) \<Rightarrow> bool" where
  "region v f \<longleftrightarrow> v \<le> 1 \<and> (\<forall>t. in_rd (f t) \<longrightarrow> v = 0) \<and> (\<forall>t t'. in_rd (f t) \<and> in_rd (f t') \<longrightarrow> t = t')"

definition counts :: "int \<Rightarrow> (nat \<Rightarrow> rwop list) \<Rightarrow> bool" where
  "counts n f \<longleftrightarrow> finite {t. counted (f t)} \<and> n = int (card {t. counted (f t)}) \<and> (\<forall>t. empty_group (f t) \<longrightarrow> n = 0)"

definition reading_group :: "int \<Rightarrow> (nat \<Rightarrow> rwop list) \<Rightarrow> bool" where
  "reading_group n f \<longleftrightarrow> 0 < n \<or> (\<exists>t. passing (f t))"

definition exclusion :: "nat \<Rightarrow> bool \<Rightarrow> (nat \<Rightarrow> rwop list) \<Rightarrow> bool" where
  "exclusion v g f \<longleftrightarrow> v \<le> 1 \<and> (\<forall>t. writing (f t) \<longrightarrow> v = 0 \<and> \<not> g) \<and> (g \<longrightarrow> v = 0) \<and> (\<forall>t t'. writing (f t) \<and> writing (f t') \<longrightarrow> t = t')"

definition rwinv :: "rwsys \<Rightarrow> bool" where
  "rwinv s \<longleftrightarrow> (\<forall>t. todo s t \<in> set tails) \<and> region (rdvalue s) (todo s) \<and> counts (readers s) (todo s) \<and>
     exclusion (wrvalue s) (reading_group (readers s) (todo s)) (todo s)"

lemma in_rd_classes: "l \<in> set tails \<Longrightarrow> passing l \<or> empty_group l \<Longrightarrow> in_rd l"
  by (auto simp: tails_def rdUnlock_def acquire_code_def release_code_def Let_def)

text \<open>How the parts change with the position of one thread.\<close>

lemma region_enter: "region (Suc v) f \<Longrightarrow> region v (f(t := l))"
  by (auto simp: region_def)

lemma region_stay: "region v f \<Longrightarrow> in_rd (f t) \<Longrightarrow> region v (f(t := l))"
  by (auto simp: region_def)

lemma region_out: "region v f \<Longrightarrow> \<not> in_rd l \<Longrightarrow> region v (f(t := l))"
  by (auto simp: region_def)

lemma region_leave: "region v f \<Longrightarrow> in_rd (f t) \<Longrightarrow> \<not> in_rd l \<Longrightarrow> region (Suc v) (f(t := l))"
  by (auto simp: region_def)

lemma counted_update:
  "{t'. counted ((f(t := l)) t')} = (if counted l then insert t {t'. counted (f t')} else {t'. counted (f t')} - {t})"
  by (auto split: if_splits)

lemma counts_same: "counts n f \<Longrightarrow> counted l = counted (f t) \<Longrightarrow> empty_group l \<longrightarrow> n = 0 \<Longrightarrow> counts n (f(t := l))"
  unfolding counts_def counted_update by (auto simp: insert_absorb)

lemma counts_incr:
  assumes "counts n f" "counted l" "\<not> counted (f t)" "\<And>t'. t' \<noteq> t \<Longrightarrow> \<not> empty_group (f t')" "\<not> empty_group l"
  shows "counts (n + 1) (f(t := l))"
  using assms unfolding counts_def counted_update by auto

lemma counts_decr:
  assumes "counts n f" "\<not> counted l" "counted (f t)" "\<And>t'. t' \<noteq> t \<Longrightarrow> \<not> empty_group (f t')" "\<not> empty_group l"
  shows "counts (n - 1) (f(t := l))"
proof -
  have "card {t'. counted (f t')} > 0" using assms(1,3) by (auto simp: counts_def card_gt_0_iff)
  then show ?thesis using assms unfolding counts_def counted_update by (auto simp: of_nat_diff)
qed

lemma group_same: "passing l = passing (f t) \<Longrightarrow> reading_group n (f(t := l)) = reading_group n f"
  by (auto simp: reading_group_def)

lemma exclusion_same: "exclusion v g f \<Longrightarrow> writing l \<longrightarrow> writing (f t) \<Longrightarrow> exclusion v g (f(t := l))"
  by (auto simp: exclusion_def)

lemma exclusion_any: "exclusion v True f \<Longrightarrow> \<not> writing l \<Longrightarrow> exclusion v g (f(t := l))"
  by (auto simp: exclusion_def)

lemma exclusion_enter: "exclusion (Suc v) g f \<Longrightarrow> \<not> writing l \<Longrightarrow> exclusion v g' (f(t := l))"
  by (auto simp: exclusion_def)

lemma exclusion_write: "exclusion (Suc v) g f \<Longrightarrow> exclusion v g (f(t := l))"
  by (auto simp: exclusion_def)

lemma exclusion_leave: "exclusion v g f \<Longrightarrow> g \<or> writing (f t) \<Longrightarrow> \<not> writing l \<Longrightarrow> exclusion (Suc v) False (f(t := l))"
  by (auto simp: exclusion_def)

lemmas code_simps = rdUnlock_def rdLock_def wrLock_def wrUnlock_def acquire_code_def release_code_def
lemmas move_simps = rwmove_def rwexec_def Let_def

text \<open>What a step does to the position of the thread and to the three parts of the invariant.\<close>

lemma positions:
  assumes "l \<in> set tails"
  obtains (idle) "l = []" | (r1) "l = AcqP # AcqHold # EnterTest # Incr # RelTest # Reading # rdUnlock" | (r2) "l = AcqHold # EnterTest # Incr # RelTest # Reading # rdUnlock"
  | (r3) "l = EnterTest # Incr # RelTest # Reading # rdUnlock" | (r4) "l = WrP # Incr # RelTest # Reading # rdUnlock" | (r5) "l = Incr # RelTest # Reading # rdUnlock"
  | (r6) "l = RelTest # Reading # rdUnlock" | (r7) "l = RelV # RelUnhold # Reading # rdUnlock" | (r8) "l = RelUnhold # Reading # rdUnlock" | (r9) "l = Reading # rdUnlock"
  | (u1) "l = rdUnlock" | (u2) "l = [AcqHold, Decr, ExitTest, RelTest]" | (u3) "l = [Decr, ExitTest, RelTest]" | (u4) "l = [ExitTest, RelTest]" | (u5) "l = [WrV, RelTest]"
  | (u6) "l = [RelTest]" | (u7) "l = [RelV, RelUnhold]" | (u8) "l = [RelUnhold]" | (w1) "l = [WrP, Writing, WrV]" | (w2) "l = [Writing, WrV]" | (w3) "l = [WrV]"
  using assms unfolding tails_def Let_def append_Cons append_Nil set_simps insert_iff empty_iff
  by (elim disjE FalseE) blast+

lemma region_move:
  assumes l: "todo s t \<in> set tails" and m: "rwmove t s = Some s'" and r: "region (rdvalue s) (todo s)"
  shows "region (rdvalue s') (todo s')"
  using l
proof (cases rule: positions)
  case idle
  then show ?thesis using m r by (cases "roles s t"; cases "hd (roles s t)") (auto simp: move_simps code_simps region_out)
qed (cases "rdvalue s"; use m r in \<open>auto simp: move_simps code_simps region_out region_stay region_leave region_enter split: if_splits\<close>)+

lemma tails_move:
  assumes l: "todo s t \<in> set tails" and m: "rwmove t s = Some s'"
  shows "todo s' t \<in> set tails" "t' \<noteq> t \<Longrightarrow> todo s' t' = todo s t'"
  using l
proof (atomize (full), cases rule: positions)
  case idle
  then show "todo s' t \<in> set tails \<and> (t' \<noteq> t \<longrightarrow> todo s' t' = todo s t')"
    using m by (cases "roles s t"; cases "hd (roles s t)") (auto simp: move_simps code_simps tails_def)
qed (use m in \<open>auto simp: move_simps code_simps tails_def split: if_splits\<close>)+

lemma alone:
  assumes "\<And>t. f t \<in> set tails" "region v f" "in_rd (f t)" "t' \<noteq> t"
  shows "\<not> passing (f t')" "\<not> empty_group (f t')"
  using assms in_rd_classes [of "f t'"] by (auto simp: region_def)

lemma counts_move:
  assumes l: "\<And>t. todo s t \<in> set tails" and m: "rwmove t s = Some s'" and r: "region (rdvalue s) (todo s)" and c: "counts (readers s) (todo s)"
  shows "counts (readers s') (todo s')"
  using l [of t]
proof (cases rule: positions)
  case idle
  then show ?thesis using m c by (cases "roles s t"; cases "hd (roles s t)") (auto simp: move_simps code_simps counts_same)
next
  case r5
  then show ?thesis using m c alone(2) [OF l r, of t] counts_incr [OF c, of _ t] by (auto simp: move_simps code_simps)
next
  case u3
  then show ?thesis using m c alone(2) [OF l r, of t] counts_decr [OF c, of _ t] by (auto simp: move_simps code_simps)
qed (use m c in \<open>auto simp: move_simps code_simps counts_same split: if_splits\<close>)+

lemma group_busy: "passing (f t) \<or> counts n f \<and> (n \<noteq> 0 \<or> counted (f t)) \<Longrightarrow> reading_group n f"
proof -
  have "0 < n" if "counts n f" "n \<noteq> 0 \<or> counted (f t)"
    using that by (auto simp: counts_def card_gt_0_iff)
  then show "passing (f t) \<or> counts n f \<and> (n \<noteq> 0 \<or> counted (f t)) \<Longrightarrow> reading_group n f" by (auto simp: reading_group_def)
qed

lemma exclusion_move:
  assumes l: "\<And>t. todo s t \<in> set tails" and m: "rwmove t s = Some s'" and r: "region (rdvalue s) (todo s)" and c: "counts (readers s) (todo s)"
    and e: "exclusion (wrvalue s) (reading_group (readers s) (todo s)) (todo s)"
  shows "exclusion (wrvalue s') (reading_group (readers s') (todo s')) (todo s')"
proof -
  have busy: "exclusion (wrvalue s) g ((todo s)(t := l))" if "reading_group (readers s) (todo s)" "\<not> writing l" for g l
    using exclusion_any [of "wrvalue s" "todo s"] e that by simp
  have taken: "exclusion v g ((todo s)(t := l))" if "wrvalue s = Suc v" "\<not> writing l" for v g l
    using exclusion_enter e that by metis
  show ?thesis
    using l [of t]
  proof (cases rule: positions)
    case idle
    then show ?thesis using m e by (cases "roles s t"; cases "hd (roles s t)") (auto simp: move_simps code_simps exclusion_same group_same)
  next
    case r3
    then show ?thesis using m e busy group_busy [of "todo s" t "readers s"] c
      by (auto simp: move_simps code_simps exclusion_same group_same split: if_splits)
  next
    case r4
    then show ?thesis using m taken by (cases "wrvalue s") (auto simp: move_simps code_simps)
  next
    case r5
    then show ?thesis using m busy group_busy [of "todo s" t "readers s"] by (auto simp: move_simps code_simps)
  next
    case u3
    then show ?thesis using m busy group_busy [of "todo s" t "readers s"] c by (auto simp: move_simps code_simps)
  next
    case u4
    then show ?thesis using m busy group_busy [of "todo s" t "readers s"] by (auto simp: move_simps code_simps split: if_splits)
  next
    case u5
    then have "empty_group (todo s t)" "reading_group (readers s) (todo s)" using group_busy [of "todo s" t] by simp_all
    moreover from this(1) have "readers s = 0" using c unfolding counts_def by blast
    moreover have "\<not> reading_group 0 ((todo s)(t := [RelTest]))" using alone(1) [OF l r, of t] u5 by (auto simp: reading_group_def)
    ultimately show ?thesis using m u5 exclusion_leave [OF e, of t "[RelTest]"] by (auto simp: move_simps code_simps)
  next
    case w1
    then show ?thesis using m e exclusion_write by (cases "wrvalue s") (auto simp: move_simps code_simps group_same)
  next
    case w3
    then have "writing (todo s t)" by simp
    then have "\<not> reading_group (readers s) (todo s)" using e unfolding exclusion_def by blast
    then show ?thesis using m w3 exclusion_leave [OF e, of t "[]"] by (auto simp: move_simps code_simps group_same)
  qed (use m e in \<open>auto simp: move_simps code_simps exclusion_same group_same split: if_splits\<close>)+
qed

lemma rwreach_inv: "rwreach (RWLock_new rs) s \<Longrightarrow> rwinv s"
proof (induction rule: rwreach.induct)
  case start
  show ?case by (simp add: rwinv_def RWLock_new_def region_def counts_def exclusion_def reading_group_def tails_def Let_def)
next
  case (move s t s')
  have "todo s' u \<in> set tails" for u using tails_move [OF _ move.hyps(2)] move.IH by (cases "u = t") (simp_all add: rwinv_def)
  then show ?case
    using region_move [OF _ move.hyps(2)] counts_move [OF _ move.hyps(2)] exclusion_move [OF _ move.hyps(2)] move.IH by (simp add: rwinv_def)
qed

lemma rwrun_reach: "rwreach s0 s \<Longrightarrow> rwrun ts s = Some s' \<Longrightarrow> rwreach s0 s'"
  by (induction ts arbitrary: s) (auto simp: Option.bind_eq_Some_conv intro: rwreach.move)

section \<open>Properties\<close>

text \<open>
  C10: while a thread writes, no other thread writes and no thread reads, in every run of any number of threads.
\<close>

theorem writers_exclude:
  assumes "rwreach (RWLock_new rs) s" "todo s t = Writing # ops" "t' \<noteq> t"
  shows "(\<forall>ops'. todo s t' \<noteq> Writing # ops') \<and> (\<forall>ops'. todo s t' \<noteq> Reading # ops')"
proof -
  have i: "rwinv s" using rwreach_inv assms(1) .
  have w: "writing (todo s t)" using assms(2) by simp
  have "\<not> writing (todo s t')" using i w assms(3) by (auto simp: rwinv_def exclusion_def)
  moreover have "\<not> counted (todo s t')" using i w group_busy [of "todo s" t' "readers s"] by (auto simp: rwinv_def exclusion_def)
  ultimately show ?thesis by auto
qed

definition two_roles :: "nat \<Rightarrow> role list" where
  "two_roles t = (if t = 0 then [Writer] else if t = 1 \<or> t = 2 then [Reader] else [])"

theorem writers_exclude_witness:
  "\<exists>s. rwrun [1, 1, 1, 0, 0] (RWLock_new two_roles) = Some s \<and> (\<forall>ops. todo s 1 \<noteq> Writing # ops) \<and> (\<forall>ops. todo s 1 \<noteq> Reading # ops)"
proof -
  obtain s where s: "rwrun [1, 1, 1, 0, 0] (RWLock_new two_roles) = Some s" "todo s 0 = [Writing, WrV]"
    by (simp add: RWLock_new_def two_roles_def move_simps code_simps)
  then show ?thesis using writers_exclude [OF rwrun_reach [OF rwreach.start s(1)] s(2), of 1] by auto
qed


end
