(* ===== verification/Threads.thy ===== *)
theory Threads
  imports Interrupts
begin

text \<open>
  Threads, the scheduler and the synchronisation primitives (\<^verbatim>\<open>threads/thread.cc\<close>,
  \<^verbatim>\<open>threads/scheduler.cc\<close>, \<^verbatim>\<open>threads/synch.cc\<close>, the timer handler of
  \<^verbatim>\<open>threads/system.cc\<close>).

  The record \<open>kernel\<close> extends the interrupt state with the thread objects (by
  address), the id map, the scheduler's lists and the semaphores, locks and
  condition variables (by address).  Context switches are explicit: \<open>Run\<close> returns
  the state right after \<^verbatim>\<open>SWITCH\<close>, in which the thread \<^verbatim>\<open>currentThread\<close> goes on.
  Routines that may switch are split at that point, so \<open>P_try\<close> is one round of the
  loop of \<^verbatim>\<open>Semaphore::P\<close>.  The routines \<open>Semaphore_P\<close>, \<open>Lock_Acquire\<close>, ... are the
  view of one thread that nobody else competes with: they put the pieces
  together and give \<open>WouldBlock\<close> when another thread would get the processor.
\<close>

section \<open>State\<close>

datatype ThreadStatus = JUST_CREATED | RUNNING | READY | BLOCKED

text \<open>
  \<open>fencepost\<close> is the word at the bottom of the stack; \<open>started\<close> tells whether the
  thread has run (its saved program counter is no longer \<^verbatim>\<open>ThreadRoot\<close>).
\<close>

record Thread =
  tid :: int
  uid :: int
  priority :: int
  timeSlice :: int
  hasStack :: bool
  fencepost :: "32 word"
  tstatus :: ThreadStatus
  tname :: string
  started :: bool

record Semaphore =
  svalue :: int
  squeue :: "nat list"

record Lock =
  lsem :: nat
  holder :: "nat option"

record kernel = Interrupt +
  threads :: "nat \<Rightarrow> Thread option"
  freshThread :: nat
  threadMap :: "bool list"
  currentThread :: nat
  threadToBeDestroyed :: "nat option"
  readyList :: "nat list"
  blockedList :: "nat list"
  sems :: "nat \<Rightarrow> Semaphore"
  locks :: "nat \<Rightarrow> Lock"
  conds :: "nat \<Rightarrow> nat list"
  randoms :: "nat \<Rightarrow> int"

abbreviation (input) STACK_FENCEPOST :: "32 word" where "STACK_FENCEPOST \<equiv> 0xdeadbeef"
abbreviation (input) MaxThreads :: nat where "MaxThreads \<equiv> 128"

type_synonym 'z ktrans = "'z kernel_scheme \<Rightarrow> 'z kernel_scheme result"

section \<open>Threads and the scheduler\<close>

definition thread_at :: "nat \<Rightarrow> 'z kernel_scheme \<Rightarrow> Thread result" where
  "thread_at p s = (case threads s p of None \<Rightarrow> Inl WildPointer | Some t \<Rightarrow> Inr t)"

definition update_thread :: "nat \<Rightarrow> (Thread \<Rightarrow> Thread) \<Rightarrow> 'z ktrans" where
  "update_thread p f s =
     bindE (thread_at p s) (\<lambda>t. Inr (s\<lparr>threads := (threads s)(p := Some (f t))\<rparr>))"

definition setStatus :: "ThreadStatus \<Rightarrow> nat \<Rightarrow> 'z ktrans" where
  "setStatus st p s = update_thread p (\<lambda>t. t\<lparr>tstatus := st\<rparr>) s"

text \<open>The search of the constructor for a free thread id, \<open>- 1\<close> when there is none.\<close>

fun free_tid :: "bool list \<Rightarrow> int \<Rightarrow> int" where
  "free_tid [] i = -1"
| "free_tid (b # bs) i = (if \<not> b then i else free_tid bs (i + 1))"

definition Thread_new :: "string \<Rightarrow> int \<Rightarrow> 'z kernel_scheme \<Rightarrow> nat \<times> 'z kernel_scheme" where
  "Thread_new name pri s =
    (let i = free_tid (threadMap s) 0; p = freshThread s in
     (p, s\<lparr>threadMap := (if i = -1 then threadMap s else (threadMap s)[nat i := True]),
           threads := (threads s)(p := Some \<lparr>tid = i, uid = 1, priority = pri, timeSlice = 0,
             hasStack = False, fencepost = 0, tstatus = JUST_CREATED, tname = name, started = False\<rparr>),
           freshThread := Suc p\<rparr>))"

definition Thread_delete :: "nat \<Rightarrow> 'z ktrans" where
  "Thread_delete p s =
     bindE (thread_at p s) (\<lambda>t.
     ASSERT (p \<noteq> currentThread s)
       (requireE OutOfBounds (0 \<le> tid t \<and> nat (tid t) < length (threadMap s))
         (Inr (s\<lparr>threadMap := (threadMap s)[nat (tid t) := False],
                 threads := (threads s)(p := None)\<rparr>))))"

definition CheckOverflow :: "nat \<Rightarrow> 'z ktrans" where
  "CheckOverflow p s =
     bindE (thread_at p s) (\<lambda>t. ASSERT (\<not> hasStack t \<or> fencepost t = STACK_FENCEPOST) (Inr s))"

definition StackAllocate :: "nat \<Rightarrow> 'z ktrans" where
  "StackAllocate p s =
     update_thread p (\<lambda>t. t\<lparr>hasStack := True, fencepost := STACK_FENCEPOST, started := False\<rparr>) s"

definition ReadyToRun :: "nat \<Rightarrow> 'z ktrans" where
  "ReadyToRun p s =
     bindE (setStatus READY p s) (\<lambda>s. Inr (s\<lparr>readyList := readyList s @ [p]\<rparr>))"

definition FindNextToRun :: "'z kernel_scheme \<Rightarrow> nat option \<times> 'z kernel_scheme" where
  "FindNextToRun s =
    (case readyList s of [] \<Rightarrow> (None, s) | p # ps \<Rightarrow> (Some p, s\<lparr>readyList := ps\<rparr>))"

text \<open>
  \<open>Run\<close> of a thread without user state (\<^verbatim>\<open>space == NULL\<close>).  A thread that was
  suspended in \<^verbatim>\<open>Run\<close> goes on after \<^verbatim>\<open>SWITCH\<close> and deletes a finished thread; a
  thread that runs for the first time starts in \<^verbatim>\<open>ThreadRoot\<close> instead.
\<close>

definition Run_resume :: "'z ktrans" where
  "Run_resume s =
    (case threadToBeDestroyed s of
       None \<Rightarrow> Inr s
     | Some p \<Rightarrow> bindE (Thread_delete p s) (\<lambda>s. Inr (s\<lparr>threadToBeDestroyed := None\<rparr>)))"

definition Run :: "nat \<Rightarrow> 'z ktrans" where
  "Run nextThread s =
     bindE (CheckOverflow (currentThread s) s) (\<lambda>s.
     bindE (setStatus RUNNING nextThread (s\<lparr>currentThread := nextThread\<rparr>)) (\<lambda>s.
     bindE (thread_at nextThread s) (\<lambda>t.
       if started t then Run_resume s
       else update_thread nextThread (\<lambda>t. t\<lparr>started := True\<rparr>) s)))"

text \<open>\<^verbatim>\<open>Fork\<close>, between turning interrupts off and restoring them.\<close>

definition Fork_body :: "nat \<Rightarrow> 'z ktrans" where
  "Fork_body p s = bindE (StackAllocate p s) (ReadyToRun p)"

text \<open>
  \<^verbatim>\<open>Sleep\<close> up to the switch.  The loop \<^verbatim>\<open>while (FindNextToRun() == NULL) Idle();\<close> runs
  handlers only; \<open>n\<close> bounds the rounds, since polling devices can keep it going.
\<close>

fun Sleep_wait :: "(handler \<Rightarrow> int \<Rightarrow> 'z ktrans) \<Rightarrow> 'z ktrans \<Rightarrow> nat \<Rightarrow> 'z kernel_scheme \<Rightarrow>
    (nat \<times> 'z kernel_scheme) result" where
  "Sleep_wait call dload n s =
    (case FindNextToRun s of
       (Some p, s) \<Rightarrow> Inr (p, s)
     | (None, s) \<Rightarrow>
        (case n of
           0 \<Rightarrow> Inl Diverges
         | Suc n \<Rightarrow> bindE (Idle call dload s) (Sleep_wait call dload n)))"

declare Sleep_wait.simps [simp del]

definition Sleep :: "(handler \<Rightarrow> int \<Rightarrow> 'z ktrans) \<Rightarrow> 'z ktrans \<Rightarrow> nat \<Rightarrow> 'z ktrans" where
  "Sleep call dload n s =
     ASSERT (level s = IntOff)
       (bindE (setStatus BLOCKED (currentThread s) s) (\<lambda>s.
          let s = s\<lparr>blockedList := blockedList s @ [currentThread s]\<rparr> in
          bindE (Sleep_wait call dload n s) (\<lambda>(nextThread, s). Run nextThread s)))"

text \<open>\<^verbatim>\<open>Finish\<close>; the thread that calls it never goes on.\<close>

definition Finish :: "(handler \<Rightarrow> int \<Rightarrow> 'z ktrans) \<Rightarrow> 'z ktrans \<Rightarrow> nat \<Rightarrow> 'z ktrans" where
  "Finish call dload n s =
    (let s = s\<lparr>level := IntOff\<rparr> in Sleep call dload n (s\<lparr>threadToBeDestroyed := Some (currentThread s)\<rparr>))"

text \<open>
  \<^verbatim>\<open>Yield\<close> with interrupts off, up to the switch: \<open>False\<close> when no other thread is
  ready and the caller goes on.
\<close>

definition Yield_body :: "'z kernel_scheme \<Rightarrow> (bool \<times> 'z kernel_scheme) result" where
  "Yield_body s =
    (case FindNextToRun s of
       (None, s) \<Rightarrow> Inr (False, s)
     | (Some nextThread, s) \<Rightarrow>
         bindE (ReadyToRun (currentThread s) s) (\<lambda>s.
         bindE (Run nextThread s) (\<lambda>s. Inr (True, s))))"

text \<open>The timer handler of \<^verbatim>\<open>system.cc\<close>: every tenth time slice tick asks for a yield.\<close>

definition TimerInterruptHandler :: "'z ktrans" where
  "TimerInterruptHandler s =
     bindE (thread_at (currentThread s) s) (\<lambda>t.
       let ts = (timeSlice t + 1) smod 10 in
       bindE (update_thread (currentThread s) (\<lambda>t. t\<lparr>timeSlice := ts\<rparr>) s) (\<lambda>s.
         if istatus s \<noteq> IdleMode \<and> ts = 5 then YieldOnReturn s else Inr s))"

text \<open>\<^verbatim>\<open>Random()\<close> takes the next number of the host's generator.\<close>

definition next_random :: "'z kernel_scheme \<Rightarrow> int \<times> 'z kernel_scheme" where
  "next_random s = (randoms s 0, s\<lparr>randoms := (\<lambda>n. randoms s (Suc n))\<rparr>)"

definition timer_call :: "handler \<Rightarrow> int \<Rightarrow> 'z ktrans" where
  "timer_call h a s =
    (if h = TimerHandler
     then let (r, s) = next_random s in TimerExpired True r TimerInterruptHandler s
     else Inl WildPointer)"

section \<open>Semaphores, locks and condition variables\<close>

definition Semaphore_new :: "int \<Rightarrow> Semaphore" where
  "Semaphore_new initialValue = \<lparr>svalue = initialValue, squeue = []\<rparr>"

definition set_sem :: "nat \<Rightarrow> Semaphore \<Rightarrow> 'z kernel_scheme \<Rightarrow> 'z kernel_scheme" where
  "set_sem i x s = s\<lparr>sems := (sems s)(i := x)\<rparr>"

text \<open>One round of the loop of \<^verbatim>\<open>P\<close>: \<open>True\<close> when the value was consumed.\<close>

definition P_try :: "(handler \<Rightarrow> int \<Rightarrow> 'z ktrans) \<Rightarrow> 'z ktrans \<Rightarrow> nat \<Rightarrow> nat \<Rightarrow> 'z kernel_scheme \<Rightarrow>
    (bool \<times> 'z kernel_scheme) result" where
  "P_try call dload n i s =
    (let x = sems s i in
     if svalue x = 0
     then bindE (Sleep call dload n (set_sem i (x\<lparr>squeue := squeue x @ [currentThread s]\<rparr>) s)) (\<lambda>s.
            Inr (False, s))
     else Inr (True, set_sem i (x\<lparr>svalue := svalue x - 1\<rparr>) s))"

definition V_body :: "nat \<Rightarrow> 'z ktrans" where
  "V_body i s =
    (let x = sems s i in
     bindE (case squeue x of
              [] \<Rightarrow> Inr s
            | p # ps \<Rightarrow> ReadyToRun p (set_sem i (x\<lparr>squeue := ps\<rparr>) s)) (\<lambda>s.
       let x = sems s i in Inr (set_sem i (x\<lparr>svalue := svalue x + 1\<rparr>) s)))"

definition isHeldByCurrentThread :: "nat \<Rightarrow> 'z kernel_scheme \<Rightarrow> bool" where
  "isHeldByCurrentThread l s \<longleftrightarrow> holder (locks s l) = Some (currentThread s)"

definition set_holder :: "nat \<Rightarrow> nat option \<Rightarrow> 'z kernel_scheme \<Rightarrow> 'z kernel_scheme" where
  "set_holder l p s = s\<lparr>locks := (locks s)(l := (locks s l)\<lparr>holder := p\<rparr>)\<rparr>"

text \<open>\<^verbatim>\<open>Condition\<close>: \<open>Wait_body\<close> is the part of \<^verbatim>\<open>Wait\<close> with interrupts off.\<close>

definition Wait_body :: "(handler \<Rightarrow> int \<Rightarrow> 'z ktrans) \<Rightarrow> 'z ktrans \<Rightarrow> nat \<Rightarrow> nat \<Rightarrow> 'z ktrans" where
  "Wait_body call dload n c s =
     Sleep call dload n (s\<lparr>conds := (conds s)(c := conds s c @ [currentThread s])\<rparr>)"

definition Signal_body :: "nat \<Rightarrow> 'z ktrans" where
  "Signal_body c s =
    (case conds s c of
       [] \<Rightarrow> Inr s
     | p # ps \<Rightarrow> ReadyToRun p (s\<lparr>conds := (conds s)(c := ps)\<rparr>))"

definition Broadcast :: "nat \<Rightarrow> 'z ktrans" where
  "Broadcast c s = foldE ReadyToRun (conds s c) (s\<lparr>conds := (conds s)(c := [])\<rparr>)"

section \<open>Start-up\<close>

text \<open>
  The part of \<^verbatim>\<open>Initialize\<close> that sets up the thread system, for the flag \<^verbatim>\<open>-rs\<close>, up to
  \<^verbatim>\<open>interrupt->Enable()\<close>; \<open>ss\<close> and \<open>ls\<close> are the semaphores and locks the program
  creates.  The main thread is the one that is running.
\<close>

definition Initialize :: "(nat \<Rightarrow> int) \<Rightarrow> (nat \<Rightarrow> Semaphore) \<Rightarrow> (nat \<Rightarrow> Lock) \<Rightarrow> kernel result" where
  "Initialize rnd ss ls =
    (let s = \<lparr>level = IntOff, pending = [], inHandler = False, yieldOnReturn = False, istatus = SystemMode,
              stats = Statistics_new, threads = (\<lambda>_. None), freshThread = 0,
              threadMap = replicate MaxThreads False, currentThread = 0, threadToBeDestroyed = None,
              readyList = [], blockedList = [], sems = ss, locks = ls, conds = (\<lambda>_. []), randoms = rnd\<rparr>;
         (r, s) = next_random s in
     bindE (Timer_new True r s) (\<lambda>s.
       let (p, s) = Thread_new ''main'' 1000 (s\<lparr>threadToBeDestroyed := None\<rparr>) in
       bindE (setStatus RUNNING p (s\<lparr>currentThread := p\<rparr>)) (update_thread p (\<lambda>t. t\<lparr>started := True\<rparr>))))"

section \<open>The view of a thread without competitors\<close>

text \<open>
  \<open>Yield\<close> when it happens inside \<^verbatim>\<open>OneTick\<close>; restoring the interrupt level ticks
  again, hence the bound \<open>n\<close> on nested yields.
\<close>

fun Yield :: "(handler \<Rightarrow> int \<Rightarrow> 'z ktrans) \<Rightarrow> 'z ktrans \<Rightarrow> nat \<Rightarrow> 'z ktrans" where
  "Yield call dload 0 s = Inl Diverges"
| "Yield call dload (Suc n) s =
     bindE (SetLevel call dload (Yield call dload n) IntOff s) (\<lambda>(oldLevel, s).
     bindE (Yield_body s) (\<lambda>(switched, s).
       if switched then Inl WouldBlock
       else bindE (SetLevel call dload (Yield call dload n) oldLevel s) (\<lambda>(_, s). Inr s)))"

fun P_loop :: "(handler \<Rightarrow> int \<Rightarrow> 'z ktrans) \<Rightarrow> 'z ktrans \<Rightarrow> nat \<Rightarrow> nat \<Rightarrow> nat \<Rightarrow> 'z ktrans" where
  "P_loop call dload 0 me i s = Inl Diverges"
| "P_loop call dload (Suc n) me i s =
     bindE (P_try call dload n i s) (\<lambda>(taken, s).
       if taken then Inr s
       else if currentThread s = me then P_loop call dload n me i s
       else Inl WouldBlock)"

definition Semaphore_P :: "(handler \<Rightarrow> int \<Rightarrow> 'z ktrans) \<Rightarrow> 'z ktrans \<Rightarrow> nat \<Rightarrow> nat \<Rightarrow> 'z ktrans" where
  "Semaphore_P call dload n i s =
     bindE (SetLevel call dload (Yield call dload n) IntOff s) (\<lambda>(oldLevel, s).
     bindE (P_loop call dload n (currentThread s) i s) (\<lambda>s.
     bindE (SetLevel call dload (Yield call dload n) oldLevel s) (\<lambda>(_, s). Inr s)))"

definition Semaphore_V :: "(handler \<Rightarrow> int \<Rightarrow> 'z ktrans) \<Rightarrow> 'z ktrans \<Rightarrow> nat \<Rightarrow> nat \<Rightarrow> 'z ktrans" where
  "Semaphore_V call dload n i s =
     bindE (SetLevel call dload (Yield call dload n) IntOff s) (\<lambda>(oldLevel, s).
     bindE (V_body i s) (\<lambda>s.
     bindE (SetLevel call dload (Yield call dload n) oldLevel s) (\<lambda>(_, s). Inr s)))"

definition Lock_Acquire :: "(handler \<Rightarrow> int \<Rightarrow> 'z ktrans) \<Rightarrow> 'z ktrans \<Rightarrow> nat \<Rightarrow> nat \<Rightarrow> 'z ktrans" where
  "Lock_Acquire call dload n l s =
     bindE (Semaphore_P call dload n (lsem (locks s l)) s) (\<lambda>s.
       Inr (set_holder l (Some (currentThread s)) s))"

definition Lock_Release :: "(handler \<Rightarrow> int \<Rightarrow> 'z ktrans) \<Rightarrow> 'z ktrans \<Rightarrow> nat \<Rightarrow> nat \<Rightarrow> 'z ktrans" where
  "Lock_Release call dload n l s =
    (if isHeldByCurrentThread l s
     then bindE (Semaphore_V call dload n (lsem (locks s l)) s) (\<lambda>s. Inr (set_holder l None s))
     else Inr s)"

section \<open>The timer keeps the contract of device handlers\<close>

named_theorems kernel_simps \<open>effects of the scheduler's operations\<close>

text \<open>
  \<open>core\<close> is the state of threads and synchronisation, up to the time slice counters;
  a timer interrupt leaves it alone.
\<close>

definition core :: "'z kernel_scheme \<Rightarrow> _" where
  "core s = (\<lambda>p. map_option (timeSlice_update (\<lambda>_. 0)) (threads s p), freshThread s, threadMap s,
     currentThread s, threadToBeDestroyed s, readyList s, blockedList s, sems s, locks s, conds s, kernel.more s)"

definition timer_ok :: "'z kernel_scheme \<Rightarrow> bool" where
  "timer_ok s \<longleftrightarrow> sorted (map fst (pending s)) \<and> (\<forall>e \<in> set (pending s). phandler (snd e) = TimerHandler) \<and>
     (\<forall>n. 0 \<le> randoms s n)"

definition tgood :: "'z kernel_scheme \<Rightarrow> 'z kernel_scheme \<Rightarrow> bool" where
  "tgood k s \<longleftrightarrow> timer_ok s \<and> threads s (currentThread s) \<noteq> None \<and> core s = core k"

lemma core_interrupt [simp]:
  "core (s\<lparr>level := l\<rparr>) = core s" "core (s\<lparr>stats := st\<rparr>) = core s" "core (s\<lparr>istatus := m\<rparr>) = core s"
  "core (s\<lparr>yieldOnReturn := y\<rparr>) = core s" "core (s\<lparr>pending := ps\<rparr>) = core s"
  "core (s\<lparr>inHandler := b\<rparr>) = core s" "core (s\<lparr>randoms := r\<rparr>) = core s"
  by (simp_all add: core_def)

lemma core_fields:
  assumes "core s = core s'"
  shows "currentThread s = currentThread s'" "sems s = sems s'" "readyList s = readyList s'" "locks s = locks s'"
  using assms by (simp_all add: core_def)

lemma TimeOfNextInterrupt_pos: "0 \<le> r \<Longrightarrow> 0 < TimeOfNextInterrupt b r"
  by (auto simp: TimeOfNextInterrupt_def smod_nonneg)

lemma timer_fire:
  assumes "timer_ok s" "phandler p = TimerHandler" "threads s (currentThread s) = Some t"
  shows "\<exists>s' w q. fire timer_call Inr p s = Inr s' \<and> timer_ok s' \<and> core s' = core s \<and>
    threads s' (currentThread s) \<noteq> None \<and> level s' = level s \<and> istatus s' = istatus s \<and> \<not> inHandler s' \<and>
    stats s' = stats s \<and> totalTicks (stats s) < w \<and> pending s' = seq_sorted_insert w q (pending s)"
proof -
  have r: "0 \<le> randoms s 0" using assms(1) by (simp add: timer_ok_def)
  define w where "w = totalTicks (stats s) + TimeOfNextInterrupt True (randoms s 0)"
  define q where "q = PendingInterrupt_new TimerHandler 0 w TimerInt"
  define u where "u = s\<lparr>inHandler := True, istatus := SystemMode, randoms := \<lambda>n. randoms s (Suc n),
    pending := seq_sorted_insert w q (pending s)\<rparr>"
  have *: "timer_call TimerHandler a (s\<lparr>inHandler := True, istatus := SystemMode\<rparr>) = TimerInterruptHandler u" for a
    using TimeOfNextInterrupt_pos [OF r, of True]
    by (simp add: timer_call_def next_random_def TimerExpired_def Schedule_def Let_def u_def w_def q_def)
  define ts where "ts = (timeSlice t + 1) smod 10"
  define v where "v = u\<lparr>threads := (threads u)(currentThread s \<mapsto> t\<lparr>timeSlice := ts\<rparr>),
    yieldOnReturn := (ts = 5 \<or> yieldOnReturn s)\<rparr>"
  have "TimerInterruptHandler u = Inr v"
    using assms(3) by (cases s) (auto simp: TimerInterruptHandler_def thread_at_def update_thread_def
        YieldOnReturn_def Let_def u_def v_def ts_def)
  then have "fire timer_call Inr p s = Inr (v\<lparr>istatus := istatus s, inHandler := False\<rparr>)"
    using * by (simp add: fire_def assms(2))
  moreover have "core (v\<lparr>istatus := istatus s, inHandler := False\<rparr>) = core s"
    using assms(3) by (auto simp: v_def u_def core_def)
  moreover have "timer_ok v"
    using assms(1) by (auto simp: timer_ok_def v_def u_def q_def PendingInterrupt_new_def sorted_seq_sorted_insert)
  moreover have "totalTicks (stats s) < w" using TimeOfNextInterrupt_pos [OF r, of True] by (simp add: w_def)
  ultimately show ?thesis
    by (intro exI [of _ "v\<lparr>istatus := istatus s, inHandler := False\<rparr>"] exI [of _ w] exI [of _ q])
      (simp, simp add: timer_ok_def v_def u_def)
qed

interpretation timer: device_handlers timer_call Inr "tgood k" for k :: "'z kernel_scheme"
proof (unfold_locales, goal_cases)
  case (1 s xs)
  then show ?case by (auto simp: tgood_def timer_ok_def dest: mset_eq_setD)
next
  case (7 s w p rest)
  have "phandler p = TimerHandler" "timer_ok (s\<lparr>pending := rest\<rparr>)"
    using 7 by (auto simp: tgood_def timer_ok_def)
  moreover obtain t where "threads s (currentThread s) = Some t" using 7 by (auto simp: tgood_def)
  ultimately obtain s' w' q where s': "fire timer_call Inr p (s\<lparr>pending := rest\<rparr>) = Inr s'" "timer_ok s'"
    "core s' = core (s\<lparr>pending := rest\<rparr>)" "threads s' (currentThread s) \<noteq> None" "level s' = level s"
    "istatus s' = istatus s" "stats s' = stats s" "totalTicks (stats s) < w'"
    "pending s' = seq_sorted_insert w' q rest"
    using timer_fire [of "s\<lparr>pending := rest\<rparr>" p t] by auto
  moreover have "currentThread s' = currentThread s" using s'(3) by (simp add: core_def)
  ultimately show ?case
    using 7(1,2) by (intro exI [of _ s'] exI [of _ "[(w', q)]"]) (auto simp: tgood_def insert_all_def)
qed (auto simp: tgood_def timer_ok_def)

section \<open>One thread among polling devices\<close>

text \<open>
  A thread that is alone in the kernel while devices interrupt.  \<open>running\<close>: it executes with
  interrupts enabled and none is overdue.  The lemmas reduce the operations of a semaphore to
  the invariant of the devices; whoever knows the devices supplies that invariant.
\<close>

definition running :: "'z kernel_scheme \<Rightarrow> bool" where
  "running s \<longleftrightarrow> level s = IntOn \<and> istatus s = SystemMode \<and> \<not> yieldOnReturn s \<and>
     (\<forall>e \<in> set (pending s). totalTicks (stats s) < fst e)"

text \<open>The state in which the thread waits on semaphore \<open>i\<close>, and the one in which it goes on.\<close>

definition asleep_on :: "nat \<Rightarrow> 'z kernel_scheme \<Rightarrow> 'z kernel_scheme" where
  "asleep_on i s = s\<lparr>level := IntOff, sems := (sems s)(i := (sems s i)\<lparr>squeue := squeue (sems s i) @ [currentThread s]\<rparr>),
     threads := (threads s)(currentThread s := map_option (\<lambda>t. t\<lparr>tstatus := BLOCKED\<rparr>) (threads s (currentThread s))),
     blockedList := blockedList s @ [currentThread s]\<rparr>"

definition woken :: "'z kernel_scheme \<Rightarrow> 'z kernel_scheme" where
  "woken s = s\<lparr>readyList := [], threads := (threads s)(currentThread s := map_option (\<lambda>t. t\<lparr>tstatus := RUNNING\<rparr>) (threads s (currentThread s)))\<rparr>"

lemma Semaphore_P_on:
  "level s = IntOn \<Longrightarrow> Semaphore_P call dload n i s =
     bindE (P_loop call dload n (currentThread s) i (s\<lparr>level := IntOff\<rparr>)) (\<lambda>s.
     bindE (SetLevel call dload (Yield call dload n) IntOn s) (\<lambda>(_, s). Inr s))"
  by (simp add: Semaphore_P_def SetLevel_def [of _ _ _ IntOff] ChangeLevel_def)

lemma Semaphore_V_on:
  "level s = IntOn \<Longrightarrow> Semaphore_V call dload n i s =
     bindE (V_body i (s\<lparr>level := IntOff\<rparr>)) (\<lambda>s.
     bindE (SetLevel call dload (Yield call dload n) IntOn s) (\<lambda>(_, s). Inr s))"
  by (simp add: Semaphore_V_def SetLevel_def [of _ _ _ IntOff] ChangeLevel_def)

text \<open>In a handler interrupts are off, and stay off.\<close>

lemma V_handler:
  "level s = IntOff \<Longrightarrow> Semaphore_V call dload n i s = V_body i s"
  by (cases "V_body i s") (auto simp: Semaphore_V_def SetLevel_def ChangeLevel_def V_body_def set_sem_def ReadyToRun_def setStatus_def
      update_thread_def thread_at_def Let_def result_simps split: list.splits option.splits)

locale lone_kernel = quiet_handlers call dload good
  for call :: "handler \<Rightarrow> int \<Rightarrow> 'z ktrans" and dload :: "'z ktrans" and good +
  assumes good_handler: "good s \<Longrightarrow> \<not> inHandler s"
begin

lemma P_taken:
  assumes "good (set_sem i ((sems s i)\<lparr>svalue := svalue (sems s i) - 1\<rparr>) s)" "level s = IntOff" "istatus s = SystemMode"
    "\<not> yieldOnReturn s" "svalue (sems s i) \<noteq> 0"
  shows "yields (bindE (P_loop call dload (Suc n) (currentThread s) i s) (\<lambda>s.
     bindE (SetLevel call dload yield IntOn s) (\<lambda>(_, s). Inr s))) (\<lambda>s'. good s' \<and> running s')"
proof -
  let ?s = "set_sem i ((sems s i)\<lparr>svalue := svalue (sems s i) - 1\<rparr>) s"
  obtain s' where "SetLevel call dload yield IntOn ?s = Inr (IntOff, s')" "good s'" "running s'"
    using SetLevel_on_quiet [OF assms(1), of yield] good_handler [OF assms(1)] assms(2-4) by (auto simp: running_def set_sem_def)
  then show ?thesis using assms(5) by (simp add: P_try_def Let_def)
qed

lemma P_now:
  assumes "good (set_sem i ((sems s i)\<lparr>svalue := svalue (sems s i) - 1\<rparr>) s)" "running s" "svalue (sems s i) \<noteq> 0"
  shows "yields (Semaphore_P call dload (Suc n) i s) (\<lambda>s'. good s' \<and> running s')"
proof -
  have e: "set_sem i ((sems s i)\<lparr>svalue := svalue (sems s i) - 1\<rparr>) (s\<lparr>level := IntOff\<rparr>) =
      (set_sem i ((sems s i)\<lparr>svalue := svalue (sems s i) - 1\<rparr>) s)\<lparr>level := IntOff\<rparr>"
    by (simp add: set_sem_def)
  have c: "currentThread (s\<lparr>level := IntOff\<rparr>) = currentThread s" by simp
  have "level s = IntOn" using assms(2) by (simp add: running_def)
  moreover have "yields (bindE (P_loop call dload (Suc n) (currentThread (s\<lparr>level := IntOff\<rparr>)) i (s\<lparr>level := IntOff\<rparr>)) (\<lambda>s.
     bindE (SetLevel call dload (Yield call dload (Suc n)) IntOn s) (\<lambda>(_, s). Inr s))) (\<lambda>s'. good s' \<and> running s')"
    using assms(2,3) by (intro P_taken) (simp_all add: e good_level assms(1) running_def)
  ultimately show ?thesis by (simp only: Semaphore_P_on c)
qed

lemma V_now:
  assumes "good (set_sem i ((sems s i)\<lparr>svalue := svalue (sems s i) + 1\<rparr>) s)" "running s" "squeue (sems s i) = []"
  shows "yields (Semaphore_V call dload n i s) (\<lambda>s'. good s' \<and> running s')"
proof -
  let ?s = "(set_sem i ((sems s i)\<lparr>svalue := svalue (sems s i) + 1\<rparr>) s)\<lparr>level := IntOff\<rparr>"
  have g: "good ?s" using assms(1) by (simp add: good_level)
  obtain s' where s': "SetLevel call dload (Yield call dload n) IntOn ?s = Inr (IntOff, s')" "good s'" "running s'"
    using SetLevel_on_quiet [OF g, of "Yield call dload n"] good_handler [OF g] assms(2) by (auto simp: running_def set_sem_def)
  have "set_sem i ((sems s i)\<lparr>svalue := svalue (sems s i) + 1\<rparr>) (s\<lparr>level := IntOff\<rparr>) = ?s" by (simp add: set_sem_def)
  moreover have "level s = IntOn" using assms(2) by (simp add: running_def)
  ultimately show ?thesis using s' assms(3) by (simp add: Semaphore_V_on V_body_def Let_def)
qed

lemma P_sleeps:
  assumes "running s" "\<not> inHandler s" "svalue (sems s i) = 0" "threads s (currentThread s) = Some t"
    and wait: "Sleep_wait call dload (Suc n) (asleep_on i s) = Inr (currentThread s, s2)"
    and s2: "currentThread s2 = currentThread s" "threads s2 (currentThread s) = Some t2" "started t2"
      "hasStack t2 \<longrightarrow> fencepost t2 = STACK_FENCEPOST" "threadToBeDestroyed s2 = None" "readyList s2 = []"
      "level s2 = IntOff" "istatus s2 = SystemMode" "\<not> yieldOnReturn s2" "svalue (sems s2 i) \<noteq> 0"
    and go: "good (set_sem i ((sems s2 i)\<lparr>svalue := svalue (sems s2 i) - 1\<rparr>) (woken s2))"
  shows "yields (Semaphore_P call dload (Suc (Suc n)) i s) (\<lambda>s'. good s' \<and> running s')"
proof -
  have run: "Run (currentThread s) s2 = Inr (woken s2)"
    using s2(1-6) by (cases s2) (simp add: Run_def CheckOverflow_def thread_at_def setStatus_def update_thread_def Run_resume_def woken_def)
  have "Sleep call dload (Suc n) (set_sem i ((sems s i)\<lparr>squeue := squeue (sems s i) @ [currentThread s]\<rparr>) (s\<lparr>level := IntOff\<rparr>)) =
      bindE (Sleep_wait call dload (Suc n) (asleep_on i s)) (\<lambda>(p, s). Run p s)"
    using assms(4) by (cases s) (simp add: Sleep_def setStatus_def update_thread_def thread_at_def set_sem_def asleep_on_def Let_def)
  then have tried: "P_try call dload (Suc n) i (s\<lparr>level := IntOff\<rparr>) = Inr (False, woken s2)"
    using assms(3) wait run by (simp add: P_try_def Let_def)
  have w: "currentThread (woken s2) = currentThread s" "sems (woken s2) = sems s2" "level (woken s2) = IntOff"
    "istatus (woken s2) = SystemMode" "\<not> yieldOnReturn (woken s2)"
    using s2 by (simp_all add: woken_def)
  have "yields (bindE (P_loop call dload (Suc n) (currentThread s) i (woken s2)) (\<lambda>s.
     bindE (SetLevel call dload (Yield call dload (Suc (Suc n))) IntOn s) (\<lambda>(_, s). Inr s))) (\<lambda>s'. good s' \<and> running s')"
    using P_taken [of i "woken s2" n] go s2(10) unfolding w(1,2) using w(3-5) by blast
  moreover have "P_loop call dload (Suc (Suc n)) (currentThread s) i (s\<lparr>level := IntOff\<rparr>) =
      P_loop call dload (Suc n) (currentThread s) i (woken s2)"
    unfolding P_loop.simps(2) [of _ _ "Suc n"] tried using w(1) by simp
  moreover have "level s = IntOn" using assms(1) by (simp add: running_def)
  ultimately show ?thesis by (simp only: Semaphore_P_on)
qed

end

end
