(* ===== verification/Concurrency.thy ===== *)
theory Concurrency
  imports Threads "HOL-Library.Multiset"
begin

text \<open>
  Interleaved execution of threads on the kernel of \<open>Threads\<close>, with the timer as
  the only device (\<^verbatim>\<open>nachos -rs\<close>).

  The code of a thread is a list of operations.  An operation that contains a
  point where another thread can get the processor is expanded, when it is
  executed, into the pieces between these points: \<open>OpP\<close> turns interrupts off and
  becomes \<open>OpPwait\<close>, which is repeated each time the thread is resumed inside
  \<^verbatim>\<open>Sleep\<close>; \<open>OpOn\<close> is the \<^verbatim>\<open>SetLevel(oldLevel)\<close> at the end of the primitives, which
  lets time pass (\<open>OpTick\<close>) and so may lead to \<open>OpYield\<close>.  \<open>kstep\<close> executes one
  piece of the current thread; \<open>reach\<close> is reachability, with the trace of
  completed \<^verbatim>\<open>P\<close> and \<^verbatim>\<open>V\<close> operations.
\<close>

section \<open>Execution\<close>

datatype op =
    OpP nat | OpPwait nat | OpV nat
  | OpOn | OpTick | OpYield | OpStatus MachineStatus
  | OpAcquire nat | OpHold nat | OpRelease nat | OpUnhold nat
  | OpWait nat nat | OpWaitBody nat | OpSignal nat | OpBroadcast nat
  | OpFork string int "op list" | OpFinish

datatype event = EvP nat nat | EvV nat nat

record conf =
  ker :: kernel
  code :: "nat \<Rightarrow> op list"

definition goto :: "kernel \<Rightarrow> nat \<Rightarrow> op list \<Rightarrow> conf \<Rightarrow> conf" where
  "goto s me ops c = \<lparr>ker = s, code = (code c)(me := ops)\<rparr>"

text \<open>The operation that restores the interrupt level \<open>old\<close>.\<close>

definition restore :: "IntStatus \<Rightarrow> op list" where
  "restore old = (if old = IntOn then [OpOn] else [])"

text \<open>One piece of the current thread, whose code is \<open>op # rest\<close>.\<close>

definition kexec :: "op \<Rightarrow> op list \<Rightarrow> conf \<Rightarrow> (event list \<times> conf) result" where
  "kexec op rest c =
    (let s = ker c; me = currentThread s; off = s\<lparr>level := IntOff\<rparr>; back = restore (level s) in
     case op of
        OpP i \<Rightarrow> Inr ([], goto off me (OpPwait i # back @ rest) c)
      | OpPwait i \<Rightarrow>
          bindE (P_try timer_call Inr 1 i s) (\<lambda>(taken, s).
            if taken then Inr ([EvP me i], goto s me rest c) else Inr ([], c\<lparr>ker := s\<rparr>))
      | OpV i \<Rightarrow> bindE (V_body i off) (\<lambda>s. Inr ([EvV me i], goto s me (back @ rest) c))
      | OpOn \<Rightarrow>
          if level s = IntOn then Inr ([], goto s me rest c)
          else ASSERT (\<not> inHandler s) (Inr ([], goto (s\<lparr>level := IntOn\<rparr>) me (OpTick # rest) c))
      | OpTick \<Rightarrow>
          bindE (tick_body timer_call Inr s) (\<lambda>s'.
            if yieldOnReturn s'
            then Inr ([], goto (s'\<lparr>yieldOnReturn := False, istatus := SystemMode\<rparr>) me
                            (OpYield # OpStatus (istatus s) # rest) c)
            else Inr ([], goto s' me rest c))
      | OpYield \<Rightarrow> bindE (Yield_body off) (\<lambda>(_, s). Inr ([], goto s me (back @ rest) c))
      | OpStatus m \<Rightarrow> Inr ([], goto (s\<lparr>istatus := m\<rparr>) me rest c)
      | OpAcquire l \<Rightarrow> Inr ([], goto s me (OpP (lsem (locks s l)) # OpHold l # rest) c)
      | OpHold l \<Rightarrow> Inr ([], goto (set_holder l (Some me) s) me rest c)
      | OpRelease l \<Rightarrow>
          if isHeldByCurrentThread l s
          then Inr ([], goto s me (OpV (lsem (locks s l)) # OpUnhold l # rest) c)
          else Inr ([], goto s me rest c)
      | OpUnhold l \<Rightarrow> Inr ([], goto (set_holder l None s) me rest c)
      | OpWait cv l \<Rightarrow> Inr ([], goto s me (OpRelease l # OpWaitBody cv # OpAcquire l # rest) c)
      | OpWaitBody cv \<Rightarrow>
          bindE (Wait_body timer_call Inr 1 cv off) (\<lambda>s. Inr ([], goto s me (back @ rest) c))
      | OpSignal cv \<Rightarrow> bindE (Signal_body cv off) (\<lambda>s. Inr ([], goto s me (back @ rest) c))
      | OpBroadcast cv \<Rightarrow> bindE (Broadcast cv s) (\<lambda>s. Inr ([], goto s me rest c))
      | OpFork name pri body \<Rightarrow>
          (let (p, s) = Thread_new name pri s in
           bindE (Fork_body p (s\<lparr>level := IntOff\<rparr>)) (\<lambda>s.
             Inr ([], (goto s me (back @ rest) c)
               \<lparr>code := (code c)(me := back @ rest, p := OpOn # body @ [OpFinish])\<rparr>)))
      | OpFinish \<Rightarrow> bindE (Finish timer_call Inr 1 s) (\<lambda>s. Inr ([], goto s me [] c)))"

definition kstep :: "conf \<Rightarrow> (event list \<times> conf) result" where
  "kstep c =
    (case code c (currentThread (ker c)) of
       [] \<Rightarrow> Inl WildPointer
     | op # rest \<Rightarrow> kexec op rest c)"

inductive reach :: "conf \<Rightarrow> event list \<Rightarrow> conf \<Rightarrow> bool" for c0 where
  start: "reach c0 [] c0"
| step: "reach c0 tr c \<Longrightarrow> kstep c = Inr (ev, c') \<Longrightarrow> reach c0 (tr @ ev) c'"

text \<open>
  The main thread runs \<open>prog\<close> and finishes; it first enables interrupts.
\<close>

definition boot :: "(nat \<Rightarrow> int) \<Rightarrow> (nat \<Rightarrow> Semaphore) \<Rightarrow> (nat \<Rightarrow> Lock) \<Rightarrow> op list \<Rightarrow> conf result" where
  "boot rnd ss ls prog =
     bindE (Initialize rnd ss ls) (\<lambda>s.
       Inr \<lparr>ker = s, code = (\<lambda>_. [])(currentThread s := OpOn # prog @ [OpFinish])\<rparr>)"

fun krun :: "nat \<Rightarrow> conf \<Rightarrow> (event list \<times> conf) result" where
  "krun 0 c = Inr ([], c)"
| "krun (Suc n) c = bindE (kstep c) (\<lambda>(ev, c'). bindE (krun n c') (\<lambda>(tr, c''). Inr (ev @ tr, c'')))"

section \<open>Places of threads\<close>

text \<open>The queues of the kernel: the ready list and the queues of semaphores and conditions.\<close>

datatype place = Ready | SemQ nat | CondQ nat

fun place_list :: "kernel \<Rightarrow> place \<Rightarrow> nat list" where
  "place_list s Ready = readyList s"
| "place_list s (SemQ i) = squeue (sems s i)"
| "place_list s (CondQ cv) = conds s cv"

definition wfq :: "(place \<Rightarrow> nat list) \<Rightarrow> bool" where
  "wfq f \<longleftrightarrow> (\<forall>q. distinct (f q)) \<and> (\<forall>q q'. q \<noteq> q' \<longrightarrow> set (f q) \<inter> set (f q') = {})"

definition unqueued :: "nat \<Rightarrow> (place \<Rightarrow> nat list) \<Rightarrow> bool" where
  "unqueued p f \<longleftrightarrow> (\<forall>q. p \<notin> set (f q))"

lemma wfq_enqueue: "wfq f \<Longrightarrow> unqueued p f \<Longrightarrow> wfq (f(q := f q @ [p]))"
  by (auto simp: wfq_def unqueued_def)

lemma wfq_dequeue:
  assumes "wfq f" "f q = p # ps"
  shows "wfq (f(q := ps))" "unqueued p (f(q := ps))"
proof -
  have d: "distinct (f x)" "x \<noteq> y \<Longrightarrow> set (f x) \<inter> set (f y) = {}" for x y
    using assms(1) by (auto simp: wfq_def)
  have "p \<notin> set ps" "p \<notin> set (f x)" if "x \<noteq> q" for x
    using d(1) [of q] d(2) [OF that] assms(2) by auto
  moreover have "p \<notin> set ps" using d(1) [of q] assms(2) by simp
  ultimately show "unqueued p (f(q := ps))" by (auto simp: unqueued_def)
  have "set ps \<inter> set (f x) = {}" if "x \<noteq> q" for x using d(2) [OF that] assms(2) by auto
  then show "wfq (f(q := ps))"
    unfolding wfq_def using d(1) [of q] d assms(2) by auto
qed

lemma unqueued_enqueue: "unqueued x f \<Longrightarrow> x \<noteq> p \<Longrightarrow> unqueued x (f(q := f q @ [p]))"
  by (auto simp: unqueued_def)

lemma unqueued_dequeue: "unqueued x f \<Longrightarrow> f q = p # ps \<Longrightarrow> unqueued x (f(q := ps)) \<and> x \<noteq> p"
  by (auto simp: unqueued_def) (metis list.set_intros)+

lemma all_place: "(\<forall>q. P q) \<longleftrightarrow> P Ready \<and> (\<forall>i. P (SemQ i)) \<and> (\<forall>cv. P (CondQ cv))"
  by (metis place.exhaust)

lemma place_list_update [simp]:
  "place_list (s\<lparr>readyList := r\<rparr>) = (place_list s)(Ready := r)"
  "place_list (s\<lparr>sems := (sems s)(i := x)\<rparr>) = (place_list s)(SemQ i := squeue x)"
  "place_list (s\<lparr>conds := (conds s)(cv := ps)\<rparr>) = (place_list s)(CondQ cv := ps)"
  "place_list (s\<lparr>threads := th\<rparr>) = place_list s"
  "place_list (s\<lparr>threadMap := tm\<rparr>) = place_list s"
  "place_list (s\<lparr>freshThread := n\<rparr>) = place_list s"
  "place_list (s\<lparr>blockedList := ps\<rparr>) = place_list s"
  "place_list (s\<lparr>currentThread := p\<rparr>) = place_list s"
  "place_list (s\<lparr>threadToBeDestroyed := tbd\<rparr>) = place_list s"
  "place_list (s\<lparr>level := l\<rparr>) = place_list s"
  "place_list (s\<lparr>istatus := m\<rparr>) = place_list s"
  "place_list (s\<lparr>yieldOnReturn := y\<rparr>) = place_list s"
  "place_list (s\<lparr>locks := ls\<rparr>) = place_list s"
  by (auto simp: fun_eq_iff all_place)

lemma place_list_core: "core s = core s' \<Longrightarrow> place_list s = place_list s'"
  by (auto simp: fun_eq_iff all_place core_def)

text \<open>
  The invariant of the kernel.  \<open>queues_ok\<close> concerns the queues alone and also
  holds inside \<^verbatim>\<open>Sleep\<close>, when the current thread is already queued.
\<close>

definition queues_ok :: "kernel \<Rightarrow> bool" where
  "queues_ok s \<longleftrightarrow> wfq (place_list s) \<and> (\<forall>q. set (place_list s q) \<subseteq> dom (threads s)) \<and>
     threads s (currentThread s) \<noteq> None \<and> (\<forall>i. 0 \<le> svalue (sems s i)) \<and>
     (\<forall>p. threads s p \<noteq> None \<longrightarrow> p < freshThread s) \<and>
     (\<forall>p. threadToBeDestroyed s = Some p \<longrightarrow> unqueued p (place_list s) \<and> threads s p \<noteq> None) \<and>
     timer_ok s"

definition kinv :: "kernel \<Rightarrow> bool" where
  "kinv s \<longleftrightarrow> queues_ok s \<and> unqueued (currentThread s) (place_list s) \<and>
     threadToBeDestroyed s \<noteq> Some (currentThread s)"

lemma timer_ok_update [simp]:
  "timer_ok (s\<lparr>readyList := r\<rparr>) = timer_ok s" "timer_ok (s\<lparr>sems := ss\<rparr>) = timer_ok s"
  "timer_ok (s\<lparr>conds := cs\<rparr>) = timer_ok s" "timer_ok (s\<lparr>threads := th\<rparr>) = timer_ok s"
  "timer_ok (s\<lparr>threadMap := tm\<rparr>) = timer_ok s" "timer_ok (s\<lparr>freshThread := n\<rparr>) = timer_ok s"
  "timer_ok (s\<lparr>blockedList := ps\<rparr>) = timer_ok s" "timer_ok (s\<lparr>currentThread := p\<rparr>) = timer_ok s"
  "timer_ok (s\<lparr>threadToBeDestroyed := tbd\<rparr>) = timer_ok s" "timer_ok (s\<lparr>level := l\<rparr>) = timer_ok s"
  "timer_ok (s\<lparr>istatus := m\<rparr>) = timer_ok s" "timer_ok (s\<lparr>yieldOnReturn := y\<rparr>) = timer_ok s"
  "timer_ok (s\<lparr>locks := ls\<rparr>) = timer_ok s"
  by (simp_all add: timer_ok_def)

lemma dom_core: "core s = core s' \<Longrightarrow> (threads s p = None) = (threads s' p = None)"
  by (auto simp: core_def dest: fun_cong [of _ _ p])

lemma kinv_core: "core s' = core s \<Longrightarrow> timer_ok s' \<Longrightarrow> kinv s \<Longrightarrow> kinv s'"
proof -
  assume c: "core s' = core s" and t: "timer_ok s'" and k: "kinv s"
  have "place_list s' = place_list s" using place_list_core [OF c] .
  moreover have "\<And>p. (threads s' p = None) = (threads s p = None)" using dom_core [OF c] .
  ultimately show "kinv s'"
    using c t k by (auto simp: kinv_def queues_ok_def core_def dom_def)
qed

section \<open>Effects of the scheduler\<close>

lemma setStatus_eq:
  "setStatus st p s = Inr s' \<longleftrightarrow>
   (\<exists>t. threads s p = Some t \<and> s' = s\<lparr>threads := (threads s)(p \<mapsto> t\<lparr>tstatus := st\<rparr>)\<rparr>)"
  by (auto simp: setStatus_def update_thread_def thread_at_def bindE_eq_Inr split: option.splits)

lemma ReadyToRun_eq:
  "ReadyToRun p s = Inr s' \<longleftrightarrow>
   (\<exists>t. threads s p = Some t \<and>
     s' = s\<lparr>threads := (threads s)(p \<mapsto> t\<lparr>tstatus := READY\<rparr>), readyList := readyList s @ [p]\<rparr>)"
  by (auto simp: ReadyToRun_def setStatus_eq bindE_eq_Inr)

lemma Run_spec:
  assumes "Run p s = Inr s'"
  obtains thr tm tbd where "s' = s\<lparr>currentThread := p, threads := thr, threadMap := tm, threadToBeDestroyed := tbd\<rparr>"
    "tbd = threadToBeDestroyed s \<and> dom thr = dom (threads s) \<or>
     tbd = None \<and> dom thr = dom (threads s) - set_option (threadToBeDestroyed s) \<and>
       threadToBeDestroyed s \<noteq> Some p"
    "p \<in> dom (threads s)"
proof -
  obtain t where t: "threads s p = Some t" using assms
    by (auto simp: Run_def bindE_eq_Inr setStatus_eq CheckOverflow_def thread_at_def ASSERT_eq_Inr split: option.splits)
  define u where "u = s\<lparr>currentThread := p, threads := (threads s)(p \<mapsto> t\<lparr>tstatus := RUNNING\<rparr>)\<rparr>"
  have r: "(if started t then Run_resume u else update_thread p (started_update (\<lambda>_. True)) u) = Inr s'"
    using assms t by (auto simp: Run_def bindE_eq_Inr setStatus_eq CheckOverflow_def thread_at_def ASSERT_eq_Inr
        u_def split: option.splits)
  show thesis
  proof (cases "started t \<and> threadToBeDestroyed s \<noteq> None")
    case True
    then obtain x where x: "threadToBeDestroyed s = Some x" by auto
    with True r obtain tm where "s' = u\<lparr>threadMap := tm, threads := (threads u)(x := None), threadToBeDestroyed := None\<rparr>" "x \<noteq> p"
      by (auto simp: Run_resume_def bindE_eq_Inr Thread_delete_def ASSERT_eq_Inr requireE_eq_Inr u_def)
    then show thesis
      using t x by (intro that [where thr = "(threads u)(x := None)" and tm = tm and tbd = None]) (auto simp: u_def dom_def)
  next
    case False
    then have "s' = u \<or> s' = u\<lparr>threads := (threads u)(p \<mapsto> t\<lparr>tstatus := RUNNING, started := True\<rparr>)\<rparr>"
      using r by (auto simp: Run_resume_def update_thread_def thread_at_def u_def split: if_splits)
    then have e1: "s' = s\<lparr>currentThread := p, threads := threads s', threadMap := threadMap s,
        threadToBeDestroyed := threadToBeDestroyed s\<rparr>" and e2: "dom (threads s') = dom (threads s)"
      using t by (cases s; auto simp: u_def dom_def split: if_splits)+
    then show thesis by (intro that [OF e1]) (use e2 t in auto)
  qed
qed


text \<open>With the timer as the only device, \<^verbatim>\<open>Sleep\<close> finds a ready thread or the machine halts.\<close>

lemma Sleep_wait_empty:
  assumes "tgood k s" "level s = IntOff" "readyList k = []"
  shows "\<not> isOk (Sleep_wait timer_call Inr n s)"
  using assms
proof (induction n arbitrary: s)
  case 0
  then show ?case by (auto simp: Sleep_wait.simps FindNextToRun_def tgood_def core_def)
next
  case (Suc n)
  have r: "readyList s = []" using Suc.prems by (simp add: tgood_def core_def)
  show ?case
  proof (cases "pending s = [] \<or> (\<exists>w p. pending s = [(w, p)] \<and> ptype p = TimerInt)")
    case True
    then have "Idle timer_call Inr s = Inl Halted" using timer.Idle_halts Suc.prems(2) by blast
    then show ?thesis using r by (simp add: Sleep_wait.simps FindNextToRun_def)
  next
    case False
    then obtain w p rest where "pending s = (w, p) # rest" "\<not> (ptype p = TimerInt \<and> rest = [])"
      by (cases "pending s") auto
    with timer.Idle_fires [OF Suc.prems(1,2)] obtain s' where
      "Idle timer_call Inr s = Inr s'" "tgood k s'" "level s' = IntOff" by blast
    then show ?thesis
      using r Suc.IH Suc.prems(3) by (subst Sleep_wait.simps) (simp add: FindNextToRun_def)
  qed
qed

lemma Sleep_spec:
  assumes "Sleep timer_call Inr n s = Inr s'" "timer_ok s"
  obtains t p ps where "threads s (currentThread s) = Some t" "readyList s = p # ps"
    "Run p (s\<lparr>threads := (threads s)(currentThread s \<mapsto> t\<lparr>tstatus := BLOCKED\<rparr>),
              blockedList := blockedList s @ [currentThread s], readyList := ps\<rparr>) = Inr s'"
proof -
  obtain t where t: "threads s (currentThread s) = Some t" and l: "level s = IntOff"
    using assms(1) by (auto simp: Sleep_def ASSERT_eq_Inr bindE_eq_Inr setStatus_eq)
  define u where "u = s\<lparr>threads := (threads s)(currentThread s \<mapsto> t\<lparr>tstatus := BLOCKED\<rparr>),
              blockedList := blockedList s @ [currentThread s]\<rparr>"
  have w: "bindE (Sleep_wait timer_call Inr n u) (\<lambda>(p, s). Run p s) = Inr s'"
    using assms(1) t l by (auto simp: Sleep_def bindE_eq_Inr setStatus_eq u_def)
  have "readyList s \<noteq> []"
  proof
    assume "readyList s = []"
    then have "\<not> isOk (Sleep_wait timer_call Inr n u)"
      using assms(2) t l by (intro Sleep_wait_empty [of u]) (auto simp: tgood_def u_def timer_ok_def)
    then show False using w by (auto simp: isOk_iff bindE_eq_Inr)
  qed
  then obtain p ps where p: "readyList s = p # ps" by (cases "readyList s") auto
  then have "Run p (u\<lparr>readyList := ps\<rparr>) = Inr s'"
    using w by (simp add: Sleep_wait.simps FindNextToRun_def u_def)
  then show thesis using that t p by (simp add: u_def)
qed

text \<open>Giving the processor to the head of the ready list.\<close>

lemma dispatch_kinv:
  assumes q: "queues_ok s" and r: "readyList s = p # ps" and run: "Run p (s\<lparr>readyList := ps\<rparr>) = Inr s'"
  shows "kinv s'" "currentThread s' = p" "place_list s' = (place_list s)(Ready := ps)"
    "sems s' = sems s" "locks s' = locks s" "level s' = level s"
proof -
  obtain thr tm tbd where s': "s' = s\<lparr>readyList := ps, currentThread := p, threads := thr, threadMap := tm,
      threadToBeDestroyed := tbd\<rparr>"
    and d: "tbd = threadToBeDestroyed s \<and> dom thr = dom (threads s) \<or>
     tbd = None \<and> dom thr = dom (threads s) - set_option (threadToBeDestroyed s) \<and> threadToBeDestroyed s \<noteq> Some p"
    and p: "p \<in> dom (threads s)"
    by (rule Run_spec [OF run, simplified])
  have pl: "place_list s' = (place_list s)(Ready := ps)" by (simp add: s')
  have rp: "place_list s Ready = p # ps" using r by simp
  have wf: "wfq (place_list s')" "unqueued p (place_list s')"
    unfolding pl using wfq_dequeue [of "place_list s" Ready p ps] rp q by (auto simp: queues_ok_def)
  have "set (place_list s x) \<subseteq> dom (threads s)" for x using q by (auto simp: queues_ok_def)
  then have in_dom: "set (place_list s' x) \<subseteq> dom (threads s)" for x
    using rp by (cases "x = Ready") (auto simp: pl dest!: meta_spec [of _ Ready])
  have tbd: "unqueued x (place_list s')" "x \<noteq> p" "threads s x \<noteq> None" if "threadToBeDestroyed s = Some x" for x
    using that q unqueued_dequeue [of x "place_list s" Ready p ps] rp by (auto simp: pl queues_ok_def)
  have dom': "set (place_list s' x) \<subseteq> dom thr" for x
    using in_dom [of x] d tbd by (auto simp: unqueued_def subset_iff)
  have "dom thr \<subseteq> dom (threads s)" using d by auto
  then have fr: "x < freshThread s" if "thr x \<noteq> None" for x
    using q that unfolding queues_ok_def by (meson domIff subsetD)
  have pd: "p \<in> dom thr" using d p tbd by auto
  have tb: "unqueued x (place_list s') \<and> thr x \<noteq> None \<and> x \<noteq> p" if "tbd = Some x" for x
    using that d tbd [of x] by (auto simp: dom_def)
  show "kinv s'"
    using wf dom' fr pd tb q unfolding kinv_def queues_ok_def
    by (auto simp: s' dom_def)
  show "currentThread s' = p" "place_list s' = (place_list s)(Ready := ps)"
    "sems s' = sems s" "locks s' = locks s" "level s' = level s"
    using pl by (simp_all add: s')
qed

section \<open>Waiting threads and pending wake-ups\<close>

text \<open>
  \<open>waits code i p\<close>: thread \<open>p\<close> is in the loop of \<^verbatim>\<open>P\<close> on semaphore \<open>i\<close>.  The invariant
  \<open>winv\<close> says that exactly such threads are queued, and that whenever threads are
  queued on \<open>i\<close>, each unit of its value is matched by a running or ready thread
  that is about to test it.
\<close>

definition waits :: "(nat \<Rightarrow> op list) \<Rightarrow> nat \<Rightarrow> nat \<Rightarrow> bool" where
  "waits cd i p \<longleftrightarrow> (\<exists>r. cd p = OpPwait i # r)"

definition cand :: "(place \<Rightarrow> nat list) \<Rightarrow> nat \<Rightarrow> (nat \<Rightarrow> op list) \<Rightarrow> nat \<Rightarrow> nat set" where
  "cand f me cd i = {p \<in> insert me (set (f Ready)). waits cd i p}"

definition winv :: "(place \<Rightarrow> nat list) \<Rightarrow> nat \<Rightarrow> (nat \<Rightarrow> int) \<Rightarrow> (nat \<Rightarrow> op list) \<Rightarrow> bool" where
  "winv f me v cd \<longleftrightarrow> (\<forall>i p. p \<in> set (f (SemQ i)) \<longrightarrow> waits cd i p) \<and>
     (\<forall>i. f (SemQ i) \<noteq> [] \<longrightarrow> v i \<le> int (card (cand f me cd i)))"

lemma finite_cand [simp]: "finite (cand f me cd i)"
  by (auto simp: cand_def)

lemma cand_mono: "v \<le> int (card (cand f me cd i)) \<Longrightarrow> cand f me cd i \<subseteq> cand f' me' cd' i \<Longrightarrow>
    v \<le> int (card (cand f' me' cd' i))"
  using card_mono [OF finite_cand] by (meson nat_int_comparison(3) order_trans)

lemma winvI:
  assumes "\<And>i p. p \<in> set (f (SemQ i)) \<Longrightarrow> waits cd i p"
    and "\<And>i. f (SemQ i) \<noteq> [] \<Longrightarrow> v i \<le> int (card (cand f me cd i))"
  shows "winv f me v cd"
  using assms by (auto simp: winv_def)

lemma winvD:
  assumes "winv f me v cd"
  shows "p \<in> set (f (SemQ i)) \<Longrightarrow> waits cd i p" "f (SemQ i) \<noteq> [] \<Longrightarrow> v i \<le> int (card (cand f me cd i))"
  using assms by (auto simp: winv_def)

text \<open>The current thread changes its own code, without having been in a loop of \<^verbatim>\<open>P\<close>.\<close>

lemma winv_local:
  assumes "winv f me v cd" "unqueued me f" "\<And>i. \<not> waits cd i me"
  shows "winv f me v (cd(me := ops))"
proof (rule winvI)
  fix i p assume p: "p \<in> set (f (SemQ i))"
  then have "p \<noteq> me" using assms(2) by (auto simp: unqueued_def)
  then show "waits (cd(me := ops)) i p" using winvD(1) [OF assms(1) p] by (simp add: waits_def)
next
  fix i assume "f (SemQ i) \<noteq> []"
  from winvD(2) [OF assms(1) this] show "v i \<le> int (card (cand f me (cd(me := ops)) i))"
    by (rule cand_mono) (use assms(3) in \<open>auto simp: cand_def waits_def\<close>)
qed

lemma winv_code:
  assumes "winv f me v cd" "unqueued p f" "p \<noteq> me"
  shows "winv f me v (cd(p := ops))"
proof -
  have w: "waits (cd(p := ops)) i x = waits cd i x" if "x \<noteq> p" for i x using that by (simp add: waits_def)
  have "x \<noteq> p" if "x \<in> insert me (set (f Ready))" for x using that assms(2,3) by (auto simp: unqueued_def)
  then have "cand f me (cd(p := ops)) i = cand f me cd i" for i
    unfolding cand_def using w by blast
  moreover have "x \<noteq> p" if "x \<in> set (f q)" for x q using that assms(2) by (auto simp: unqueued_def)
  ultimately show ?thesis using assms(1) w by (auto simp: winv_def)
qed

text \<open>The current thread consumes a unit of semaphore \<open>i\<close>.\<close>

lemma winv_take:
  assumes "winv f me v cd" "unqueued me f" "waits cd i me"
  shows "winv f me (v(i := v i - 1)) (cd(me := ops))"
proof (rule winvI)
  fix j p assume p: "p \<in> set (f (SemQ j))"
  then have "p \<noteq> me" using assms(2) by (auto simp: unqueued_def)
  then show "waits (cd(me := ops)) j p" using winvD(1) [OF assms(1) p] by (simp add: waits_def)
next
  fix j assume "f (SemQ j) \<noteq> []"
  note c = winvD(2) [OF assms(1) this]
  show "(v(i := v i - 1)) j \<le> int (card (cand f me (cd(me := ops)) j))"
  proof (cases "j = i")
    case True
    have me: "me \<in> cand f me cd i" using assms(3) by (simp add: cand_def)
    have "cand f me cd i - {me} \<subseteq> cand f me (cd(me := ops)) i" by (auto simp: cand_def waits_def)
    then have "card (cand f me cd i) - 1 \<le> card (cand f me (cd(me := ops)) i)"
      using card_mono [OF finite_cand] me by (metis card_Diff_singleton)
    moreover have "0 < card (cand f me cd i)" using me by (metis card_gt_0_iff empty_iff finite_cand)
    ultimately show ?thesis using c True by simp
  next
    case False
    have "\<not> waits cd j me" using assms(3) False by (auto simp: waits_def)
    then show ?thesis using c False
      by (simp, elim cand_mono) (auto simp: cand_def waits_def)
  qed
qed

text \<open>
  The current thread gives the processor to the first ready thread, after it has
  been queued at \<open>q\<close>: on a semaphore of value zero, on a condition, on the ready
  list, or nowhere.
\<close>

lemma winv_switch:
  assumes w: "winv f me v cd" and me: "unqueued me f" and r: "f Ready = p # ps"
    and other: "\<And>j x. x \<noteq> me \<Longrightarrow> (x \<in> set (g (SemQ j))) = (x \<in> set (f (SemQ j)))"
      "\<And>j. f (SemQ j) = [] \<Longrightarrow> g (SemQ j) \<noteq> [] \<Longrightarrow> v j = 0"
      "set ps \<subseteq> set (g Ready)"
    and code: "\<And>x. x \<noteq> me \<Longrightarrow> cd' x = cd x"
    and mine: "\<And>j. me \<in> set (g (SemQ j)) \<Longrightarrow> waits cd' j me"
      "\<And>j. waits cd j me \<Longrightarrow> v j = 0"
  shows "winv g p v cd'"
proof (rule winvI)
  fix j x assume "x \<in> set (g (SemQ j))"
  then show "waits cd' j x"
    using other(1) [of x j] mine(1) [of j] winvD(1) [OF w] code by (cases "x = me") (auto simp: waits_def)
next
  fix j assume g: "g (SemQ j) \<noteq> []"
  show "v j \<le> int (card (cand g p cd' j))"
  proof (cases "v j = 0")
    case False
    then have "f (SemQ j) \<noteq> []" using other(2) g by blast
    moreover have "cand f me cd j \<subseteq> cand g p cd' j"
    proof
      fix x assume x: "x \<in> cand f me cd j"
      then have "x \<noteq> me" using False mine(2) by (auto simp: cand_def)
      then show "x \<in> cand g p cd' j"
        using x other(3) r code [of x] by (auto simp: cand_def waits_def)
    qed
    ultimately show ?thesis using winvD(2) [OF w] cand_mono by blast
  qed simp
qed

text \<open>A \<^verbatim>\<open>V\<close> that finds a waiting thread, and one that does not.\<close>

lemma winv_wake:
  assumes w: "winv f me v cd" and me: "unqueued me f" and wf: "wfq f" and q: "f (SemQ i) = p # ps"
  shows "winv (f(SemQ i := ps, Ready := f Ready @ [p])) me (v(i := v i + 1)) cd"
proof (rule winvI)
  let ?g = "f(SemQ i := ps, Ready := f Ready @ [p])"
  fix j x assume "x \<in> set (?g (SemQ j))"
  then show "waits cd j x" using winvD(1) [OF w, of x j] q by (cases "j = i") auto
next
  let ?g = "f(SemQ i := ps, Ready := f Ready @ [p])"
  fix j assume g: "?g (SemQ j) \<noteq> []"
  have "f (SemQ j) \<noteq> []" using g q by (cases "j = i") auto
  note c = winvD(2) [OF w this]
  show "(v(i := v i + 1)) j \<le> int (card (cand ?g me cd j))"
  proof (cases "j = i")
    case True
    have "waits cd i p" using winvD(1) [OF w, of p i] q by simp
    moreover have "p \<notin> set (f Ready)" "p \<noteq> me"
      using wf me q by (auto simp: wfq_def unqueued_def disjoint_iff) (metis list.set_intros(1) place.distinct(1))+
    ultimately have "cand ?g me cd i = insert p (cand f me cd i)" "p \<notin> cand f me cd i"
      by (auto simp: cand_def)
    then show ?thesis using c True by simp
  next
    case False
    then show ?thesis using c by (simp, elim cand_mono) (auto simp: cand_def)
  qed
qed

lemma winv_V_empty:
  "winv f me v cd \<Longrightarrow> f (SemQ i) = [] \<Longrightarrow> winv f me (v(i := v i + 1)) cd"
  by (auto simp: winv_def)

lemma winv_ready:
  assumes "winv f me v cd" "\<And>j. g (SemQ j) = f (SemQ j)" "set (f Ready) \<subseteq> set (g Ready)"
  shows "winv g me v cd"
proof (rule winvI)
  fix i assume "g (SemQ i) \<noteq> []"
  then show "v i \<le> int (card (cand g me cd i))"
    using winvD(2) [OF assms(1), of i] assms(2,3) cand_mono [of "v i" f me cd i g me cd]
    by (auto simp: cand_def)
qed (use assms winvD(1) in auto)

section \<open>Preservation by the kernel's operations\<close>

abbreviation (input) vals_of :: "kernel \<Rightarrow> nat \<Rightarrow> int" where
  "vals_of s \<equiv> (\<lambda>i. svalue (sems s i))"

lemma queues_ok_thread:
  "queues_ok s \<Longrightarrow> threads s p = Some t \<Longrightarrow> queues_ok (s\<lparr>threads := (threads s)(p \<mapsto> t')\<rparr>)"
  by (auto simp: queues_ok_def dom_def subset_iff)

lemma queues_ok_update [simp]:
  "queues_ok (s\<lparr>blockedList := b\<rparr>) = queues_ok s" "queues_ok (s\<lparr>level := l\<rparr>) = queues_ok s"
  by (simp_all add: queues_ok_def)

lemma kinv_update [simp]:
  "kinv (s\<lparr>level := l\<rparr>) = kinv s" "kinv (s\<lparr>istatus := m\<rparr>) = kinv s"
  "kinv (s\<lparr>yieldOnReturn := y\<rparr>) = kinv s" "kinv (s\<lparr>locks := ls\<rparr>) = kinv s"
  by (simp_all add: kinv_def queues_ok_def set_holder_def)

lemma Sleep_dispatch:
  assumes "queues_ok s" "Sleep timer_call Inr n s = Inr s'"
  obtains p ps where "readyList s = p # ps" "kinv s'" "currentThread s' = p"
    "place_list s' = (place_list s)(Ready := ps)" "sems s' = sems s"
proof -
  have "timer_ok s" using assms(1) by (simp add: queues_ok_def)
  with assms(2) obtain t p ps where t: "threads s (currentThread s) = Some t" "readyList s = p # ps"
    "Run p (s\<lparr>threads := (threads s)(currentThread s \<mapsto> t\<lparr>tstatus := BLOCKED\<rparr>),
              blockedList := blockedList s @ [currentThread s], readyList := ps\<rparr>) = Inr s'"
    by (rule Sleep_spec)
  let ?s = "s\<lparr>threads := (threads s)(currentThread s \<mapsto> t\<lparr>tstatus := BLOCKED\<rparr>),
              blockedList := blockedList s @ [currentThread s]\<rparr>"
  have "queues_ok ?s" using queues_ok_thread [OF assms(1) t(1)] by simp
  from dispatch_kinv [OF this, of p ps s'] t(2,3) show thesis
    by (intro that [OF t(2)]) simp_all
qed

lemma kinv_enqueue:
  assumes "kinv s" "place_list s' = (place_list s)(q := place_list s q @ [currentThread s])"
    "threads s' = threads s" "currentThread s' = currentThread s" "freshThread s' = freshThread s"
    "threadToBeDestroyed s' = threadToBeDestroyed s" "timer_ok s'" "\<forall>i. 0 \<le> svalue (sems s' i)"
  shows "queues_ok s'"
proof -
  have k: "wfq (place_list s)" "unqueued (currentThread s) (place_list s)"
    "\<And>x. set (place_list s x) \<subseteq> dom (threads s)" "threads s (currentThread s) \<noteq> None"
    using assms(1) by (auto simp: kinv_def queues_ok_def)
  have "set (place_list s' x) \<subseteq> dom (threads s)" for x
    using k(3) [of x] k(3) [of q] k(4) by (cases "x = q") (auto simp: assms(2))
  moreover have "unqueued p (place_list s')" if "threadToBeDestroyed s = Some p" for p
    unfolding assms(2) using that assms(1) by (intro unqueued_enqueue) (auto simp: kinv_def queues_ok_def)
  ultimately show ?thesis
    using wfq_enqueue [OF k(1,2), of q] assms by (auto simp: kinv_def queues_ok_def)
qed

text \<open>Moving the head of a queue to the ready list.\<close>

lemma kinv_wake:
  assumes k: "kinv s" and q: "place_list s q = p # ps" "q \<noteq> Ready"
    and pl: "place_list s1 = (place_list s)(q := ps)" "threads s1 = threads s" "currentThread s1 = currentThread s"
      "freshThread s1 = freshThread s" "threadToBeDestroyed s1 = threadToBeDestroyed s" "timer_ok s1"
      "sems s1 = sems s \<or> (\<exists>i. q = SemQ i \<and> sems s1 = (sems s)(i := (sems s i)\<lparr>squeue := ps\<rparr>))"
    and r: "ReadyToRun p s1 = Inr s2"
  shows "kinv s2" "place_list s2 = (place_list s)(q := ps, Ready := readyList s @ [p])"
    "currentThread s2 = currentThread s" "sems s2 = sems s1"
proof -
  have k': "wfq (place_list s)" "unqueued (currentThread s) (place_list s)"
    "\<And>x. set (place_list s x) \<subseteq> dom (threads s)" "\<forall>i. 0 \<le> svalue (sems s i)"
    using k by (auto simp: kinv_def queues_ok_def)
  obtain t where s2: "threads s1 p = Some t"
    "s2 = s1\<lparr>threads := (threads s1)(p \<mapsto> t\<lparr>tstatus := READY\<rparr>), readyList := readyList s1 @ [p]\<rparr>"
    using r by (auto simp: ReadyToRun_eq)
  have rd: "readyList s1 = readyList s" using pl(1) q(2) by (metis fun_upd_other place_list.simps(1))
  show pl2: "place_list s2 = (place_list s)(q := ps, Ready := readyList s @ [p])"
    by (simp add: s2(2) pl(1) rd)
  note dq = wfq_dequeue [OF k'(1), of q p ps, OF q(1)]
  have r1: "((place_list s)(q := ps)) Ready = readyList s" using q(2) by simp
  have wf: "wfq (place_list s2)"
    using wfq_enqueue [OF dq, of Ready] by (simp only: pl2 r1)
  have uq: "unqueued x (place_list s2)" if "unqueued x (place_list s)" for x
    using unqueued_enqueue [OF conjunct1 [OF unqueued_dequeue [OF that, of q p ps, OF q(1)]]
        conjunct2 [OF unqueued_dequeue [OF that, of q p ps, OF q(1)]], of Ready]
    by (simp only: pl2 r1)
  have dm: "set (place_list s2 x) \<subseteq> dom (threads s)" for x
    using k'(3) [of x] k'(3) [of q] k'(3) [of Ready] q(1) by (auto simp: pl2)
  have val: "\<forall>i. 0 \<le> svalue (sems s1 i)" using pl(7) k'(4) by auto
  have f: "threads s2 = (threads s)(p \<mapsto> t\<lparr>tstatus := READY\<rparr>)" "currentThread s2 = currentThread s"
    "freshThread s2 = freshThread s" "threadToBeDestroyed s2 = threadToBeDestroyed s" "timer_ok s2" "sems s2 = sems s1"
    using pl by (simp_all add: s2(2))
  have "dom (threads s2) = dom (threads s)" using s2(1) pl(2) by (auto simp: f(1))
  then have t: "threads s2 x = None \<longleftrightarrow> threads s x = None" for x by (metis domIff)
  show "kinv s2"
    using k wf uq dm val f(5) unfolding kinv_def queues_ok_def f(2-4,6) t \<open>dom (threads s2) = dom (threads s)\<close>
    by blast
  show "currentThread s2 = currentThread s" "sems s2 = sems s1" by (fact f)+
qed

text \<open>The configuration invariant, and the effect of events on the semaphore values.\<close>

definition cok :: "conf \<Rightarrow> bool" where
  "cok c \<longleftrightarrow> kinv (ker c) \<and>
     winv (place_list (ker c)) (currentThread (ker c)) (vals_of (ker c)) (code c)"

definition Ps :: "nat \<Rightarrow> event list \<Rightarrow> int" where
  "Ps i tr = int (length (filter (\<lambda>e. \<exists>p. e = EvP p i) tr))"

definition Vs :: "nat \<Rightarrow> event list \<Rightarrow> int" where
  "Vs i tr = int (length (filter (\<lambda>e. \<exists>p. e = EvV p i) tr))"

definition kept :: "conf \<Rightarrow> event list \<Rightarrow> conf \<Rightarrow> bool" where
  "kept c ev c' \<longleftrightarrow> cok c' \<and> (\<forall>i. vals_of (ker c') i = vals_of (ker c) i + Vs i ev - Ps i ev)"

lemma events_simps [simp]:
  "Ps i [] = 0" "Vs i [] = 0" "Ps i (xs @ ys) = Ps i xs + Ps i ys" "Vs i (xs @ ys) = Vs i xs + Vs i ys"
  "Ps i [EvP p j] = (if i = j then 1 else 0)" "Vs i [EvP p j] = 0"
  "Vs i [EvV p j] = (if i = j then 1 else 0)" "Ps i [EvV p j] = 0"
  by (simp_all add: Ps_def Vs_def)

lemma keptI:
  assumes "kinv s" "winv (place_list s) me v cd" "currentThread s = me" "vals_of s = v"
    "\<And>i. v i = svalue (sems (ker c) i) + Vs i ev - Ps i ev"
  shows "kept c ev \<lparr>ker = s, code = cd\<rparr>"
  using assms by (auto simp: kept_def cok_def)

lemma kept_local:
  assumes "cok c" "code c (currentThread (ker c)) = op # rest" "\<And>i. op \<noteq> OpPwait i"
    "kinv s" "place_list s = place_list (ker c)" "currentThread s = currentThread (ker c)"
    "\<And>i. svalue (sems s i) = svalue (sems (ker c) i)"
  shows "kept c [] (goto s (currentThread (ker c)) ops c)"
proof -
  have "winv (place_list (ker c)) (currentThread (ker c)) (vals_of (ker c)) ((code c)(currentThread (ker c) := ops))"
    using assms(1-3) by (intro winv_local) (auto simp: cok_def kinv_def waits_def)
  then show ?thesis using assms(4-7) by (simp add: kept_def cok_def goto_def)
qed

lemma kept_switch:
  assumes "cok c" "kinv s" "sems s = ss" "\<And>i. svalue (ss i) = svalue (sems (ker c) i)"
    "readyList (ker c) = p # ps" "currentThread s = p" "place_list s = g"
    "\<And>j x. x \<noteq> currentThread (ker c) \<Longrightarrow> (x \<in> set (g (SemQ j))) = (x \<in> set (squeue (sems (ker c) j)))"
    "\<And>j. squeue (sems (ker c) j) = [] \<Longrightarrow> g (SemQ j) \<noteq> [] \<Longrightarrow> vals_of (ker c) j = 0"
    "set ps \<subseteq> set (g Ready)"
    "\<And>x. x \<noteq> currentThread (ker c) \<Longrightarrow> cd x = code c x"
    "\<And>j. currentThread (ker c) \<in> set (g (SemQ j)) \<Longrightarrow> waits cd j (currentThread (ker c))"
    "\<And>j. waits (code c) j (currentThread (ker c)) \<Longrightarrow> vals_of (ker c) j = 0"
  shows "kept c [] \<lparr>ker = s, code = cd\<rparr>"
proof -
  have "winv g p (vals_of (ker c)) cd"
    using assms(1,5) by (intro winv_switch [of "place_list (ker c)" "currentThread (ker c)" _ "code c" p ps])
      (use assms(8-13) in \<open>auto simp: cok_def kinv_def\<close>)
  then show ?thesis using assms(2-7) by (simp add: kept_def cok_def)
qed

lemma kept_Pwait:
  assumes c: "cok c" and cd: "code c (currentThread (ker c)) = OpPwait i # rest"
    and st: "P_try timer_call Inr n i (ker c) = Inr (taken, s)"
  shows "if taken then kept c [EvP (currentThread (ker c)) i] (goto s (currentThread (ker c)) rest c)
         else kept c [] (c\<lparr>ker := s\<rparr>)"
proof (cases "svalue (sems (ker c) i) = 0")
  case True
  let ?me = "currentThread (ker c)"
  let ?x = "(sems (ker c) i)\<lparr>squeue := squeue (sems (ker c) i) @ [?me]\<rparr>"
  have sl: "Sleep timer_call Inr n (set_sem i ?x (ker c)) = Inr s" and tk: "\<not> taken"
    using st True by (auto simp: P_try_def bindE_eq_Inr Let_def)
  have k: "kinv (ker c)" using c by (simp add: cok_def)
  then have nq: "?me \<notin> set (squeue (sems (ker c) j))" for j
    using place_list.simps(2) [of "ker c" j] by (metis kinv_def unqueued_def)
  have pl: "place_list (set_sem i ?x (ker c)) = (place_list (ker c))(SemQ i := place_list (ker c) (SemQ i) @ [?me])"
    by (simp add: set_sem_def)
  have "queues_ok (set_sem i ?x (ker c))"
    using k by (intro kinv_enqueue [OF k pl]) (auto simp: set_sem_def kinv_def queues_ok_def)
  from Sleep_dispatch [OF this sl] obtain p ps where s: "readyList (ker c) = p # ps" "kinv s" "currentThread s = p"
    "place_list s = (place_list (set_sem i ?x (ker c)))(Ready := ps)" "sems s = sems (set_sem i ?x (ker c))"
    by (auto simp: set_sem_def)
  have "kept c [] \<lparr>ker = s, code = code c\<rparr>"
    by (rule kept_switch [OF c s(2,5) _ s(1,3,4)])
      (use cd True nq in \<open>auto simp: set_sem_def waits_def split: if_splits\<close>)
  moreover have "c\<lparr>ker := s\<rparr> = \<lparr>ker = s, code = code c\<rparr>" by (cases c) simp
  ultimately have "kept c [] (c\<lparr>ker := s\<rparr>)" by (simp only:)
  then show ?thesis using tk by simp
next
  case False
  let ?me = "currentThread (ker c)"
  have s: "taken" "s = set_sem i ((sems (ker c) i)\<lparr>svalue := svalue (sems (ker c) i) - 1\<rparr>) (ker c)"
    using st False by (auto simp: P_try_def Let_def)
  have "winv (place_list (ker c)) ?me ((vals_of (ker c))(i := vals_of (ker c) i - 1)) ((code c)(?me := rest))"
    using c cd by (intro winv_take) (auto simp: cok_def kinv_def waits_def)
  moreover have "place_list s = place_list (ker c)" by (auto simp: s(2) set_sem_def fun_eq_iff all_place)
  moreover have "vals_of s = (vals_of (ker c))(i := vals_of (ker c) i - 1)" by (auto simp: s(2) set_sem_def)
  moreover have "\<forall>i. 0 \<le> svalue (sems (ker c) i)" using c by (simp add: cok_def kinv_def queues_ok_def)
  then have "1 \<le> svalue (sems (ker c) i)" using False by (metis int_one_le_iff_zero_less order_le_less)
  then have "kinv s"
    using c calculation(2) by (auto simp: cok_def kinv_def queues_ok_def s(2) set_sem_def)
  moreover have "currentThread s = ?me" by (simp add: s(2) set_sem_def)
  ultimately have "kept c [EvP ?me i] (goto s ?me rest c)"
    unfolding goto_def by (intro keptI [where v = "(vals_of (ker c))(i := vals_of (ker c) i - 1)"]) auto
  then show ?thesis using s(1) by simp
qed

lemma kept_V:
  assumes c: "cok c" and cd: "code c (currentThread (ker c)) = OpV i # rest"
    and st: "V_body i ((ker c)\<lparr>level := IntOff\<rparr>) = Inr s"
  shows "kept c [EvV (currentThread (ker c)) i] (goto s (currentThread (ker c)) ops c)"
proof -
  let ?me = "currentThread (ker c)"
  let ?k = "(ker c)\<lparr>level := IntOff\<rparr>"
  have k: "kinv ?k" and w: "winv (place_list ?k) ?me (vals_of ?k) (code c)"
    using c by (simp_all add: cok_def)
  have w': "winv f ?me v ((code c)(?me := ops))" if "winv f ?me v (code c)" "unqueued ?me f" for f v
    using that cd by (intro winv_local) (auto simp: waits_def)
  have pos: "\<forall>i. 0 \<le> svalue (sems (ker c) i)" using c by (simp add: cok_def kinv_def queues_ok_def)
  show ?thesis
  proof (cases "squeue (sems (ker c) i)")
    case Nil
    then have s: "s = set_sem i ((sems (ker c) i)\<lparr>svalue := svalue (sems (ker c) i) + 1\<rparr>) ?k"
      using st by (auto simp: V_body_def Let_def)
    have pl: "place_list s = place_list ?k" by (auto simp: s set_sem_def fun_eq_iff all_place)
    have "kinv s" using k pos pl by (auto simp: kinv_def queues_ok_def s set_sem_def)
    moreover have "winv (place_list s) ?me ((vals_of ?k)(i := vals_of ?k i + 1)) (code c)"
      unfolding pl using Nil by (intro winv_V_empty [OF w]) simp
    moreover have "vals_of s = (vals_of ?k)(i := vals_of ?k i + 1)" by (auto simp: s set_sem_def)
    moreover have "currentThread s = ?me" by (simp add: s set_sem_def)
    ultimately show ?thesis
      unfolding goto_def using w' by (intro keptI [where v = "(vals_of ?k)(i := vals_of ?k i + 1)"]) (auto simp: kinv_def)
  next
    case (Cons p ps)
    let ?s1 = "set_sem i ((sems (ker c) i)\<lparr>squeue := ps\<rparr>) ?k"
    obtain s2 where s2: "ReadyToRun p ?s1 = Inr s2" "s = set_sem i ((sems s2 i)\<lparr>svalue := svalue (sems s2 i) + 1\<rparr>) s2"
      using st Cons by (auto simp: V_body_def Let_def bindE_eq_Inr)
    have q: "place_list ?k (SemQ i) = p # ps" using Cons by simp
    have pr: "SemQ i \<noteq> Ready" "place_list ?s1 = (place_list ?k)(SemQ i := ps)" "threads ?s1 = threads ?k"
      "currentThread ?s1 = currentThread ?k" "freshThread ?s1 = freshThread ?k"
      "threadToBeDestroyed ?s1 = threadToBeDestroyed ?k" "timer_ok ?s1"
      "sems ?s1 = sems ?k \<or> (\<exists>j. SemQ i = SemQ j \<and> sems ?s1 = (sems ?k)(j := (sems ?k j)\<lparr>squeue := ps\<rparr>))"
      using k by (auto simp: set_sem_def kinv_def queues_ok_def fun_eq_iff all_place)
    have k2: "kinv s2" "place_list s2 = (place_list ?k)(SemQ i := ps, Ready := readyList ?k @ [p])"
      "currentThread s2 = ?me" "sems s2 = sems ?s1"
      using kinv_wake [OF k q pr s2(1)] by simp_all
    have pl: "place_list s = place_list s2" by (auto simp: s2(2) set_sem_def fun_eq_iff all_place)
    have vs: "vals_of s = (vals_of ?k)(i := vals_of ?k i + 1)" by (auto simp: s2(2) k2(4) set_sem_def)
    have "winv (place_list s) ?me ((vals_of ?k)(i := vals_of ?k i + 1)) (code c)"
      unfolding pl k2(2) using winv_wake [OF w _ _ q] k by (simp add: kinv_def queues_ok_def)
    moreover have "kinv s"
      using k2(1) pos pl unfolding kinv_def queues_ok_def by (auto simp: s2(2) set_sem_def)
    moreover have "currentThread s = ?me" using k2(3) by (simp add: s2(2) set_sem_def)
    ultimately show ?thesis
      unfolding goto_def using w' vs
      by (intro keptI [where v = "(vals_of ?k)(i := vals_of ?k i + 1)"]) (auto simp: kinv_def)
  qed
qed

lemma kept_Wait:
  assumes c: "cok c" and cd: "code c (currentThread (ker c)) = OpWaitBody cv # rest"
    and st: "Wait_body timer_call Inr n cv ((ker c)\<lparr>level := IntOff\<rparr>) = Inr s"
  shows "kept c [] (goto s (currentThread (ker c)) ops c)"
proof -
  let ?me = "currentThread (ker c)"
  let ?s1 = "(ker c)\<lparr>level := IntOff, conds := (conds (ker c))(cv := conds (ker c) cv @ [?me])\<rparr>"
  have k: "kinv (ker c)" using c by (simp add: cok_def)
  then have nq: "?me \<notin> set (squeue (sems (ker c) j))" for j
    using place_list.simps(2) [of "ker c" j] by (metis kinv_def unqueued_def)
  have pl: "place_list ?s1 = (place_list (ker c))(CondQ cv := place_list (ker c) (CondQ cv) @ [?me])"
    by (auto simp: fun_eq_iff all_place)
  have q: "queues_ok ?s1"
    using k by (intro kinv_enqueue [OF k pl]) (auto simp: kinv_def queues_ok_def)
  have "Sleep timer_call Inr n ?s1 = Inr s" using st by (simp add: Wait_body_def)
  from Sleep_dispatch [OF q this] obtain p ps where s: "readyList (ker c) = p # ps" "kinv s" "currentThread s = p"
    "place_list s = (place_list ?s1)(Ready := ps)" "sems s = sems ?s1" by auto
  show ?thesis
    unfolding goto_def
    by (rule kept_switch [OF c s(2,5) _ s(1,3,4)]) (use cd nq in \<open>auto simp: waits_def\<close>)
qed

lemma kept_Finish:
  assumes c: "cok c" and cd: "code c (currentThread (ker c)) = OpFinish # rest"
    and st: "Finish timer_call Inr n (ker c) = Inr s"
  shows "kept c [] (goto s (currentThread (ker c)) [] c)"
proof -
  let ?me = "currentThread (ker c)"
  let ?s1 = "(ker c)\<lparr>level := IntOff, threadToBeDestroyed := Some ?me\<rparr>"
  have k: "kinv (ker c)" using c by (simp add: cok_def)
  then have nq: "?me \<notin> set (squeue (sems (ker c) j))" for j
    using place_list.simps(2) [of "ker c" j] by (metis kinv_def unqueued_def)
  have q: "queues_ok ?s1" using k by (auto simp: kinv_def queues_ok_def)
  have "Sleep timer_call Inr n ?s1 = Inr s" using st by (simp add: Finish_def)
  from Sleep_dispatch [OF q this] obtain p ps where s: "readyList (ker c) = p # ps" "kinv s" "currentThread s = p"
    "place_list s = (place_list ?s1)(Ready := ps)" "sems s = sems ?s1" by auto
  show ?thesis
    unfolding goto_def
    by (rule kept_switch [OF c s(2,5) _ s(1,3,4)]) (use cd nq in \<open>auto simp: waits_def\<close>)
qed

lemma ReadyToRun_conds:
  "ReadyToRun p (s\<lparr>conds := X\<rparr>) = bindE (ReadyToRun p s) (\<lambda>s'. Inr (s'\<lparr>conds := X\<rparr>))"
  by (cases "threads s p") (simp_all add: ReadyToRun_def setStatus_def update_thread_def thread_at_def)

lemma Signal_wake:
  assumes k: "kinv s" and q: "conds s cv = p # ps" and r: "ReadyToRun p (s\<lparr>conds := (conds s)(cv := ps)\<rparr>) = Inr s2"
  shows "kinv s2" "place_list s2 = (place_list s)(CondQ cv := ps, Ready := readyList s @ [p])"
    "currentThread s2 = currentThread s" "sems s2 = sems s"
proof -
  let ?s1 = "s\<lparr>conds := (conds s)(cv := ps)\<rparr>"
  have q': "place_list s (CondQ cv) = p # ps" using q by simp
  have pr: "CondQ cv \<noteq> Ready" "place_list ?s1 = (place_list s)(CondQ cv := ps)" "threads ?s1 = threads s"
    "currentThread ?s1 = currentThread s" "freshThread ?s1 = freshThread s"
    "threadToBeDestroyed ?s1 = threadToBeDestroyed s" "timer_ok ?s1"
    "sems ?s1 = sems s \<or> (\<exists>j. CondQ cv = SemQ j \<and> sems ?s1 = (sems s)(j := (sems s j)\<lparr>squeue := ps\<rparr>))"
    using k by (auto simp: kinv_def queues_ok_def)
  show "kinv s2" "place_list s2 = (place_list s)(CondQ cv := ps, Ready := readyList s @ [p])"
    "currentThread s2 = currentThread s" "sems s2 = sems s"
    using kinv_wake [OF k q' pr r] by simp_all
qed

lemma Broadcast_wake:
  assumes "kinv s" "conds s cv = ps" "foldE ReadyToRun ps (s\<lparr>conds := (conds s)(cv := [])\<rparr>) = Inr s2"
  shows "kinv s2 \<and> place_list s2 = (place_list s)(CondQ cv := [], Ready := readyList s @ ps) \<and>
    currentThread s2 = currentThread s \<and> sems s2 = sems s"
  using assms
proof (induction ps arbitrary: s)
  case Nil
  then have "(conds s)(cv := []) = conds s" by auto
  then show ?case using Nil by (auto simp: fun_eq_iff all_place)
next
  case (Cons p ps)
  from Cons.prems(3) obtain x where x: "ReadyToRun p s = Inr x"
    "foldE ReadyToRun ps (x\<lparr>conds := (conds s)(cv := [])\<rparr>) = Inr s2"
    unfolding foldE.simps ReadyToRun_conds bindE_eq_Inr by blast
  define t where "t = x\<lparr>conds := (conds s)(cv := ps)\<rparr>"
  have t: "ReadyToRun p (s\<lparr>conds := (conds s)(cv := ps)\<rparr>) = Inr t"
    "foldE ReadyToRun ps (t\<lparr>conds := (conds s)(cv := [])\<rparr>) = Inr s2"
    unfolding ReadyToRun_conds t_def using x by simp_all
  note w = Signal_wake [OF Cons.prems(1,2) t(1)]
  have c: "conds t = (conds s)(cv := ps)" using t(1) by (auto simp: ReadyToRun_eq)
  then have e: "(conds s)(cv := []) = (conds t)(cv := [])" "conds t cv = ps" by simp_all
  have r: "readyList t = readyList s @ [p]" using w(2) by (metis fun_upd_same place_list.simps(1))
  have pl: "(place_list t)(CondQ cv := [], Ready := readyList t @ ps) =
      (place_list s)(CondQ cv := [], Ready := readyList s @ p # ps)"
    unfolding w(2) r by (auto simp: fun_eq_iff)
  have f: "foldE ReadyToRun ps (t\<lparr>conds := (conds t)(cv := [])\<rparr>) = Inr s2" using t(2) unfolding e(1) .
  from Cons.IH [OF w(1) e(2) f] show ?case unfolding pl w(3,4) .
qed

lemma kept_wake:
  assumes c: "cok c" and cd: "code c (currentThread (ker c)) = op # rest" "\<And>i. op \<noteq> OpPwait i"
    and k: "kinv s" "currentThread s = currentThread (ker c)" "sems s = sems (ker c)"
      "set (readyList (ker c)) \<subseteq> set (readyList s)"
  shows "kept c [] (goto s (currentThread (ker c)) ops c)"
proof -
  have "winv (place_list (ker c)) (currentThread (ker c)) (vals_of (ker c)) ((code c)(currentThread (ker c) := ops))"
    using c cd by (intro winv_local) (auto simp: cok_def kinv_def waits_def)
  then have "winv (place_list s) (currentThread (ker c)) (vals_of (ker c)) ((code c)(currentThread (ker c) := ops))"
    using k(3,4) by (elim winv_ready) auto
  then show ?thesis unfolding goto_def using k by (intro keptI) auto
qed

lemma kept_Yield:
  assumes c: "cok c" and cd: "code c (currentThread (ker c)) = OpYield # rest"
    and st: "Yield_body ((ker c)\<lparr>level := IntOff\<rparr>) = Inr (b, s)"
  shows "kept c [] (goto s (currentThread (ker c)) ops c)"
proof (cases "readyList (ker c)")
  case Nil
  then have "s = (ker c)\<lparr>level := IntOff\<rparr>" using st by (simp add: Yield_body_def FindNextToRun_def)
  then show ?thesis using c cd by (intro kept_local) (auto simp: cok_def)
next
  case (Cons p ps)
  let ?me = "currentThread (ker c)"
  have k: "kinv (ker c)" using c by (simp add: cok_def)
  then have nq: "?me \<notin> set (squeue (sems (ker c) j))" for j
    using place_list.simps(2) [of "ker c" j] by (metis kinv_def unqueued_def)
  obtain t where t: "threads (ker c) ?me = Some t"
    "Run p ((ker c)\<lparr>level := IntOff, threads := (threads (ker c))(?me \<mapsto> t\<lparr>tstatus := READY\<rparr>),
        readyList := ps @ [?me]\<rparr>) = Inr s"
    using st Cons by (auto simp: Yield_body_def FindNextToRun_def bindE_eq_Inr ReadyToRun_eq)
  let ?q = "(ker c)\<lparr>level := IntOff, readyList := readyList (ker c) @ [?me]\<rparr>"
  let ?s1 = "?q\<lparr>threads := (threads ?q)(?me \<mapsto> t\<lparr>tstatus := READY\<rparr>)\<rparr>"
  have pl: "place_list ?q = (place_list (ker c))(Ready := place_list (ker c) Ready @ [?me])" by simp
  have "queues_ok ?q" using k by (intro kinv_enqueue [OF k pl]) (auto simp: kinv_def queues_ok_def)
  then have q: "queues_ok ?s1" using t(1) by (intro queues_ok_thread) auto
  have r: "readyList ?s1 = p # (ps @ [?me])" using Cons by simp
  have run: "Run p (?s1\<lparr>readyList := ps @ [?me]\<rparr>) = Inr s" using t(2) by (cases "ker c") simp
  note d = dispatch_kinv [OF q r run]
  show ?thesis
    unfolding goto_def
    by (rule kept_switch [OF c d(1) d(4) _ Cons d(2,3)]) (use cd nq in \<open>auto simp: waits_def\<close>)
qed

lemma kept_Fork:
  assumes c: "cok c" and cd: "code c (currentThread (ker c)) = OpFork name pri body # rest"
    and new: "Thread_new name pri (ker c) = (p, s1)"
    and st: "Fork_body p (s1\<lparr>level := IntOff\<rparr>) = Inr s"
  shows "kept c [] \<lparr>ker = s, code = (code c)(currentThread (ker c) := ops, p := OpOn # ops')\<rparr>"
proof -
  let ?me = "currentThread (ker c)"
  have k: "kinv (ker c)" and w: "winv (place_list (ker c)) ?me (vals_of (ker c)) (code c)"
    using c by (simp_all add: cok_def)
  have p: "p = freshThread (ker c)" using new by (simp add: Thread_new_def Let_def)
  have fresh: "threads (ker c) p = None" "\<And>x. threads (ker c) x \<noteq> None \<Longrightarrow> x < p"
    using k by (auto simp: kinv_def queues_ok_def p)
  have up: "unqueued p (place_list (ker c))" "p \<noteq> ?me"
    using k fresh unfolding kinv_def queues_ok_def unqueued_def by (blast, metis)
  obtain t tm where s: "s = (ker c)\<lparr>threadMap := tm, freshThread := Suc p, level := IntOff,
      threads := (threads (ker c))(p \<mapsto> t), readyList := readyList (ker c) @ [p]\<rparr>"
    using new st by (auto simp: Thread_new_def Let_def Fork_body_def StackAllocate_def update_thread_def
        thread_at_def ReadyToRun_def setStatus_def)
  have pl: "place_list s = (place_list (ker c))(Ready := place_list (ker c) Ready @ [p])" by (simp add: s)
  have uq: "unqueued x (place_list s)" if "unqueued x (place_list (ker c))" "x \<noteq> p" for x
    unfolding pl using that by (rule unqueued_enqueue)
  have "wfq (place_list s)"
    unfolding pl using k up by (intro wfq_enqueue) (auto simp: kinv_def queues_ok_def)
  moreover have dq: "set (place_list (ker c) q) \<subseteq> dom (threads (ker c))" for q
    using k by (auto simp: kinv_def queues_ok_def)
  have "set (place_list s q) \<subseteq> insert p (dom (threads (ker c)))" for q
    unfolding pl using dq [of q] dq [of Ready] by (cases "q = Ready") (auto simp del: place_list.simps)
  moreover have th: "threads s = (threads (ker c))(p \<mapsto> t)" "freshThread s = Suc p" by (simp_all add: s)
  moreover have dt: "dom (threads s) = insert p (dom (threads (ker c)))" by (simp add: th)
  moreover have "threads s x \<noteq> None \<longrightarrow> x < freshThread s" for x
    using fresh(2) [of x] by (cases "x = p") (simp_all add: th less_SucI)
  moreover have "unqueued x (place_list s) \<and> threads s x \<noteq> None" if "threadToBeDestroyed (ker c) = Some x" for x
  proof -
    have "unqueued x (place_list (ker c))" "threads (ker c) x \<noteq> None"
      using that k by (simp_all add: kinv_def queues_ok_def)
    moreover from this fresh(1) have "x \<noteq> p" by metis
    ultimately show ?thesis using uq by (simp add: th)
  qed
  moreover have "unqueued ?me (place_list s)" using k uq up(2) by (auto simp: kinv_def)
  moreover have "threads s ?me \<noteq> None" "timer_ok s" "\<forall>i. 0 \<le> svalue (sems s i)"
    "threadToBeDestroyed s = threadToBeDestroyed (ker c)" "currentThread s = ?me" "threadToBeDestroyed s \<noteq> Some ?me"
    using k by (simp_all add: s kinv_def queues_ok_def)
  ultimately have "kinv s" unfolding kinv_def queues_ok_def dt by metis
  moreover have "winv (place_list (ker c)) ?me (vals_of (ker c)) ((code c)(?me := ops))"
    using k cd w by (intro winv_local) (auto simp: kinv_def waits_def)
  then have "winv (place_list (ker c)) ?me (vals_of (ker c)) ((code c)(?me := ops, p := OpOn # ops'))"
    using up by (rule winv_code)
  then have "winv (place_list s) ?me (vals_of (ker c)) ((code c)(?me := ops, p := OpOn # ops'))"
    unfolding pl by (rule winv_ready) auto
  ultimately show ?thesis by (intro keptI) (auto simp: s)
qed

lemma kept_Tick:
  assumes c: "cok c" and st: "tick_body timer_call Inr (ker c) = Inr s"
  shows "kinv s" "place_list s = place_list (ker c)" "currentThread s = currentThread (ker c)"
    "sems s = sems (ker c)"
proof -
  have k: "kinv (ker c)" using c by (simp add: cok_def)
  then have "tgood (ker c) (ker c)" by (simp add: tgood_def kinv_def queues_ok_def)
  with timer.tick_body_good st have g: "tgood (ker c) s" by fastforce
  then show "kinv s" using kinv_core [OF _ _ k] by (simp add: tgood_def)
  have e: "core s = core (ker c)" using g unfolding tgood_def by blast
  show "place_list s = place_list (ker c)" by (rule place_list_core [OF e])
  show "currentThread s = currentThread (ker c)" by (rule core_fields(1) [OF e])
  show "sems s = sems (ker c)" by (rule core_fields(2) [OF e])
qed

lemma kstep_kept:
  assumes c: "cok c" and st: "kstep c = Inr (ev, c')"
  shows "kept c ev c'"
proof -
  let ?me = "currentThread (ker c)"
  obtain op rest where cd: "code c ?me = op # rest" using st by (cases "code c ?me") (auto simp: kstep_def kexec_def Let_def)
  have k: "kinv (ker c)" using c by (simp add: cok_def)
  note loc = kept_local [OF c cd]
  show ?thesis
  proof (cases op)
    case (OpPwait i)
    then show ?thesis
      using st cd kept_Pwait [OF c, of i rest 1] by (auto simp: kstep_def kexec_def Let_def bindE_eq_Inr split: if_splits)
  next
    case (OpV i)
    then show ?thesis
      using st cd kept_V [OF c, of i rest] by (auto simp: kstep_def kexec_def Let_def bindE_eq_Inr)
  next
    case OpTick
    then obtain s where s: "tick_body timer_call Inr (ker c) = Inr s"
      using st cd by (auto simp: kstep_def kexec_def Let_def bindE_eq_Inr)
    note t = kept_Tick [OF c s]
    show ?thesis using st cd s OpTick t by (auto simp: kstep_def kexec_def Let_def intro!: loc split: if_splits)
  next
    case OpYield
    then show ?thesis
      using st cd kept_Yield [OF c, of rest] by (auto simp: kstep_def kexec_def Let_def bindE_eq_Inr)
  next
    case (OpWaitBody cv)
    then show ?thesis
      using st cd kept_Wait [OF c, of cv rest 1] by (auto simp: kstep_def kexec_def Let_def bindE_eq_Inr)
  next
    case (OpSignal cv)
    then obtain s where s: "Signal_body cv ((ker c)\<lparr>level := IntOff\<rparr>) = Inr s" "ev = []"
      "c' = goto s ?me (restore (level (ker c)) @ rest) c"
      using st cd by (auto simp: kstep_def kexec_def Let_def bindE_eq_Inr)
    have "kinv ((ker c)\<lparr>level := IntOff\<rparr>)" using k by simp
    then have "kinv s \<and> currentThread s = ?me \<and> sems s = sems (ker c) \<and> set (readyList (ker c)) \<subseteq> set (readyList s)"
      using s(1) Signal_wake [of "(ker c)\<lparr>level := IntOff\<rparr>" cv]
      by (auto simp: Signal_body_def ReadyToRun_eq split: list.splits)
    then show ?thesis using kept_wake [OF c cd] OpSignal s by simp
  next
    case (OpBroadcast cv)
    then obtain s where s: "Broadcast cv (ker c) = Inr s" "ev = []" "c' = goto s ?me rest c"
      using st cd by (auto simp: kstep_def kexec_def Let_def bindE_eq_Inr)
    from Broadcast_wake [OF k refl, of cv s] s(1) have
      "kinv s" "place_list s = (place_list (ker c))(CondQ cv := [], Ready := readyList (ker c) @ conds (ker c) cv)"
      "currentThread s = ?me" "sems s = sems (ker c)" by (simp_all add: Broadcast_def)
    moreover from this(2) have "readyList s = readyList (ker c) @ conds (ker c) cv"
      by (metis fun_upd_same place_list.simps(1))
    ultimately show ?thesis using kept_wake [OF c cd] OpBroadcast s by simp
  next
    case (OpFork name pri body)
    then show ?thesis
      using st cd kept_Fork [OF c, of name pri body rest]
      by (auto simp: kstep_def kexec_def Let_def bindE_eq_Inr goto_def split: prod.splits)
  next
    case OpFinish
    then show ?thesis
      using st cd kept_Finish [OF c, of rest 1] by (auto simp: kstep_def kexec_def Let_def bindE_eq_Inr)
  qed (use st cd k in \<open>auto simp: kstep_def kexec_def Let_def ASSERT_eq_Inr set_holder_def split: if_splits intro!: loc\<close>)
qed

section \<open>Reachable configurations\<close>

lemma reach_ok:
  assumes "reach c0 tr c" "cok c0"
  shows "cok c" "vals_of (ker c) i = vals_of (ker c0) i + Vs i tr - Ps i tr"
  using assms(1)
proof (induction rule: reach.induct)
  case start
  {
    case 1
    show ?case by (rule assms(2))
  next
    case 2
    show ?case by simp
  }
next
  case (step tr c ev c')
  from kstep_kept [OF step.IH(1) step.hyps(2)] have "kept c ev c'" .
  then show "cok c'" "vals_of (ker c') i = vals_of (ker c0) i + Vs i (tr @ ev) - Ps i (tr @ ev)"
    using step.IH(2) by (simp_all add: kept_def)
qed

lemma reach_trans:
  assumes "reach c1 tr2 c2" "reach c0 tr1 c1"
  shows "reach c0 (tr1 @ tr2) c2"
  using assms
proof (induction rule: reach.induct)
  case (step tr c ev c')
  then have "reach c0 ((tr1 @ tr) @ ev) c'" by (blast intro: reach.step)
  then show ?case by simp
qed simp

lemma krun_reach: "krun n c = Inr (tr, c') \<Longrightarrow> reach c tr c'"
proof (induction n arbitrary: c tr)
  case (Suc n)
  then obtain ev c1 tr' where s: "kstep c = Inr (ev, c1)" "krun n c1 = Inr (tr', c')" "tr = ev @ tr'"
    by (auto simp: bindE_eq_Inr)
  have "reach c ([] @ ev) c1" using reach.step [OF reach.start s(1)] .
  with Suc.IH [OF s(2)] show ?case using reach_trans s(3) by simp
qed (simp add: reach.start)

lemma boot_ok:
  assumes "\<And>n. 0 \<le> rnd n" "\<And>i. ss i = Semaphore_new (v i)" "\<And>i. 0 \<le> v i"
  obtains c0 where "boot rnd ss ls prog = Inr c0" "cok c0" "vals_of (ker c0) = v"
proof -
  define w where "w = TimeOfNextInterrupt True (rnd 0)"
  have w: "0 < w" using TimeOfNextInterrupt_pos [OF assms(1) [of 0]] by (simp add: w_def)
  obtain s t tm where s: "Initialize rnd ss ls = Inr s"
    "s = \<lparr>level = IntOff, pending = [(w, PendingInterrupt_new TimerHandler 0 w TimerInt)], inHandler = False,
       yieldOnReturn = False, istatus = SystemMode, stats = Statistics_new, threads = (\<lambda>_. None)(0 \<mapsto> t),
       freshThread = 1, threadMap = tm, currentThread = 0, threadToBeDestroyed = None,
       readyList = [], blockedList = [], sems = ss, locks = ls, conds = (\<lambda>_. []), randoms = (\<lambda>n. rnd (Suc n))\<rparr>"
    using w by (auto simp: Initialize_def next_random_def Timer_new_def Schedule_def Thread_new_def setStatus_def
        update_thread_def thread_at_def Let_def w_def Statistics_new_def)
  have pl: "place_list s q = []" for q using assms(2) by (cases q) (simp_all add: s(2) Semaphore_new_def)
  have "kinv s"
    unfolding kinv_def queues_ok_def wfq_def unqueued_def pl
    using assms by (simp add: s(2) Semaphore_new_def timer_ok_def PendingInterrupt_new_def)
  moreover have "vals_of s = v" using assms(2) by (simp add: s(2) Semaphore_new_def)
  moreover have "winv (place_list s) me u cd" for me u cd unfolding winv_def pl by simp
  ultimately show thesis
    using s(1) by (intro that [of "\<lparr>ker = s, code = (\<lambda>_. [])(currentThread s := OpOn # prog @ [OpFinish])\<rparr>"])
      (simp_all add: boot_def cok_def)
qed

lemma boot_start:
  assumes "boot rnd (\<lambda>i. Semaphore_new (v i)) ls prog = Inr c0" "\<forall>n. 0 \<le> rnd n" "\<forall>i. 0 \<le> v i"
  shows "cok c0" "vals_of (ker c0) = v"
proof -
  obtain c1 where "boot rnd (\<lambda>i. Semaphore_new (v i)) ls prog = Inr c1" "cok c1" "vals_of (ker c1) = v"
    using boot_ok [of rnd "\<lambda>i. Semaphore_new (v i)" v] assms(2,3) by blast
  with assms(1) show "cok c0" "vals_of (ker c0) = v" by simp_all
qed

text \<open>The units of semaphore \<open>i\<close> that thread \<open>p\<close> has taken and not given back.\<close>

definition units :: "nat \<Rightarrow> nat \<Rightarrow> event list \<Rightarrow> int" where
  "units p i tr = int (count_list tr (EvP p i)) - int (count_list tr (EvV p i))"

fun ev_thread :: "event \<Rightarrow> nat" where
  "ev_thread (EvP p i) = p"
| "ev_thread (EvV p i) = p"

lemma sum_units:
  assumes "finite S" "ev_thread ` set tr \<subseteq> S"
  shows "(\<Sum>p\<in>S. units p i tr) = Ps i tr - Vs i tr"
  using assms(2)
proof (induction tr)
  case Nil
  then show ?case by (simp add: units_def)
next
  case (Cons e tr)
  have u: "units p i (e # tr) = units p i tr + (if e = EvP p i then 1 else 0) - (if e = EvV p i then 1 else 0)" for p
    by (simp add: units_def)
  have pv: "Ps i (e # tr) = Ps i [e] + Ps i tr" "Vs i (e # tr) = Vs i [e] + Vs i tr"
    using events_simps(3,4) [of i "[e]" tr] by simp_all
  have "(\<Sum>p\<in>S. units p i (e # tr)) = (\<Sum>p\<in>S. units p i tr) +
      (\<Sum>p\<in>S. if e = EvP p i then 1 else 0) - (\<Sum>p\<in>S. if e = EvV p i then 1 else 0)"
    unfolding u by (simp add: sum.distrib sum_subtractf)
  also have "(\<Sum>p\<in>S. if e = EvP p i then 1 else 0) = Ps i [e]"
    using Cons.prems assms(1) by (cases e) (auto simp: sum.delta)
  also have "(\<Sum>p\<in>S. if e = EvV p i then 1 else 0) = Vs i [e]"
    using Cons.prems assms(1) by (cases e) (auto simp: sum.delta)
  finally show ?case using Cons pv by simp
qed

section \<open>Executions that are computed\<close>

text \<open>
  Start-up with a timer that fires at every tick, all semaphores at one and all
  locks free; \<open>start\<close> is the resulting configuration.
\<close>

definition free_locks :: "nat \<Rightarrow> Lock" where
  "free_locks l = \<lparr>lsem = l, holder = None\<rparr>"

definition start :: "bool list \<Rightarrow> op list \<Rightarrow> conf" where
  "start tm prog =
    \<lparr>ker = \<lparr>level = IntOff, pending = [(10, PendingInterrupt_new TimerHandler 0 10 TimerInt)], inHandler = False,
       yieldOnReturn = False, istatus = SystemMode, stats = Statistics_new,
       threads = (\<lambda>_. None)(0 \<mapsto> \<lparr>tid = 0, uid = 1, priority = 1000, timeSlice = 0, hasStack = False,
         fencepost = 0, tstatus = RUNNING, tname = ''main'', started = True\<rparr>),
       freshThread = 1, threadMap = True # False # False # tm, currentThread = 0, threadToBeDestroyed = None,
       readyList = [], blockedList = [], sems = (\<lambda>_. Semaphore_new 1), locks = free_locks,
       conds = (\<lambda>_. []), randoms = (\<lambda>n. 9)\<rparr>,
     code = (\<lambda>_. [])(0 := OpOn # prog @ [OpFinish])\<rparr>"

lemma replicate_MaxThreads: "\<exists>tm. replicate MaxThreads False = False # False # False # tm"
proof -
  have "MaxThreads = Suc (Suc (Suc 125))" by simp
  then show ?thesis by (metis replicate_Suc)
qed

lemma boot_start_conf: "\<exists>tm. boot (\<lambda>_. 9) (\<lambda>_. Semaphore_new 1) free_locks prog = Inr (start tm prog)"
proof -
  obtain tm where tm: "replicate MaxThreads False = False # False # False # tm"
    using replicate_MaxThreads by blast
  have "boot (\<lambda>_. 9) (\<lambda>_. Semaphore_new 1) free_locks prog = Inr (start tm prog)"
    unfolding boot_def Initialize_def tm
    by (simp add: next_random_def Timer_new_def Schedule_def TimeOfNextInterrupt_def smod_nonneg Thread_new_def
        setStatus_def update_thread_def thread_at_def start_def Statistics_new_def)
  then show ?thesis ..
qed

definition run_satisfies :: "nat \<Rightarrow> op list \<Rightarrow> (event list \<Rightarrow> conf \<Rightarrow> bool) \<Rightarrow> bool" where
  "run_satisfies n prog Q \<longleftrightarrow>
    (\<forall>tm. case krun n (start tm prog) of Inl e \<Rightarrow> False | Inr (tr, c) \<Rightarrow> Q tr c)"

lemma run_satisfiesD:
  assumes "run_satisfies n prog Q"
  obtains c0 tr c where "boot (\<lambda>_. 9) (\<lambda>_. Semaphore_new 1) free_locks prog = Inr c0" "reach c0 tr c" "Q tr c"
proof -
  obtain tm where b: "boot (\<lambda>_. 9) (\<lambda>_. Semaphore_new 1) free_locks prog = Inr (start tm prog)"
    using boot_start_conf by blast
  obtain tr c where "krun n (start tm prog) = Inr (tr, c)" "Q tr c"
    using assms unfolding run_satisfies_def by (metis (no_types, lifting) case_prodE old.sum.exhaust old.sum.simps(5,6))
  then show thesis using that [OF b krun_reach] by blast
qed

definition halts :: "conf \<Rightarrow> bool" where
  "halts c = (case kstep c of Inl e \<Rightarrow> e = Halted | Inr x \<Rightarrow> False)"

lemma krun_Suc:
  "kstep c = Inr (ev, c') \<Longrightarrow> krun (Suc n) c = bindE (krun n c') (\<lambda>(tr, c''). Inr (ev @ tr, c''))"
  by simp

lemma kstep_eq: "code c (currentThread (ker c)) = op # rest \<Longrightarrow> kstep c = kexec op rest c"
  by (simp add: kstep_def)

lemmas kernel_eval = start_def kstep_eq kexec_def goto_def restore_def tick_body_def FireDue_def due_now_def
  CheckIfDue_def fire_def timer_call_def next_random_def TimerExpired_def TimerInterruptHandler_def Schedule_def
  TimeOfNextInterrupt_def ChangeLevel_def advance_tick_def thread_at_def update_thread_def YieldOnReturn_def
  P_try_def V_body_def set_sem_def Semaphore_new_def ReadyToRun_def setStatus_def Run_def CheckOverflow_def
  Run_resume_def Yield_body_def FindNextToRun_def isHeldByCurrentThread_def set_holder_def Thread_new_def
  Thread_delete_def Fork_body_def StackAllocate_def Sleep_def Sleep_wait.simps Wait_body_def Signal_body_def
  Finish_def Idle_def Halt_def smod_nonneg free_locks_def PendingInterrupt_new_def Statistics_new_def
  units_def halts_def run_satisfies_def krun_Suc eval_nat_numeral

text \<open>
  Two threads use lock 0; the timer preempts the first one inside \<^verbatim>\<open>Release\<close>, and
  the second one while it holds the lock.
\<close>

definition race_program :: "op list" where
  "race_program = [OpFork ''A'' 1 [OpAcquire 0, OpTick, OpTick, OpTick, OpRelease 0],
     OpAcquire 0, OpTick, OpRelease 0, OpAcquire 0]"

lemma race_run:
  "run_satisfies 40 race_program (\<lambda>tr c. currentThread (ker c) = 1 \<and> code c 1 = [OpFinish] \<and>
     units 1 0 tr = 1 \<and> squeue (sems (ker c) 0) = [0] \<and> halts c)"
  by (simp add: race_program_def kernel_eval del: krun.simps(2) if_split)

text \<open>The main thread waits on condition 0; the timer preempts it inside \<^verbatim>\<open>Wait\<close>.\<close>

definition wait_program :: "op list" where
  "wait_program = [OpFork ''B'' 1 [OpAcquire 0, OpSignal 0, OpRelease 0], OpAcquire 0, OpTick, OpWait 0 0, OpRelease 0]"

lemma wait_run:
  "run_satisfies 39 wait_program (\<lambda>tr c. currentThread (ker c) = 0 \<and> threads (ker c) 1 = None \<and>
     code c 0 = [OpWaitBody 0, OpAcquire 0, OpRelease 0, OpFinish] \<and> code c 1 = [] \<and> halts c)"
  by (simp add: wait_program_def kernel_eval del: krun.simps(2) if_split)

text \<open>The main thread forks two threads and finishes before they run.\<close>

definition leak_program :: "op list" where
  "leak_program = [OpFork ''A'' 1 [], OpFork ''B'' 1 []]"

lemma leak_run:
  "run_satisfies 12 leak_program (\<lambda>tr c. code c 0 = [] \<and> threads (ker c) 0 \<noteq> None \<and>
     threadToBeDestroyed (ker c) = Some 1 \<and> currentThread (ker c) = 2)"
  by (simp add: leak_program_def kernel_eval del: krun.simps(2) if_split)

text \<open>Two threads are queued on semaphore 0 when the main thread gives it back.\<close>

definition queue_program :: "op list" where
  "queue_program = [OpP 0, OpFork ''A'' 1 [OpP 0], OpFork ''B'' 1 [OpP 0], OpYield, OpV 0]"

lemma queue_run:
  "run_satisfies 28 queue_program (\<lambda>tr c. squeue (sems (ker c) 0) = [2] \<and> svalue (sems (ker c) 0) = 1)"
  by (simp add: queue_program_def kernel_eval del: krun.simps(2) if_split)

lemma first_run: "run_satisfies 8 race_program (\<lambda>tr c. tr = [EvP 0 0])"
  by (simp add: race_program_def kernel_eval del: krun.simps(2) if_split)

section \<open>Properties\<close>

text \<open>
  C1: the counting law of semaphores.  In every configuration reached from
  start-up, whatever the threads do and however the timer preempts them, the
  value of each semaphore is its initial value plus the completed \<^verbatim>\<open>V\<close> operations
  minus the completed \<^verbatim>\<open>P\<close> operations, and it is never negative.
\<close>

theorem semaphore_counts:
  assumes "boot rnd (\<lambda>i. Semaphore_new (v i)) ls prog = Inr c0" "\<forall>n. 0 \<le> rnd n" "\<forall>i. 0 \<le> v i"
    and "reach c0 tr c"
  shows "svalue (sems (ker c) i) = v i + Vs i tr - Ps i tr \<and> 0 \<le> svalue (sems (ker c) i)"
proof -
  note c0 = boot_start [OF assms(1-3)]
  show ?thesis
    using reach_ok [OF assms(4) c0(1)] c0(2) by (auto simp: cok_def kinv_def queues_ok_def)
qed

theorem semaphore_counts_witness:
  "\<exists>c0 tr c. boot (\<lambda>_. 9) (\<lambda>_. Semaphore_new 1) free_locks queue_program = Inr c0 \<and> reach c0 tr c \<and>
     svalue (sems (ker c) 0) = 1 \<and> Vs 0 tr = Ps 0 tr"
proof -
  obtain c0 tr c where b: "boot (\<lambda>_. 9) (\<lambda>_. Semaphore_new 1) free_locks queue_program = Inr c0" "reach c0 tr c"
    and v: "svalue (sems (ker c) 0) = 1"
    by (rule run_satisfiesD [OF queue_run]) blast
  have "Vs 0 tr = Ps 0 tr" using semaphore_counts [OF b(1) _ _ b(2), of 0] v by simp
  then show ?thesis using b v by blast
qed

text \<open>
  C2: mutual exclusion.  When a semaphore starts at one and no thread has given
  it back more often than it has taken it, at most one thread is between its
  \<^verbatim>\<open>P\<close> and its \<^verbatim>\<open>V\<close>.
\<close>

theorem mutual_exclusion:
  assumes "boot rnd (\<lambda>i. Semaphore_new (v i)) ls prog = Inr c0" "\<forall>n. 0 \<le> rnd n" "\<forall>i. 0 \<le> v i"
    and "reach c0 tr c" "v i = 1" "\<forall>p. 0 \<le> units p i tr" "0 < units p i tr" "0 < units q i tr"
  shows "p = q"
proof (rule ccontr)
  assume "p \<noteq> q"
  note c0 = boot_start [OF assms(1-3)]
  let ?S = "insert p (insert q (ev_thread ` set tr))"
  have "units p i tr + units q i tr = (\<Sum>x\<in>{p, q}. units x i tr)" using \<open>p \<noteq> q\<close> by simp
  also have "\<dots> \<le> (\<Sum>x\<in>?S. units x i tr)" using assms(6) by (intro sum_mono2) auto
  also have "\<dots> = Ps i tr - Vs i tr" by (rule sum_units) auto
  also have "\<dots> = 1 - svalue (sems (ker c) i)"
    using reach_ok(2) [OF assms(4) c0(1), of i] c0(2) assms(5) by auto
  also have "\<dots> \<le> 1"
    using reach_ok(1) [OF assms(4) c0(1)] by (simp add: cok_def kinv_def queues_ok_def)
  finally show False using assms(7,8) by linarith
qed

theorem mutual_exclusion_witness:
  "\<exists>c0 tr c. boot (\<lambda>_. 9) (\<lambda>_. Semaphore_new 1) free_locks race_program = Inr c0 \<and> reach c0 tr c \<and>
     {q. 0 < units q 0 tr} = {0}"
proof -
  obtain c0 tr c where b: "boot (\<lambda>_. 9) (\<lambda>_. Semaphore_new 1) free_locks race_program = Inr c0" "reach c0 tr c"
    and tr: "tr = [EvP 0 0]"
    by (rule run_satisfiesD [OF first_run]) blast
  have u: "\<forall>p. 0 \<le> units p 0 tr" "0 < units 0 0 tr" by (simp_all add: tr units_def)
  have "q = 0" if "0 < units q 0 tr" for q
    using mutual_exclusion [OF b(1) _ _ b(2) _ u that] by simp
  then have "{q. 0 < units q 0 tr} = {0}" using u(2) by blast
  then show ?thesis using b by blast
qed

text \<open>
  C3: no wake-up is lost.  Whenever a thread is queued on a semaphore whose value
  is positive, some running or ready thread is inside the loop of \<^verbatim>\<open>P\<close> on that
  semaphore and will test the value.
\<close>

theorem no_lost_wakeup:
  assumes "boot rnd (\<lambda>i. Semaphore_new (v i)) ls prog = Inr c0" "\<forall>n. 0 \<le> rnd n" "\<forall>i. 0 \<le> v i"
    and "reach c0 tr c" "squeue (sems (ker c) i) \<noteq> []" "0 < svalue (sems (ker c) i)"
  shows "\<exists>p rest. (p = currentThread (ker c) \<or> p \<in> set (readyList (ker c))) \<and> code c p = OpPwait i # rest"
proof -
  note c0 = boot_start [OF assms(1-3)]
  have "winv (place_list (ker c)) (currentThread (ker c)) (vals_of (ker c)) (code c)"
    using reach_ok(1) [OF assms(4) c0(1)] by (simp add: cok_def)
  from winvD(2) [OF this, of i] assms(5,6)
  have "0 < card (cand (place_list (ker c)) (currentThread (ker c)) (code c) i)" by simp
  then obtain p where "p \<in> cand (place_list (ker c)) (currentThread (ker c)) (code c) i"
    by (metis card.empty ex_in_conv less_irrefl)
  then show ?thesis by (auto simp: cand_def waits_def)
qed

theorem no_lost_wakeup_witness:
  "\<exists>c0 tr c p rest. boot (\<lambda>_. 9) (\<lambda>_. Semaphore_new 1) free_locks queue_program = Inr c0 \<and> reach c0 tr c \<and>
     squeue (sems (ker c) 0) = [2] \<and> (p = currentThread (ker c) \<or> p \<in> set (readyList (ker c))) \<and>
     code c p = OpPwait 0 # rest"
proof -
  obtain c0 tr c where b: "boot (\<lambda>_. 9) (\<lambda>_. Semaphore_new 1) free_locks queue_program = Inr c0" "reach c0 tr c"
    and q: "squeue (sems (ker c) 0) = [2]" "svalue (sems (ker c) 0) = 1"
    by (rule run_satisfiesD [OF queue_run]) blast
  obtain p rest where "(p = currentThread (ker c) \<or> p \<in> set (readyList (ker c))) \<and> code c p = OpPwait 0 # rest"
    using no_lost_wakeup [OF b(1) _ _ b(2), of 0] q by auto
  then show ?thesis using b q by blast
qed





text \<open>
  Finished threads can leak.  A thread that runs for the first time starts in
  \<^verbatim>\<open>ThreadRoot\<close>, not in \<^verbatim>\<open>Scheduler::Run\<close>, so it does not delete the thread that
  finished before it; when it finishes itself, \<^verbatim>\<open>threadToBeDestroyed\<close> is overwritten.
  In this execution thread 0 has finished, is still allocated, and is no longer
  the thread to be destroyed.
\<close>

theorem Finish_leaks_thread:
  "\<exists>c0 tr c. boot (\<lambda>_. 9) (\<lambda>_. Semaphore_new 1) free_locks leak_program = Inr c0 \<and> reach c0 tr c \<and>
     code c 0 = [] \<and> threads (ker c) 0 \<noteq> None \<and> currentThread (ker c) = 2 \<and>
     threadToBeDestroyed (ker c) = Some 1"
  by (rule run_satisfiesD [OF leak_run]) blast



end
