(* ===== verification/Disk_Device.thy ===== *)
theory Disk_Device
  imports Threads Unix_File
begin

text \<open>
  The simulated disk (\<^verbatim>\<open>machine/disk.cc\<close>) and the synchronous disk on top of it
  (\<^verbatim>\<open>filesys/synchdisk.cc\<close>).

  \<open>disksys\<close> extends the kernel state with the members of class \<^verbatim>\<open>Disk\<close>; the UNIX file
  that stores the sectors is a \<open>unix_file\<close>.  A request does its transfer at once and
  schedules the interrupt \<open>DiskDone\<close>; the requesting thread then waits on a
  semaphore, the kernel idles until the interrupt is due, and the handler wakes
  the thread.  The semaphores of \<^verbatim>\<open>SynchDisk\<close> are at the addresses \<open>doneSem\<close>,
  \<open>lockSem\<close>, \<open>arraySem\<close> and \<open>sectorSem i\<close>, its lock at \<open>diskLock\<close>.
\<close>

section \<open>The disk\<close>

record disksys = kernel +
  dfile :: unix_file
  lastSector :: int
  bufferInit :: int
  dactive :: bool

abbreviation (input) SectorSize :: int where "SectorSize \<equiv> 128"
abbreviation (input) SectorsPerTrack :: int where "SectorsPerTrack \<equiv> 32"
abbreviation (input) NumSectors :: int where "NumSectors \<equiv> 1024"
abbreviation (input) MagicNumber :: int where "MagicNumber \<equiv> 0x456789ab"
abbreviation (input) MagicSize :: int where "MagicSize \<equiv> 4"
abbreviation (input) DiskSize :: int where "DiskSize \<equiv> MagicSize + NumSectors * SectorSize"
abbreviation (input) RotationTime :: int where "RotationTime \<equiv> 500"
abbreviation (input) SeekTime :: int where "SeekTime \<equiv> 500"

abbreviation (input) doneSem :: nat where "doneSem \<equiv> 0"
abbreviation (input) lockSem :: nat where "lockSem \<equiv> 1"
abbreviation (input) arraySem :: nat where "arraySem \<equiv> 2"
abbreviation (input) sectorSem :: "nat \<Rightarrow> nat" where "sectorSem i \<equiv> 3 + i"
abbreviation (input) diskLock :: nat where "diskLock \<equiv> 0"

type_synonym dtrans = "disksys \<Rightarrow> disksys result"

text \<open>
  The constructor's treatment of the UNIX file: an existing file must start with
  the magic number; a new one is created with its full size, the hole in it reads
  as zeros.
\<close>

definition Disk_open :: "unix_file option \<Rightarrow> unix_file result" where
  "Disk_open existing =
    (case existing of
       Some f \<Rightarrow>
         bindE (Read 0 (nat MagicSize) f) (\<lambda>bytes.
           ASSERT (bytes_word bytes = word_of_int MagicNumber) (Inr f))
     | None \<Rightarrow>
         (let f = WriteFile 0 (int_bytes MagicNumber) \<lparr>fbytes = (\<lambda>_. 0), fsize = 0\<rparr> in
          bindE (Lseek (DiskSize - 4)) (\<lambda>pos. Inr (WriteFile pos (int_bytes 0) f))))"

definition TimeToSeek :: "int \<Rightarrow> disksys \<Rightarrow> int \<times> int" where
  "TimeToSeek newSector s =
    (let newTrack = newSector sdiv SectorsPerTrack;
         oldTrack = lastSector s sdiv SectorsPerTrack;
         seek = abs (newTrack - oldTrack) * SeekTime;
         over = (totalTicks (stats s) + seek) smod RotationTime;
         rotation = (if over > 0 then RotationTime - over else 0)
     in (seek, rotation))"

definition ModuloDiff :: "int \<Rightarrow> int \<Rightarrow> int" where
  "ModuloDiff to from =
    (let toOffset = to smod SectorsPerTrack; fromOffset = from smod SectorsPerTrack
     in ((toOffset - fromOffset) + SectorsPerTrack) smod SectorsPerTrack)"

definition ComputeLatency :: "int \<Rightarrow> bool \<Rightarrow> disksys \<Rightarrow> int" where
  "ComputeLatency newSector writing s =
    (let (seek, rotation) = TimeToSeek newSector s;
         timeAfter = totalTicks (stats s) + seek + rotation
     in if \<not> writing \<and> seek = 0 \<and>
           (timeAfter - bufferInit s) sdiv RotationTime > ModuloDiff newSector (bufferInit s sdiv RotationTime)
        then RotationTime
        else seek + (rotation + ModuloDiff newSector (timeAfter sdiv RotationTime) * RotationTime) + RotationTime)"

definition UpdateLast :: "int \<Rightarrow> disksys \<Rightarrow> disksys" where
  "UpdateLast newSector s =
    (let (seek, rotate) = TimeToSeek newSector s;
         s = (if seek \<noteq> 0 then s\<lparr>bufferInit := totalTicks (stats s) + seek + rotate\<rparr> else s)
     in s\<lparr>lastSector := newSector\<rparr>)"

definition ReadRequest :: "int \<Rightarrow> disksys \<Rightarrow> (byte list \<times> disksys) result" where
  "ReadRequest sectorNumber s =
    (let ticks = ComputeLatency sectorNumber False s in
     ASSERT (\<not> dactive s)
    (ASSERT (0 \<le> sectorNumber \<and> sectorNumber < NumSectors)
    (bindE (Lseek (SectorSize * sectorNumber + MagicSize)) (\<lambda>pos.
     bindE (Read pos (nat SectorSize) (dfile s)) (\<lambda>data.
       let s = UpdateLast sectorNumber (s\<lparr>dactive := True\<rparr>);
           s = s\<lparr>stats := (stats s)\<lparr>numDiskReads := numDiskReads (stats s) + 1\<rparr>\<rparr>
       in bindE (Schedule DiskDone 0 ticks DiskInt s) (\<lambda>s. Inr (data, s)))))))"

definition WriteRequest :: "int \<Rightarrow> byte list \<Rightarrow> dtrans" where
  "WriteRequest sectorNumber data s =
    (let ticks = ComputeLatency sectorNumber True s in
     ASSERT (\<not> dactive s)
    (ASSERT (0 \<le> sectorNumber \<and> sectorNumber < NumSectors)
    (bindE (Lseek (SectorSize * sectorNumber + MagicSize)) (\<lambda>pos.
     requireE OutOfBounds (nat SectorSize \<le> length data)
      (let s = s\<lparr>dfile := WriteFile pos (take (nat SectorSize) data) (dfile s)\<rparr>;
           s = UpdateLast sectorNumber (s\<lparr>dactive := True\<rparr>);
           s = s\<lparr>stats := (stats s)\<lparr>numDiskWrites := numDiskWrites (stats s) + 1\<rparr>\<rparr>
       in Schedule DiskDone 0 ticks DiskInt s)))))"

section \<open>The synchronous disk\<close>

text \<open>
  \<open>RequestDone\<close> runs inside the interrupt handler, where \<^verbatim>\<open>SetLevel\<close> refuses to enable
  interrupts, so the handlers a tick would run are irrelevant to its \<^verbatim>\<open>V\<close>.
\<close>

definition RequestDone :: dtrans where
  "RequestDone s = Semaphore_V (\<lambda>h a s. Inl WildPointer) Inr 0 doneSem s"

definition HandleInterrupt :: dtrans where
  "HandleInterrupt s = RequestDone (s\<lparr>dactive := False\<rparr>)"

definition disk_call :: "handler \<Rightarrow> int \<Rightarrow> dtrans" where
  "disk_call h a s = (if h = DiskDone then HandleInterrupt s else Inl WildPointer)"

text \<open>The requesting thread waits for one interrupt; the bound 2 leaves room for it.\<close>

abbreviation (input) wait_bound :: nat where "wait_bound \<equiv> 2"

definition SynchDisk_new :: "unix_file option \<Rightarrow> dtrans" where
  "SynchDisk_new existing s =
     bindE (Disk_open existing) (\<lambda>f. Inr (s\<lparr>sems := (\<lambda>i. if i = doneSem then Semaphore_new 0 else Semaphore_new 1),
       locks := (locks s)(diskLock := \<lparr>lsem = lockSem, holder = None\<rparr>),
       dfile := f, lastSector := 0, bufferInit := 0, dactive := False\<rparr>))"

definition ReadSector :: "int \<Rightarrow> disksys \<Rightarrow> (byte list \<times> disksys) result" where
  "ReadSector sectorNumber s =
     bindE (Lock_Acquire disk_call Inr wait_bound diskLock s) (\<lambda>s.
     bindE (ReadRequest sectorNumber s) (\<lambda>(data, s).
     bindE (Semaphore_P disk_call Inr wait_bound doneSem s) (\<lambda>s.
     bindE (Lock_Release disk_call Inr wait_bound diskLock s) (\<lambda>s. Inr (data, s)))))"

definition WriteSector :: "int \<Rightarrow> byte list \<Rightarrow> dtrans" where
  "WriteSector sectorNumber data s =
     bindE (Lock_Acquire disk_call Inr wait_bound diskLock s) (\<lambda>s.
     bindE (WriteRequest sectorNumber data s) (\<lambda>s.
     bindE (Semaphore_P disk_call Inr wait_bound doneSem s) (\<lambda>s.
     Lock_Release disk_call Inr wait_bound diskLock s)))"

definition sector_sem :: "int \<Rightarrow> nat result" where
  "sector_sem sector = requireE OutOfBounds (0 \<le> sector \<and> sector < NumSectors) (Inr (sectorSem (nat sector)))"

definition rw_P :: "int \<Rightarrow> dtrans" where
  "rw_P sector s = bindE (sector_sem sector) (\<lambda>i. Semaphore_P disk_call Inr wait_bound i s)"

definition rw_V :: "int \<Rightarrow> dtrans" where
  "rw_V sector s = bindE (sector_sem sector) (\<lambda>i. Semaphore_V disk_call Inr wait_bound i s)"

definition arr_P :: dtrans where
  "arr_P s = Semaphore_P disk_call Inr wait_bound arraySem s"

definition arr_V :: dtrans where
  "arr_V s = Semaphore_V disk_call Inr wait_bound arraySem s"

section \<open>Waiting for a request\<close>

text \<open>One tick of kernel time.\<close>

definition tick_stats :: "Statistics \<Rightarrow> Statistics" where
  "tick_stats st = st\<lparr>totalTicks := totalTicks st + SystemTick, systemTicks := systemTicks st + SystemTick\<rparr>"

lemmas wait_eval = Semaphore_P_def Semaphore_V_def SetLevel_def OneTick_def tick_body_def FireDue_def due_now_def
  CheckIfDue_def ChangeLevel_def advance_tick_def tick_stats_def P_try_def V_body_def set_sem_def Sleep_def
  Sleep_wait.simps FindNextToRun_def Idle_def fire_def disk_call_def HandleInterrupt_def RequestDone_def
  ReadyToRun_def setStatus_def update_thread_def thread_at_def Run_def Run_resume_def CheckOverflow_def eval_nat_numeral Let_def

text \<open>The semaphore is free: the value goes down and time passes.\<close>

lemma P_free:
  assumes "level s = IntOn" "pending s = []" "\<not> inHandler s" "\<not> yieldOnReturn s" "istatus s = SystemMode"
    "0 < svalue (sems s i)"
  shows "Semaphore_P call dload (Suc n) i s =
    Inr (s\<lparr>sems := (sems s)(i := (sems s i)\<lparr>svalue := svalue (sems s i) - 1\<rparr>), stats := tick_stats (stats s)\<rparr>)"
  using assms by (cases s) (simp add: wait_eval)

lemma V_free:
  assumes "level s = IntOn" "pending s = []" "\<not> inHandler s" "\<not> yieldOnReturn s" "istatus s = SystemMode"
    "squeue (sems s i) = []"
  shows "Semaphore_V call dload (Suc n) i s =
    Inr (s\<lparr>sems := (sems s)(i := (sems s i)\<lparr>svalue := svalue (sems s i) + 1\<rparr>), stats := tick_stats (stats s)\<rparr>)"
  using assms by (cases s) (simp add: wait_eval)

text \<open>
  The semaphore of the disk is zero and the completion interrupt is pending: the
  thread sleeps, the clock moves to the interrupt, the handler wakes the thread.
\<close>

definition waited :: "int \<Rightarrow> disksys \<Rightarrow> disksys" where
  "waited w s = s\<lparr>pending := [], dactive := False,
     threads := (threads s)(currentThread s := map_option (tstatus_update (\<lambda>_. RUNNING)) (threads s (currentThread s))),
     blockedList := blockedList s @ [currentThread s],
     stats := tick_stats ((stats s)\<lparr>totalTicks := w, idleTicks := idleTicks (stats s) + (w - totalTicks (stats s))\<rparr>)\<rparr>"

lemma P_wait:
  assumes "level s = IntOn" "pending s = [(w, p)]" "\<not> inHandler s" "\<not> yieldOnReturn s" "istatus s = SystemMode"
    "sems s doneSem = \<lparr>svalue = 0, squeue = []\<rparr>" "readyList s = []" "threadToBeDestroyed s = None"
    "threads s (currentThread s) = Some t" "started t" "hasStack t \<longrightarrow> fencepost t = STACK_FENCEPOST"
    "phandler p = DiskDone" "ptype p = DiskInt" "totalTicks (stats s) < w"
  shows "Semaphore_P disk_call Inr wait_bound doneSem s = Inr (waited w s)"
  using assms by (cases s) (auto simp: wait_eval waited_def fun_upd_idem)

section \<open>Latency\<close>

text \<open>The disk arm is on a track of the disk and the times are not negative.\<close>

definition arm_ok :: "disksys \<Rightarrow> bool" where
  "arm_ok s \<longleftrightarrow> 0 \<le> totalTicks (stats s) \<and> 0 \<le> lastSector s \<and> lastSector s < NumSectors \<and> 0 \<le> bufferInit s"

lemma TimeToSeek_bounds:
  assumes "arm_ok s" "0 \<le> k" "k < NumSectors" "TimeToSeek k s = (seek, rotation)"
  shows "0 \<le> seek" "seek \<le> 15500" "0 \<le> rotation" "rotation < RotationTime"
proof -
  have d: "0 \<le> x div 32" "x div 32 \<le> 31" if "0 \<le> x" "x < NumSectors" for x :: int using that by auto
  have sk: "seek = abs (k div 32 - lastSector s div 32) * 500"
    and rot: "rotation = (let over = (totalTicks (stats s) + seek) mod 500 in if over > 0 then 500 - over else 0)"
    using assms by (auto simp: TimeToSeek_def arm_ok_def Let_def sdiv_nonneg smod_nonneg)
  show "0 \<le> seek" "seek \<le> 15500"
    using d [of k] d [of "lastSector s"] assms by (auto simp: sk arm_ok_def)
  have "0 \<le> (totalTicks (stats s) + seek) mod 500" "(totalTicks (stats s) + seek) mod 500 < 500" by simp_all
  then show "0 \<le> rotation" "rotation < RotationTime" unfolding rot Let_def by (auto split: if_splits)
qed

lemma ModuloDiff_bounds:
  assumes "0 \<le> a" "0 \<le> b"
  shows "0 \<le> ModuloDiff a b" "ModuloDiff a b \<le> 31"
proof -
  have "0 \<le> a mod 32" "a mod 32 < 32" "0 \<le> b mod 32" "b mod 32 < 32" by simp_all
  then have "0 \<le> a mod 32 - b mod 32 + 32" by linarith
  then have "ModuloDiff a b = (a mod 32 - b mod 32 + 32) mod 32"
    using assms by (simp add: ModuloDiff_def smod_nonneg)
  moreover have "(a mod 32 - b mod 32 + 32) mod 32 < 32" "0 \<le> (a mod 32 - b mod 32 + 32) mod 32" by simp_all
  ultimately show "0 \<le> ModuloDiff a b" "ModuloDiff a b \<le> 31" by linarith+
qed

lemma ComputeLatency_bounds:
  assumes "arm_ok s" "0 \<le> k" "k < NumSectors"
  shows "RotationTime \<le> ComputeLatency k writing s" "ComputeLatency k writing s \<le> 31999"
proof -
  obtain seek rotation where t: "TimeToSeek k s = (seek, rotation)" by force
  note b = TimeToSeek_bounds [OF assms t]
  have "0 \<le> totalTicks (stats s) + seek + rotation" using b assms(1) by (simp add: arm_ok_def)
  then have "0 \<le> (totalTicks (stats s) + seek + rotation) sdiv 500" by (simp add: sdiv_nonneg)
  note m = ModuloDiff_bounds [OF assms(2) this]
  show "RotationTime \<le> ComputeLatency k writing s" "ComputeLatency k writing s \<le> 31999"
    using b m by (auto simp: ComputeLatency_def t Let_def)
qed

lemma UpdateLast_arm:
  assumes "arm_ok s" "0 \<le> k" "k < NumSectors"
  obtains b where "UpdateLast k s = s\<lparr>bufferInit := b, lastSector := k\<rparr>" "0 \<le> b"
proof -
  obtain seek rotation where t: "TimeToSeek k s = (seek, rotation)" by force
  note b = TimeToSeek_bounds [OF assms t]
  show thesis
  proof (cases "seek = 0")
    case True
    then show thesis using assms(1)
      by (intro that [of "bufferInit s"]) (simp_all add: UpdateLast_def t arm_ok_def)
  next
    case False
    then show thesis using b assms(1)
      by (intro that [of "totalTicks (stats s) + seek + rotation"]) (simp_all add: UpdateLast_def t arm_ok_def)
  qed
qed

section \<open>Sectors\<close>

text \<open>The contents of sector \<open>k\<close>, and the state between two disk operations of a lone thread.\<close>

definition disk_sector :: "disksys \<Rightarrow> nat \<Rightarrow> byte list" where
  "disk_sector s k = map (fbytes (dfile s)) [4 + 128 * k..<4 + 128 * k + 128]"

definition disk_idle :: "disksys \<Rightarrow> bool" where
  "disk_idle s \<longleftrightarrow> level s = IntOn \<and> pending s = [] \<and> \<not> inHandler s \<and> \<not> yieldOnReturn s \<and> istatus s = SystemMode \<and>
     readyList s = [] \<and> threadToBeDestroyed s = None \<and>
     (case threads s (currentThread s) of None \<Rightarrow> False
      | Some t \<Rightarrow> started t \<and> (hasStack t \<longrightarrow> fencepost t = STACK_FENCEPOST)) \<and>
     sems s doneSem = \<lparr>svalue = 0, squeue = []\<rparr> \<and> sems s lockSem = \<lparr>svalue = 1, squeue = []\<rparr> \<and>
     locks s diskLock = \<lparr>lsem = lockSem, holder = None\<rparr> \<and>
     \<not> dactive s \<and> fsize (dfile s) = nat DiskSize \<and> arm_ok s"

lemma sector_length [simp]: "length (disk_sector s k) = 128"
  by (simp add: disk_sector_def)

lemma tick_stats_simps [simp]:
  "totalTicks (tick_stats st) = totalTicks st + SystemTick"
  by (simp add: tick_stats_def)

lemma Acquire_idle:
  assumes "disk_idle s"
  defines "s1 \<equiv> s\<lparr>sems := (sems s)(lockSem := \<lparr>svalue = 0, squeue = []\<rparr>), stats := tick_stats (stats s),
      locks := (locks s)(diskLock := \<lparr>lsem = lockSem, holder = Some (currentThread s)\<rparr>)\<rparr>"
  shows "Lock_Acquire disk_call Inr wait_bound diskLock s = Inr s1" "arm_ok s1"
proof -
  have "Semaphore_P disk_call Inr wait_bound lockSem s =
      Inr (s\<lparr>sems := (sems s)(lockSem := \<lparr>svalue = 0, squeue = []\<rparr>), stats := tick_stats (stats s)\<rparr>)"
    using P_free [of s lockSem disk_call Inr 1] assms(1) by (simp add: disk_idle_def numeral_2_eq_2)
  then show "Lock_Acquire disk_call Inr wait_bound diskLock s = Inr s1"
    using assms(1) by (simp add: Lock_Acquire_def set_holder_def s1_def disk_idle_def)
  show "arm_ok s1" using assms(1) by (simp add: s1_def disk_idle_def arm_ok_def)
qed

text \<open>
  After a request: the interrupt is pending, the thread waits for it and releases
  the lock.
\<close>

lemma complete_request:
  fixes s :: disksys
  assumes i: "disk_idle s" and st: "totalTicks st < w" "0 \<le> totalTicks st"
    and b: "0 \<le> b" "0 \<le> k" "k < NumSectors" and f: "fsize f = nat DiskSize"
    and p: "phandler p = DiskDone" "ptype p = DiskInt"
  defines "s2 \<equiv> s\<lparr>sems := (sems s)(lockSem := \<lparr>svalue = 0, squeue = []\<rparr>),
      locks := (locks s)(diskLock := \<lparr>lsem = lockSem, holder = Some (currentThread s)\<rparr>),
      dfile := f, dactive := True, bufferInit := b, lastSector := k, stats := st, pending := [(w, p)]\<rparr>"
  shows "\<exists>s'. bindE (Semaphore_P disk_call Inr wait_bound doneSem s2) (Lock_Release disk_call Inr wait_bound diskLock) = Inr s' \<and>
    disk_idle s' \<and> dfile s' = f \<and> sems s' = sems s \<and> currentThread s' = currentThread s"
proof -
  obtain t where t: "threads s (currentThread s) = Some t" "started t" "hasStack t \<longrightarrow> fencepost t = STACK_FENCEPOST"
    using i by (auto simp: disk_idle_def split: option.splits)
  have w: "Semaphore_P disk_call Inr wait_bound doneSem s2 = Inr (waited w s2)"
    using i t st p by (intro P_wait [where t = t and p = p]) (auto simp: disk_idle_def s2_def)
  define s3 where "s3 = waited w s2"
  have idle3: "level s3 = IntOn" "pending s3 = []" "\<not> inHandler s3" "\<not> yieldOnReturn s3" "istatus s3 = SystemMode"
    "sems s3 = (sems s)(lockSem := \<lparr>svalue = 0, squeue = []\<rparr>)" "currentThread s3 = currentThread s"
    "locks s3 = (locks s)(diskLock := \<lparr>lsem = lockSem, holder = Some (currentThread s)\<rparr>)"
    using i by (simp_all add: s3_def waited_def s2_def disk_idle_def)
  have v: "Semaphore_V disk_call Inr wait_bound lockSem s3 =
      Inr (s3\<lparr>sems := (sems s3)(lockSem := \<lparr>svalue = 1, squeue = []\<rparr>), stats := tick_stats (stats s3)\<rparr>)"
    using V_free [of s3 lockSem disk_call Inr 1] idle3 by (simp add: numeral_2_eq_2)
  define s4 where "s4 = set_holder diskLock None (s3\<lparr>sems := (sems s3)(lockSem := \<lparr>svalue = 1, squeue = []\<rparr>), stats := tick_stats (stats s3)\<rparr>)"
  have "Lock_Release disk_call Inr wait_bound diskLock s3 = Inr s4"
    using v by (simp add: Lock_Release_def isHeldByCurrentThread_def idle3 s4_def)
  moreover have "sems s4 = sems s"
    using i by (auto simp: s4_def set_holder_def idle3 disk_idle_def)
  moreover have "disk_idle s4"
    using i t st b f by (auto simp: disk_idle_def s4_def set_holder_def s3_def waited_def s2_def arm_ok_def)
  moreover have "dfile s4 = f" "currentThread s4 = currentThread s"
    by (simp_all add: s4_def set_holder_def s3_def waited_def s2_def)
  ultimately show ?thesis using w by (simp add: s3_def)
qed

lemma Schedule_pos:
  "0 < n \<Longrightarrow> pending s = [] \<Longrightarrow> Schedule h a n ty s =
    Inr (s\<lparr>pending := [(totalTicks (stats s) + n, PendingInterrupt_new h a (totalTicks (stats s) + n) ty)]\<rparr>)"
  by (simp add: Schedule_def Let_def)

lemma ReadSector_ok:
  assumes i: "disk_idle s" and k: "0 \<le> k" "k < NumSectors"
  shows "\<exists>s'. ReadSector k s = Inr (disk_sector s (nat k), s') \<and> disk_idle s' \<and> dfile s' = dfile s \<and>
    sems s' = sems s \<and> currentThread s' = currentThread s"
proof -
  note a = Acquire_idle [OF i]
  define s1 where "s1 = s\<lparr>sems := (sems s)(lockSem := \<lparr>svalue = 0, squeue = []\<rparr>), stats := tick_stats (stats s),
      locks := (locks s)(diskLock := \<lparr>lsem = lockSem, holder = Some (currentThread s)\<rparr>)\<rparr>"
  have s1: "Lock_Acquire disk_call Inr wait_bound diskLock s = Inr s1" "arm_ok s1" using a by (simp_all add: s1_def)
  define n where "n = ComputeLatency k False s1"
  have n: "0 < n" using ComputeLatency_bounds(1) [OF s1(2) k, of False] by (simp add: n_def)
  have "arm_ok (s1\<lparr>dactive := True\<rparr>)" using s1(2) by (simp add: arm_ok_def)
  from UpdateLast_arm [OF this k] obtain b where
    b: "UpdateLast k (s1\<lparr>dactive := True\<rparr>) = s1\<lparr>dactive := True, bufferInit := b, lastSector := k\<rparr>" "0 \<le> b" by auto
  define st where "st = (tick_stats (stats s))\<lparr>numDiskReads := numDiskReads (tick_stats (stats s)) + 1\<rparr>"
  define w where "w = totalTicks st + n"
  let ?s2 = "s\<lparr>sems := (sems s)(lockSem := \<lparr>svalue = 0, squeue = []\<rparr>),
      locks := (locks s)(diskLock := \<lparr>lsem = lockSem, holder = Some (currentThread s)\<rparr>),
      dfile := dfile s, dactive := True, bufferInit := b, lastSector := k, stats := st,
      pending := [(w, PendingInterrupt_new DiskDone 0 w DiskInt)]\<rparr>"
  have sz: "4 + 128 * nat k + 128 \<le> fsize (dfile s)" using i k by (auto simp: disk_idle_def)
  have pos: "nat (128 * k + 4) = 4 + 128 * nat k" using k by auto
  have "Read (nat (128 * k + 4)) 128 (dfile s) = Inr (disk_sector s (nat k))"
    unfolding pos using sz by (simp add: Read_def ReadPartial_def disk_sector_def min_def)
  moreover have "\<not> dactive s1" "dfile s1 = dfile s" "pending s1 = []" "stats s1 = tick_stats (stats s)"
    using i by (simp_all add: s1_def disk_idle_def)
  ultimately have "ReadRequest k s1 = Inr (disk_sector s (nat k), s1\<lparr>dactive := True, bufferInit := b, lastSector := k,
      stats := st, pending := [(w, PendingInterrupt_new DiskDone 0 w DiskInt)]\<rparr>)"
    using k b(1) n by (simp add: ReadRequest_def n_def [symmetric] Lseek_def Schedule_pos st_def w_def Let_def)
  moreover have "s1\<lparr>dactive := True, bufferInit := b, lastSector := k,
      stats := st, pending := [(w, PendingInterrupt_new DiskDone 0 w DiskInt)]\<rparr> = ?s2"
    by (cases s) (simp add: s1_def)
  ultimately have r: "ReadRequest k s1 = Inr (disk_sector s (nat k), ?s2)" by simp
  have "\<exists>s'. bindE (Semaphore_P disk_call Inr wait_bound doneSem ?s2) (Lock_Release disk_call Inr wait_bound diskLock) = Inr s' \<and>
    disk_idle s' \<and> dfile s' = dfile s \<and> sems s' = sems s \<and> currentThread s' = currentThread s"
    using i n b(2) k by (intro complete_request) (auto simp: disk_idle_def w_def st_def arm_ok_def PendingInterrupt_new_def)
  then show ?thesis using s1(1) r by (auto simp: ReadSector_def bindE_eq_Inr)
qed

lemma sector_WriteFile:
  assumes "fsize f = nat DiskSize" "k < 1024" "length data = 128" "j < 1024"
  shows "map (fbytes (WriteFile (4 + 128 * k) data f)) [4 + 128 * j..<4 + 128 * j + 128] =
     (if j = k then data else map (fbytes f) [4 + 128 * j..<4 + 128 * j + 128])"
proof (cases "j = k")
  case True
  then show ?thesis using assms by (auto simp: WriteFile_def intro!: nth_equalityI)
next
  case False
  then have "\<not> (4 + 128 * k \<le> a \<and> a < 4 + 128 * k + 128)" if "a \<in> {4 + 128 * j..<4 + 128 * j + 128}" for a
    using that by auto
  moreover have "a < fsize f" if "a \<in> {4 + 128 * j..<4 + 128 * j + 128}" for a using that assms by auto
  ultimately show ?thesis using False assms(3) by (auto simp: WriteFile_def)
qed

lemma WriteSector_ok:
  assumes i: "disk_idle s" and k: "0 \<le> k" "k < NumSectors" and d: "length data = 128"
  shows "\<exists>s'. WriteSector k data s = Inr s' \<and> disk_idle s' \<and>
    (\<forall>j < 1024. disk_sector s' j = (if j = nat k then data else disk_sector s j)) \<and>
    sems s' = sems s \<and> currentThread s' = currentThread s"
proof -
  note a = Acquire_idle [OF i]
  define s1 where "s1 = s\<lparr>sems := (sems s)(lockSem := \<lparr>svalue = 0, squeue = []\<rparr>), stats := tick_stats (stats s),
      locks := (locks s)(diskLock := \<lparr>lsem = lockSem, holder = Some (currentThread s)\<rparr>)\<rparr>"
  have s1: "Lock_Acquire disk_call Inr wait_bound diskLock s = Inr s1" "arm_ok s1" using a by (simp_all add: s1_def)
  define n where "n = ComputeLatency k True s1"
  have n: "0 < n" using ComputeLatency_bounds(1) [OF s1(2) k, of True] by (simp add: n_def)
  define f where "f = WriteFile (4 + 128 * nat k) data (dfile s)"
  have f: "fsize f = nat DiskSize" using i k d by (auto simp: f_def WriteFile_def disk_idle_def)
  have "arm_ok (s1\<lparr>dfile := f, dactive := True\<rparr>)" using s1(2) by (simp add: arm_ok_def)
  from UpdateLast_arm [OF this k] obtain b where
    b: "UpdateLast k (s1\<lparr>dfile := f, dactive := True\<rparr>) = s1\<lparr>dfile := f, dactive := True, bufferInit := b, lastSector := k\<rparr>" "0 \<le> b"
    by auto
  define st where "st = (tick_stats (stats s))\<lparr>numDiskWrites := numDiskWrites (tick_stats (stats s)) + 1\<rparr>"
  define w where "w = totalTicks st + n"
  let ?s2 = "s\<lparr>sems := (sems s)(lockSem := \<lparr>svalue = 0, squeue = []\<rparr>),
      locks := (locks s)(diskLock := \<lparr>lsem = lockSem, holder = Some (currentThread s)\<rparr>),
      dfile := f, dactive := True, bufferInit := b, lastSector := k, stats := st,
      pending := [(w, PendingInterrupt_new DiskDone 0 w DiskInt)]\<rparr>"
  have pos: "nat (128 * k + 4) = 4 + 128 * nat k" using k by auto
  have "\<not> dactive s1" "dfile s1 = dfile s" "pending s1 = []" "stats s1 = tick_stats (stats s)"
    using i by (simp_all add: s1_def disk_idle_def)
  then have "WriteRequest k data s1 = Inr (s1\<lparr>dfile := f, dactive := True, bufferInit := b, lastSector := k,
      stats := st, pending := [(w, PendingInterrupt_new DiskDone 0 w DiskInt)]\<rparr>)"
    using k b(1) n d by (simp add: WriteRequest_def n_def [symmetric] Lseek_def Schedule_pos st_def w_def Let_def pos f_def)
  moreover have "s1\<lparr>dfile := f, dactive := True, bufferInit := b, lastSector := k,
      stats := st, pending := [(w, PendingInterrupt_new DiskDone 0 w DiskInt)]\<rparr> = ?s2"
    by (cases s) (simp add: s1_def)
  ultimately have r: "WriteRequest k data s1 = Inr ?s2" by simp
  have "\<exists>s'. bindE (Semaphore_P disk_call Inr wait_bound doneSem ?s2) (Lock_Release disk_call Inr wait_bound diskLock) = Inr s' \<and>
    disk_idle s' \<and> dfile s' = f \<and> sems s' = sems s \<and> currentThread s' = currentThread s"
    using i n b(2) k f by (intro complete_request) (auto simp: disk_idle_def w_def st_def arm_ok_def PendingInterrupt_new_def)
  then obtain s' where s': "WriteSector k data s = Inr s'" "disk_idle s'" "dfile s' = f" "sems s' = sems s"
    "currentThread s' = currentThread s"
    using s1(1) r by (auto simp: WriteSector_def bindE_eq_Inr)
  moreover have "\<forall>j < 1024. disk_sector s' j = (if j = nat k then data else disk_sector s j)"
    using sector_WriteFile [of "dfile s" "nat k" data] i k d
    by (auto simp: disk_sector_def s'(3) f_def disk_idle_def)
  ultimately show ?thesis by blast
qed

text \<open>A request for a sector outside the disk is refused.\<close>

lemma Sector_range:
  assumes "disk_idle s" "\<not> (0 \<le> k \<and> k < NumSectors)"
  shows "ReadSector k s = Inl AssertFailed" "WriteSector k data s = Inl AssertFailed"
  using Acquire_idle(1) [OF assms(1)] assms
  by (auto simp: ReadSector_def WriteSector_def ReadRequest_def WriteRequest_def disk_idle_def ASSERT_def)


section \<open>The synchronous disk as an array of sectors\<close>

text \<open>
  \<open>sectors\<close> is the image of the disk.  \<open>disk_at H D s\<close>: no request is outstanding,
  the image is \<open>D\<close>, and of the semaphores of the sectors (and the one of the array)
  exactly those at the addresses in \<open>H\<close> are held.
\<close>

definition sectors :: "disksys \<Rightarrow> byte list list" where
  "sectors s = map (disk_sector s) [0..<1024]"

definition disk_at :: "nat set \<Rightarrow> byte list list \<Rightarrow> disksys \<Rightarrow> bool" where
  "disk_at H D s \<longleftrightarrow> disk_idle s \<and> sectors s = D \<and>
     (\<forall>i. 2 \<le> i \<and> i < 1027 \<longrightarrow> sems s i = \<lparr>svalue = if i \<in> H then 0 else 1, squeue = []\<rparr>)"

definition disk_image :: "byte list list \<Rightarrow> bool" where
  "disk_image D \<longleftrightarrow> length D = 1024 \<and> (\<forall>d \<in> set D. length d = 128)"

lemma length_sectors [simp]: "length (sectors s) = 1024"
  by (simp add: sectors_def)

lemma nth_sectors: "k < 1024 \<Longrightarrow> sectors s ! k = disk_sector s k"
  by (simp add: sectors_def)

lemma disk_at_image: "disk_at H D s \<Longrightarrow> disk_image D"
  by (auto simp: disk_at_def disk_image_def sectors_def)

lemma disk_image_nth: "disk_image D \<Longrightarrow> k < 1024 \<Longrightarrow> length (D ! k) = 128"
  by (simp add: disk_image_def)

lemma disk_image_update: "disk_image D \<Longrightarrow> length d = 128 \<Longrightarrow> disk_image (D[k := d])"
  using set_update_subset_insert [of D k d] by (auto simp: disk_image_def)

lemma sectors_update:
  assumes "\<forall>j < 1024. disk_sector s' j = (if j = k then d else disk_sector s j)"
  shows "sectors s' = (sectors s)[k := d]"
  using assms by (intro nth_equalityI) (auto simp: nth_sectors nth_list_update)

lemma ReadSector_at:
  assumes "disk_at H D s" "0 \<le> k" "k < NumSectors"
  shows "yields (ReadSector k s) (\<lambda>(d, s'). d = D ! nat k \<and> disk_at H D s')"
proof -
  have i: "disk_idle s" and D: "sectors s = D" using assms by (simp_all add: disk_at_def)
  obtain s' where s': "ReadSector k s = Inr (disk_sector s (nat k), s')" "disk_idle s'" "dfile s' = dfile s" "sems s' = sems s"
    using ReadSector_ok [OF i assms(2,3)] by blast
  have "disk_sector s' = disk_sector s" by (rule ext) (simp add: disk_sector_def s'(3))
  then have "sectors s' = D" using D by (simp add: sectors_def)
  moreover have "disk_sector s (nat k) = D ! nat k" using D assms(2,3) nth_sectors [of "nat k" s] by simp
  ultimately show ?thesis using s' assms(1) by (simp add: disk_at_def)
qed

lemma WriteSector_at:
  assumes "disk_at H D s" "0 \<le> k" "k < NumSectors" "length d = 128"
  shows "yields (WriteSector k d s) (disk_at H (D[nat k := d]))"
proof -
  have i: "disk_idle s" and D: "sectors s = D" using assms by (simp_all add: disk_at_def)
  obtain s' where s': "WriteSector k d s = Inr s'" "disk_idle s'" "sems s' = sems s"
    "\<forall>j < 1024. disk_sector s' j = (if j = nat k then d else disk_sector s j)"
    using WriteSector_ok [OF i assms(2-4)] by blast
  then show ?thesis using sectors_update [OF s'(4)] assms(1) D by (simp add: disk_at_def)
qed

lemma Semaphore_P_at:
  assumes "disk_at H D s" "2 \<le> i" "i < 1027" "i \<notin> H"
  shows "yields (Semaphore_P disk_call Inr wait_bound i s) (disk_at (insert i H) D)"
proof -
  have f: "sems s i = \<lparr>svalue = 1, squeue = []\<rparr>" using assms by (simp add: disk_at_def)
  have "Semaphore_P disk_call Inr wait_bound i s =
      Inr (s\<lparr>sems := (sems s)(i := \<lparr>svalue = 0, squeue = []\<rparr>), stats := tick_stats (stats s)\<rparr>)"
    using P_free [of s i disk_call Inr 1] assms(1) f by (simp add: disk_at_def disk_idle_def numeral_2_eq_2)
  moreover have "disk_at (insert i H) D (s\<lparr>sems := (sems s)(i := \<lparr>svalue = 0, squeue = []\<rparr>), stats := tick_stats (stats s)\<rparr>)"
    using assms by (auto simp: disk_at_def disk_idle_def arm_ok_def sectors_def disk_sector_def)
  ultimately show ?thesis by simp
qed

lemma Semaphore_V_at:
  assumes "disk_at H D s" "2 \<le> i" "i < 1027" "i \<in> H"
  shows "yields (Semaphore_V disk_call Inr wait_bound i s) (disk_at (H - {i}) D)"
proof -
  have f: "sems s i = \<lparr>svalue = 0, squeue = []\<rparr>" using assms by (simp add: disk_at_def)
  have "Semaphore_V disk_call Inr wait_bound i s =
      Inr (s\<lparr>sems := (sems s)(i := \<lparr>svalue = 1, squeue = []\<rparr>), stats := tick_stats (stats s)\<rparr>)"
    using V_free [of s i disk_call Inr 1] assms(1) f by (simp add: disk_at_def disk_idle_def numeral_2_eq_2)
  moreover have "disk_at (H - {i}) D (s\<lparr>sems := (sems s)(i := \<lparr>svalue = 1, squeue = []\<rparr>), stats := tick_stats (stats s)\<rparr>)"
    using assms by (auto simp: disk_at_def disk_idle_def arm_ok_def sectors_def disk_sector_def)
  ultimately show ?thesis by simp
qed

text \<open>The semaphore of a sector, at its address.\<close>

definition sector_addr :: "int \<Rightarrow> nat" where
  "sector_addr k = 3 + nat k"

lemma rw_P_at:
  "disk_at H D s \<Longrightarrow> 0 \<le> k \<Longrightarrow> k < NumSectors \<Longrightarrow> sector_addr k \<notin> H \<Longrightarrow>
   yields (rw_P k s) (disk_at (insert (sector_addr k) H) D)"
  using Semaphore_P_at [of H D s "sector_addr k"] by (simp add: rw_P_def sector_sem_def sector_addr_def)

lemma rw_V_at:
  "disk_at H D s \<Longrightarrow> 0 \<le> k \<Longrightarrow> k < NumSectors \<Longrightarrow> sector_addr k \<in> H \<Longrightarrow>
   yields (rw_V k s) (disk_at (H - {sector_addr k}) D)"
  using Semaphore_V_at [of H D s "sector_addr k"] by (simp add: rw_V_def sector_sem_def sector_addr_def)

lemma arr_P_at: "disk_at H D s \<Longrightarrow> arraySem \<notin> H \<Longrightarrow> yields (arr_P s) (disk_at (insert arraySem H) D)"
  using Semaphore_P_at [of H D s arraySem] by (simp add: arr_P_def)

lemma arr_V_at: "disk_at H D s \<Longrightarrow> arraySem \<in> H \<Longrightarrow> yields (arr_V s) (disk_at (H - {arraySem}) D)"
  using Semaphore_V_at [of H D s arraySem] by (simp add: arr_V_def)

section \<open>The contract of a sector store\<close>

text \<open>
  What the file system relies on: reads return the image and leave it, a write
  replaces one sector, a sector outside the disk and a buffer that is too short
  are refused.  \<open>array_request\<close> is the same service on the bare image.
\<close>

datatype request = RdReq int | WrReq int "byte list"

fun array_request :: "request \<Rightarrow> byte list list \<Rightarrow> (byte list list \<times> byte list list) result" where
  "array_request (RdReq k) D =
     ASSERT (0 \<le> k \<and> k < NumSectors) (Inr ([D ! nat k], D))"
| "array_request (WrReq k d) D =
     ASSERT (0 \<le> k \<and> k < NumSectors)
       (requireE OutOfBounds (nat SectorSize \<le> length d) (Inr ([], D[nat k := take (nat SectorSize) d])))"

fun store_request :: "(int \<Rightarrow> 's \<Rightarrow> (byte list \<times> 's) result) \<Rightarrow> (int \<Rightarrow> byte list \<Rightarrow> 's \<Rightarrow> 's result) \<Rightarrow>
    request \<Rightarrow> 's \<Rightarrow> (byte list list \<times> 's) result" where
  "store_request rd wr (RdReq k) s = bindE (rd k s) (\<lambda>(d, s). Inr ([d], s))"
| "store_request rd wr (WrReq k d) s = bindE (wr k d s) (\<lambda>s. Inr ([], s))"

fun serve :: "(request \<Rightarrow> 's \<Rightarrow> (byte list list \<times> 's) result) \<Rightarrow> request list \<Rightarrow> 's \<Rightarrow> (byte list list \<times> 's) result" where
  "serve step [] s = Inr ([], s)"
| "serve step (r # rs) s =
     bindE (step r s) (\<lambda>(out, s). bindE (serve step rs s) (\<lambda>(outs, s). Inr (out @ outs, s)))"

locale sector_store =
  fixes rd :: "int \<Rightarrow> 's \<Rightarrow> (byte list \<times> 's) result"
    and wr :: "int \<Rightarrow> byte list \<Rightarrow> 's \<Rightarrow> 's result"
    and holds :: "byte list list \<Rightarrow> 's \<Rightarrow> bool"
  assumes rd_ok: "holds D s \<Longrightarrow> 0 \<le> k \<Longrightarrow> k < NumSectors \<Longrightarrow>
      yields (rd k s) (\<lambda>(d, s'). d = D ! nat k \<and> holds D s')"
    and wr_ok: "holds D s \<Longrightarrow> 0 \<le> k \<Longrightarrow> k < NumSectors \<Longrightarrow> nat SectorSize \<le> length d \<Longrightarrow>
      yields (wr k d s) (holds (D[nat k := take (nat SectorSize) d]))"
    and rd_range: "holds D s \<Longrightarrow> \<not> (0 \<le> k \<and> k < NumSectors) \<Longrightarrow> rd k s = Inl AssertFailed"
    and wr_range: "holds D s \<Longrightarrow> \<not> (0 \<le> k \<and> k < NumSectors) \<Longrightarrow> wr k d s = Inl AssertFailed"
    and wr_short: "holds D s \<Longrightarrow> 0 \<le> k \<Longrightarrow> k < NumSectors \<Longrightarrow> length d < nat SectorSize \<Longrightarrow>
      wr k d s = Inl OutOfBounds"
begin

lemma request_refines:
  assumes "holds D s"
  shows "case array_request r D of
      Inl e \<Rightarrow> store_request rd wr r s = Inl e
    | Inr (outs, D') \<Rightarrow> yields (store_request rd wr r s) (\<lambda>(outs', s'). outs' = outs \<and> holds D' s')"
proof (cases r)
  case (RdReq k)
  show ?thesis
  proof (cases "0 \<le> k \<and> k < NumSectors")
    case True
    with rd_ok [OF assms, of k] RdReq show ?thesis by (auto elim!: yields_mono)
  qed (use assms RdReq rd_range in auto)
next
  case (WrReq k d)
  show ?thesis
  proof (cases "0 \<le> k \<and> k < NumSectors")
    case True
    then show ?thesis
      using wr_ok [OF assms, of k d] wr_short [OF assms, of k d] WrReq
      by (cases "128 \<le> length d") (auto elim!: yields_mono)
  qed (use assms WrReq wr_range in auto)
qed

lemma serve_refines:
  assumes "holds D s"
  shows "case serve array_request rs D of
      Inl e \<Rightarrow> serve (store_request rd wr) rs s = Inl e
    | Inr (outs, D') \<Rightarrow> yields (serve (store_request rd wr) rs s) (\<lambda>(outs', s'). outs' = outs \<and> holds D' s')"
  using assms
proof (induction rs arbitrary: D s)
  case (Cons r rs)
  note first = request_refines [OF Cons.prems, of r]
  show ?case
  proof (cases "array_request r D")
    case (Inl e)
    then show ?thesis using first by simp
  next
    case (Inr p)
    obtain outs D1 where p: "p = (outs, D1)" by force
    then obtain s1 where s1: "store_request rd wr r s = Inr (outs, s1)" "holds D1 s1"
      using first Inr by (auto elim!: yields_obtain)
    show ?thesis
      using Cons.IH [OF s1(2)] Inr p s1(1)
      by (cases "serve array_request rs D1") (auto elim!: yields_obtain)
  qed
qed simp

text \<open>What a sequence of writes to different sectors leaves behind.\<close>

lemma write_all:
  assumes "holds D s" "\<forall>(k, d) \<in> set kds. 0 \<le> k \<and> k < NumSectors \<and> length d = nat SectorSize"
  shows "yields (foldE (\<lambda>(k, d). wr k d) kds s) (holds (fold (\<lambda>(k, d) D. D[nat k := d]) kds D))"
  using assms
proof (induction kds arbitrary: D s)
  case (Cons x kds)
  obtain k d where x: "x = (k, d)" by force
  have "yields (wr k d s) (holds (D[nat k := d]))" using wr_ok [OF Cons.prems(1), of k d] Cons.prems(2) x by simp
  then show ?case using Cons x by (auto elim!: yields_mono)
qed simp

end

lemma WriteSector_take:
  "nat SectorSize \<le> length d \<Longrightarrow> WriteSector k d s = WriteSector k (take (nat SectorSize) d) s"
  by (simp add: WriteSector_def WriteRequest_def)

lemma WriteSector_short:
  assumes "disk_idle s" "0 \<le> k" "k < NumSectors" "length d < nat SectorSize"
  shows "WriteSector k d s = Inl OutOfBounds"
  using Acquire_idle(1) [OF assms(1)] assms by (simp add: WriteSector_def WriteRequest_def disk_idle_def)

interpretation synch_disk: sector_store ReadSector WriteSector "disk_at H" for H
proof (unfold_locales, goal_cases)
  case 1
  then show ?case by (rule ReadSector_at)
next
  case (2 D s k d)
  then show ?case using WriteSector_at [of H D s k "take (nat SectorSize) d"] WriteSector_take [of d k s] by simp
next
  case 3
  then show ?case using Sector_range(1) by (simp add: disk_at_def)
next
  case 4
  then show ?case using Sector_range(2) by (simp add: disk_at_def)
next
  case 5
  then show ?case using WriteSector_short by (simp add: disk_at_def)
qed

section \<open>A freshly created disk\<close>

definition zero_disk :: "byte list list" where
  "zero_disk = replicate 1024 (replicate 128 0)"

text \<open>The kernel with interrupts enabled, one thread that runs and nothing pending.\<close>

definition lone_thread :: "disksys \<Rightarrow> bool" where
  "lone_thread s \<longleftrightarrow> level s = IntOn \<and> pending s = [] \<and> \<not> inHandler s \<and> \<not> yieldOnReturn s \<and> istatus s = SystemMode \<and>
     readyList s = [] \<and> threadToBeDestroyed s = None \<and>
     (case threads s (currentThread s) of None \<Rightarrow> False
      | Some t \<Rightarrow> started t \<and> (hasStack t \<longrightarrow> fencepost t = STACK_FENCEPOST)) \<and>
     0 \<le> totalTicks (stats s)"

lemma Disk_open_new:
  "Disk_open None = Inr \<lparr>fbytes = (\<lambda>a. if a < 4 then int_bytes MagicNumber ! a else 0), fsize = nat DiskSize\<rparr>"
proof -
  have z: "int_bytes 0 = replicate 4 0" by (simp add: int_bytes_def word_bytes_def eval_nat_numeral)
  have "int_bytes MagicNumber \<noteq> []" "int_bytes 0 \<noteq> []" by (simp_all flip: length_0_conv)
  then show ?thesis
    by (simp add: Disk_open_def WriteFile_def Lseek_def Let_def fun_eq_iff z) (auto intro!: nth_replicate)
qed

lemma SynchDisk_new_at:
  assumes "lone_thread s" "Disk_open existing = Inr f" "fsize f = nat DiskSize"
  shows "yields (SynchDisk_new existing s)
    (disk_at {} (map (\<lambda>k. map (fbytes f) [4 + 128 * k..<4 + 128 * k + 128]) [0..<1024]))"
  using assms
  by (simp add: SynchDisk_new_def disk_at_def disk_idle_def lone_thread_def arm_ok_def sectors_def disk_sector_def Semaphore_new_def)

lemma zero_disk_open:
  assumes "Disk_open None = Inr f"
  shows "map (\<lambda>k. map (fbytes f) [4 + 128 * k..<4 + 128 * k + 128]) [0..<1024] = zero_disk"
proof -
  have "map (fbytes f) [4 + 128 * k..<4 + 128 * k + 128] = replicate 128 0" for k
    using assms by (intro nth_equalityI) (auto simp: Disk_open_new)
  then show ?thesis by (simp add: zero_disk_def map_replicate_const)
qed

lemma SynchDisk_fresh: "lone_thread s \<Longrightarrow> yields (SynchDisk_new None s) (disk_at {} zero_disk)"
  using SynchDisk_new_at [of s None] zero_disk_open Disk_open_new by (auto simp: Disk_open_new)

definition main_only :: disksys where
  "main_only = \<lparr>level = IntOn, pending = [], inHandler = False, yieldOnReturn = False, istatus = SystemMode,
     stats = Statistics_new,
     threads = [0 \<mapsto> \<lparr>tid = 0, uid = 0, priority = 1000, timeSlice = 0, hasStack = False, fencepost = 0,
       tstatus = RUNNING, tname = ''main'', started = True\<rparr>],
     freshThread = 1, threadMap = True # replicate 127 False, currentThread = 0, threadToBeDestroyed = None,
     readyList = [], blockedList = [], sems = (\<lambda>_. Semaphore_new 0), locks = (\<lambda>_. \<lparr>lsem = 0, holder = None\<rparr>),
     conds = (\<lambda>_. []), randoms = (\<lambda>_. 0),
     dfile = \<lparr>fbytes = (\<lambda>_. 0), fsize = 0\<rparr>, lastSector = 0, bufferInit = 0, dactive = False\<rparr>"

lemma main_only_lone: "lone_thread main_only"
  by (simp add: lone_thread_def main_only_def Statistics_new_def)

definition fresh_disk :: disksys where
  "fresh_disk = (case SynchDisk_new None main_only of Inr s \<Rightarrow> s | Inl _ \<Rightarrow> main_only)"

lemma fresh_disk_at: "disk_at {} zero_disk fresh_disk"
  using SynchDisk_fresh [OF main_only_lone] by (auto simp: fresh_disk_def elim!: yields_obtain)

section \<open>Properties\<close>

text \<open>
  C21: the synchronous disk implements an array of sectors.  For every sequence of
  requests the routines \<^verbatim>\<open>SynchDisk::ReadSector\<close> and \<^verbatim>\<open>WriteSector\<close> return to the lone
  calling thread, after the lock, the device interrupt and the wake-up, with the
  data the array would give, and leave the array's new contents on the disk; a
  sector number outside the disk and a buffer shorter than a sector stop them with
  the same fault.
\<close>

theorem synch_disk_refines_array:
  assumes "disk_at H D s"
  shows "case serve array_request rs D of
      Inl e \<Rightarrow> serve (store_request ReadSector WriteSector) rs s = Inl e
    | Inr (outs, D') \<Rightarrow> \<exists>s'. serve (store_request ReadSector WriteSector) rs s = Inr (outs, s') \<and> disk_at H D' s'"
  using synch_disk.serve_refines [OF assms, of rs] by (auto simp: yields_def split: sum.splits)

theorem synch_disk_refines_array_witness:
  "(\<exists>s'. serve (store_request ReadSector WriteSector) [WrReq 7 (replicate 128 3), RdReq 7, RdReq 8] fresh_disk =
     Inr ([replicate 128 3, replicate 128 0], s')) \<and>
   serve (store_request ReadSector WriteSector) [RdReq 1024] fresh_disk = Inl AssertFailed"
  using synch_disk_refines_array [OF fresh_disk_at, of "[WrReq 7 (replicate 128 3), RdReq 7, RdReq 8]"]
    synch_disk_refines_array [OF fresh_disk_at, of "[RdReq 1024]"]
  by (auto simp: zero_disk_def)

text \<open>
  C33: the latency of a request is at least the time of one sector and at most a
  seek across all tracks, a rotation to align and one full turn; so the completion
  interrupt is always in the future and the wait for it ends.
\<close>

theorem disk_latency_bounds:
  assumes "arm_ok s" "0 \<le> k" "k < NumSectors"
  shows "RotationTime \<le> ComputeLatency k writing s \<and> ComputeLatency k writing s \<le> 31 * SeekTime + RotationTime + 32 * RotationTime"
  using ComputeLatency_bounds [OF assms, of writing] by simp

theorem disk_latency_bounds_witness:
  "500 \<le> ComputeLatency 1023 False main_only \<and> ComputeLatency 1023 False main_only \<le> 32000"
  using disk_latency_bounds [of main_only 1023 False] by (simp add: arm_ok_def main_only_def Statistics_new_def)

end
