(* ===== verification/File_Header.thy ===== *)
theory File_Header
  imports Disk_Device Bit_Map
begin

text \<open>
  \<^verbatim>\<open>filesys/filehdr.h\<close>, \<^verbatim>\<open>filesys/filehdr.cc\<close>: the file header (i-node).  A header fills one
  sector; its 25 entries name index sectors, each of which holds the numbers of 32
  data sectors.

  Memory the source does not initialise (the rest of an index block on the stack)
  is the argument \<open>junk\<close>; the value of \<^verbatim>\<open>time(NULL)\<close> is the argument \<open>now\<close>.
\<close>

section \<open>The class\<close>

record FileHeader =
  createTime :: int
  lastVisitTime :: int
  lastWriteTime :: int
  fileType :: int
  primaryIndexTable :: "int list"
  numVisits :: int
  numBytes :: int
  numSectors :: int

definition NumDirect :: nat where
  "NumDirect = 25"

abbreviation (input) IndexSize :: int where "IndexSize \<equiv> 32"

text \<open>The layout of the object in memory, which is what is stored in its sector.\<close>

definition header_ints :: "FileHeader \<Rightarrow> int list" where
  "header_ints h = [createTime h, lastVisitTime h, lastWriteTime h, fileType h] @ primaryIndexTable h @
     [numVisits h, numBytes h, numSectors h]"

definition header_of_ints :: "int list \<Rightarrow> FileHeader" where
  "header_of_ints is = \<lparr>createTime = is ! 0, lastVisitTime = is ! 1, lastWriteTime = is ! 2, fileType = is ! 3,
     primaryIndexTable = slice 4 NumDirect is, numVisits = is ! 29, numBytes = is ! 30, numSectors = is ! 31\<rparr>"

definition header_bytes :: "FileHeader \<Rightarrow> byte list" where
  "header_bytes h = ints_bytes (header_ints h)"

definition header_of_bytes :: "byte list \<Rightarrow> FileHeader" where
  "header_of_bytes bs = header_of_ints (bytes_ints 32 bs)"

definition FileHeader_FetchFrom :: "int \<Rightarrow> disksys \<Rightarrow> (FileHeader \<times> disksys) result" where
  "FileHeader_FetchFrom sector s = bindE (ReadSector sector s) (\<lambda>(d, s). Inr (header_of_bytes d, s))"

definition FileHeader_WriteBack :: "int \<Rightarrow> FileHeader \<Rightarrow> dtrans" where
  "FileHeader_WriteBack sector h s = WriteSector sector (header_bytes h) s"

definition FileLength :: "FileHeader \<Rightarrow> int" where
  "FileLength h = numBytes h"

text \<open>
  \<open>fill_sectors\<close> is the loop \<^verbatim>\<open>tempDataSectors[j] = freeMap->Find()\<close> over the indices
  \<open>js\<close>; \<open>alloc_table\<close> the body of the loop over the entries of the primary table, with
  the number of sectors still to be allocated in \<open>left\<close>.
\<close>

definition fill_sectors :: "nat list \<Rightarrow> int list \<times> BitMap \<Rightarrow> (int list \<times> BitMap) result" where
  "fill_sectors js = foldE (\<lambda>j (temp, freeMap).
     bindE (BitMap_Find freeMap) (\<lambda>(i, freeMap). Inr (temp[j := i], freeMap))) js"

definition set_entry :: "nat \<Rightarrow> int \<Rightarrow> FileHeader \<Rightarrow> FileHeader result" where
  "set_entry i v h = requireE OutOfBounds (i < NumDirect)
     (Inr (h\<lparr>primaryIndexTable := (primaryIndexTable h)[i := v]\<rparr>))"

definition get_entry :: "int \<Rightarrow> FileHeader \<Rightarrow> int result" where
  "get_entry i h = requireE OutOfBounds (0 \<le> i \<and> i < int NumDirect) (Inr (primaryIndexTable h ! nat i))"

definition alloc_table :: "(nat \<Rightarrow> nat \<Rightarrow> int) \<Rightarrow> nat \<Rightarrow> FileHeader \<times> int \<times> BitMap \<times> disksys \<Rightarrow>
    (FileHeader \<times> int \<times> BitMap \<times> disksys) result" where
  "alloc_table junk i = (\<lambda>(h, left, freeMap, s).
     bindE (BitMap_Find freeMap) (\<lambda>(p, freeMap).
     bindE (set_entry i p h) (\<lambda>h.
     let temp = map (junk i) [0..<nat IndexSize] in
     bindE (if left < IndexSize then fill_sectors [0..<nat left] (temp, freeMap)
            else fill_sectors [0..<nat IndexSize] (temp, freeMap)) (\<lambda>(temp, freeMap).
     bindE (WriteSector p (ints_bytes temp) s) (\<lambda>s.
     Inr (h, if left < IndexSize then left else left - IndexSize, freeMap, s))))))"

definition Allocate :: "(nat \<Rightarrow> nat \<Rightarrow> int) \<Rightarrow> int \<Rightarrow> int \<Rightarrow> int \<Rightarrow> FileHeader \<Rightarrow> BitMap \<Rightarrow> disksys \<Rightarrow>
    (bool \<times> FileHeader \<times> BitMap \<times> disksys) result" where
  "Allocate junk now fileSize ftype h freeMap s =
    (let h = h\<lparr>numBytes := fileSize, numSectors := divRoundUp fileSize SectorSize, fileType := ftype, createTime := now\<rparr> in
     bindE (BitMap_NumClear freeMap) (\<lambda>c.
     if c < numSectors h then Inr (False, h, freeMap, s)
     else bindE (foldE (alloc_table junk) [0..<nat (divRoundUp (numSectors h) IndexSize)] (h, numSectors h, freeMap, s))
       (\<lambda>(h, left, freeMap, s). Inr (True, h, freeMap, s))))"

text \<open>
  \<open>extend_block\<close> is the part of \<^verbatim>\<open>ExtendAllocate\<close> that fills up the last index block; it
  returns the number of sectors still to be allocated.
\<close>

definition extend_block :: "FileHeader \<Rightarrow> int \<Rightarrow> BitMap \<Rightarrow> disksys \<Rightarrow> (int \<times> BitMap \<times> disksys) result" where
  "extend_block h left freeMap s =
    (let used = numSectors h smod IndexSize in
     if used \<noteq> 0 then
       bindE (get_entry (divRoundUp (numSectors h) IndexSize - 1) h) (\<lambda>p.
       bindE (ReadSector p s) (\<lambda>(d, s).
       let temp = bytes_ints (nat IndexSize) d in
       bindE (if left \<ge> IndexSize - used then fill_sectors [nat used..<nat IndexSize] (temp, freeMap)
              else fill_sectors [nat used..<nat (used + left)] (temp, freeMap)) (\<lambda>(temp, freeMap).
       bindE (WriteSector p (ints_bytes temp) s) (\<lambda>s.
       Inr (if left \<ge> IndexSize - used then left - (IndexSize - used) else left, freeMap, s)))))
     else Inr (left, freeMap, s))"

definition ExtendAllocate :: "(nat \<Rightarrow> nat \<Rightarrow> int) \<Rightarrow> int \<Rightarrow> FileHeader \<Rightarrow> BitMap \<Rightarrow> disksys \<Rightarrow>
    (bool \<times> FileHeader \<times> BitMap \<times> disksys) result" where
  "ExtendAllocate junk extraFileSize h freeMap s =
    (if divRoundUp (numBytes h + extraFileSize) SectorSize \<le> numSectors h
     then Inr (True, h\<lparr>numBytes := numBytes h + extraFileSize\<rparr>, freeMap, s)
     else
       let h = h\<lparr>numBytes := numBytes h + extraFileSize\<rparr>;
           extraSectors = divRoundUp extraFileSize SectorSize in
       bindE (BitMap_NumClear freeMap) (\<lambda>c.
       if c < extraSectors then Inr (False, h, freeMap, s)
       else
         bindE (extend_block h extraSectors freeMap s) (\<lambda>(left, freeMap, s).
         bindE (foldE (alloc_table junk)
             [nat (divRoundUp (numSectors h) IndexSize)..<nat (divRoundUp (extraSectors + numSectors h) IndexSize)]
             (h, left, freeMap, s))
           (\<lambda>(h, left, freeMap, s). Inr (True, h\<lparr>numSectors := numSectors h + extraSectors\<rparr>, freeMap, s)))))"

definition dealloc_table :: "FileHeader \<Rightarrow> nat \<Rightarrow> int \<times> BitMap \<times> disksys \<Rightarrow> (int \<times> BitMap \<times> disksys) result" where
  "dealloc_table h i = (\<lambda>(left, freeMap, s).
     bindE (get_entry (int i) h) (\<lambda>p.
     bindE (BitMap_Test p freeMap) (\<lambda>t. ASSERT t (
     bindE (ReadSector p s) (\<lambda>(d, s).
     let temp = bytes_ints (nat IndexSize) d in
     bindE (if left < IndexSize then foldE BitMap_Clear (take (nat left) temp) freeMap
            else foldE BitMap_Clear temp freeMap) (\<lambda>freeMap.
     bindE (BitMap_Clear p freeMap) (\<lambda>freeMap.
     Inr (if left < IndexSize then left else left - IndexSize, freeMap, s))))))))"

definition Deallocate :: "FileHeader \<Rightarrow> BitMap \<Rightarrow> disksys \<Rightarrow> (BitMap \<times> disksys) result" where
  "Deallocate h freeMap s =
     bindE (foldE (dealloc_table h) [0..<nat (divRoundUp (numSectors h) IndexSize)] (numSectors h, freeMap, s))
       (\<lambda>(left, freeMap, s). Inr (freeMap, s))"

definition ByteToSector :: "int \<Rightarrow> FileHeader \<Rightarrow> disksys \<Rightarrow> (int \<times> disksys) result" where
  "ByteToSector offset h s =
    (let i = offset sdiv (SectorSize * IndexSize);
         i_offset = (offset smod (SectorSize * IndexSize)) sdiv SectorSize in
     bindE (get_entry i h) (\<lambda>p.
     bindE (ReadSector p s) (\<lambda>(d, s).
     requireE OutOfBounds (0 \<le> i_offset \<and> i_offset < IndexSize) (Inr (bytes_ints (nat IndexSize) d ! nat i_offset, s)))))"

text \<open>
  \<^verbatim>\<open>Print\<close>: the entries of the primary table it prints, and for every index block the
  bytes of the file it prints; \<open>k\<close> counts the bytes printed so far.
\<close>

definition print_sector :: "FileHeader \<Rightarrow> int \<Rightarrow> byte list \<times> int \<times> disksys \<Rightarrow> (byte list \<times> int \<times> disksys) result" where
  "print_sector h sector = (\<lambda>(out, k, s).
     bindE (ReadSector sector s) (\<lambda>(data, s).
     let n = min SectorSize (max 0 (numBytes h - k)) in Inr (out @ take (nat n) data, k + n, s)))"

definition print_table :: "FileHeader \<Rightarrow> nat \<Rightarrow> byte list list \<times> int \<times> disksys \<Rightarrow> (byte list list \<times> int \<times> disksys) result" where
  "print_table h i = (\<lambda>(outs, k, s).
     bindE (get_entry (int i) h) (\<lambda>p.
     bindE (ReadSector p s) (\<lambda>(d, s).
     let temp = bytes_ints (nat IndexSize) d in
     bindE (if numSectors h < IndexSize then foldE (print_sector h) (take (nat (numSectors h)) temp) ([], k, s)
            else foldE (print_sector h) temp ([], k, s)) (\<lambda>(out, k, s).
     Inr (outs @ [out], k, s)))))"

definition FileHeader_Print :: "FileHeader \<Rightarrow> disksys \<Rightarrow> (int list \<times> byte list list \<times> disksys) result" where
  "FileHeader_Print h s =
    (let n = nat (divRoundUp (numSectors h) IndexSize) in
     requireE OutOfBounds (n \<le> NumDirect)
      (bindE (foldE (print_table h) [0..<n] ([], 0, s)) (\<lambda>(outs, k, s).
         Inr (take n (primaryIndexTable h), outs, s))))"

section \<open>The layout of a header\<close>

definition wf_header :: "FileHeader \<Rightarrow> bool" where
  "wf_header h \<longleftrightarrow> length (primaryIndexTable h) = NumDirect \<and> list_all int32 (header_ints h)"

lemma length_header_ints: "length (primaryIndexTable h) = NumDirect \<Longrightarrow> length (header_ints h) = 32"
  by (simp add: header_ints_def NumDirect_def)

lemma length_header_bytes: "length (primaryIndexTable h) = NumDirect \<Longrightarrow> length (header_bytes h) = 128"
  by (simp add: header_bytes_def length_header_ints)

lemma header_of_header_ints:
  "length (primaryIndexTable h) = NumDirect \<Longrightarrow> header_of_ints (header_ints h) = h"
  by (cases h) (simp add: header_of_ints_def header_ints_def NumDirect_def slice_def nth_append numeral_eq_Suc)

lemma header_of_header_bytes: "wf_header h \<Longrightarrow> header_of_bytes (header_bytes h) = h"
  by (simp add: wf_header_def header_of_bytes_def header_bytes_def length_header_ints header_of_header_ints)

lemma header_ints_of_ints:
  assumes "length is = 32"
  shows "header_ints (header_of_ints is) = is"
proof -
  have "take 4 is = [is ! 0, is ! 1, is ! 2, is ! 3]" "drop 29 is = [is ! 29, is ! 30, is ! 31]"
    using assms by (auto intro!: nth_equalityI simp: nth_Cons' less_Suc_eq_0_disj eval_nat_numeral)
  moreover have "is = take 4 is @ take 25 (drop 4 is) @ drop 25 (drop 4 is)" by (simp only: append_take_drop_id)
  then have "is = take 4 is @ take 25 (drop 4 is) @ drop 29 is" by simp
  ultimately show ?thesis by (simp add: header_ints_def header_of_ints_def NumDirect_def slice_def)
qed

lemma header_bytes_of_bytes: "length bs = 128 \<Longrightarrow> header_bytes (header_of_bytes bs) = bs"
  by (simp add: header_bytes_def header_of_bytes_def header_ints_of_ints ints_bytes_bytes_ints)

lemma wf_header_of_bytes: "wf_header (header_of_bytes bs)"
  using list_all_int32_bytes_ints [of 32 bs]
  by (simp add: wf_header_def header_of_bytes_def header_ints_of_ints del: list_all_int32_bytes_ints)
    (simp add: header_of_ints_def NumDirect_def)

section \<open>Allocation of sectors\<close>

text \<open>
  \<open>allocates m bs m'\<close>: the map \<open>m'\<close> is \<open>m\<close> with the sectors \<open>bs\<close> taken, all different and
  none of them in use before.
\<close>

definition allocates :: "BitMap \<Rightarrow> int list \<Rightarrow> BitMap \<Rightarrow> bool" where
  "allocates m bs m' \<longleftrightarrow> wf_map m' \<and> numBits m' = numBits m \<and> distinct bs \<and> set bs \<inter> marked m = {} \<and>
     set bs \<subseteq> {0..<numBits m} \<and> marked m' = marked m \<union> set bs"

definition room :: "BitMap \<Rightarrow> int" where
  "room m = numBits m - int (card (marked m))"

lemma allocates_Nil: "wf_map m \<Longrightarrow> allocates m [] m"
  by (simp add: allocates_def)

lemma allocates_append: "allocates m bs m1 \<Longrightarrow> allocates m1 cs m2 \<Longrightarrow> allocates m (bs @ cs) m2"
  by (auto simp: allocates_def)

lemma allocates_cong: "allocates m bs m' \<Longrightarrow> mset bs = mset cs \<Longrightarrow> allocates m cs m'"
  using mset_eq_setD [of bs cs] mset_eq_imp_distinct_iff [of bs cs] by (auto simp: allocates_def)

lemma allocates_room: "allocates m bs m' \<Longrightarrow> room m' = room m - int (length bs)"
  by (simp add: allocates_def room_def card_Un_disjoint Int_commute distinct_card)

lemma allocates_wf: "allocates m bs m' \<Longrightarrow> wf_map m'" "allocates m bs m' \<Longrightarrow> numBits m' = numBits m"
  by (simp_all add: allocates_def)

lemma Find_allocates:
  assumes "wf_map m" "0 < room m"
  shows "yields (BitMap_Find m) (\<lambda>(i, m'). allocates m [i] m')"
proof -
  have "marked m \<noteq> {0..<numBits m}" using assms(2) by (intro sector_map.not_full) (simp add: room_def)
  from BitMap_Find_free [OF assms(1) this] show ?thesis by (auto simp: allocates_def)
qed

lemma fill_sectors_ok:
  assumes "wf_map m" "a + r \<le> length temp" "int r \<le> room m"
  shows "yields (fill_sectors [a..<a + r] (temp, m)) (\<lambda>(t, m'). length t = length temp \<and>
    (\<forall>j < length temp. j < a \<or> a + r \<le> j \<longrightarrow> t ! j = temp ! j) \<and> allocates m (map ((!) t) [a..<a + r]) m')"
  using assms(2,3)
proof (induction r)
  case 0
  then show ?case using assms(1) by (simp add: fill_sectors_def allocates_Nil)
next
  case (Suc r)
  have "yields (fill_sectors [a..<a + r] (temp, m)) (\<lambda>(t, m'). length t = length temp \<and>
    (\<forall>j < length temp. j < a \<or> a + r \<le> j \<longrightarrow> t ! j = temp ! j) \<and> allocates m (map ((!) t) [a..<a + r]) m')"
    using Suc by simp
  then obtain t m1 where t: "fill_sectors [a..<a + r] (temp, m) = Inr (t, m1)" "length t = length temp"
    "\<forall>j < length temp. j < a \<or> a + r \<le> j \<longrightarrow> t ! j = temp ! j" and f: "allocates m (map ((!) t) [a..<a + r]) m1"
    by (auto elim!: yields_obtain)
  have "0 < room m1" using allocates_room [OF f] Suc.prems by simp
  with Find_allocates [of m1] obtain i m2 where i: "BitMap_Find m1 = Inr (i, m2)" "allocates m1 [i] m2"
    using allocates_wf [OF f] by (auto elim!: yields_obtain)
  have e: "map ((!) (t[a + r := i])) [a..<a + Suc r] = map ((!) t) [a..<a + r] @ [i]"
    using Suc.prems t(2) by simp
  have "allocates m (map ((!) (t[a + r := i])) [a..<a + Suc r]) m2" unfolding e by (rule allocates_append [OF f i(2)])
  moreover have "fill_sectors [a..<a + Suc r] (temp, m) = Inr (t[a + r := i], m2)"
    using t(1) i(1) by (simp add: fill_sectors_def foldE_append)
  ultimately show ?case using t by simp
qed

text \<open>
  The data sector that holds sector \<open>q\<close> of the file, found through the index blocks in
  the image \<open>D\<close>.
\<close>

definition data_sector :: "int list \<Rightarrow> byte list list \<Rightarrow> nat \<Rightarrow> int" where
  "data_sector pit D q = bytes_ints 32 (D ! nat (pit ! (q div 32))) ! (q mod 32)"

text \<open>The blocks of index entries \<open>a\<close> to \<open>b\<close> and of data sectors \<open>c\<close> to \<open>d\<close>.\<close>

definition block_list :: "int list \<Rightarrow> byte list list \<Rightarrow> nat \<Rightarrow> nat \<Rightarrow> nat \<Rightarrow> nat \<Rightarrow> int list" where
  "block_list pit D a b c d = map ((!) pit) [a..<b] @ map (data_sector pit D) [c..<d]"

text \<open>
  The loop over the primary table, started with the header \<open>h0\<close>, the map \<open>m0\<close> and the
  image \<open>D0\<close> at entry \<open>n0\<close>, after it has reached entry \<open>i\<close>; \<open>T\<close> data sectors are wanted.
\<close>

definition table_inv :: "nat set \<Rightarrow> FileHeader \<Rightarrow> BitMap \<Rightarrow> byte list list \<Rightarrow> nat \<Rightarrow> nat \<Rightarrow> nat \<Rightarrow>
    FileHeader \<times> int \<times> BitMap \<times> disksys \<Rightarrow> bool" where
  "table_inv H h0 m0 D0 T n0 i = (\<lambda>(h, left, m, s). \<exists>pit D.
     h = h0\<lparr>primaryIndexTable := pit\<rparr> \<and> length pit = NumDirect \<and> (\<forall>k < n0. pit ! k = primaryIndexTable h0 ! k) \<and>
     (32 * i < T \<longrightarrow> left = int T - 32 * int i) \<and> disk_at H D s \<and>
     allocates m0 (block_list pit D n0 i (32 * n0) (min T (32 * i))) m \<and>
     (\<forall>j < 1024. int j \<notin> set (map ((!) pit) [n0..<i]) \<longrightarrow> D ! j = D0 ! j))"


lemma data_sector_new:
  assumes D: "disk_image D" and p: "0 \<le> p" "p < 1024" and t: "length temp = 32"
    and i: "i < length pit" and q: "32 * i \<le> q" "q < 32 * i + 32" "int32 (temp ! (q - 32 * i))"
  shows "data_sector (pit[i := p]) (D[nat p := ints_bytes temp]) q = temp ! (q - 32 * i)"
proof -
  have "q div 32 = i" using q(1,2) by auto
  moreover from this have "q mod 32 = q - 32 * i" using mult_div_mod_eq [of 32 q] by simp
  ultimately have e: "q div 32 = i" "q mod 32 = q - 32 * i" by blast+
  have "q - 32 * i < length temp" using q(2) t by simp
  with nth_bytes_ints [of "q - 32 * i" temp] q(3) t i D p show ?thesis
    by (simp add: data_sector_def e disk_image_def)
qed

lemma data_sector_old:
  assumes "0 \<le> p" "pit ! (q div 32) \<noteq> p" "0 \<le> pit ! (q div 32)" "q < 32 * i"
  shows "data_sector (pit[i := p]) (D[nat p := d]) q = data_sector pit D q"
proof -
  have "q div 32 \<noteq> i" using assms(4) by auto
  moreover have "nat (pit ! (q div 32)) \<noteq> nat p" using assms by simp
  ultimately show ?thesis by (simp add: data_sector_def)
qed


lemma alloc_table_step:
  assumes inv: "table_inv H h0 m0 D0 T n0 i (h, left, m, s)" and i: "n0 \<le> i" "32 * i < T" "T \<le> 800"
    and n: "numBits m0 = 1024"
    and space: "int (Suc i - n0) + int (min T (32 * Suc i) - 32 * n0) \<le> room m0"
  shows "yields (alloc_table junk i (h, left, m, s)) (table_inv H h0 m0 D0 T n0 (Suc i))"
proof -
  from inv i obtain pit D where h: "h = h0\<lparr>primaryIndexTable := pit\<rparr>" and pit: "length pit = NumDirect"
    and keep: "\<forall>k < n0. pit ! k = primaryIndexTable h0 ! k" and left: "left = int T - 32 * int i"
    and D: "disk_at H D s" and f: "allocates m0 (block_list pit D n0 i (32 * n0) (32 * i)) m"
    and same: "\<forall>j < 1024. int j \<notin> set (map ((!) pit) [n0..<i]) \<longrightarrow> D ! j = D0 ! j"
    by (auto simp: table_inv_def)
  define r where "r = min 32 (T - 32 * i)"
  have r: "min T (32 * Suc i) = 32 * i + r" "r \<le> 32" using i by (auto simp: r_def)
  have iN: "i < NumDirect" using i by (simp add: NumDirect_def)
  have room: "room m = room m0 - int (i - n0) - int (32 * i - 32 * n0)"
    using allocates_room [OF f] i by (simp add: block_list_def)
  have "0 < room m" using room space r i by (simp add: r_def)
  with Find_allocates [of m] allocates_wf [OF f] obtain p m1 where p: "BitMap_Find m = Inr (p, m1)" and fp: "allocates m [p] m1"
    by (auto elim!: yields_obtain)
  have room1: "int r \<le> room m1" using allocates_room [OF fp] room space i unfolding r by simp
  from fp n f have pr: "0 \<le> p" "p < 1024" "p \<notin> marked m" by (auto simp: allocates_def)
  obtain temp m2 where t: "fill_sectors [0..<r] (map (junk i) [0..<32], m1) = Inr (temp, m2)" "length temp = 32"
    and ft: "allocates m1 (map ((!) temp) [0..<r]) m2"
    using fill_sectors_ok [of m1 0 r "map (junk i) [0..<32]"] allocates_wf [OF fp] r(2) room1 by (auto elim!: yields_obtain)
  have fill: "(if left < 32 then fill_sectors [0..<nat left] (map (junk i) [0..<32], m1)
      else fill_sectors [0..<32] (map (junk i) [0..<32], m1)) = Inr (temp, m2)"
  proof -
    have "r = (if left < 32 then nat left else 32)" using left i by (auto simp: r_def)
    then show ?thesis using t(1) by (cases "left < 32") simp_all
  qed
  obtain s' where w: "WriteSector p (ints_bytes temp) s = Inr s'" "disk_at H (D[nat p := ints_bytes temp]) s'"
    using WriteSector_at [OF D, of p "ints_bytes temp"] pr t(2) by (auto elim!: yields_obtain)
  let ?pit = "pit[i := p]" and ?D = "D[nat p := ints_bytes temp]"
  have old: "pit ! k \<noteq> p \<and> 0 \<le> pit ! k" if "n0 \<le> k" "k < i" for k
  proof -
    have "pit ! k \<in> set (block_list pit D n0 i (32 * n0) (32 * i))" using that by (auto simp: block_list_def)
    then show ?thesis using f pr by (auto simp: allocates_def)
  qed
  have dold: "map (data_sector ?pit ?D) [32 * n0..<32 * i] = map (data_sector pit D) [32 * n0..<32 * i]"
  proof (rule map_cong)
    fix q assume "q \<in> set [32 * n0..<32 * i]"
    then have q: "n0 \<le> q div 32" "q div 32 < i" "q < 32 * i" by auto
    then show "data_sector ?pit ?D q = data_sector pit D q"
      using old [OF q(1,2)] pr(1) by (intro data_sector_old) auto
  qed simp
  have small: "int32 (temp ! j)" if "j < r" for j
  proof -
    have "temp ! j \<in> set (map ((!) temp) [0..<r])" using that by auto
    then show ?thesis using ft fp f n by (auto simp: allocates_def)
  qed
  have dnew: "map (data_sector ?pit ?D) [32 * i..<32 * i + r] = map ((!) temp) [0..<r]"
  proof (rule nth_equalityI)
    fix j assume "j < length (map (data_sector ?pit ?D) [32 * i..<32 * i + r])"
    then have j: "j < r" by simp
    have "data_sector ?pit ?D (32 * i + j) = temp ! j"
      using data_sector_new [OF disk_at_image [OF D] pr(1,2) t(2), of i pit "32 * i + j"] small [OF j] j r(2) iN pit by simp
    then show "map (data_sector ?pit ?D) [32 * i..<32 * i + r] ! j = map ((!) temp) [0..<r] ! j" using j by simp
  qed simp
  have "block_list ?pit ?D n0 (Suc i) (32 * n0) (32 * i + r) =
      (map ((!) pit) [n0..<i] @ [p]) @ map (data_sector pit D) [32 * n0..<32 * i] @ map ((!) temp) [0..<r]"
    using i iN pit upt_add_eq_append [of "32 * n0" "32 * i" r]
    by (simp add: block_list_def dold dnew cong: map_cong)
  then have "mset (block_list ?pit ?D n0 (Suc i) (32 * n0) (32 * i + r)) =
      mset ((block_list pit D n0 i (32 * n0) (32 * i) @ [p]) @ map ((!) temp) [0..<r])"
    by (simp add: block_list_def)
  then have "allocates m0 (block_list ?pit ?D n0 (Suc i) (32 * n0) (32 * i + r)) m2"
    using allocates_cong [OF allocates_append [OF allocates_append [OF f fp] ft]] by metis
  moreover have "D[nat p := ints_bytes temp] ! j = D0 ! j" if "j < 1024" "int j \<notin> set (map ((!) ?pit) [n0..<Suc i])" for j
  proof -
    have "int j \<noteq> p" "int j \<notin> set (map ((!) pit) [n0..<i])" using that(2) i iN pit by auto
    then show ?thesis using same that(1) pr(1) by simp
  qed
  ultimately have "table_inv H h0 m0 D0 T n0 (Suc i)
      (h\<lparr>primaryIndexTable := ?pit\<rparr>, if left < 32 then left else left - 32, m2, s')"
    unfolding table_inv_def prod.case r(1) using h pit keep i iN w(2) left by (intro exI [of _ ?pit] exI [of _ ?D]) auto
  then show ?thesis
    using p fill w(1) iN h by (cases "left < 32") (simp_all add: alloc_table_def set_entry_def Let_def)
qed


lemma alloc_tables:
  assumes T: "T \<le> 800" "32 * n0 \<le> T" and n: "numBits m0 = 1024" and m: "wf_map m0"
    and b: "b = (T + 31) div 32"
    and space: "int (b - n0) + int (T - 32 * n0) \<le> room m0"
    and start: "length (primaryIndexTable h0) = NumDirect" "disk_at H D0 s" "32 * n0 < T \<longrightarrow> left = int T - 32 * int n0"
  shows "yields (foldE (alloc_table junk) [n0..<b] (h0, left, m0, s)) (table_inv H h0 m0 D0 T n0 b)"
proof -
  have nb: "n0 \<le> b" using T b by simp
  have "table_inv H h0 m0 D0 T n0 n0 (h0, left, m0, s)"
    using start m T by (auto simp: table_inv_def block_list_def allocates_Nil intro!: exI [of _ "primaryIndexTable h0"])
  moreover have "yields (alloc_table junk ([n0..<b] ! k) st) (table_inv H h0 m0 D0 T n0 (n0 + Suc k))"
    if k: "k < length [n0..<b]" and inv: "table_inv H h0 m0 D0 T n0 (n0 + k) st" for k st
  proof -
    obtain h l m t where st: "st = (h, l, m, t)" by (cases st) auto
    have lt: "32 * (n0 + k) < T" using k b by auto
    have "int (Suc (n0 + k) - n0) + int (min T (32 * Suc (n0 + k)) - 32 * n0) \<le> room m0"
    proof -
      have "int (Suc (n0 + k) - n0) \<le> int (b - n0)" using k by simp
      moreover have "int (min T (32 * Suc (n0 + k)) - 32 * n0) \<le> int (T - 32 * n0)" by simp
      ultimately show ?thesis using space by linarith
    qed
    from alloc_table_step [OF inv [unfolded st] _ lt T(1) n this] show ?thesis using k by (simp add: st)
  qed
  ultimately show ?thesis
    using yields_foldE [of "\<lambda>k. table_inv H h0 m0 D0 T n0 (n0 + k)" "(h0, left, m0, s)" "[n0..<b]" "alloc_table junk"] nb by simp
qed

section \<open>Well-formed files\<close>

definition num_tables :: "FileHeader \<Rightarrow> nat" where
  "num_tables h = nat (divRoundUp (numSectors h) IndexSize)"

text \<open>All sectors that belong to the file (its header apart): index blocks, then data.\<close>

definition file_blocks :: "FileHeader \<Rightarrow> byte list list \<Rightarrow> int list" where
  "file_blocks h D = block_list (primaryIndexTable h) D 0 (num_tables h) 0 (nat (numSectors h))"

definition wf_file :: "FileHeader \<Rightarrow> byte list list \<Rightarrow> bool" where
  "wf_file h D \<longleftrightarrow> length (primaryIndexTable h) = NumDirect \<and> 0 \<le> numBytes h \<and> numBytes h \<le> 128 * numSectors h \<and>
     numSectors h \<le> 800 \<and> distinct (file_blocks h D) \<and> set (file_blocks h D) \<subseteq> {0..<1024}"

lemma num_tables_eq: "0 \<le> numSectors h \<Longrightarrow> num_tables h = (nat (numSectors h) + 31) div 32"
  by (simp add: num_tables_def divRoundUp_nonneg nat_div_distrib nat_add_distrib)

lemma num_tables_bound: "0 \<le> numSectors h \<Longrightarrow> numSectors h \<le> 800 \<Longrightarrow> num_tables h \<le> NumDirect"
  by (simp add: num_tables_eq NumDirect_def)

text \<open>
  \<^verbatim>\<open>Allocate\<close> when the map has room for the data and the index blocks.
\<close>

lemma Allocate_ok:
  assumes size: "0 \<le> fileSize" "fileSize \<le> 102400" and n: "numBits m = 1024" and m: "wf_map m"
    and space: "divRoundUp fileSize SectorSize + divRoundUp (divRoundUp fileSize SectorSize) IndexSize \<le> room m"
    and h: "length (primaryIndexTable h) = NumDirect" and D: "disk_at H D s"
  shows "yields (Allocate junk now fileSize ftype h m s) (\<lambda>(ok, h', m', s'). ok \<and>
    (\<exists>D'. disk_at H D' s' \<and> wf_file h' D' \<and> numBytes h' = fileSize \<and> fileType h' = ftype \<and> createTime h' = now \<and>
      numSectors h' = divRoundUp fileSize SectorSize \<and> numVisits h' = numVisits h \<and>
      lastVisitTime h' = lastVisitTime h \<and> lastWriteTime h' = lastWriteTime h \<and>
      allocates m (file_blocks h' D') m' \<and>
      (\<forall>j < 1024. int j \<notin> set (file_blocks h' D') \<longrightarrow> D' ! j = D ! j)))"
proof -
  define h0 where "h0 = h\<lparr>numBytes := fileSize, numSectors := divRoundUp fileSize SectorSize, fileType := ftype, createTime := now\<rparr>"
  define T where "T = nat (divRoundUp fileSize SectorSize)"
  have ns: "numSectors h0 = int T" "0 \<le> numSectors h0" "divRoundUp fileSize SectorSize = int T"
    using divRoundUp_bounds(3) [of fileSize SectorSize] size by (simp_all add: h0_def T_def)
  have T: "T \<le> 800" using divRoundUp_bounds(2) [of fileSize SectorSize] size ns by simp
  have fits: "fileSize \<le> 128 * int T" using divRoundUp_bounds(1) [of fileSize SectorSize] size ns by simp
  have b: "num_tables h0 = (T + 31) div 32" using ns by (simp add: num_tables_eq)
  have sp: "int (num_tables h0) + int T \<le> room m"
    using space ns by (simp add: num_tables_def divRoundUp_bounds(3))
  from alloc_tables [of T 0 m "num_tables h0" h0 H D s "int T" junk] T n m b sp h D
  have "yields (foldE (alloc_table junk) [0..<num_tables h0] (h0, int T, m, s)) (table_inv H h0 m D T 0 (num_tables h0))"
    by (simp add: h0_def)
  then obtain h' l' m' s' where run: "foldE (alloc_table junk) [0..<num_tables h0] (h0, int T, m, s) = Inr (h', l', m', s')"
    and inv: "table_inv H h0 m D T 0 (num_tables h0) (h', l', m', s')" by (auto elim!: yields_obtain)
  obtain pit D' where h': "h' = h0\<lparr>primaryIndexTable := pit\<rparr>" and pit: "length pit = NumDirect" and D': "disk_at H D' s'"
    and al: "allocates m (block_list pit D' 0 (num_tables h0) 0 T) m'"
    and same: "\<forall>j < 1024. int j \<notin> set (map ((!) pit) [0..<num_tables h0]) \<longrightarrow> D' ! j = D ! j"
  proof -
    have "min T (32 * num_tables h0) = T" using b by auto
    then show thesis using inv that by (auto simp: table_inv_def)
  qed
  have fb: "file_blocks h' D' = block_list pit D' 0 (num_tables h0) 0 T"
    using ns(1) by (simp add: file_blocks_def h' num_tables_def)
  have wf: "wf_file h' D'"
    using al pit size fits T ns(1) n unfolding wf_file_def fb by (auto simp: h' h0_def allocates_def T_def)
  have frame: "D' ! j = D ! j" if "j < 1024" "int j \<notin> set (file_blocks h' D')" for j
    using that same unfolding fb by (auto simp: block_list_def)
  have "BitMap_NumClear m = Inr (room m)" using m by (simp add: bitmap_simps room_def)
  moreover have "\<not> room m < numSectors h0" using sp ns by simp
  ultimately have "Allocate junk now fileSize ftype h m s = Inr (True, h', m', s')"
    using run ns(1) unfolding Allocate_def h0_def [symmetric] Let_def num_tables_def [of h0, symmetric] by simp
  then show ?thesis
    using D' wf frame al ns(3) fb by (auto intro!: exI [of _ D'] simp: h' h0_def)
qed


lemma block_list_mem:
  "k \<in> set (block_list pit D a b c d) \<longleftrightarrow> (\<exists>i. a \<le> i \<and> i < b \<and> k = pit ! i) \<or> (\<exists>q. c \<le> q \<and> q < d \<and> k = data_sector pit D q)"
  by (auto simp: block_list_def)

lemma distinct_block_list:
  "distinct (block_list pit D a b c d) \<longleftrightarrow> inj_on ((!) pit) {a..<b} \<and> inj_on (data_sector pit D) {c..<d} \<and>
     (\<forall>i q. a \<le> i \<and> i < b \<and> c \<le> q \<and> q < d \<longrightarrow> pit ! i \<noteq> data_sector pit D q)"
proof -
  have "(!) pit ` {a..<b} \<inter> data_sector pit D ` {c..<d} = {} \<longleftrightarrow>
      (\<forall>i q. a \<le> i \<and> i < b \<and> c \<le> q \<and> q < d \<longrightarrow> pit ! i \<noteq> data_sector pit D q)"
    by (auto simp: disjoint_iff) fastforce
  then show ?thesis by (simp add: block_list_def distinct_map)
qed

text \<open>The contents of one index block are consecutive data sectors of the file.\<close>

lemma take_index_block:
  assumes "r \<le> 32"
  shows "take r (bytes_ints 32 (D ! nat (pit ! i))) = map (data_sector pit D) [32 * i..<32 * i + r]"
proof (rule nth_equalityI)
  fix j assume "j < length (take r (bytes_ints 32 (D ! nat (pit ! i))))"
  then have j: "j < r" "j < 32" using assms by simp_all
  then have "(32 * i + j) div 32 = i" "(32 * i + j) mod 32 = j" by simp_all
  then show "take r (bytes_ints 32 (D ! nat (pit ! i))) ! j = map (data_sector pit D) [32 * i..<32 * i + r] ! j"
    using j by (simp add: data_sector_def)
qed (use assms in simp)

lemma file_block_range:
  assumes "wf_file h D" "k \<in> set (file_blocks h D)"
  shows "0 \<le> k" "k < 1024"
  using assms by (auto simp: wf_file_def)

lemma wf_file_numSectors: "wf_file h D \<Longrightarrow> 0 \<le> numSectors h"
  by (simp add: wf_file_def)

lemma index_block_mem: "i < num_tables h \<Longrightarrow> primaryIndexTable h ! i \<in> set (file_blocks h D)"
  by (auto simp: file_blocks_def block_list_mem)

lemma data_sector_mem: "q < nat (numSectors h) \<Longrightarrow> data_sector (primaryIndexTable h) D q \<in> set (file_blocks h D)"
  by (auto simp: file_blocks_def block_list_mem)

lemma ByteToSector_ok:
  assumes wf: "wf_file h D" and o: "0 \<le> offset" "offset < 128 * numSectors h" and D: "disk_at H D s"
  shows "yields (ByteToSector offset h s) (\<lambda>(k, s'). k = data_sector (primaryIndexTable h) D (nat (offset div 128)) \<and> disk_at H D s')"
proof -
  define q where "q = nat (offset div 128)"
  have q: "offset div 128 = int q" using o by (simp add: q_def)
  have "offset div 4096 = (offset div 128) div 32" using zdiv_zmult2_eq [of 32 offset 128] by simp
  then have i: "offset div 4096 = int (q div 32)" by (simp add: q zdiv_int)
  have "offset mod 4096 = 128 * ((offset div 128) mod 32) + offset mod 128"
    using zmod_zmult2_eq [of 32 offset 128] by simp
  then have off: "(offset mod 4096) div 128 = int (q mod 32)" by (simp add: q zmod_int)
  have qn: "q < nat (numSectors h)" using o q by linarith
  then have t: "q div 32 < num_tables h" using wf_file_numSectors [OF wf] by (simp add: num_tables_eq)
  note pr = file_block_range [OF wf index_block_mem [OF t]]
  have "num_tables h \<le> NumDirect" using wf num_tables_bound wf_file_numSectors by (auto simp: wf_file_def)
  then show ?thesis
    using ReadSector_at [OF D pr] t o i off
    by (auto simp: ByteToSector_def sdiv_nonneg smod_nonneg get_entry_def data_sector_def q elim!: yields_mono)
qed

lemma FetchFrom_at:
  "disk_at H D s \<Longrightarrow> 0 \<le> k \<Longrightarrow> k < NumSectors \<Longrightarrow>
   yields (FileHeader_FetchFrom k s) (\<lambda>(h, s'). h = header_of_bytes (D ! nat k) \<and> disk_at H D s')"
  using ReadSector_at [of H D s k] by (auto simp: FileHeader_FetchFrom_def elim!: yields_mono)

lemma WriteBack_at:
  "disk_at H D s \<Longrightarrow> 0 \<le> k \<Longrightarrow> k < NumSectors \<Longrightarrow> length (primaryIndexTable h) = NumDirect \<Longrightarrow>
   yields (FileHeader_WriteBack k h s) (disk_at H (D[nat k := header_bytes h]))"
  using WriteSector_at [of H D s k "header_bytes h"] by (simp add: FileHeader_WriteBack_def length_header_bytes)

definition dealloc_inv :: "nat set \<Rightarrow> FileHeader \<Rightarrow> BitMap \<Rightarrow> byte list list \<Rightarrow> nat \<Rightarrow> int \<times> BitMap \<times> disksys \<Rightarrow> bool" where
  "dealloc_inv H h m0 D i = (\<lambda>(left, m, s). disk_at H D s \<and> wf_map m \<and> numBits m = numBits m0 \<and>
     (32 * int i < numSectors h \<longrightarrow> left = numSectors h - 32 * int i) \<and>
     marked m = marked m0 - set (block_list (primaryIndexTable h) D 0 i 0 (min (nat (numSectors h)) (32 * i))))"

lemma dealloc_table_step:
  assumes wf: "wf_file h D" and m0: "numBits m0 = 1024" "set (file_blocks h D) \<subseteq> marked m0"
    and inv: "dealloc_inv H h m0 D i (left, m, s)" and i: "i < num_tables h"
  shows "yields (dealloc_table h i (left, m, s)) (dealloc_inv H h m0 D (Suc i))"
proof -
  let ?pit = "primaryIndexTable h"
  define T where "T = nat (numSectors h)"
  have T: "numSectors h = int T" using wf_file_numSectors [OF wf] by (simp add: T_def)
  have lt: "32 * i < T" using i T by (simp add: num_tables_eq)
  define r where "r = min 32 (T - 32 * i)"
  have r: "min T (32 * Suc i) = 32 * i + r" "r \<le> 32" using lt by (auto simp: r_def)
  from inv lt have D: "disk_at H D s" and m: "wf_map m" "numBits m = 1024" and left: "left = int T - 32 * int i"
    and mk: "marked m = marked m0 - set (block_list ?pit D 0 i 0 (32 * i))"
    using m0 by (auto simp: dealloc_inv_def T min_def)
  have iN: "i < NumDirect" using i num_tables_bound [of h] wf wf_file_numSectors [OF wf] by (simp add: wf_file_def)
  define p where "p = ?pit ! i"
  have pr: "0 \<le> p" "p < 1024" using file_block_range [OF wf index_block_mem [OF i]] by (simp_all add: p_def)
  have dist: "distinct (block_list ?pit D 0 (num_tables h) 0 T)"
    using wf by (simp add: wf_file_def file_blocks_def T_def)
  have "p \<notin> set (block_list ?pit D 0 i 0 (32 * i))"
  proof -
    have "inj_on ((!) ?pit) {0..<num_tables h}" using dist by (simp add: distinct_block_list)
    then have "?pit ! k \<noteq> ?pit ! i" if "k < i" for k using that i inj_on_eq_iff [of _ _ k i] by fastforce
    moreover have "?pit ! i \<noteq> data_sector ?pit D q" if "q < 32 * i" for q
      using dist that i lt by (simp add: distinct_block_list)
    ultimately show ?thesis unfolding block_list_mem p_def by metis
  qed
  moreover have "p \<in> marked m0" using index_block_mem [OF i, of D] m0(2) by (auto simp: p_def)
  ultimately have test: "BitMap_Test p m = Inr True" using m pr mk by (simp add: bitmap_simps)
  let ?ds = "map (data_sector ?pit D) [32 * i..<32 * i + r]"
  have "set ?ds \<subseteq> {0..<1024}"
    using file_block_range [OF wf data_sector_mem [of _ h D]] r(1) lt by (auto simp: T_def [symmetric] min_def split: if_splits)
  then obtain m1 where m1: "foldE BitMap_Clear ?ds m = Inr m1" "wf_map m1" "numBits m1 = 1024" "marked m1 = marked m - set ?ds"
    using Clear_loop [OF m(1), of ?ds] m(2) by auto
  obtain m2 where m2: "BitMap_Clear p m1 = Inr m2" "wf_map m2" "numBits m2 = 1024" "marked m2 = marked m1 - {p}"
    using BitMap_Clear_ok [OF m1(2), of p] pr m1(3) by auto
  obtain s' where s': "ReadSector p s = Inr (D ! nat p, s')" "disk_at H D s'"
    using ReadSector_at [OF D pr] by (auto elim!: yields_obtain)
  have "take r (bytes_ints 32 (D ! nat p)) = ?ds" using take_index_block [OF r(2)] by (simp add: p_def)
  moreover have "r = (if left < 32 then nat left else 32)" using left lt by (auto simp: r_def)
  ultimately have clr: "(if left < 32 then foldE BitMap_Clear (take (nat left) (bytes_ints 32 (D ! nat p))) m
      else foldE BitMap_Clear (bytes_ints 32 (D ! nat p)) m) = Inr m1"
    using m1(1) by (cases "left < 32") simp_all
  have "marked m2 = marked m0 - set (block_list ?pit D 0 (Suc i) 0 (32 * i + r))"
  proof -
    have "[0..<32 * i + r] = [0..<32 * i] @ [32 * i..<32 * i + r]" by (rule upt_add_eq_append) simp
    then have "set (block_list ?pit D 0 (Suc i) 0 (32 * i + r)) = insert p (set (block_list ?pit D 0 i 0 (32 * i)) \<union> set ?ds)"
      by (simp add: block_list_def p_def ac_simps del: set_upt)
    then show ?thesis unfolding m2(4) m1(4) mk by blast
  qed
  moreover have e: "min (nat (numSectors h)) (32 * Suc i) = 32 * i + r" using r(1) by (simp add: T)
  ultimately have "dealloc_inv H h m0 D (Suc i) (if left < 32 then left else left - 32, m2, s')"
    using s'(2) m2(2,3) m0(1) left unfolding dealloc_inv_def prod.case e by (auto simp: T)
  then show ?thesis
    using test s'(1) clr m2(1) iN
    by (cases "left < 32") (simp_all add: dealloc_table_def get_entry_def Let_def p_def)
qed

lemma Deallocate_ok:
  assumes wf: "wf_file h D" and m: "wf_map m" "numBits m = 1024" "set (file_blocks h D) \<subseteq> marked m" and D: "disk_at H D s"
  shows "yields (Deallocate h m s) (\<lambda>(m', s'). wf_map m' \<and> numBits m' = 1024 \<and>
    marked m' = marked m - set (file_blocks h D) \<and> disk_at H D s')"
proof -
  have "dealloc_inv H h m D 0 (numSectors h, m, s)" using m D by (simp add: dealloc_inv_def block_list_def)
  then have "yields (foldE (dealloc_table h) [0..<num_tables h] (numSectors h, m, s)) (dealloc_inv H h m D (length [0..<num_tables h]))"
    by (rule yields_foldE) (use dealloc_table_step [OF wf m(2,3)] in auto)
  moreover have "min (nat (numSectors h)) (32 * num_tables h) = nat (numSectors h)"
    using wf_file_numSectors [OF wf] by (auto simp: num_tables_eq)
  ultimately show ?thesis
    using m(2) by (auto simp: Deallocate_def num_tables_def [symmetric] dealloc_inv_def file_blocks_def elim!: yields_mono)
qed


section \<open>Extending a file\<close>

lemma data_sector_rest:
  assumes D: "disk_image D" and i: "0 \<le> pit ! i" "pit ! i < 1024"
    and temp: "length temp = 32" "\<forall>j < 32. j < u \<longrightarrow> temp ! j = bytes_ints 32 (D ! nat (pit ! i)) ! j"
    and inj: "\<forall>k < i. pit ! k \<noteq> pit ! i \<and> 0 \<le> pit ! k" and q: "q < 32 * i + u" "u \<le> 32"
  shows "data_sector pit (D[nat (pit ! i) := ints_bytes temp]) q = data_sector pit D q"
proof (cases "q < 32 * i")
  case True
  then have "q div 32 < i" by auto
  then have "nat (pit ! (q div 32)) \<noteq> nat (pit ! i)" using inj i by fastforce
  then show ?thesis by (simp add: data_sector_def)
next
  case False
  then have e: "q div 32 = i" using q by auto
  then have m: "q mod 32 = q - 32 * i" using mult_div_mod_eq [of 32 q] by simp
  have l: "q - 32 * i < 32" "q - 32 * i < u" using q False by auto
  have "temp ! (q - 32 * i) = bytes_ints 32 (D ! nat (pit ! i)) ! (q - 32 * i)" using temp l by blast
  moreover from this have "int32 (temp ! (q - 32 * i))"
    using list_all_int32_bytes_ints [of 32 "D ! nat (pit ! i)"] l by (simp add: list_all_length)
  ultimately show ?thesis
    using nth_bytes_ints [of "q - 32 * i" temp] temp(1) l D i by (simp add: data_sector_def e m disk_image_def)
qed

lemma extend_block_ok:
  assumes wf: "wf_file h D" and m: "wf_map m" "numBits m = 1024" "set (file_blocks h D) \<subseteq> marked m"
    and D: "disk_at H D s" and N: "numSectors h = int N" and r: "r = min E (32 * num_tables h - N)" "int r \<le> room m"
  shows "yields (extend_block (h\<lparr>numBytes := nb\<rparr>) (int E) m s) (\<lambda>(left, m', s').
    (32 * num_tables h < N + E \<longrightarrow> left = int N + int E - 32 * int (num_tables h)) \<and>
    (\<exists>D'. disk_at H D' s' \<and> allocates m (map (data_sector (primaryIndexTable h) D') [N..<N + r]) m' \<and>
      (\<forall>q < N. data_sector (primaryIndexTable h) D' q = data_sector (primaryIndexTable h) D q) \<and>
      (\<forall>j < 1024. int j \<notin> set (map ((!) (primaryIndexTable h)) [0..<num_tables h]) \<longrightarrow> D' ! j = D ! j)))"
proof (cases "N mod 32 = 0")
  case True
  then have nt: "32 * num_tables h = N" using N by (auto simp: num_tables_eq)
  have "int N mod 32 = int (N mod 32)" by (simp add: zmod_int)
  then have "int N smod 32 = 0" using True by (simp add: smod_nonneg)
  then show ?thesis
    using D m(1) r nt N by (auto simp: extend_block_def allocates_Nil intro!: exI [of _ D])
next
  case False
  let ?pit = "primaryIndexTable h"
  define u where "u = N mod 32"
  define i where "i = N div 32"
  have "int N mod 32 = int (N mod 32)" by (simp add: zmod_int)
  then have u: "0 < u" "u < 32" "int N smod 32 = int u" "N = 32 * i + u"
    using False by (simp_all add: u_def i_def smod_nonneg)
  have nt: "num_tables h = Suc i" using N u by (simp add: num_tables_eq)
  have d: "divRoundUp (int N) 32 - 1 = int i"
    using nt N u by (simp add: num_tables_def)
  have iN: "i < NumDirect" using wf N u by (simp add: wf_file_def NumDirect_def)
  have mem: "?pit ! k \<in> set (file_blocks h D)" if "k \<le> i" for k using index_block_mem [of k h D] that nt by simp
  note pr = file_block_range [OF wf mem [of i]]
  have rr: "r = min E (32 - u)" using r nt u by simp
  then have ur: "u + r \<le> 32" using u(2) by simp
  let ?t0 = "bytes_ints 32 (D ! nat (?pit ! i))"
  obtain s1 where s1: "ReadSector (?pit ! i) s = Inr (D ! nat (?pit ! i), s1)" "disk_at H D s1"
    using ReadSector_at [OF D] pr by (auto elim!: yields_obtain)
  obtain temp m' where t: "fill_sectors [u..<u + r] (?t0, m) = Inr (temp, m')" "length temp = 32"
    "\<forall>j < 32. j < u \<or> u + r \<le> j \<longrightarrow> temp ! j = ?t0 ! j" and al: "allocates m (map ((!) temp) [u..<u + r]) m'"
    using fill_sectors_ok [OF m(1) _ r(2), of u ?t0] ur by (auto elim!: yields_obtain)
  let ?D = "D[nat (?pit ! i) := ints_bytes temp]"
  obtain s2 where s2: "WriteSector (?pit ! i) (ints_bytes temp) s1 = Inr s2" "disk_at H ?D s2"
    using WriteSector_at [OF s1(2), of "?pit ! i" "ints_bytes temp"] pr t(2) by (auto elim!: yields_obtain)
  have fill: "(if int E \<ge> 32 - int u then fill_sectors [nat (int u)..<32] (?t0, m)
      else fill_sectors [nat (int u)..<nat (int u + int E)] (?t0, m)) = Inr (temp, m')"
    using t(1) rr u(2) by (cases "32 - u \<le> E") (auto simp: nat_add_distrib)
  have inj: "\<forall>k < i. ?pit ! k \<noteq> ?pit ! i \<and> 0 \<le> ?pit ! k"
  proof (intro allI impI)
    fix k assume k: "k < i"
    have "inj_on ((!) ?pit) {0..<Suc i}" using wf nt by (simp add: wf_file_def file_blocks_def distinct_block_list)
    then show "?pit ! k \<noteq> ?pit ! i \<and> 0 \<le> ?pit ! k"
      using k inj_on_eq_iff [of "(!) ?pit" "{0..<Suc i}" k i] file_block_range(1) [OF wf mem [of k]] by auto
  qed
  have old: "data_sector ?pit ?D q = data_sector ?pit D q" if "q < N" for q
    using data_sector_rest [OF disk_at_image [OF D] _ _ t(2), of ?pit i u q] pr t(3) inj that u by auto
  have "map (data_sector ?pit ?D) [N..<N + r] = map ((!) temp) [u..<u + r]"
  proof (rule nth_equalityI)
    fix j assume "j < length (map (data_sector ?pit ?D) [N..<N + r])"
    then have j: "j < r" by simp
    have "temp ! (u + j) \<in> set (map ((!) temp) [u..<u + r])" using j by auto
    then have "int32 (temp ! (u + j))" using al m(2) by (auto simp: allocates_def)
    moreover have "?pit[i := ?pit ! i] = ?pit" by simp
    ultimately have "data_sector ?pit ?D (N + j) = temp ! (u + j)"
      using data_sector_new [OF disk_at_image [OF D] _ _ t(2), of "?pit ! i" i ?pit "N + j"] pr j rr u iN wf
      by (auto simp: wf_file_def)
    then show "map (data_sector ?pit ?D) [N..<N + r] ! j = map ((!) temp) [u..<u + r] ! j" using j by simp
  qed simp
  then have al': "allocates m (map (data_sector ?pit ?D) [N..<N + r]) m'" using al by simp
  have frame: "?D ! j = D ! j" if "int j \<notin> set (map ((!) ?pit) [0..<num_tables h])" for j
    using that nt pr by auto
  have "extend_block (h\<lparr>numBytes := nb\<rparr>) (int E) m s =
      Inr (if int E \<ge> 32 - int u then int E - (32 - int u) else int E, m', s2)"
    using s1(1) fill s2(1) iN u(1) N d
    by (cases "32 - int u \<le> int E") (simp_all add: extend_block_def get_entry_def u(3) Let_def)
  then show ?thesis
    using s2(2) al' old frame nt u by (auto intro!: exI [of _ ?D])
qed


lemma block_list_split:
  assumes "nt \<le> b" "N \<le> c" "c \<le> T"
  shows "mset (block_list pit D 0 b 0 T) =
    mset (block_list pit D 0 nt 0 N @ map (data_sector pit D) [N..<c] @ block_list pit D nt b c T)"
proof -
  have "[0..<b] = [0..<nt] @ [nt..<b]" "[0..<T] = [0..<N] @ [N..<c] @ [c..<T]"
    using assms upt_add_eq_append [of 0 nt "b - nt"] upt_add_eq_append [of 0 N "T - N"] upt_add_eq_append [of N c "T - c"] by simp_all
  then show ?thesis by (simp add: block_list_def)
qed

text \<open>What \<^verbatim>\<open>ExtendAllocate\<close> promises about the extended file.\<close>

definition extends :: "FileHeader \<Rightarrow> byte list list \<Rightarrow> BitMap \<Rightarrow> FileHeader \<Rightarrow> byte list list \<Rightarrow> BitMap \<Rightarrow> bool" where
  "extends h D m h' D' m' \<longleftrightarrow> wf_file h' D' \<and> numSectors h \<le> numSectors h' \<and>
     h' = h\<lparr>primaryIndexTable := primaryIndexTable h', numBytes := numBytes h', numSectors := numSectors h'\<rparr> \<and>
     (\<exists>news. allocates m news m' \<and> set (file_blocks h' D') = set (file_blocks h D) \<union> set news) \<and>
     (\<forall>q < nat (numSectors h). data_sector (primaryIndexTable h') D' q = data_sector (primaryIndexTable h) D q) \<and>
     (\<forall>j < 1024. int j \<notin> set (map ((!) (primaryIndexTable h')) [0..<num_tables h']) \<longrightarrow> D' ! j = D ! j)"

lemma extends_more:
  assumes wf: "wf_file h D" and old: "set (file_blocks h D) \<subseteq> marked m" "numBits m = 1024"
    and N: "numSectors h = int N" and T: "T = N + E" "T \<le> 800" and nb: "0 \<le> nb" "nb \<le> 128 * int T"
    and c: "N \<le> c" "c \<le> T" and b: "b = (T + 31) div 32" "num_tables h \<le> b"
    and al1: "allocates m (map (data_sector (primaryIndexTable h) D1) [N..<c]) m1"
    and keep1: "\<forall>q < N. data_sector (primaryIndexTable h) D1 q = data_sector (primaryIndexTable h) D q"
    and frame1: "\<forall>j < 1024. int j \<notin> set (map ((!) (primaryIndexTable h)) [0..<num_tables h]) \<longrightarrow> D1 ! j = D ! j"
    and pit: "length pit = NumDirect" "\<forall>k < num_tables h. pit ! k = primaryIndexTable h ! k"
    and al2: "allocates m1 (block_list pit D2 (num_tables h) b c T) m2"
    and cb: "c \<le> 32 * num_tables h"
    and frame2: "\<forall>j < 1024. int j \<notin> set (map ((!) pit) [num_tables h..<b]) \<longrightarrow> D2 ! j = D1 ! j"
  shows "extends h D m (h\<lparr>numBytes := nb, primaryIndexTable := pit, numSectors := int T\<rparr>) D2 m2"
proof -
  let ?h = "h\<lparr>numBytes := nb, primaryIndexTable := pit, numSectors := int T\<rparr>"
  let ?pit0 = "primaryIndexTable h"
  have nt: "num_tables ?h = b" using b by (simp add: num_tables_eq)
  have same: "data_sector pit D2 q = data_sector ?pit0 D1 q" if q: "q < c" for q
  proof -
    have k: "q div 32 < num_tables h" using q cb by auto
    have mem: "?pit0 ! (q div 32) \<in> set (file_blocks h D)" using index_block_mem [OF k] .
    note pr = file_block_range [OF wf mem]
    have "?pit0 ! (q div 32) \<notin> set (map ((!) pit) [num_tables h..<b])"
      using mem old al1 al2 by (auto simp: allocates_def block_list_def)
    then have "D2 ! nat (?pit0 ! (q div 32)) = D1 ! nat (?pit0 ! (q div 32))" using frame2 pr by simp
    then show ?thesis using pit(2) k by (simp add: data_sector_def)
  qed
  have e1: "map (data_sector pit D2) [N..<c] = map (data_sector ?pit0 D1) [N..<c]" using same by simp
  have e2: "block_list pit D2 0 (num_tables h) 0 N = file_blocks h D"
    using same keep1 c(1) pit(2) N by (simp add: file_blocks_def block_list_def)
  have fb: "file_blocks ?h D2 = block_list pit D2 0 b 0 T" by (simp add: file_blocks_def nt)
  have ms: "mset (file_blocks ?h D2) =
      mset (file_blocks h D @ (map (data_sector ?pit0 D1) [N..<c] @ block_list pit D2 (num_tables h) b c T))"
    unfolding fb block_list_split [OF b(2) c] e1 e2 ..
  let ?news = "map (data_sector ?pit0 D1) [N..<c] @ block_list pit D2 (num_tables h) b c T"
  have al: "allocates m ?news m2" using allocates_append [OF al1 al2] .
  have st: "set (file_blocks ?h D2) = set (file_blocks h D) \<union> set ?news"
    using mset_eq_setD [OF ms] by simp
  have "distinct (file_blocks h D @ ?news)" using wf al old(1) by (auto simp: wf_file_def allocates_def)
  then have "distinct (file_blocks ?h D2)" using mset_eq_imp_distinct_iff [OF ms] by blast
  moreover have "set (file_blocks ?h D2) \<subseteq> {0..<1024}" using st wf al old(2) by (auto simp: wf_file_def allocates_def)
  ultimately have "wf_file ?h D2" using nb T(2) pit(1) unfolding wf_file_def by simp
  moreover have "D2 ! j = D ! j" if j: "j < 1024" "int j \<notin> set (map ((!) pit) [0..<b])" for j
  proof -
    have "int j \<notin> set (map ((!) pit) [num_tables h..<b])" using j(2) by auto
    moreover have "map ((!) ?pit0) [0..<num_tables h] = map ((!) pit) [0..<num_tables h]" using pit(2) by simp
    then have "int j \<notin> set (map ((!) ?pit0) [0..<num_tables h])" using j(2) b(2) by auto
    ultimately show ?thesis using frame1 frame2 j(1) by simp
  qed
  moreover have "data_sector pit D2 q = data_sector ?pit0 D q" if "q < N" for q using same [of q] keep1 that c(1) by simp
  ultimately show ?thesis
    using al st T(1) N unfolding extends_def nt by (auto intro!: exI [of _ ?news])
qed


text \<open>
  \<^verbatim>\<open>ExtendAllocate\<close> when the map has room for the new data and index blocks.
\<close>

lemma ExtendAllocate_ok:
  assumes wf: "wf_file h D" and m: "wf_map m" "numBits m = 1024" "set (file_blocks h D) \<subseteq> marked m"
    and D: "disk_at H D s" and e: "0 < extra" and N: "numSectors h = int N" and E: "divRoundUp extra SectorSize = int E"
    and T: "N + E \<le> 800" and space: "int E + int ((N + E + 31) div 32 - num_tables h) \<le> room m"
  shows "yields (ExtendAllocate junk extra h m s) (\<lambda>(ok, h', m', s'). ok \<and> numBytes h' = numBytes h + extra \<and>
    (\<exists>D'. disk_at H D' s' \<and> extends h D m h' D' m'))"
proof (cases "divRoundUp (numBytes h + extra) SectorSize \<le> numSectors h")
  case True
  then have "numBytes h + extra \<le> 128 * numSectors h"
    using divRoundUp_bounds(1) [of "numBytes h + extra" SectorSize] e wf by (simp add: wf_file_def)
  then have "wf_file (h\<lparr>numBytes := numBytes h + extra\<rparr>) D"
    using wf e by (simp add: wf_file_def file_blocks_def num_tables_def)
  then have "extends h D m (h\<lparr>numBytes := numBytes h + extra\<rparr>) D m"
    using m(1) by (auto simp: extends_def file_blocks_def num_tables_def allocates_Nil intro!: exI [of _ "[]"])
  then show ?thesis using True D by (auto simp: ExtendAllocate_def)
next
  case False
  let ?pit = "primaryIndexTable h" and ?h1 = "h\<lparr>numBytes := numBytes h + extra\<rparr>"
  define c where "c = N + min E (32 * num_tables h - N)"
  define b where "b = (N + E + 31) div 32"
  have nt: "num_tables h = (N + 31) div 32" using N by (simp add: num_tables_eq)
  have c: "N \<le> c" "c \<le> N + E" "c \<le> 32 * num_tables h" "num_tables h \<le> b" using nt by (auto simp: c_def b_def)
  have tables: "nat (divRoundUp (numSectors ?h1) IndexSize) = num_tables h"
    "nat (divRoundUp (int E + numSectors ?h1) IndexSize) = b"
    using N by (simp_all add: num_tables_def b_def divRoundUp_nonneg nat_div_distrib nat_add_distrib ac_simps)
  have nb: "0 \<le> numBytes h + extra" "numBytes h + extra \<le> 128 * int (N + E)"
    using wf e N divRoundUp_bounds(1) [of extra SectorSize] E by (auto simp: wf_file_def)
  have clear: "BitMap_NumClear m = Inr (room m)" using m by (simp add: bitmap_simps room_def)
  have "int (min E (32 * num_tables h - N)) \<le> room m" using space by simp
  from extend_block_ok [OF wf m D N refl this, of "numBytes h + extra"]
  obtain left m1 s1 D1 where ext: "extend_block ?h1 (int E) m s = Inr (left, m1, s1)"
    and left: "32 * num_tables h < N + E \<longrightarrow> left = int N + int E - 32 * int (num_tables h)"
    and D1: "disk_at H D1 s1" and al1: "allocates m (map (data_sector ?pit D1) [N..<c]) m1"
    and keep1: "\<forall>q < N. data_sector ?pit D1 q = data_sector ?pit D q"
    and frame1: "\<forall>j < 1024. int j \<notin> set (map ((!) ?pit) [0..<num_tables h]) \<longrightarrow> D1 ! j = D ! j"
    unfolding c_def by (auto elim!: yields_obtain)
  have len: "length ?pit = NumDirect" using wf by (simp add: wf_file_def)
  note more = extends_more [OF wf m(3,2) N refl T nb c(1,2) b_def c(4) al1 keep1 frame1]
  have "\<exists>pit left' m2 s2 D2. foldE (alloc_table junk) [num_tables h..<b] (?h1, left, m1, s1) =
      Inr (?h1\<lparr>primaryIndexTable := pit\<rparr>, left', m2, s2) \<and> length pit = NumDirect \<and>
      (\<forall>k < num_tables h. pit ! k = ?pit ! k) \<and> disk_at H D2 s2 \<and>
      allocates m1 (block_list pit D2 (num_tables h) b c (N + E)) m2 \<and>
      (\<forall>j < 1024. int j \<notin> set (map ((!) pit) [num_tables h..<b]) \<longrightarrow> D2 ! j = D1 ! j)"
  proof (cases "32 * num_tables h \<le> N + E")
    case True
    then have c32: "c = 32 * num_tables h" "min (N + E) (32 * b) = N + E" using nt by (auto simp: c_def b_def)
    have "int (b - num_tables h) + int (N + E - 32 * num_tables h) \<le> room m1"
      using allocates_room [OF al1] space True c(1) c32 by (simp add: b_def)
    from alloc_tables [OF T True _ _ b_def this, of ?h1 H D1 s1 left junk]
    have "yields (foldE (alloc_table junk) [num_tables h..<b] (?h1, left, m1, s1))
        (table_inv H ?h1 m1 D1 (N + E) (num_tables h) b)"
      using allocates_wf [OF al1] m(2) D1 left len by simp
    then obtain h2 l2 m2 s2 where run: "foldE (alloc_table junk) [num_tables h..<b] (?h1, left, m1, s1) = Inr (h2, l2, m2, s2)"
      and inv: "table_inv H ?h1 m1 D1 (N + E) (num_tables h) b (h2, l2, m2, s2)" by (auto elim!: yields_obtain)
    from inv obtain pit D2 where "h2 = ?h1\<lparr>primaryIndexTable := pit\<rparr>" "length pit = NumDirect"
      "\<forall>k < num_tables h. pit ! k = ?pit ! k" "disk_at H D2 s2"
      "allocates m1 (block_list pit D2 (num_tables h) b c (N + E)) m2"
      "\<forall>j < 1024. int j \<notin> set (map ((!) pit) [num_tables h..<b]) \<longrightarrow> D2 ! j = D1 ! j"
      unfolding table_inv_def prod.case c32 by auto
    with run show ?thesis by blast
  next
    case False
    then have "b = num_tables h" "c = N + E" using nt by (auto simp: b_def c_def)
    then show ?thesis
      using D1 len allocates_wf [OF al1] by (intro exI [of _ ?pit] exI [of _ D1]) (auto simp: block_list_def allocates_Nil)
  qed
  then obtain pit left' m2 s2 D2 where run: "foldE (alloc_table junk) [num_tables h..<b] (?h1, left, m1, s1) =
      Inr (?h1\<lparr>primaryIndexTable := pit\<rparr>, left', m2, s2)" and D2: "disk_at H D2 s2"
    and P: "length pit = NumDirect" "\<forall>k < num_tables h. pit ! k = ?pit ! k"
      "allocates m1 (block_list pit D2 (num_tables h) b c (N + E)) m2"
      "\<forall>j < 1024. int j \<notin> set (map ((!) pit) [num_tables h..<b]) \<longrightarrow> D2 ! j = D1 ! j" by blast
  have "\<not> room m < int E" using space by simp
  then have "ExtendAllocate junk extra h m s =
      Inr (True, h\<lparr>numBytes := numBytes h + extra, primaryIndexTable := pit, numSectors := int (N + E)\<rparr>, m2, s2)"
    unfolding ExtendAllocate_def Let_def E tables using False clear ext run N by (simp add: tables)
  then show ?thesis using more [OF P(1,2,3) c(3) P(4)] D2 by auto
qed


text \<open>The entries of the primary table stay 32-bit integers.\<close>

lemma Find_loop_int32:
  assumes "BitMap_Find_loop is m = Inr (p, m')" "\<forall>i \<in> set is. int32 i"
  shows "int32 p" "numBits m' = numBits m"
  using assms
  by (induction "is") (auto simp: int32_def bindE_eq_Inr BitMap_Mark_def ASSERT_eq_Inr requireE_eq_Inr split: if_splits)

lemma Find_int32:
  assumes "BitMap_Find m = Inr (p, m')" "numBits m = 1024"
  shows "int32 p" "numBits m' = 1024"
  using Find_loop_int32 [of "[0..numBits m - 1]" m p m'] assms by (auto simp: BitMap_Find_def int32_def)

lemma fill_sectors_numBits:
  assumes "fill_sectors js (temp, m) = Inr (temp', m')" "numBits m = 1024"
  shows "numBits m' = 1024"
proof -
  have "case (temp', m') of (_, m) \<Rightarrow> numBits m = 1024"
    using assms(1) unfolding fill_sectors_def
    by (rule foldE_invariant) (use assms(2) Find_int32(2) in \<open>auto simp: bindE_eq_Inr\<close>)
  then show ?thesis by simp
qed

lemma alloc_tables_int32:
  assumes "foldE (alloc_table junk) is (h, left, m, s) = Inr (h', left', m', s')" "numBits m = 1024"
    "list_all int32 (primaryIndexTable h)"
  shows "list_all int32 (primaryIndexTable h')"
proof -
  let ?P = "\<lambda>(h, left :: int, m, s :: disksys). list_all int32 (primaryIndexTable h) \<and> numBits m = 1024"
  have "?P (h', left', m', s')"
    using assms(1)
  proof (rule foldE_invariant)
    show "?P (h, left, m, s)" using assms(2,3) by simp
    fix i st st' assume P: "?P st" and r: "alloc_table junk i st = Inr st'"
    obtain h l m s where st: "st = (h, l, m, s)" by (cases st) auto
    from r obtain p m1 temp m2 s' where *: "BitMap_Find m = Inr (p, m1)"
      "(\<exists>js. fill_sectors js (map (junk i) [0..<nat IndexSize], m1) = Inr (temp, m2))"
      "fst st' = h\<lparr>primaryIndexTable := (primaryIndexTable h)[i := p]\<rparr>" "fst (snd (snd st')) = m2"
      by (auto simp: st alloc_table_def Let_def bindE_eq_Inr set_entry_def requireE_eq_Inr split: if_splits) blast+
    have "int32 p" "numBits m1 = 1024" using Find_int32 [OF *(1)] P by (simp_all add: st)
    moreover from this have "numBits m2 = 1024" using *(2) fill_sectors_numBits by blast
    moreover have "list_all int32 ((primaryIndexTable h)[i := p])"
      using P \<open>int32 p\<close> set_update_subset_insert [of "primaryIndexTable h" i p] by (auto simp: st list_all_iff)
    ultimately show "?P st'" using *(3,4) by (cases st') auto
  qed
  then show ?thesis by simp
qed

lemma Allocate_int32:
  assumes "Allocate junk now fileSize ftype h m s = Inr (True, h', m', s')" "numBits m = 1024" "list_all int32 (primaryIndexTable h)"
  shows "list_all int32 (primaryIndexTable h')"
  using assms alloc_tables_int32
  by (fastforce simp: Allocate_def Let_def bindE_eq_Inr split: if_splits)

lemma extend_block_numBits:
  "extend_block h left m s = Inr (left', m', s') \<Longrightarrow> numBits m = 1024 \<Longrightarrow> numBits m' = 1024"
  using fill_sectors_numBits by (fastforce simp: extend_block_def Let_def bindE_eq_Inr split: if_splits)

lemma ExtendAllocate_int32:
  assumes "ExtendAllocate junk extra h m s = Inr (True, h', m', s')" "numBits m = 1024" "list_all int32 (primaryIndexTable h)"
  shows "list_all int32 (primaryIndexTable h')"
  using assms
  by (auto simp: ExtendAllocate_def Let_def bindE_eq_Inr dest!: extend_block_numBits alloc_tables_int32 split: if_splits)

section \<open>Changes elsewhere on the disk\<close>

lemma file_frame:
  assumes wf: "wf_file h D" and same: "\<And>k. k \<in> set (file_blocks h D) \<Longrightarrow> D' ! nat k = D ! nat k"
  shows "file_blocks h D' = file_blocks h D" "wf_file h D'"
    "q < nat (numSectors h) \<Longrightarrow> data_sector (primaryIndexTable h) D' q = data_sector (primaryIndexTable h) D q"
proof -
  have ds: "data_sector (primaryIndexTable h) D' q = data_sector (primaryIndexTable h) D q" if "q < nat (numSectors h)" for q
  proof -
    have "q div 32 < num_tables h" using that by (auto simp: num_tables_eq)
    then show ?thesis using same [OF index_block_mem] by (simp add: data_sector_def)
  qed
  show "q < nat (numSectors h) \<Longrightarrow> data_sector (primaryIndexTable h) D' q = data_sector (primaryIndexTable h) D q" using ds .
  show "file_blocks h D' = file_blocks h D" using ds by (simp add: file_blocks_def block_list_def)
  then show "wf_file h D'" using wf by (simp add: wf_file_def)
qed

section \<open>Concrete headers and maps\<close>

definition blank_header :: FileHeader where
  "blank_header = \<lparr>createTime = 0, lastVisitTime = 0, lastWriteTime = 0, fileType = 0,
     primaryIndexTable = replicate 25 0, numVisits = 0, numBytes = 0, numSectors = 0\<rparr>"

lemma blank_header_wf: "wf_header blank_header"
  by (simp add: wf_header_def blank_header_def header_ints_def NumDirect_def list_all_iff)

definition clear_map :: BitMap where
  "clear_map = \<lparr>numBits = 1024, numWords = 32, bmap = replicate 32 0\<rparr>"

definition full_map :: BitMap where
  "full_map = \<lparr>numBits = 1024, numWords = 32, bmap = replicate 32 (- 1)\<rparr>"

lemma clear_map_ok: "wf_map clear_map" "numBits clear_map = 1024" "marked clear_map = {}" "room clear_map = 1024"
proof -
  show "wf_map clear_map" "numBits clear_map = 1024"
    by (simp_all add: clear_map_def wf_map_def divRoundUp_nonneg BitsInWord_def)
  show m: "marked clear_map = {}" by (auto simp: marked_def clear_map_def bit_at_def nat_less_iff)
  show "room clear_map = 1024" by (simp add: room_def m) (simp add: clear_map_def)
qed

lemma full_map_ok: "wf_map full_map" "numBits full_map = 1024" "marked full_map = {0..<1024}"
proof -
  show "wf_map full_map" "numBits full_map = 1024"
    by (simp_all add: full_map_def wf_map_def divRoundUp_nonneg BitsInWord_def)
  show "marked full_map = {0..<1024}" by (auto simp: marked_def full_map_def bit_at_def nat_less_iff)
qed

lemma one_clear: "\<exists>m. wf_map m \<and> numBits m = 1024 \<and> room m = 1"
proof -
  obtain m where "wf_map m" "numBits m = 1024" "marked m = {0..<1024} - {1023}"
    using BitMap_Clear_ok [OF full_map_ok(1), of 1023] full_map_ok by auto
  then show ?thesis by (intro exI [of _ m]) (simp add: room_def)
qed

section \<open>Properties\<close>

text \<open>
  The 128 bytes \<^verbatim>\<open>WriteBack\<close> stores for a header are read back by \<^verbatim>\<open>FetchFrom\<close> as the
  same header, and every sector, read as a header, is written back unchanged: the
  object and the sector have the same size and no field is lost.
\<close>

theorem header_roundtrip:
  assumes "disk_at H D s" "0 \<le> k" "k < NumSectors" "wf_header h"
  shows "(\<exists>s1 s2. FileHeader_WriteBack k h s = Inr s1 \<and> FileHeader_FetchFrom k s1 = Inr (h, s2)) \<and>
    (\<exists>h' s1 s2. FileHeader_FetchFrom k s = Inr (h', s1) \<and> FileHeader_WriteBack k h' s1 = Inr s2 \<and> disk_at H D s2)"
proof
  have len: "length D = 1024" "length (D ! nat k) = 128"
    using disk_at_image [OF assms(1)] assms(2,3) by (simp_all add: disk_image_def)
  obtain s1 where s1: "FileHeader_WriteBack k h s = Inr s1" "disk_at H (D[nat k := header_bytes h]) s1"
    using WriteBack_at [OF assms(1-3), of h] assms(4) by (auto simp: wf_header_def elim!: yields_obtain)
  then show "\<exists>s1 s2. FileHeader_WriteBack k h s = Inr s1 \<and> FileHeader_FetchFrom k s1 = Inr (h, s2)"
    using FetchFrom_at [OF s1(2) assms(2,3)] assms(2-4) len by (auto simp: header_of_header_bytes elim!: yields_obtain)
  obtain s1 where s1: "FileHeader_FetchFrom k s = Inr (header_of_bytes (D ! nat k), s1)" "disk_at H D s1"
    using FetchFrom_at [OF assms(1-3)] by (auto elim!: yields_obtain)
  then show "\<exists>h' s1 s2. FileHeader_FetchFrom k s = Inr (h', s1) \<and> FileHeader_WriteBack k h' s1 = Inr s2 \<and> disk_at H D s2"
    using WriteBack_at [OF s1(2) assms(2,3), of "header_of_bytes (D ! nat k)"] wf_header_of_bytes [of "D ! nat k"] len
    by (auto simp: wf_header_def header_bytes_of_bytes elim!: yields_obtain)
qed

theorem header_roundtrip_witness:
  "\<exists>s1 s2. FileHeader_WriteBack 5 blank_header fresh_disk = Inr s1 \<and> FileHeader_FetchFrom 5 s1 = Inr (blank_header, s2)"
  using header_roundtrip [OF fresh_disk_at _ _ blank_header_wf, of 5] by simp





text \<open>
  The test for free space in \<^verbatim>\<open>Allocate\<close> does not count the index sectors.  With one
  sector left it accepts a file of one sector, spends the sector on the index block
  and stores -1, the failure value of \<^verbatim>\<open>Find\<close>, as the data sector of the file.
\<close>

theorem Allocate_overcommits:
  assumes "wf_map m" "numBits m = 1024" "room m = 1" "disk_at H D s" "length (primaryIndexTable h) = NumDirect"
    "0 < fileSize" "fileSize \<le> SectorSize"
  shows "\<exists>h' m' s' s''. Allocate junk now fileSize ftype h m s = Inr (True, h', m', s') \<and> ByteToSector 0 h' s' = Inr (-1, s'')"
proof -
  define h0 where "h0 = h\<lparr>numBytes := fileSize, numSectors := 1, fileType := ftype, createTime := now\<rparr>"
  have one: "divRoundUp fileSize SectorSize = 1" "divRoundUp 1 IndexSize = 1"
    using assms(6,7) by (auto simp: divRoundUp_nonneg)
  obtain p m1 where p: "BitMap_Find m = Inr (p, m1)" and al: "allocates m [p] m1"
    using Find_allocates [OF assms(1)] assms(3) by (auto elim!: yields_obtain)
  have pr: "0 \<le> p" "p < 1024" using al assms(2) by (auto simp: allocates_def)
  have "room m1 = 0" using allocates_room [OF al] assms(3) by simp
  then have "marked m1 = {0..<numBits m1}"
    using marked_subset [of m1] al assms(2) by (intro card_subset_eq) (auto simp: room_def allocates_def)
  then have full: "BitMap_Find m1 = Inr (-1, m1)" using BitMap_Find_full allocates_wf [OF al] by blast
  let ?temp = "(map (junk 0) [0..<32])[0 := -1]"
  obtain s' where w: "WriteSector p (ints_bytes ?temp) s = Inr s'" "disk_at H (D[nat p := ints_bytes ?temp]) s'"
    using WriteSector_at [OF assms(4), of p "ints_bytes ?temp"] pr by (auto elim!: yields_obtain)
  let ?h = "h0\<lparr>primaryIndexTable := (primaryIndexTable h)[0 := p]\<rparr>"
  have "Allocate junk now fileSize ftype h m s = Inr (True, ?h, m1, s')"
    using assms(1,3) p full w(1)
    by (simp add: Allocate_def one bitmap_simps room_def h0_def alloc_table_def set_entry_def NumDirect_def fill_sectors_def
        upt_rec [of 0 "Suc 0"] Let_def)
  moreover have "bytes_ints 32 (ints_bytes ?temp) ! 0 = -1"
    using nth_bytes_ints [of 0 ?temp] by (simp add: int32_def)
  then have "\<exists>s''. ByteToSector 0 ?h s' = Inr (-1, s'')"
    using ReadSector_at [OF w(2) pr] assms(4,5) pr disk_at_image [OF assms(4)]
    by (auto simp: ByteToSector_def get_entry_def NumDirect_def disk_image_def h0_def elim!: yields_obtain)
  ultimately show ?thesis by blast
qed

theorem Allocate_overcommits_witness:
  "\<exists>m h' m' s' s''. room m = 1 \<and>
     Allocate (\<lambda>_ _. 0) 0 100 0 blank_header m fresh_disk = Inr (True, h', m', s') \<and> ByteToSector 0 h' s' = Inr (-1, s'')"
proof -
  obtain m where "wf_map m" "numBits m = 1024" "room m = 1" using one_clear by blast
  then show ?thesis
    using Allocate_overcommits [OF _ _ _ fresh_disk_at, of m blank_header 100 "\<lambda>_ _. 0" 0 0]
    by (auto simp: blank_header_def NumDirect_def)
qed

end
