(* ===== verification/Open_File.thy ===== *)
theory Open_File
  imports File_Header
begin

text \<open>
  \<^verbatim>\<open>filesys/openfile.h\<close>, \<^verbatim>\<open>filesys/openfile.cc\<close> (the \<^verbatim>\<open>FILESYS\<close> build): an open file, read and
  written through its header and the synchronous disk; and the two routines of
  \<^verbatim>\<open>userprog/bitmap.cc\<close> that use open files.

  The state \<open>fsys\<close> has the synchronous disk with the kernel under it, the host's
  clock, and the C strings the directory code allocates.  \<open>clock s n\<close> is what the
  n-th call of \<^verbatim>\<open>time\<close> from now on returns.  \<open>junk\<close> stands for uninitialised memory.
\<close>

section \<open>State\<close>

record fsys =
  sdisk :: disksys
  clock :: "nat \<Rightarrow> int"
  cstrings :: "string list"

type_synonym ftrans = "fsys \<Rightarrow> fsys result"

text \<open>\<^verbatim>\<open>time_t\<close> is a 32-bit integer.\<close>

definition time_now :: "fsys \<Rightarrow> int \<times> fsys" where
  "time_now s = (to_int32 (clock s 0), s\<lparr>clock := (\<lambda>n. clock s (Suc n))\<rparr>)"

definition on_disk :: "(disksys \<Rightarrow> ('a \<times> disksys) result) \<Rightarrow> fsys \<Rightarrow> ('a \<times> fsys) result" where
  "on_disk f s = bindE (f (sdisk s)) (\<lambda>(x, d). Inr (x, s\<lparr>sdisk := d\<rparr>))"

definition do_disk :: "dtrans \<Rightarrow> ftrans" where
  "do_disk f s = bindE (f (sdisk s)) (\<lambda>d. Inr (s\<lparr>sdisk := d\<rparr>))"

section \<open>The class\<close>

record OpenFile =
  hdr :: FileHeader
  hdrSectorNumber :: int
  seekPosition :: int

definition OpenFile_new :: "int \<Rightarrow> fsys \<Rightarrow> (OpenFile \<times> fsys) result" where
  "OpenFile_new sector s =
     bindE (do_disk (rw_P sector) s) (\<lambda>s.
     bindE (on_disk (FileHeader_FetchFrom sector) s) (\<lambda>(h, s).
     let (t, s) = time_now s; h = h\<lparr>lastVisitTime := t\<rparr> in
     bindE (do_disk (FileHeader_WriteBack sector h) s) (\<lambda>s.
     bindE (do_disk (rw_V sector) s) (\<lambda>s.
     Inr (\<lparr>hdr = h, hdrSectorNumber = sector, seekPosition = 0\<rparr>, s)))))"

definition Seek :: "int \<Rightarrow> OpenFile \<Rightarrow> OpenFile" where
  "Seek position f = f\<lparr>seekPosition := position\<rparr>"

text \<open>The header is read again at the start of every transfer.\<close>

definition refetch :: "OpenFile \<Rightarrow> fsys \<Rightarrow> (FileHeader \<times> fsys) result" where
  "refetch f s =
     bindE (do_disk (rw_P (hdrSectorNumber f)) s) (\<lambda>s.
     bindE (on_disk (FileHeader_FetchFrom (hdrSectorNumber f)) s) (\<lambda>(h, s).
     bindE (do_disk (rw_V (hdrSectorNumber f)) s) (\<lambda>s. Inr (h, s))))"

text \<open>
  The semaphores of all sectors of a transfer are taken under the one of the array;
  each is released after the transfer of its sector.
\<close>

definition lock_sector :: "FileHeader \<Rightarrow> int \<Rightarrow> dtrans" where
  "lock_sector h i s = bindE (ByteToSector (i * SectorSize) h s) (\<lambda>(k, s). rw_P k s)"

definition lock_sectors :: "FileHeader \<Rightarrow> int \<Rightarrow> int \<Rightarrow> dtrans" where
  "lock_sectors h firstSector lastSec s =
     bindE (arr_P s) (\<lambda>s. bindE (foldE (lock_sector h) [firstSector..lastSec] s) arr_V)"

definition read_sector :: "FileHeader \<Rightarrow> int \<Rightarrow> byte list \<times> disksys \<Rightarrow> (byte list \<times> disksys) result" where
  "read_sector h i = (\<lambda>(buf, s).
     bindE (ByteToSector (i * SectorSize) h s) (\<lambda>(k, s).
     bindE (ReadSector k s) (\<lambda>(d, s).
     bindE (ByteToSector (i * SectorSize) h s) (\<lambda>(k, s).
     bindE (rw_V k s) (\<lambda>s. Inr (buf @ d, s))))))"

definition write_sector :: "FileHeader \<Rightarrow> int \<Rightarrow> byte list \<Rightarrow> int \<Rightarrow> dtrans" where
  "write_sector h firstSector buf i s =
     bindE (ByteToSector (i * SectorSize) h s) (\<lambda>(k, s).
     bindE (WriteSector k (slice (nat ((i - firstSector) * SectorSize)) (nat SectorSize) buf) s) (\<lambda>s.
     bindE (ByteToSector (i * SectorSize) h s) (\<lambda>(k, s). rw_V k s)))"

text \<open>The transfer of \<^verbatim>\<open>ReadAt\<close>, once the length of the request is cut at the end of the file.\<close>

definition read_range :: "int \<Rightarrow> int \<Rightarrow> FileHeader \<Rightarrow> fsys \<Rightarrow> (byte list \<times> fsys) result" where
  "read_range nBytes position h s =
    (let firstSector = divRoundDown position SectorSize;
         lastSec = divRoundDown (position + nBytes - 1) SectorSize in
     bindE (do_disk (lock_sectors h firstSector lastSec) s) (\<lambda>s.
     bindE (on_disk (\<lambda>d. foldE (read_sector h) [firstSector..lastSec] ([], d)) s) (\<lambda>(buf, s).
     requireE OutOfBounds (position - firstSector * SectorSize \<ge> 0)
       (Inr (slice (nat (position - firstSector * SectorSize)) (nat nBytes) buf, s)))))"

definition ReadAt :: "int \<Rightarrow> int \<Rightarrow> OpenFile \<Rightarrow> fsys \<Rightarrow> (byte list \<times> OpenFile \<times> fsys) result" where
  "ReadAt nBytes position f s =
     bindE (refetch f s) (\<lambda>(h, s).
     let (t, s) = time_now s; h = h\<lparr>lastVisitTime := t\<rparr>; f = f\<lparr>hdr := h\<rparr>; fileLength = FileLength h in
     if nBytes \<le> 0 \<or> position \<ge> fileLength then Inr ([], f, s)
     else
       bindE (read_range (if position + nBytes > fileLength then fileLength - position else nBytes) position h s)
         (\<lambda>(bs, s). Inr (bs, f, s)))"

definition BitMap_FetchFrom :: "OpenFile \<Rightarrow> BitMap \<Rightarrow> fsys \<Rightarrow> (BitMap \<times> OpenFile \<times> fsys) result" where
  "BitMap_FetchFrom f b s = bindE (ReadAt (numWords b * 4) 0 f s) (\<lambda>(bs, f, s). Inr (BitMap_load bs b, f, s))"

text \<open>
  The part of \<^verbatim>\<open>WriteAt\<close> for a write past the end of the file; \<open>False\<close> when the file
  cannot be extended.
\<close>

definition extend_file :: "(nat \<Rightarrow> nat \<Rightarrow> int) \<Rightarrow> int \<Rightarrow> OpenFile \<Rightarrow> fsys \<Rightarrow> (bool \<times> FileHeader \<times> fsys) result" where
  "extend_file junk extraFileLength f s =
     bindE (BitMap_new (\<lambda>i. word_of_int (junk 100 i)) NumSectors) (\<lambda>freeMap.
     bindE (OpenFile_new 0 s) (\<lambda>(freeMapFile, s).
     bindE (BitMap_FetchFrom freeMapFile freeMap s) (\<lambda>(freeMap, freeMapFile, s).
     bindE (on_disk (\<lambda>d. bindE (ExtendAllocate junk extraFileLength (hdr f) freeMap d) (\<lambda>(ok, h, freeMap, d). Inr ((ok, h), d))) s)
       (\<lambda>((ok, h), s).
     if \<not> ok then Inr (False, h, s)
     else bindE (do_disk (FileHeader_WriteBack (hdrSectorNumber f) h) s) (\<lambda>s. Inr (True, h, s))))))"

text \<open>The buffer of \<^verbatim>\<open>WriteAt\<close>: the partly written first and last sectors are read first.\<close>

definition prepare_buffer :: "(nat \<Rightarrow> int) \<Rightarrow> int \<Rightarrow> int \<Rightarrow> OpenFile \<Rightarrow> fsys \<Rightarrow> (byte list \<times> OpenFile \<times> fsys) result" where
  "prepare_buffer junk nBytes position f s =
    (let firstSector = divRoundDown position SectorSize;
         lastSec = divRoundDown (position + nBytes - 1) SectorSize;
         buf = map (\<lambda>i. word_of_int (junk i)) [0..<nat ((1 + lastSec - firstSector) * SectorSize)];
         firstAligned = (position = firstSector * SectorSize);
         lastAligned = (position + nBytes = (lastSec + 1) * SectorSize) in
     bindE (if \<not> firstAligned
            then bindE (ReadAt SectorSize (firstSector * SectorSize) f s) (\<lambda>(bs, f, s). Inr (bcopyTo 0 bs buf, f, s))
            else Inr (buf, f, s)) (\<lambda>(buf, f, s).
     if \<not> lastAligned \<and> (firstSector \<noteq> lastSec \<or> firstAligned)
     then bindE (ReadAt SectorSize (lastSec * SectorSize) f s)
       (\<lambda>(bs, f, s). Inr (bcopyTo (nat ((lastSec - firstSector) * SectorSize)) bs buf, f, s))
     else Inr (buf, f, s)))"

definition write_range :: "(nat \<Rightarrow> int) \<Rightarrow> byte list \<Rightarrow> int \<Rightarrow> int \<Rightarrow> OpenFile \<Rightarrow> fsys \<Rightarrow> (OpenFile \<times> fsys) result" where
  "write_range junk from nBytes position f s =
    (let firstSector = divRoundDown position SectorSize;
         lastSec = divRoundDown (position + nBytes - 1) SectorSize in
     bindE (prepare_buffer junk nBytes position f s) (\<lambda>(buf, f, s).
     requireE OutOfBounds (position - firstSector * SectorSize \<ge> 0 \<and> nat nBytes \<le> length from)
      (let buf = bcopyTo (nat (position - firstSector * SectorSize)) (take (nat nBytes) from) buf in
       bindE (do_disk (lock_sectors (hdr f) firstSector lastSec) s) (\<lambda>s.
       bindE (do_disk (foldE (write_sector (hdr f) firstSector buf) [firstSector..lastSec]) s) (\<lambda>s.
       Inr (f, s))))))"

definition WriteAt :: "(nat \<Rightarrow> nat \<Rightarrow> int) \<Rightarrow> byte list \<Rightarrow> int \<Rightarrow> int \<Rightarrow> OpenFile \<Rightarrow> fsys \<Rightarrow> (int \<times> OpenFile \<times> fsys) result" where
  "WriteAt junk from nBytes position f s =
     bindE (refetch f s) (\<lambda>(h, s).
     let (t1, s) = time_now s; (t2, s) = time_now s;
         h = h\<lparr>lastVisitTime := t1, lastWriteTime := t2\<rparr>; f = f\<lparr>hdr := h\<rparr>; fileLength = FileLength h in
     if nBytes \<le> 0 then Inr (0, f, s)
     else
       bindE (if position + nBytes > fileLength
              then extend_file junk (nBytes + position - fileLength) f s
              else Inr (True, h, s)) (\<lambda>(ok, h, s).
       let f = f\<lparr>hdr := h\<rparr> in
       if \<not> ok then Inr (0, f, s)
       else bindE (write_range (junk 101) from nBytes position f s) (\<lambda>(f, s). Inr (nBytes, f, s))))"

definition OpenFile_Read :: "int \<Rightarrow> OpenFile \<Rightarrow> fsys \<Rightarrow> (byte list \<times> OpenFile \<times> fsys) result" where
  "OpenFile_Read nBytes f s =
     bindE (ReadAt nBytes (seekPosition f) f s) (\<lambda>(bs, f, s).
     Inr (bs, f\<lparr>seekPosition := seekPosition f + int (length bs)\<rparr>, s))"

definition OpenFile_Write :: "(nat \<Rightarrow> nat \<Rightarrow> int) \<Rightarrow> byte list \<Rightarrow> int \<Rightarrow> OpenFile \<Rightarrow> fsys \<Rightarrow> (int \<times> OpenFile \<times> fsys) result" where
  "OpenFile_Write junk from nBytes f s =
     bindE (WriteAt junk from nBytes (seekPosition f) f s) (\<lambda>(result, f, s).
     Inr (result, f\<lparr>seekPosition := seekPosition f + result\<rparr>, s))"

definition OpenFile_Length :: "OpenFile \<Rightarrow> int" where
  "OpenFile_Length f = FileLength (hdr f)"

definition BitMap_WriteBack :: "(nat \<Rightarrow> nat \<Rightarrow> int) \<Rightarrow> OpenFile \<Rightarrow> BitMap \<Rightarrow> fsys \<Rightarrow> (OpenFile \<times> fsys) result" where
  "BitMap_WriteBack junk f b s =
     bindE (WriteAt junk (BitMap_bytes b) (numWords b * 4) 0 f s) (\<lambda>(n, f, s). Inr (f, s))"


section \<open>Steps on the disk\<close>

text \<open>\<open>fs_at H D C s\<close>: the disk is as in \<open>disk_at\<close> and the C strings are \<open>C\<close>.\<close>

definition fs_at :: "nat set \<Rightarrow> byte list list \<Rightarrow> string list \<Rightarrow> fsys \<Rightarrow> bool" where
  "fs_at H D C s \<longleftrightarrow> disk_at H D (sdisk s) \<and> cstrings s = C"

lemma yields_on_disk:
  "yields (on_disk f s) Q \<longleftrightarrow> yields (f (sdisk s)) (\<lambda>(x, d). Q (x, s\<lparr>sdisk := d\<rparr>))"
  by (auto simp: on_disk_def yields_def bindE_eq_Inr)

lemma yields_do_disk: "yields (do_disk f s) Q \<longleftrightarrow> yields (f (sdisk s)) (\<lambda>d. Q (s\<lparr>sdisk := d\<rparr>))"
  by (simp add: do_disk_def)

lemma rw_P_fs:
  "fs_at H D C s \<Longrightarrow> 0 \<le> k \<Longrightarrow> k < NumSectors \<Longrightarrow> sector_addr k \<notin> H \<Longrightarrow>
   yields (do_disk (rw_P k) s) (fs_at (insert (sector_addr k) H) D C)"
  using rw_P_at [of H D "sdisk s" k] by (auto simp: fs_at_def yields_do_disk yields_on_disk elim!: yields_mono)

lemma rw_V_fs:
  "fs_at H D C s \<Longrightarrow> 0 \<le> k \<Longrightarrow> k < NumSectors \<Longrightarrow> sector_addr k \<in> H \<Longrightarrow>
   yields (do_disk (rw_V k) s) (fs_at (H - {sector_addr k}) D C)"
  using rw_V_at [of H D "sdisk s" k] by (auto simp: fs_at_def yields_do_disk yields_on_disk elim!: yields_mono)

lemma FetchFrom_fs:
  "fs_at H D C s \<Longrightarrow> 0 \<le> k \<Longrightarrow> k < NumSectors \<Longrightarrow>
   yields (on_disk (FileHeader_FetchFrom k) s) (\<lambda>(h, s'). h = header_of_bytes (D ! nat k) \<and> fs_at H D C s')"
  using FetchFrom_at [of H D "sdisk s" k] by (auto simp: fs_at_def yields_do_disk yields_on_disk elim!: yields_mono)

lemma WriteBack_fs:
  "fs_at H D C s \<Longrightarrow> 0 \<le> k \<Longrightarrow> k < NumSectors \<Longrightarrow> length (primaryIndexTable h) = NumDirect \<Longrightarrow>
   yields (do_disk (FileHeader_WriteBack k h) s) (fs_at H (D[nat k := header_bytes h]) C)"
  using WriteBack_at [of H D "sdisk s" k h] by (auto simp: fs_at_def yields_do_disk yields_on_disk elim!: yields_mono)

lemma fs_at_disk: "fs_at H D C s \<Longrightarrow> disk_at H D (sdisk s)"
  by (simp add: fs_at_def)

lemma fs_at_image: "fs_at H D C s \<Longrightarrow> disk_image D"
  using disk_at_image by (auto simp: fs_at_def)

lemma time_now_at:
  assumes "fs_at H D C s"
  obtains t s' where "time_now s = (t, s')" "int32 t" "fs_at H D C s'"
  using that [of "to_int32 (clock s 0)" "s\<lparr>clock := (\<lambda>n. clock s (Suc n))\<rparr>"] assms
  by (simp add: time_now_def fs_at_def)

text \<open>The image after the header in sector \<open>k\<close> got a new time of last visit.\<close>

definition header_at :: "byte list list \<Rightarrow> int \<Rightarrow> FileHeader" where
  "header_at D k = header_of_bytes (D ! nat k)"

definition touch :: "int \<Rightarrow> int \<Rightarrow> byte list list \<Rightarrow> byte list list" where
  "touch t k D = D[nat k := header_bytes ((header_at D k)\<lparr>lastVisitTime := t\<rparr>)]"

lemma header_at_wf: "wf_header (header_at D k)"
  by (simp add: header_at_def wf_header_of_bytes)

lemma header_at_len [simp]: "length (primaryIndexTable (header_at D k)) = NumDirect"
  using header_at_wf by (simp add: wf_header_def)

lemma wf_header_touch: "wf_header h \<Longrightarrow> int32 t \<Longrightarrow> wf_header (h\<lparr>lastVisitTime := t\<rparr>)"
  by (simp add: wf_header_def header_ints_def)

lemma refetch_ok:
  assumes s: "fs_at H D C s" and k: "0 \<le> hdrSectorNumber f" "hdrSectorNumber f < NumSectors"
    and H: "sector_addr (hdrSectorNumber f) \<notin> H"
  shows "yields (refetch f s) (\<lambda>(h, s'). h = header_at D (hdrSectorNumber f) \<and> fs_at H D C s')"
proof -
  let ?k = "hdrSectorNumber f"
  obtain s1 where s1: "do_disk (rw_P ?k) s = Inr s1" "fs_at (insert (sector_addr ?k) H) D C s1"
    using rw_P_fs [OF s k H] by (auto elim!: yields_obtain)
  obtain h s2 where s2: "on_disk (FileHeader_FetchFrom ?k) s1 = Inr (h, s2)" "h = header_at D ?k"
    "fs_at (insert (sector_addr ?k) H) D C s2"
    using FetchFrom_fs [OF s1(2) k] by (auto simp: header_at_def elim!: yields_obtain)
  have "yields (do_disk (rw_V ?k) s2) (fs_at (insert (sector_addr ?k) H - {sector_addr ?k}) D C)"
    using rw_V_fs [OF s2(3) k] by simp
  then show ?thesis using s1(1) s2(1,2) H by (auto simp: refetch_def elim!: yields_obtain)
qed

lemma OpenFile_new_ok:
  assumes s: "fs_at H D C s" and k: "0 \<le> k" "k < NumSectors" and H: "sector_addr k \<notin> H"
  shows "yields (OpenFile_new k s) (\<lambda>(f, s'). \<exists>t. int32 t \<and> fs_at H (touch t k D) C s' \<and>
    f = \<lparr>hdr = (header_at D k)\<lparr>lastVisitTime := t\<rparr>, hdrSectorNumber = k, seekPosition = 0\<rparr>)"
proof -
  obtain s1 where s1: "do_disk (rw_P k) s = Inr s1" "fs_at (insert (sector_addr k) H) D C s1"
    using rw_P_fs [OF s k H] by (auto elim!: yields_obtain)
  obtain h s2 where s2: "on_disk (FileHeader_FetchFrom k) s1 = Inr (h, s2)" "h = header_at D k"
    "fs_at (insert (sector_addr k) H) D C s2"
    using FetchFrom_fs [OF s1(2) k] by (auto simp: header_at_def elim!: yields_obtain)
  obtain t s3 where s3: "time_now s2 = (t, s3)" "int32 t" "fs_at (insert (sector_addr k) H) D C s3"
    using time_now_at [OF s2(3)] .
  obtain s4 where s4: "do_disk (FileHeader_WriteBack k (h\<lparr>lastVisitTime := t\<rparr>)) s3 = Inr s4"
    "fs_at (insert (sector_addr k) H) (touch t k D) C s4"
    using WriteBack_fs [OF s3(3) k, of "h\<lparr>lastVisitTime := t\<rparr>"] s2(2)
    by (auto simp: touch_def elim!: yields_obtain)
  have "yields (do_disk (rw_V k) s4) (fs_at (insert (sector_addr k) H - {sector_addr k}) (touch t k D) C)"
    using rw_V_fs [OF s4(2) k] by simp
  then show ?thesis
    using s1(1) s2(1,2) s3(1,2) s4(1) H by (auto simp: OpenFile_new_def elim!: yields_obtain)
qed


section \<open>The contents of a file\<close>

definition sector_data :: "FileHeader \<Rightarrow> byte list list \<Rightarrow> nat \<Rightarrow> byte list" where
  "sector_data h D q = D ! nat (data_sector (primaryIndexTable h) D q)"

text \<open>All data sectors one after the other, and the part of them that is the file.\<close>

definition raw_contents :: "FileHeader \<Rightarrow> byte list list \<Rightarrow> byte list" where
  "raw_contents h D = concat (map (sector_data h D) [0..<nat (numSectors h)])"

definition file_bytes :: "FileHeader \<Rightarrow> byte list list \<Rightarrow> byte list" where
  "file_bytes h D = take (nat (numBytes h)) (raw_contents h D)"

lemma concat_chunks:
  assumes "\<And>q. a \<le> q \<Longrightarrow> q < a + n \<Longrightarrow> length (g q) = 128"
  shows "length (concat (map g [a..<a + n])) = 128 * n"
    and "i < 128 * n \<Longrightarrow> concat (map g [a..<a + n]) ! i = g (a + i div 128) ! (i mod 128)"
proof -
  have len: "length (concat (map g [a..<a + n])) = 128 * n"
    if "\<And>q. a \<le> q \<Longrightarrow> q < a + n \<Longrightarrow> length (g q) = 128" for n a
    using that by (induction n) auto
  show "length (concat (map g [a..<a + n])) = 128 * n" using len assms .
  show "i < 128 * n \<Longrightarrow> concat (map g [a..<a + n]) ! i = g (a + i div 128) ! (i mod 128)"
    using assms
  proof (induction n)
    case (Suc n)
    have l: "length (concat (map g [a..<a + n])) = 128 * n" using len [of a n] Suc.prems(2) by simp
    show ?case
    proof (cases "i < 128 * n")
      case True
      then show ?thesis using Suc l by (simp add: nth_append)
    next
      case False
      then have "i div 128 = n" using Suc.prems(1) by auto
      moreover from this have "i mod 128 = i - 128 * n" using mult_div_mod_eq [of 128 i] by simp
      ultimately show ?thesis using False l by (simp add: nth_append)
    qed
  qed simp
qed

lemma data_sector_range:
  assumes "wf_file h D" "q < nat (numSectors h)"
  shows "0 \<le> data_sector (primaryIndexTable h) D q" "data_sector (primaryIndexTable h) D q < 1024"
  using file_block_range [OF assms(1) data_sector_mem [OF assms(2)]] by auto

lemma length_sector_data:
  "wf_file h D \<Longrightarrow> disk_image D \<Longrightarrow> q < nat (numSectors h) \<Longrightarrow> length (sector_data h D q) = 128"
  using data_sector_range [of h D q] by (simp add: sector_data_def disk_image_nth)

lemma raw_contents_nth:
  assumes "wf_file h D" "disk_image D"
  shows "length (raw_contents h D) = 128 * nat (numSectors h)"
    and "i < 128 * nat (numSectors h) \<Longrightarrow> raw_contents h D ! i = sector_data h D (i div 128) ! (i mod 128)"
  using concat_chunks [of 0 "nat (numSectors h)" "sector_data h D"] length_sector_data [OF assms]
  by (simp_all add: raw_contents_def)

lemma length_file_bytes:
  assumes "wf_file h D" "disk_image D"
  shows "length (file_bytes h D) = nat (numBytes h)"
  using raw_contents_nth(1) [OF assms] assms(1) by (auto simp: file_bytes_def wf_file_def)

lemma file_bytes_nth:
  assumes "wf_file h D" "disk_image D" "i < nat (numBytes h)"
  shows "file_bytes h D ! i = sector_data h D (i div 128) ! (i mod 128)"
proof -
  have "i < 128 * nat (numSectors h)" using assms(1,3) by (auto simp: wf_file_def)
  with raw_contents_nth(2) [OF assms(1,2)] show ?thesis using assms(3) by (simp add: file_bytes_def)
qed

section \<open>The loops of a transfer\<close>

text \<open>The addresses of the semaphores of the data sectors \<open>a\<close> to \<open>b\<close> of a file.\<close>

definition addrs :: "FileHeader \<Rightarrow> byte list list \<Rightarrow> nat \<Rightarrow> nat \<Rightarrow> nat set" where
  "addrs h D a b = (\<lambda>q. sector_addr (data_sector (primaryIndexTable h) D q)) ` {a..<b}"

lemma addr_inj:
  assumes "wf_file h D" "q < nat (numSectors h)" "q' < nat (numSectors h)"
    "sector_addr (data_sector (primaryIndexTable h) D q) = sector_addr (data_sector (primaryIndexTable h) D q')"
  shows "q = q'"
proof -
  have "inj_on (data_sector (primaryIndexTable h) D) {0..<nat (numSectors h)}"
    using assms(1) by (simp add: wf_file_def file_blocks_def distinct_block_list)
  moreover have "data_sector (primaryIndexTable h) D q = data_sector (primaryIndexTable h) D q'"
    using assms(4) data_sector_range(1) [OF assms(1,2)] data_sector_range(1) [OF assms(1,3)] by (simp add: sector_addr_def)
  ultimately show ?thesis using assms(2,3) by (auto dest: inj_onD)
qed

lemma addr_notin:
  assumes "wf_file h D" "q < nat (numSectors h)" "b \<le> nat (numSectors h)" "\<not> (a \<le> q \<and> q < b)"
  shows "sector_addr (data_sector (primaryIndexTable h) D q) \<notin> addrs h D a b"
proof
  assume "sector_addr (data_sector (primaryIndexTable h) D q) \<in> addrs h D a b"
  then obtain q' where "a \<le> q'" "q' < b"
    "sector_addr (data_sector (primaryIndexTable h) D q) = sector_addr (data_sector (primaryIndexTable h) D q')"
    by (auto simp: addrs_def)
  then show False using addr_inj [OF assms(1,2), of q'] assms(3,4) by simp
qed

lemma addrs_Suc:
  assumes "wf_file h D" "a < b" "b \<le> nat (numSectors h)"
  shows "addrs h D a b - {sector_addr (data_sector (primaryIndexTable h) D a)} = addrs h D (Suc a) b"
proof -
  have "{a..<b} = insert a {Suc a..<b}" using assms(2) by auto
  then have "addrs h D a b = insert (sector_addr (data_sector (primaryIndexTable h) D a)) (addrs h D (Suc a) b)"
    by (simp add: addrs_def)
  moreover have "sector_addr (data_sector (primaryIndexTable h) D a) \<notin> addrs h D (Suc a) b"
    using assms by (intro addr_notin) auto
  ultimately show ?thesis by auto
qed

lemma sector_at:
  assumes wf: "wf_file h D" and q: "q < nat (numSectors h)" and D: "disk_at H D s"
  shows "yields (ByteToSector (int q * SectorSize) h s)
    (\<lambda>(k, s'). k = data_sector (primaryIndexTable h) D q \<and> disk_at H D s')"
  using ByteToSector_ok [OF wf, of "int q * SectorSize" H s] q D by auto

lemma lock_sectors_ok:
  assumes wf: "wf_file h D" and b: "a + n \<le> nat (numSectors h)" and D: "disk_at H D s"
    and H: "arraySem \<notin> H" "H \<inter> addrs h D a (a + n) = {}"
  shows "yields (lock_sectors h (int a) (int a + int n - 1) s) (disk_at (H \<union> addrs h D a (a + n)) D)"
proof -
  let ?I = "\<lambda>m. disk_at (insert arraySem H \<union> addrs h D a (a + m)) D"
  have "yields (foldE (lock_sector h) [int a..int a + int n - 1] s1) (?I (length [int a..int a + int n - 1]))"
    if s1: "disk_at (insert arraySem H) D s1" for s1
  proof (rule yields_foldE)
    show "?I 0 s1" using s1 by (simp add: addrs_def)
    fix m t assume m: "m < length [int a..int a + int n - 1]" and I: "?I m t"
    let ?k = "data_sector (primaryIndexTable h) D (a + m)"
    have q: "a + m < nat (numSectors h)" using m b by simp
    have new: "sector_addr ?k \<notin> insert arraySem H \<union> addrs h D a (a + m)"
    proof -
      have "sector_addr ?k \<in> addrs h D a (a + n)" using m by (auto simp: addrs_def)
      moreover have "sector_addr ?k \<notin> addrs h D a (a + m)" using addr_notin [OF wf q] q by simp
      moreover have "sector_addr ?k \<noteq> arraySem" by (simp add: sector_addr_def)
      ultimately show ?thesis using H by auto
    qed
    have "addrs h D a (a + Suc m) = insert (sector_addr ?k) (addrs h D a (a + m))" by (simp add: addrs_def atLeastLessThanSuc)
    then have "yields (rw_P ?k t') (?I (Suc m))" if "?I m t'" for t'
      using rw_P_at [OF that data_sector_range [OF wf q] new] by simp
    moreover have e: "[int a..int a + int n - 1] ! m = int (a + m)" using m by (simp add: nth_upto)
    ultimately show "yields (lock_sector h ([int a..int a + int n - 1] ! m) t) (?I (Suc m))"
      unfolding e lock_sector_def yields_bind by (intro yields_mono [OF sector_at [OF wf q I]]) auto
  qed
  then have loop: "yields (foldE (lock_sector h) [int a..int a + int n - 1] s1) (?I n)"
    if "disk_at (insert arraySem H) D s1" for s1 using that by simp
  have "arraySem \<notin> addrs h D a (a + n)" by (auto simp: addrs_def sector_addr_def)
  then have "insert arraySem H \<union> addrs h D a (a + n) - {arraySem} = H \<union> addrs h D a (a + n)" using H(1) by auto
  then have release: "yields (arr_V t) (disk_at (H \<union> addrs h D a (a + n)) D)" if "?I n t" for t using arr_V_at [OF that] by simp
  show ?thesis
    unfolding lock_sectors_def by (rule yields_then [OF arr_P_at [OF D H(1)]], rule yields_then [OF loop release])
qed


lemma read_sectors_ok:
  assumes wf: "wf_file h D" and b: "a + n \<le> nat (numSectors h)" and D: "disk_at (H \<union> addrs h D a (a + n)) D s"
    and H: "H \<inter> addrs h D a (a + n) = {}"
  shows "yields (foldE (read_sector h) [int a..int a + int n - 1] ([], s))
    (\<lambda>(buf, s'). buf = concat (map (sector_data h D) [a..<a + n]) \<and> disk_at H D s')"
proof -
  let ?I = "\<lambda>m (buf, t). buf = concat (map (sector_data h D) [a..<a + m]) \<and> disk_at (H \<union> addrs h D (a + m) (a + n)) D t"
  have "yields (foldE (read_sector h) [int a..int a + int n - 1] ([], s)) (?I (length [int a..int a + int n - 1]))"
  proof (rule yields_foldE)
    show "?I 0 ([], s)" using D by simp
    fix m x assume m: "m < length [int a..int a + int n - 1]" and I: "?I m x"
    obtain buf t where x: "x = (buf, t)" by force
    let ?k = "data_sector (primaryIndexTable h) D (a + m)" and ?H = "H \<union> addrs h D (a + m) (a + n)"
    have q: "a + m < nat (numSectors h)" and mn: "m < n" using m b by simp_all
    have e: "[int a..int a + int n - 1] ! m = int (a + m)" using m by (simp add: nth_upto)
    have "sector_addr ?k \<in> addrs h D a (a + n)" "sector_addr ?k \<in> addrs h D (a + m) (a + n)"
      using mn by (auto simp: addrs_def)
    moreover from this have "sector_addr ?k \<in> ?H" "sector_addr ?k \<notin> H" using H by auto
    moreover have "addrs h D (a + m) (a + n) - {sector_addr ?k} = addrs h D (a + Suc m) (a + n)"
      using addrs_Suc [OF wf, of "a + m" "a + n"] mn b by simp
    ultimately have H': "sector_addr ?k \<in> ?H" "?H - {sector_addr ?k} = H \<union> addrs h D (a + Suc m) (a + n)" by auto
    note rng = data_sector_range [OF wf q]
    have I': "disk_at ?H D t" "buf = concat (map (sector_data h D) [a..<a + m])" using I x by simp_all
    obtain t1 where t1: "ByteToSector (int (a + m) * SectorSize) h t = Inr (?k, t1)" "disk_at ?H D t1"
      using sector_at [OF wf q I'(1)] by (auto elim!: yields_obtain)
    obtain t2 where t2: "ReadSector ?k t1 = Inr (sector_data h D (a + m), t2)" "disk_at ?H D t2"
      using ReadSector_at [OF t1(2) rng] by (auto simp: sector_data_def elim!: yields_obtain)
    obtain t3 where t3: "ByteToSector (int (a + m) * SectorSize) h t2 = Inr (?k, t3)" "disk_at ?H D t3"
      using sector_at [OF wf q t2(2)] by (auto elim!: yields_obtain)
    obtain t4 where t4: "rw_V ?k t3 = Inr t4" "disk_at (H \<union> addrs h D (a + Suc m) (a + n)) D t4"
      using rw_V_at [OF t3(2) rng H'(1)] unfolding H'(2) by (auto elim!: yields_obtain)
    show "yields (read_sector h ([int a..int a + int n - 1] ! m) x) (?I (Suc m))"
      unfolding read_sector_def x prod.case e using t1(1) t2(1) t3(1) t4 I'(2) by simp
  qed
  then show ?thesis by (simp add: addrs_def)
qed


section \<open>Reading\<close>

named_theorems stamp_simps \<open>the time stamps of a header do not matter for the file\<close>

lemma stamp_blocks [stamp_simps]:
  "num_tables (h\<lparr>lastVisitTime := t\<rparr>) = num_tables h" "num_tables (h\<lparr>lastWriteTime := t\<rparr>) = num_tables h"
  "file_blocks (h\<lparr>lastVisitTime := t\<rparr>) D = file_blocks h D" "file_blocks (h\<lparr>lastWriteTime := t\<rparr>) D = file_blocks h D"
  by (simp_all add: num_tables_def file_blocks_def)

lemma stamp_data [stamp_simps]:
  "sector_data (h\<lparr>lastVisitTime := t\<rparr>) = sector_data h" "sector_data (h\<lparr>lastWriteTime := t\<rparr>) = sector_data h"
  by (simp_all add: sector_data_def fun_eq_iff)

lemma stamp_file [stamp_simps]:
  "wf_file (h\<lparr>lastVisitTime := t\<rparr>) D = wf_file h D" "wf_file (h\<lparr>lastWriteTime := t\<rparr>) D = wf_file h D"
  "file_bytes (h\<lparr>lastVisitTime := t\<rparr>) D = file_bytes h D" "file_bytes (h\<lparr>lastWriteTime := t\<rparr>) D = file_bytes h D"
  by (simp_all add: wf_file_def stamp_blocks stamp_data file_bytes_def raw_contents_def)

text \<open>Reading \<open>n\<close> bytes at \<open>p\<close>, all inside the file.\<close>

lemma sector_span:
  assumes "0 < n" and a: "a = p div 128" and c: "c = Suc ((p + n - 1) div 128) - p div 128"
  shows "p - 128 * a + n \<le> 128 * c" "128 * a \<le> p" "p < 128 * a + 128" "p + n \<le> 128 * (a + c)" "128 * (a + c) < p + n + 128"
proof -
  have le: "a \<le> (p + n - 1) div 128" unfolding a using assms(1) by (intro div_le_mono) simp
  have q: "p + n - 1 < 128 * Suc ((p + n - 1) div 128)" "128 * ((p + n - 1) div 128) \<le> p + n - 1"
    using dividend_less_times_div [of 128 "p + n - 1"] by simp_all
  have ac: "a + c = Suc ((p + n - 1) div 128)" using le by (simp add: c a)
  show pa: "128 * a \<le> p" "p < 128 * a + 128" by (auto simp: a)
  show "p + n \<le> 128 * (a + c)" "128 * (a + c) < p + n + 128" using q ac assms(1) by simp_all
  then show "p - 128 * a + n \<le> 128 * c" using pa by simp
qed

lemma slice_sectors:
  assumes "wf_file h D" "disk_image D" and n: "0 < n" "p + n \<le> nat (numBytes h)"
    and a: "a = p div 128" and c: "c = Suc ((p + n - 1) div 128) - p div 128"
  shows "slice (p - 128 * a) n (concat (map (sector_data h D) [a..<a + c])) = slice p n (file_bytes h D)"
    and "a + c \<le> nat (numSectors h)"
proof -
  note sp = sector_span [OF n(1) a c]
  show le: "a + c \<le> nat (numSectors h)"
  proof -
    have "nat (numBytes h) \<le> 128 * nat (numSectors h)" using assms(1) by (auto simp: wf_file_def)
    then have "128 * (a + c) < 128 * Suc (nat (numSectors h))" using sp(5) n(2) by simp
    then show ?thesis by (simp only: mult_less_cancel1) simp
  qed
  have len: "length (sector_data h D q) = 128" if "a \<le> q" "q < a + c" for q
    using length_sector_data [OF assms(1,2)] that le by simp
  note ch = concat_chunks [of a c "sector_data h D", OF len]
  show "slice (p - 128 * a) n (concat (map (sector_data h D) [a..<a + c])) = slice p n (file_bytes h D)"
  proof (rule nth_equalityI)
    show "length (slice (p - 128 * a) n (concat (map (sector_data h D) [a..<a + c]))) = length (slice p n (file_bytes h D))"
      using sp(1) ch(1) n length_file_bytes [OF assms(1,2)] by simp
  next
    fix i assume "i < length (slice (p - 128 * a) n (concat (map (sector_data h D) [a..<a + c])))"
    then have i: "i < n" using sp(1) ch(1) by simp
    define r where "r = p - 128 * a + i"
    have "p + i = 128 * a + r" using sp(2) by (simp add: r_def)
    then have "a + r div 128 = (p + i) div 128" "r mod 128 = (p + i) mod 128" by simp_all
    then have "a + (p - 128 * a + i) div 128 = (p + i) div 128" "(p - 128 * a + i) mod 128 = (p + i) mod 128"
      unfolding r_def by blast+
    then have "concat (map (sector_data h D) [a..<a + c]) ! (p - 128 * a + i) = file_bytes h D ! (p + i)"
      using ch(2) [of "p - 128 * a + i"] file_bytes_nth [OF assms(1,2), of "p + i"] sp(1) i n(2) by simp
    then show "slice (p - 128 * a) n (concat (map (sector_data h D) [a..<a + c])) ! i = slice p n (file_bytes h D) ! i"
      using sp(1) ch(1) i n(2) length_file_bytes [OF assms(1,2)] by (simp add: nth_slice)
  qed
qed

text \<open>The sector numbers the code computes, as natural numbers.\<close>

lemma sector_bounds:
  assumes "0 \<le> position" "0 < n"
  shows "divRoundDown position SectorSize = int (nat position div 128)"
    and "divRoundDown (position + n - 1) SectorSize =
      int (nat position div 128) + int (Suc ((nat position + nat n - 1) div 128) - nat position div 128) - 1"
proof -
  show "divRoundDown position SectorSize = int (nat position div 128)"
    using assms by (simp add: divRoundDown_nonneg zdiv_int)
  have "nat position div 128 \<le> (nat position + nat n - 1) div 128" using assms by (intro div_le_mono) simp
  moreover have "divRoundDown (position + n - 1) SectorSize = int ((nat position + nat n - 1) div 128)"
    using assms by (simp add: divRoundDown_nonneg zdiv_int of_nat_diff)
  ultimately show "divRoundDown (position + n - 1) SectorSize =
      int (nat position div 128) + int (Suc ((nat position + nat n - 1) div 128) - nat position div 128) - 1"
    by (simp add: of_nat_diff)
qed

lemma read_range_ok:
  assumes s: "fs_at {} D C s" and wf: "wf_file h D" and p: "0 \<le> position" "0 < m" "position + m \<le> numBytes h"
  shows "yields (read_range m position h s)
    (\<lambda>(bs, s'). bs = slice (nat position) (nat m) (file_bytes h D) \<and> fs_at {} D C s')"
proof -
  note D = fs_at_image [OF s]
  define a where "a = nat position div 128"
  define c where "c = Suc ((nat position + nat m - 1) div 128) - nat position div 128"
  note sb = sector_bounds [OF p(1,2), folded a_def c_def]
  have mn: "0 < nat m" "nat position + nat m \<le> nat (numBytes h)" using p by linarith+
  note sd = slice_sectors [OF wf D mn a_def c_def]
  obtain d1 where d1: "lock_sectors h (int a) (int a + int c - 1) (sdisk s) = Inr d1" "disk_at ({} \<union> addrs h D a (a + c)) D d1"
    using lock_sectors_ok [OF wf sd(2) fs_at_disk [OF s]] by (auto elim!: yields_obtain)
  obtain d2 where d2: "foldE (read_sector h) [int a..int a + int c - 1] ([], d1) =
      Inr (concat (map (sector_data h D) [a..<a + c]), d2)" "disk_at {} D d2"
    using read_sectors_ok [OF wf sd(2) d1(2)] by (auto elim!: yields_obtain)
  have pos: "nat (position - int a * SectorSize) = nat position - 128 * a" "0 \<le> position - int a * SectorSize"
    using p by (auto simp: a_def)
  have "fs_at {} D C (s\<lparr>sdisk := d2\<rparr>)" using d2(2) s by (simp add: fs_at_def)
  then show ?thesis
    using d1(1) d2(1) pos sd(1) by (simp add: read_range_def sb do_disk_def on_disk_def)
qed

lemma ReadAt_ok:
  assumes s: "fs_at {} D C s" and k: "0 \<le> hdrSectorNumber f" "hdrSectorNumber f < NumSectors"
    and h: "h = header_at D (hdrSectorNumber f)" and wf: "wf_file h D" and p: "0 \<le> position"
  shows "yields (ReadAt n position f s) (\<lambda>(bs, f', s').
    bs = (if n \<le> 0 then [] else slice (nat position) (nat n) (file_bytes h D)) \<and>
    (\<exists>t. int32 t \<and> f' = f\<lparr>hdr := h\<lparr>lastVisitTime := t\<rparr>\<rparr>) \<and> fs_at {} D C s')"
proof -
  have len: "length (file_bytes h D) = nat (numBytes h)" using length_file_bytes [OF wf fs_at_image [OF s]] .
  obtain s1 where s1: "refetch f s = Inr (h, s1)" "fs_at {} D C s1"
    using refetch_ok [OF s k] h by (auto elim!: yields_obtain)
  obtain t s2 where s2: "time_now s1 = (t, s2)" "int32 t" "fs_at {} D C s2" using time_now_at [OF s1(2)] .
  let ?h = "h\<lparr>lastVisitTime := t\<rparr>"
  show ?thesis
  proof (cases "n \<le> 0 \<or> position \<ge> numBytes h")
    case True
    then have "slice (nat position) (nat n) (file_bytes h D) = [] \<or> n \<le> 0"
      using p len by (auto simp: slice_def)
    then show ?thesis using True s1(1) s2 by (auto simp: ReadAt_def FileLength_def)
  next
    case False
    define m where "m = (if position + n > numBytes h then numBytes h - position else n)"
    have m: "0 < m" "position + m \<le> numBytes ?h" using False by (auto simp: m_def)
    have "slice (nat position) (nat m) (file_bytes h D) = slice (nat position) (nat n) (file_bytes h D)"
      using len p False by (auto simp: slice_def m_def)
    moreover obtain s3 where "read_range m position ?h s2 = Inr (slice (nat position) (nat m) (file_bytes h D), s3)" "fs_at {} D C s3"
      using read_range_ok [OF s2(3) _ p m] wf by (auto simp: stamp_simps elim!: yields_obtain)
    ultimately have "ReadAt n position f s = Inr (slice (nat position) (nat n) (file_bytes h D), f\<lparr>hdr := ?h\<rparr>, s3)" "fs_at {} D C s3"
      using False s1(1) s2(1) by (auto simp: ReadAt_def FileLength_def m_def)
    then show ?thesis using False s2(2) by auto
  qed
qed


section \<open>Writing\<close>

text \<open>The image after \<open>n\<close> sectors of the buffer were written, starting at sector \<open>a\<close> of the file.\<close>

primrec put_sectors :: "FileHeader \<Rightarrow> byte list list \<Rightarrow> nat \<Rightarrow> byte list \<Rightarrow> nat \<Rightarrow> byte list list" where
  "put_sectors h D a buf 0 = D"
| "put_sectors h D a buf (Suc n) =
     (put_sectors h D a buf n)[nat (data_sector (primaryIndexTable h) D (a + n)) := slice (128 * n) 128 buf]"

lemma length_put [simp]: "length (put_sectors h D a buf n) = length D"
  by (induction n) auto

lemma put_image:
  "disk_image D \<Longrightarrow> 128 * n \<le> length buf \<Longrightarrow> disk_image (put_sectors h D a buf n)"
  by (induction n) (auto intro!: disk_image_update)

lemma put_other:
  assumes "wf_file h D" "a + n \<le> nat (numSectors h)" "\<And>q. a \<le> q \<Longrightarrow> q < a + n \<Longrightarrow> data_sector (primaryIndexTable h) D q \<noteq> int j"
  shows "put_sectors h D a buf n ! j = D ! j"
  using assms(2,3)
proof (induction n)
  case (Suc n)
  have "nat (data_sector (primaryIndexTable h) D (a + n)) \<noteq> j"
    using data_sector_range(1) [OF assms(1), of "a + n"] Suc.prems(1) Suc.prems(2) [of "a + n"] by auto
  then show ?case using Suc by simp
qed simp

lemma put_here:
  assumes "wf_file h D" "disk_image D" "a + n \<le> nat (numSectors h)" "a \<le> q" "q < a + n"
  shows "put_sectors h D a buf n ! nat (data_sector (primaryIndexTable h) D q) = slice (128 * (q - a)) 128 buf"
  using assms(3,5)
proof (induction n)
  case (Suc n)
  let ?ds = "data_sector (primaryIndexTable h) D"
  have r: "0 \<le> ?ds q" "?ds q < 1024" "0 \<le> ?ds (a + n)" "?ds (a + n) < 1024"
    using data_sector_range [OF assms(1)] Suc.prems by auto
  show ?case
  proof (cases "q = a + n")
    case True
    then show ?thesis using r assms(2) by (simp add: disk_image_def)
  next
    case False
    then have "?ds q \<noteq> ?ds (a + n)" using addr_inj [OF assms(1), of q "a + n"] Suc.prems by auto
    then show ?thesis using Suc False r by simp
  qed
qed (use assms(4) in simp)

lemma put_index:
  assumes "wf_file h D" "a + n \<le> nat (numSectors h)" "q < nat (numSectors h)"
  shows "data_sector (primaryIndexTable h) (put_sectors h D a buf n) q = data_sector (primaryIndexTable h) D q"
proof -
  have k: "q div 32 < num_tables h" using assms(3) by (auto simp: num_tables_eq)
  note r = file_block_range(1) [OF assms(1) index_block_mem [OF k]]
  have "put_sectors h D a buf n ! nat (primaryIndexTable h ! (q div 32)) = D ! nat (primaryIndexTable h ! (q div 32))"
  proof (rule put_other [OF assms(1,2)])
    fix q' assume "a \<le> q'" "q' < a + n"
    then have "primaryIndexTable h ! (q div 32) \<noteq> data_sector (primaryIndexTable h) D q'"
      using assms k by (auto simp: wf_file_def file_blocks_def distinct_block_list)
    then show "data_sector (primaryIndexTable h) D q' \<noteq> int (nat (primaryIndexTable h ! (q div 32)))" using r by simp
  qed
  then show ?thesis by (simp add: data_sector_def)
qed

lemma put_blocks:
  assumes "wf_file h D" "a + n \<le> nat (numSectors h)"
  shows "file_blocks h (put_sectors h D a buf n) = file_blocks h D" "wf_file h (put_sectors h D a buf n)"
proof -
  show e: "file_blocks h (put_sectors h D a buf n) = file_blocks h D"
    using put_index [OF assms] by (simp add: file_blocks_def block_list_def)
  show "wf_file h (put_sectors h D a buf n)" using assms(1) by (simp add: wf_file_def e)
qed

lemma write_sectors_ok:
  assumes wf: "wf_file h D" and b: "a + n \<le> nat (numSectors h)" and D: "disk_at (H \<union> addrs h D a (a + n)) D s"
    and H: "H \<inter> addrs h D a (a + n) = {}" and buf: "length buf = 128 * n"
  shows "yields (foldE (write_sector h (int a) buf) [int a..int a + int n - 1] s) (disk_at H (put_sectors h D a buf n))"
proof -
  let ?P = "put_sectors h D a buf"
  let ?I = "\<lambda>m. disk_at (H \<union> addrs h D (a + m) (a + n)) (?P m)"
  have "yields (foldE (write_sector h (int a) buf) [int a..int a + int n - 1] s) (?I (length [int a..int a + int n - 1]))"
  proof (rule yields_foldE)
    show "?I 0 s" using D by simp
    fix m t assume m: "m < length [int a..int a + int n - 1]" and I: "?I m t"
    let ?k = "data_sector (primaryIndexTable h) D (a + m)" and ?H = "H \<union> addrs h D (a + m) (a + n)"
    let ?d = "slice (128 * m) 128 buf"
    have q: "a + m < nat (numSectors h)" and mn: "m < n" and am: "a + m \<le> nat (numSectors h)" "a + Suc m \<le> nat (numSectors h)"
      using m b by simp_all
    have e: "[int a..int a + int n - 1] ! m = int (a + m)" using m by (simp add: nth_upto)
    have off: "nat ((int (a + m) - int a) * SectorSize) = 128 * m" by simp
    have "sector_addr ?k \<in> addrs h D (a + m) (a + n)" "sector_addr ?k \<in> addrs h D a (a + n)"
      using mn by (auto simp: addrs_def)
    moreover have "addrs h D (a + m) (a + n) - {sector_addr ?k} = addrs h D (a + Suc m) (a + n)"
      using addrs_Suc [OF wf, of "a + m" "a + n"] mn b by simp
    ultimately have H': "sector_addr ?k \<in> ?H" "?H - {sector_addr ?k} = H \<union> addrs h D (a + Suc m) (a + n)" using H by auto
    note rng = data_sector_range [OF wf q]
    note wf' = put_blocks(2) [OF wf am(1), of buf] put_blocks(2) [OF wf am(2), of buf]
    note ds = put_index [OF wf am(1) q, of buf] put_index [OF wf am(2) q, of buf]
    have len: "length ?d = 128" using mn buf by simp
    obtain t1 where t1: "ByteToSector (int (a + m) * SectorSize) h t = Inr (?k, t1)" "disk_at ?H (?P m) t1"
      using sector_at [OF wf'(1) q I] ds by (auto elim!: yields_obtain)
    obtain t2 where t2: "WriteSector ?k ?d t1 = Inr t2" "disk_at ?H (?P (Suc m)) t2"
      using WriteSector_at [OF t1(2) rng len] by (auto elim!: yields_obtain)
    obtain t3 where t3: "ByteToSector (int (a + m) * SectorSize) h t2 = Inr (?k, t3)" "disk_at ?H (?P (Suc m)) t3"
      using sector_at [OF wf'(2) q t2(2)] unfolding ds by (auto elim!: yields_obtain)
    have "yields (rw_V ?k t3) (?I (Suc m))" using rw_V_at [OF t3(2) rng H'(1)] unfolding H'(2) .
    then show "yields (write_sector h (int a) buf ([int a..int a + int n - 1] ! m) t) (?I (Suc m))"
      unfolding write_sector_def e off using t1(1) t2(1) t3(1) by simp
  qed
  then show ?thesis by (simp add: addrs_def)
qed


text \<open>Headers that differ in their time stamps only.\<close>

definition stamped :: "FileHeader \<Rightarrow> FileHeader \<Rightarrow> bool" where
  "stamped h h' \<longleftrightarrow> (\<exists>t1 t2. h' = h\<lparr>lastVisitTime := t1, lastWriteTime := t2\<rparr>)"

lemma stampedI: "stamped h (h\<lparr>lastVisitTime := t\<rparr>)" "stamped h (h\<lparr>lastVisitTime := t, lastWriteTime := t'\<rparr>)" "stamped h h"
proof -
  show "stamped h (h\<lparr>lastVisitTime := t\<rparr>)" unfolding stamped_def by (rule exI [of _ t], rule exI [of _ "lastWriteTime h"]) simp
  show "stamped h (h\<lparr>lastVisitTime := t, lastWriteTime := t'\<rparr>)" unfolding stamped_def by blast
  show "stamped h h" unfolding stamped_def by (rule exI [of _ "lastVisitTime h"], rule exI [of _ "lastWriteTime h"]) simp
qed

lemma stamped_visit: "stamped h h' \<Longrightarrow> stamped h (h'\<lparr>lastVisitTime := t\<rparr>)"
  by (cases h) (auto simp: stamped_def)

lemma stamped_sym: "stamped h h' \<Longrightarrow> stamped h' h"
  by (cases h) (auto simp: stamped_def)

lemma stamped_trans: "stamped h h' \<Longrightarrow> stamped h' h'' \<Longrightarrow> stamped h h''"
  by (cases h) (auto simp: stamped_def)

lemma stamped_file:
  assumes "stamped h h'"
  shows "wf_file h' D = wf_file h D" "file_bytes h' D = file_bytes h D" "numBytes h' = numBytes h"
    "numSectors h' = numSectors h" "primaryIndexTable h' = primaryIndexTable h" "file_blocks h' D = file_blocks h D"
    "fileType h' = fileType h" "numVisits h' = numVisits h"
  using assms by (auto simp: stamped_def stamp_simps)

text \<open>
  The buffer of \<^verbatim>\<open>WriteAt\<close> for the sectors \<open>a\<close> to \<open>a + c\<close> of the file: at the offsets in \<open>V\<close> it
  holds what the file holds.
\<close>

definition prepared :: "FileHeader \<Rightarrow> byte list list \<Rightarrow> string list \<Rightarrow> OpenFile \<Rightarrow> nat \<Rightarrow> nat \<Rightarrow> (nat \<Rightarrow> bool) \<Rightarrow>
    byte list \<times> OpenFile \<times> fsys \<Rightarrow> bool" where
  "prepared h D C f0 a c V = (\<lambda>(buf, f, s). length buf = 128 * c \<and>
     (\<forall>i < 128 * c. V i \<and> 128 * a + i < nat (numBytes h) \<longrightarrow> buf ! i = file_bytes h D ! (128 * a + i)) \<and>
     stamped h (hdr f) \<and> hdrSectorNumber f = hdrSectorNumber f0 \<and> seekPosition f = seekPosition f0 \<and> fs_at {} D C s)"

lemma prepared_weaken: "prepared h D C f0 a c V x \<Longrightarrow> (\<And>i. i < 128 * c \<Longrightarrow> V' i \<Longrightarrow> V i) \<Longrightarrow> prepared h D C f0 a c V' x"
  by (auto simp: prepared_def)

lemma read_into_buffer:
  assumes P: "prepared h D C f0 a c V (buf, f, s)" and k: "0 \<le> hdrSectorNumber f0" "hdrSectorNumber f0 < NumSectors"
    and h: "h = header_at D (hdrSectorNumber f0)" and wf: "wf_file h D" and q: "q < c"
  shows "yields (bindE (ReadAt SectorSize (int (a + q) * SectorSize) f s) (\<lambda>(bs, f, s). Inr (bcopyTo (128 * q) bs buf, f, s)))
    (prepared h D C f0 a c (\<lambda>i. V i \<or> 128 * q \<le> i \<and> i < 128 * q + 128))"
proof -
  let ?o = "128 * q" and ?p = "128 * (a + q)"
  let ?bs = "slice ?p 128 (file_bytes h D)"
  from P have buf: "length buf = 128 * c" and s: "fs_at {} D C s" and f: "hdrSectorNumber f = hdrSectorNumber f0" "seekPosition f = seekPosition f0"
    and V: "\<forall>i < 128 * c. V i \<and> 128 * a + i < nat (numBytes h) \<longrightarrow> buf ! i = file_bytes h D ! (128 * a + i)"
    by (simp_all add: prepared_def)
  obtain t s' where r: "ReadAt SectorSize (int (a + q) * SectorSize) f s = Inr (?bs, f\<lparr>hdr := h\<lparr>lastVisitTime := t\<rparr>\<rparr>, s')" "fs_at {} D C s'"
    using ReadAt_ok [OF s _ _ _ wf, of f "int (a + q) * SectorSize" SectorSize] k h f
    by (auto simp: nat_mult_distrib nat_add_distrib mult.commute elim!: yields_obtain)
  have len: "length ?bs = min 128 (nat (numBytes h) - ?p)"
    using length_file_bytes [OF wf fs_at_image [OF s]] by (simp add: slice_def)
  then have l: "?o + length ?bs \<le> length buf" using buf q by simp
  have "bcopyTo ?o ?bs buf ! i = file_bytes h D ! (128 * a + i)"
    if i: "i < 128 * c" "V i \<or> ?o \<le> i \<and> i < ?o + 128" "128 * a + i < nat (numBytes h)" for i
  proof (cases "?o \<le> i \<and> i < ?o + 128")
    case True
    then have "i < ?o + length ?bs" using i(3) len by auto
    then show ?thesis
      using nth_bcopyTo [OF l, of i] i(1) buf True len by (auto simp: slice_def)
  next
    case False
    then show ?thesis using nth_bcopyTo [OF l, of i] i buf V len by auto
  qed
  then show ?thesis using r l buf f by (simp add: prepared_def stampedI)
qed

lemma prepare_buffer_ok:
  assumes s: "fs_at {} D C s" and k: "0 \<le> hdrSectorNumber f" "hdrSectorNumber f < NumSectors"
    and h: "h = header_at D (hdrSectorNumber f)" and wf: "wf_file h D" and st: "stamped h (hdr f)"
    and p: "0 \<le> position" "0 < n"
    and a: "a = nat position div 128" and c: "c = Suc ((nat position + nat n - 1) div 128) - nat position div 128"
  shows "yields (prepare_buffer junk n position f s)
    (prepared h D C f a c (\<lambda>i. \<not> (nat position \<le> 128 * a + i \<and> 128 * a + i < nat position + nat n)))"
proof -
  have n: "0 < nat n" using p by simp
  note sp = sector_span [OF n a c]
  note sb = sector_bounds [OF p(1,2), folded a c]
  obtain e where ce: "c = Suc e" using sp(1,2,4) n by (cases c) simp_all
  have b: "int a + int c - 1 = int (a + e)" by (simp add: ce)
  define buf0 where "buf0 = map (\<lambda>i. word_of_int (junk i) :: byte) [0..<128 * c]"
  have P0: "prepared h D C f a c (\<lambda>i. False) (buf0, f, s)" using st s by (simp add: prepared_def buf0_def)
  have al: "position = int a * SectorSize \<longleftrightarrow> nat position = 128 * a" using p by auto
  have bl: "position + n = (int (a + e) + 1) * SectorSize \<longleftrightarrow> nat position + nat n = 128 * (a + c)" using p ce by auto
  have sz: "nat ((1 + int (a + e) - int a) * SectorSize) = 128 * c" "nat ((int (a + e) - int a) * SectorSize) = 128 * e"
    by (simp_all add: ce)
  define V1 where "V1 = (\<lambda>i::nat. nat position \<noteq> 128 * a \<and> i < 128)"
  have first: "yields (if \<not> position = int a * SectorSize
      then bindE (ReadAt SectorSize (int a * SectorSize) f s) (\<lambda>(bs, f, s). Inr (bcopyTo 0 bs buf0, f, s))
      else Inr (buf0, f, s)) (prepared h D C f a c V1)"
    using read_into_buffer [OF P0 k h wf, of 0] P0 al ce by (auto simp: V1_def elim!: yields_mono prepared_weaken)
  show ?thesis
    unfolding prepare_buffer_def sb b sz buf0_def [symmetric] Let_def
  proof (rule yields_then [OF first])
    fix x assume x: "prepared h D C f a c V1 x"
    obtain buf f1 s1 where xe: "x = (buf, f1, s1)" by (cases x) auto
    let ?V = "\<lambda>i. \<not> (nat position \<le> 128 * a + i \<and> 128 * a + i < nat position + nat n)"
    let ?g = "\<not> position + n = (int (a + e) + 1) * SectorSize \<and> (int a \<noteq> int (a + e) \<or> position = int a * SectorSize)"
    have "V1 i \<or> (?g \<and> 128 * e \<le> i \<and> i < 128 * e + 128)" if "i < 128 * c" "?V i" for i
      using that sp unfolding V1_def bl al ce by (cases e) auto
    moreover have "yields (bindE (ReadAt SectorSize (int (a + e) * SectorSize) f1 s1) (\<lambda>(bs, f, s). Inr (bcopyTo (128 * e) bs buf, f, s)))
        (prepared h D C f a c (\<lambda>i. V1 i \<or> 128 * e \<le> i \<and> i < 128 * e + 128))"
      using read_into_buffer [OF x [unfolded xe] k h wf, of e] ce by simp
    ultimately show "yields (case x of (buf, f, s) \<Rightarrow>
        if ?g then bindE (ReadAt SectorSize (int (a + e) * SectorSize) f s) (\<lambda>(bs, f, s). Inr (bcopyTo (128 * e) bs buf, f, s))
        else Inr (buf, f, s)) (prepared h D C f a c ?V)"
      using x unfolding xe prod.case
      by (cases ?g) (auto elim!: yields_mono prepared_weaken)
  qed
qed


text \<open>Only data sectors of the file \<open>h\<close> differ between the images.\<close>

definition data_only :: "FileHeader \<Rightarrow> byte list list \<Rightarrow> byte list list \<Rightarrow> bool" where
  "data_only h D D' \<longleftrightarrow> wf_file h D' \<and> file_blocks h D' = file_blocks h D \<and> disk_image D' \<and>
     (\<forall>j < 1024. (\<forall>q < nat (numSectors h). data_sector (primaryIndexTable h) D q \<noteq> int j) \<longrightarrow> D' ! j = D ! j)"

lemma put_data_only:
  assumes "wf_file h D" "disk_image D" "a + c \<le> nat (numSectors h)" "128 * c \<le> length buf"
  shows "data_only h D (put_sectors h D a buf c)"
proof -
  have "put_sectors h D a buf c ! j = D ! j" if "\<forall>q < nat (numSectors h). data_sector (primaryIndexTable h) D q \<noteq> int j" for j
    using that assms(3) by (intro put_other [OF assms(1,3)]) auto
  then show ?thesis
    using put_blocks [OF assms(1,3), of buf] put_image [OF assms(2,4)] by (simp add: data_only_def)
qed

lemma file_sector_in:
  assumes "wf_file h D" "i < nat (numBytes h)"
  shows "i div 128 < nat (numSectors h)"
proof -
  have "nat (numBytes h) \<le> 128 * nat (numSectors h)" using assms(1) by (auto simp: wf_file_def)
  then show ?thesis using assms(2) by (intro less_mult_imp_div_less) simp
qed

lemma file_bytes_put_in:
  assumes wf: "wf_file h D" and D: "disk_image D" and ac: "a + c \<le> nat (numSectors h)" and buf: "length buf = 128 * c"
    and i: "128 * a + j < nat (numBytes h)" "j < 128 * c"
  shows "file_bytes h (put_sectors h D a buf c) ! (128 * a + j) = buf ! j"
proof -
  let ?D = "put_sectors h D a buf c" and ?i = "128 * a + j"
  have q: "?i div 128 = a + j div 128" "?i mod 128 = j mod 128" by simp_all
  have jc: "j div 128 < c" using i(2) by (intro less_mult_imp_div_less) simp
  then have j: "128 * (j div 128) + 128 \<le> 128 * c"
    using mult_le_mono2 [of "Suc (j div 128)" c 128] by simp
  have wf': "wf_file h ?D" and D': "disk_image ?D"
    using put_blocks(2) [OF wf ac, of buf] put_image [OF D, of c buf h a] buf by simp_all
  have "file_bytes h ?D ! ?i = sector_data h ?D (a + j div 128) ! (j mod 128)"
    using file_bytes_nth [OF wf' D' i(1)] unfolding q .
  also have "sector_data h ?D (a + j div 128) = slice (128 * (j div 128)) 128 buf"
    using put_here [OF wf D ac, of "a + j div 128" buf] put_index [OF wf ac, of "a + j div 128" buf] jc ac by (simp add: sector_data_def)
  also have "slice (128 * (j div 128)) 128 buf ! (j mod 128) = buf ! (128 * (j div 128) + j mod 128)"
    using j buf by (intro nth_slice) simp_all
  finally show ?thesis by simp
qed

lemma file_bytes_put_out:
  assumes wf: "wf_file h D" and D: "disk_image D" and ac: "a + c \<le> nat (numSectors h)" and buf: "length buf = 128 * c"
    and i: "i < nat (numBytes h)" "i < 128 * a \<or> 128 * (a + c) \<le> i"
  shows "file_bytes h (put_sectors h D a buf c) ! i = file_bytes h D ! i"
proof -
  let ?D = "put_sectors h D a buf c" and ?k = "data_sector (primaryIndexTable h) D (i div 128)"
  note q = file_sector_in [OF wf i(1)]
  have out: "\<not> (a \<le> i div 128 \<and> i div 128 < a + c)"
    using i(2) div_le_mono [of "128 * (a + c)" i 128] less_mult_imp_div_less [of i a 128] by auto
  have "?D ! nat ?k = D ! nat ?k"
  proof (rule put_other [OF wf ac])
    fix q' assume q': "a \<le> q'" "q' < a + c"
    then have "data_sector (primaryIndexTable h) D q' \<noteq> ?k" using addr_inj [OF wf _ q, of q'] ac out by auto
    then show "data_sector (primaryIndexTable h) D q' \<noteq> int (nat ?k)" using data_sector_range(1) [OF wf q] by simp
  qed
  moreover have "wf_file h ?D" "disk_image ?D"
    using put_blocks(2) [OF wf ac, of buf] put_image [OF D, of c buf h a] buf by simp_all
  ultimately show ?thesis
    using file_bytes_nth [OF _ _ i(1), of ?D] file_bytes_nth [OF wf D i(1)] put_index [OF wf ac q, of buf] by (simp add: sector_data_def)
qed

lemma file_bytes_put:
  assumes wf: "wf_file h D" and D: "disk_image D" and n: "0 < n" "p + n \<le> nat (numBytes h)"
    and a: "a = p div 128" and c: "c = Suc ((p + n - 1) div 128) - p div 128"
    and data: "length data = n" and buf: "length buf = 128 * c"
    and V: "\<forall>i < 128 * c. \<not> (p \<le> 128 * a + i \<and> 128 * a + i < p + n) \<and> 128 * a + i < nat (numBytes h) \<longrightarrow>
      buf ! i = file_bytes h D ! (128 * a + i)"
  shows "file_bytes h (put_sectors h D a (bcopyTo (p - 128 * a) data buf) c) = bcopyTo p data (file_bytes h D)"
proof -
  let ?buf = "bcopyTo (p - 128 * a) data buf"
  let ?D = "put_sectors h D a ?buf c"
  note sp = sector_span [OF n(1) a c]
  have ac: "a + c \<le> nat (numSectors h)" using slice_sectors(2) [OF wf D n a c] .
  have l: "p - 128 * a + length data \<le> length buf" using sp(1) data buf by simp
  have lb: "length ?buf = 128 * c" using l buf by simp
  have wf': "wf_file h ?D" and D': "disk_image ?D"
    using put_blocks(2) [OF wf ac, of ?buf] put_image [OF D, of c ?buf h a] lb by simp_all
  note len = length_file_bytes [OF wf D] length_file_bytes [OF wf' D']
  have pd: "p + length data \<le> length (file_bytes h D)" using len n data by simp
  show ?thesis
  proof (rule nth_equalityI)
    show "length (file_bytes h ?D) = length (bcopyTo p data (file_bytes h D))" using len pd by simp
    fix i assume "i < length (file_bytes h ?D)"
    then have i: "i < nat (numBytes h)" using len by simp
    have "file_bytes h ?D ! i = (if p \<le> i \<and> i < p + n then data ! (i - p) else file_bytes h D ! i)"
    proof (cases "i < 128 * a \<or> 128 * (a + c) \<le> i")
      case True
      then have "\<not> (p \<le> i \<and> i < p + n)" using sp by auto
      then show ?thesis using file_bytes_put_out [OF wf D ac lb i True] by auto
    next
      case False
      then obtain j where ij: "i = 128 * a + j" using le_Suc_ex [of "128 * a" i] by auto
      then have j: "j < 128 * c" using False by simp
      have "file_bytes h ?D ! i = ?buf ! j" using file_bytes_put_in [OF wf D ac lb] i j by (simp add: ij)
      also have "\<dots> = (if p \<le> i \<and> i < p + n then data ! (i - p) else file_bytes h D ! i)"
        using nth_bcopyTo [OF l, of j] j buf V data i sp(2) by (auto simp: ij add.commute [of j])
      finally show ?thesis .
    qed
    then show "file_bytes h ?D ! i = bcopyTo p data (file_bytes h D) ! i"
      using nth_bcopyTo [OF pd, of i] i len(1) data by simp
  qed
qed


lemma write_range_ok:
  assumes s: "fs_at {} D C s" and k: "0 \<le> hdrSectorNumber f" "hdrSectorNumber f < NumSectors"
    and h: "h = header_at D (hdrSectorNumber f)" and wf: "wf_file h D" and st: "stamped h (hdr f)"
    and p: "0 \<le> position" "0 < n" "position + n \<le> numBytes h" and fr: "nat n \<le> length from"
  shows "yields (write_range junk from n position f s) (\<lambda>(f', s').
    \<exists>D'. fs_at {} D' C s' \<and> data_only h D D' \<and>
      file_bytes h D' = bcopyTo (nat position) (take (nat n) from) (file_bytes h D) \<and>
      stamped h (hdr f') \<and> hdrSectorNumber f' = hdrSectorNumber f \<and> seekPosition f' = seekPosition f)"
proof -
  define a where "a = nat position div 128"
  define c where "c = Suc ((nat position + nat n - 1) div 128) - nat position div 128"
  note D = fs_at_image [OF s]
  have mn: "0 < nat n" "nat position + nat n \<le> nat (numBytes h)" using p by linarith+
  note sp = sector_span [OF mn(1) a_def c_def]
  note sb = sector_bounds [OF p(1,2), folded a_def c_def]
  have ac: "a + c \<le> nat (numSectors h)" using slice_sectors(2) [OF wf D mn a_def c_def] .
  obtain buf f1 s1 where b: "prepare_buffer junk n position f s = Inr (buf, f1, s1)"
    and P: "prepared h D C f a c (\<lambda>i. \<not> (nat position \<le> 128 * a + i \<and> 128 * a + i < nat position + nat n)) (buf, f1, s1)"
    using prepare_buffer_ok [OF s k h wf st p(1,2) a_def c_def, of junk] by (auto elim!: yields_obtain)
  from P have P1: "length buf = 128 * c" "stamped h (hdr f1)" "hdrSectorNumber f1 = hdrSectorNumber f"
    "seekPosition f1 = seekPosition f" "fs_at {} D C s1" by (simp_all add: prepared_def)
  let ?data = "take (nat n) from"
  let ?buf = "bcopyTo (nat position - 128 * a) ?data buf"
  have data: "length ?data = nat n" using fr by simp
  have lb: "length ?buf = 128 * c" using sp(1) data P1(1) by simp
  let ?D = "put_sectors h D a ?buf c"
  have same: "put_sectors (hdr f1) D a ?buf c = ?D" "addrs (hdr f1) D a (a + c) = addrs h D a (a + c)"
    using stamped_file(5) [OF P1(2)] by (induction c) (simp_all add: addrs_def)
  have wf1: "wf_file (hdr f1) D" "a + c \<le> nat (numSectors (hdr f1))"
    using wf ac stamped_file [OF P1(2)] by simp_all
  obtain d1 where d1: "lock_sectors (hdr f1) (int a) (int a + int c - 1) (sdisk s1) = Inr d1" "disk_at ({} \<union> addrs (hdr f1) D a (a + c)) D d1"
    using lock_sectors_ok [OF wf1 fs_at_disk [OF P1(5)]] by (auto elim!: yields_obtain)
  obtain d2 where d2: "foldE (write_sector (hdr f1) (int a) ?buf) [int a..int a + int c - 1] d1 = Inr d2" "disk_at {} ?D d2"
    using write_sectors_ok [OF wf1 d1(2) _ lb] same by (auto elim!: yields_obtain)
  have pos: "nat (position - int a * SectorSize) = nat position - 128 * a" "0 \<le> position - int a * SectorSize"
    using p by (auto simp: a_def)
  have "write_range junk from n position f s = Inr (f1, s1\<lparr>sdisk := d2\<rparr>)"
    unfolding write_range_def sb using b pos fr d1(1) d2(1) by (simp add: do_disk_def)
  moreover have "fs_at {} ?D C (s1\<lparr>sdisk := d2\<rparr>)" using d2(2) P1(5) by (simp add: fs_at_def)
  moreover have "data_only h D ?D" using put_data_only [OF wf D ac, of ?buf] lb by simp
  moreover have "file_bytes h ?D = bcopyTo (nat position) ?data (file_bytes h D)"
    using file_bytes_put [OF wf D mn a_def c_def data P1(1)] P by (simp add: prepared_def)
  ultimately show ?thesis using P1 by auto
qed

text \<open>A write inside the file.\<close>

lemma WriteAt_ok:
  assumes s: "fs_at {} D C s" and k: "0 \<le> hdrSectorNumber f" "hdrSectorNumber f < NumSectors"
    and h: "h = header_at D (hdrSectorNumber f)" and wf: "wf_file h D"
    and p: "0 \<le> position" "0 < n" "position + n \<le> numBytes h" and fr: "nat n \<le> length from"
  shows "yields (WriteAt junk from n position f s) (\<lambda>(r, f', s'). r = n \<and>
    (\<exists>D'. fs_at {} D' C s' \<and> data_only h D D' \<and>
      file_bytes h D' = bcopyTo (nat position) (take (nat n) from) (file_bytes h D) \<and>
      stamped h (hdr f') \<and> hdrSectorNumber f' = hdrSectorNumber f \<and> seekPosition f' = seekPosition f))"
proof -
  obtain s1 where s1: "refetch f s = Inr (h, s1)" "fs_at {} D C s1"
    using refetch_ok [OF s k] h by (auto elim!: yields_obtain)
  obtain t1 s2 where s2: "time_now s1 = (t1, s2)" "fs_at {} D C s2" using time_now_at [OF s1(2)] .
  obtain t2 s3 where s3: "time_now s2 = (t2, s3)" "fs_at {} D C s3" using time_now_at [OF s2(2)] .
  let ?f = "f\<lparr>hdr := h\<lparr>lastVisitTime := t1, lastWriteTime := t2\<rparr>\<rparr>"
  have "yields (write_range (junk 101) from n position ?f s3) (\<lambda>(f', s').
    \<exists>D'. fs_at {} D' C s' \<and> data_only h D D' \<and>
      file_bytes h D' = bcopyTo (nat position) (take (nat n) from) (file_bytes h D) \<and>
      stamped h (hdr f') \<and> hdrSectorNumber f' = hdrSectorNumber ?f \<and> seekPosition f' = seekPosition ?f)"
    using k h by (intro write_range_ok [OF s3(2) _ _ _ wf _ p fr]) (simp_all add: stampedI)
  then show ?thesis
    using s1(1) s2(1) s3(1) p by (auto simp: WriteAt_def FileLength_def elim!: yields_mono)
qed


section \<open>Changes elsewhere on the disk\<close>

lemma file_bytes_frame:
  assumes wf: "wf_file h D" and same: "\<And>k. k \<in> set (file_blocks h D) \<Longrightarrow> D' ! nat k = D ! nat k"
  shows "file_bytes h D' = file_bytes h D"
proof -
  have "sector_data h D' q = sector_data h D q" if "q < nat (numSectors h)" for q
    using file_frame(3) [OF wf same that] same [OF data_sector_mem [OF that]] by (simp add: sector_data_def)
  then have "map (sector_data h D') [0..<nat (numSectors h)] = map (sector_data h D) [0..<nat (numSectors h)]" by simp
  then have "raw_contents h D' = raw_contents h D" by (simp only: raw_contents_def)
  then show ?thesis by (simp add: file_bytes_def)
qed

lemma touch_image: "disk_image D \<Longrightarrow> disk_image (touch t k D)"
  by (simp add: touch_def disk_image_update length_header_bytes)

lemma touch_other: "0 \<le> k \<Longrightarrow> 0 \<le> j \<Longrightarrow> j \<noteq> k \<Longrightarrow> touch t k D ! nat j = D ! nat j"
  by (simp add: touch_def)

lemma header_touch:
  assumes "disk_image D" "0 \<le> k" "k < NumSectors" "int32 t"
  shows "header_at (touch t k D) k = (header_at D k)\<lparr>lastVisitTime := t\<rparr>"
    and "0 \<le> j \<Longrightarrow> j \<noteq> k \<Longrightarrow> header_at (touch t k D) j = header_at D j"
proof -
  have "length D = 1024" using assms(1) by (simp add: disk_image_def)
  then show "header_at (touch t k D) k = (header_at D k)\<lparr>lastVisitTime := t\<rparr>"
    using assms wf_header_touch [OF header_at_wf assms(4), of D k]
    by (simp add: touch_def header_at_def [of "list_update _ _ _"] header_of_header_bytes)
  show "0 \<le> j \<Longrightarrow> j \<noteq> k \<Longrightarrow> header_at (touch t k D) j = header_at D j"
    using touch_other [OF assms(2), of j t D] by (simp add: header_at_def)
qed

text \<open>A file stored at header sector \<open>k\<close>, apart from its own header; it survives every change of other sectors.\<close>

definition file_at :: "byte list list \<Rightarrow> int \<Rightarrow> FileHeader \<Rightarrow> byte list \<Rightarrow> bool" where
  "file_at D k h bs \<longleftrightarrow> 0 \<le> k \<and> k < NumSectors \<and> stamped h (header_at D k) \<and> wf_file h D \<and>
     k \<notin> set (file_blocks h D) \<and> file_bytes h D = bs"

lemma file_at_frame:
  assumes "file_at D k h bs" "stamped h (header_at D' k)"
    and "\<And>j. j \<in> set (file_blocks h D) \<Longrightarrow> D' ! nat j = D ! nat j"
  shows "file_at D' k h bs" "file_blocks h D' = file_blocks h D"
proof -
  have wf: "wf_file h D" using assms(1) by (simp add: file_at_def)
  show fb: "file_blocks h D' = file_blocks h D" using file_frame(1) [OF wf assms(3)] .
  show "file_at D' k h bs"
    using assms file_frame(2) [OF wf assms(3)] file_bytes_frame [OF wf assms(3)] fb by (auto simp: file_at_def)
qed

lemma file_at_data:
  assumes f: "file_at D k h bs" and d: "data_only h' D D'" and dis: "set (file_blocks h D) \<inter> set (file_blocks h' D) = {}"
    and hk: "k \<notin> set (file_blocks h' D)" "0 \<le> numSectors h'"
  shows "file_at D' k h bs" "file_blocks h D' = file_blocks h D"
proof -
  have out: "D' ! nat j = D ! nat j" if "0 \<le> j" "j < 1024" "j \<notin> set (file_blocks h' D)" for j
  proof -
    have "\<forall>q < nat (numSectors h'). data_sector (primaryIndexTable h') D q \<noteq> int (nat j)"
      using that data_sector_mem [of _ h' D] by auto
    then show ?thesis using d that by (simp add: data_only_def)
  qed
  have k: "0 \<le> k" "k < NumSectors" and wf: "wf_file h D" and st: "stamped h (header_at D k)" using f by (auto simp: file_at_def)
  have "header_at D' k = header_at D k" using out [OF k hk(1)] by (simp add: header_at_def)
  then have "stamped h (header_at D' k)" using st by simp
  moreover have "D' ! nat j = D ! nat j" if "j \<in> set (file_blocks h D)" for j
    using out [of j] file_block_range [OF wf that] that dis by auto
  ultimately show "file_at D' k h bs" "file_blocks h D' = file_blocks h D" using file_at_frame [OF f] by blast+
qed

lemma file_at_touch:
  assumes f: "file_at D k h bs" and D: "disk_image D" and j: "0 \<le> j" "j < NumSectors" "j \<notin> set (file_blocks h D)" "int32 t"
  shows "file_at (touch t j D) k h bs" "file_blocks h (touch t j D) = file_blocks h D"
proof -
  have k: "0 \<le> k" "k < NumSectors" and wf: "wf_file h D" and st: "stamped h (header_at D k)" using f by (auto simp: file_at_def)
  have "stamped h (header_at (touch t j D) k)"
    using st header_touch [OF D j(1,2,4)] k by (cases "k = j") (auto intro: stamped_visit)
  moreover have "touch t j D ! nat i = D ! nat i" if "i \<in> set (file_blocks h D)" for i
    using that j touch_other [of j i t D] file_block_range [OF wf that] by auto
  ultimately show "file_at (touch t j D) k h bs" "file_blocks h (touch t j D) = file_blocks h D" using file_at_frame [OF f] by blast+
qed


section \<open>Files at their header sectors\<close>

lemma file_at_header:
  assumes "file_at D k h bs"
  shows "0 \<le> k" "k < NumSectors" "wf_file (header_at D k) D" "file_bytes (header_at D k) D = bs"
    "numBytes (header_at D k) = numBytes h" "stamped h (header_at D k)" "wf_file h D" "k \<notin> set (file_blocks h D)"
  using assms stamped_file [of h "header_at D k"] by (auto simp: file_at_def)

lemma file_at_length: "file_at D k h bs \<Longrightarrow> disk_image D \<Longrightarrow> length bs = nat (numBytes h)"
  using length_file_bytes [of h D] by (auto simp: file_at_def)

lemma file_at_stamped: "file_at D k h bs \<Longrightarrow> stamped h h' \<Longrightarrow> file_at D k h' bs"
  using stamped_trans [OF stamped_sym, of h h'] by (auto simp: file_at_def stamped_file)

text \<open>What an open file object says about the file it was opened on.\<close>

definition opened :: "FileHeader \<Rightarrow> int \<Rightarrow> OpenFile \<Rightarrow> bool" where
  "opened h k f \<longleftrightarrow> stamped h (hdr f) \<and> hdrSectorNumber f = k"

lemma OpenFile_new_at:
  assumes s: "fs_at {} D C s" and f: "file_at D k h bs"
  shows "yields (OpenFile_new k s) (\<lambda>(f, s'). \<exists>t. int32 t \<and> fs_at {} (touch t k D) C s' \<and>
    opened h k f \<and> seekPosition f = 0 \<and> file_at (touch t k D) k h bs \<and> file_blocks h (touch t k D) = file_blocks h D)"
proof -
  note k = file_at_header [OF f]
  have "file_at (touch t k D) k h bs" "file_blocks h (touch t k D) = file_blocks h D" if "int32 t" for t
    using file_at_touch [OF f fs_at_image [OF s] k(1,2,8) that] by auto
  moreover have "opened h k \<lparr>hdr = (header_at D k)\<lparr>lastVisitTime := t\<rparr>, hdrSectorNumber = k, seekPosition = 0\<rparr>" for t
    using stamped_visit [OF k(6)] by (simp add: opened_def)
  ultimately show ?thesis
    by (intro yields_mono [OF OpenFile_new_ok [OF s k(1,2)]]) auto
qed

lemma ReadAt_at:
  assumes s: "fs_at {} D C s" and f: "file_at D k h bs" and k: "hdrSectorNumber f = k" and p: "0 \<le> position"
  shows "yields (ReadAt n position f s) (\<lambda>(out, f', s').
    out = (if n \<le> 0 then [] else slice (nat position) (nat n) bs) \<and>
    opened h k f' \<and> seekPosition f' = seekPosition f \<and> fs_at {} D C s')"
proof -
  note hd = file_at_header [OF f]
  have st: "opened h k (f\<lparr>hdr := (header_at D k)\<lparr>lastVisitTime := t\<rparr>\<rparr>)" for t
    using stamped_visit [OF hd(6)] k by (simp add: opened_def)
  show ?thesis
    using ReadAt_ok [OF s _ _ refl _ p, of f n] hd k st by (auto elim!: yields_mono)
qed

lemma WriteAt_at:
  assumes s: "fs_at {} D C s" and f: "file_at D k h bs" and k: "hdrSectorNumber f = k"
    and p: "0 \<le> position" "0 < n" "position + n \<le> numBytes h" and fr: "nat n \<le> length from"
  shows "yields (WriteAt junk from n position f s) (\<lambda>(r, f', s'). r = n \<and> opened h k f' \<and> seekPosition f' = seekPosition f \<and>
    (\<exists>D'. fs_at {} D' C s' \<and> data_only h D D' \<and> file_at D' k h (bcopyTo (nat position) (take (nat n) from) bs)))"
proof -
  note hd = file_at_header [OF f]
  let ?h = "header_at D k"
  note sf = stamped_file [OF hd(6)]
  have goal: "file_at D' k h bs'" "data_only h D D'" "opened h k f'"
    if d: "data_only ?h D D'" and b: "file_bytes ?h D' = bs'" and st: "stamped ?h (hdr f')" "hdrSectorNumber f' = k" for D' bs' f'
  proof -
    show dh: "data_only h D D'" using d sf by (simp add: data_only_def)
    have "\<forall>q < nat (numSectors h). data_sector (primaryIndexTable h) D q \<noteq> int (nat k)"
      using hd(1,8) data_sector_mem [of _ h D] by auto
    then have "header_at D' k = header_at D k" using dh hd(1,2) by (simp add: data_only_def header_at_def)
    then show "file_at D' k h bs'" using dh b f sf hd by (simp add: file_at_def data_only_def)
    show "opened h k f'" using st stamped_trans [OF hd(6)] by (simp add: opened_def)
  qed
  have "yields (WriteAt junk from n position f s) (\<lambda>(r, f', s'). r = n \<and>
    (\<exists>D'. fs_at {} D' C s' \<and> data_only ?h D D' \<and>
      file_bytes ?h D' = bcopyTo (nat position) (take (nat n) from) (file_bytes ?h D) \<and>
      stamped ?h (hdr f') \<and> hdrSectorNumber f' = hdrSectorNumber f \<and> seekPosition f' = seekPosition f))"
    using hd k p fr by (intro WriteAt_ok [OF s]) simp_all
  then show ?thesis using goal k hd(4) by (auto elim!: yields_mono)
qed

text \<open>The free map in its file.\<close>

definition map_at :: "byte list list \<Rightarrow> FileHeader \<Rightarrow> BitMap \<Rightarrow> bool" where
  "map_at D h0 m \<longleftrightarrow> file_at D 0 h0 (BitMap_bytes m) \<and> wf_map m \<and> numBits m = 1024"

lemma map_words:
  assumes "wf_map m" "numBits m = 1024"
  shows "numWords m = 32" "length (bmap m) = 32"
  using assms by (simp_all add: wf_map_def divRoundUp_nonneg BitsInWord_def)

lemma BitMap_FetchFrom_at:
  assumes s: "fs_at {} D C s" and m: "map_at D h0 m" and f: "hdrSectorNumber f = 0" and b: "wf_map b" "numBits b = 1024"
  shows "yields (BitMap_FetchFrom f b s) (\<lambda>(b', f', s'). b' = m \<and> opened h0 0 f' \<and> fs_at {} D C s')"
proof -
  have m': "wf_map m" "numBits m = 1024" "file_at D 0 h0 (BitMap_bytes m)" using m by (auto simp: map_at_def)
  have "slice 0 128 (BitMap_bytes m) = BitMap_bytes m" using map_words [OF m'(1,2)] by (simp add: slice_def)
  then have "yields (ReadAt 128 0 f s) (\<lambda>(out, f', s'). out = BitMap_bytes m \<and> opened h0 0 f' \<and> fs_at {} D C s')"
    using ReadAt_at [OF s m'(3) f, of 0 128] by (auto elim!: yields_mono)
  moreover have "BitMap_load (BitMap_bytes m) b = m" using marked_load [OF b(1) m'(1), of "[]"] b m' by simp
  ultimately show ?thesis using map_words [OF b] by (auto simp: BitMap_FetchFrom_def elim!: yields_mono)
qed

lemma BitMap_WriteBack_at:
  assumes s: "fs_at {} D C s" and m: "file_at D 0 h0 bs" "length bs = 128" and f: "hdrSectorNumber f = 0" and b: "wf_map m" "numBits m = 1024"
  shows "yields (BitMap_WriteBack junk f m s) (\<lambda>(f', s'). opened h0 0 f' \<and>
    (\<exists>D'. fs_at {} D' C s' \<and> data_only h0 D D' \<and> map_at D' h0 m))"
proof -
  have l: "length (BitMap_bytes m) = 128" "numWords m = 32" using map_words [OF b] by simp_all
  have "numBytes h0 = 128" using file_at_length [OF m(1) fs_at_image [OF s]] m(2) by simp
  then have "yields (WriteAt junk (BitMap_bytes m) 128 0 f s) (\<lambda>(r, f', s'). r = 128 \<and> opened h0 0 f' \<and> seekPosition f' = seekPosition f \<and>
      (\<exists>D'. fs_at {} D' C s' \<and> data_only h0 D D' \<and> file_at D' 0 h0 (bcopyTo (nat 0) (take (nat 128) (BitMap_bytes m)) bs)))"
    using l by (intro WriteAt_at [OF s m(1) f]) simp_all
  moreover have "bcopyTo (nat 0) (take (nat 128) (BitMap_bytes m)) bs = BitMap_bytes m" using l m(2) by simp
  ultimately show ?thesis using l b by (auto simp: BitMap_WriteBack_def map_at_def elim!: yields_mono)
qed

section \<open>Writing past the end of a file\<close>

lemma header_write_at:
  assumes "wf_header h" "wf_file h D" "k \<notin> set (file_blocks h D)" "0 \<le> k" "k < NumSectors" "disk_image D"
  shows "file_at (D[nat k := header_bytes h]) k h (file_bytes h D)"
    and "file_blocks h (D[nat k := header_bytes h]) = file_blocks h D"
proof -
  have same: "D[nat k := header_bytes h] ! nat j = D ! nat j" if "j \<in> set (file_blocks h D)" for j
  proof -
    have "nat j \<noteq> nat k" using file_block_range [OF assms(2) that] that assms(3,4) by (auto simp: eq_nat_nat_iff)
    then show ?thesis by simp
  qed
  have "header_at (D[nat k := header_bytes h]) k = h"
    using assms by (simp add: header_at_def disk_image_def header_of_header_bytes)
  then show "file_at (D[nat k := header_bytes h]) k h (file_bytes h D)"
    using assms(3-5) file_frame(1,2) [OF assms(2) same] file_bytes_frame [OF assms(2) same] by (simp add: file_at_def stampedI)
  show "file_blocks h (D[nat k := header_bytes h]) = file_blocks h D" using file_frame(1) [OF assms(2) same] .
qed

text \<open>The old contents are a prefix of the contents of the extended file.\<close>

lemma extends_bytes:
  assumes e: "extends h D m h' D' m'" and wf: "wf_file h D" and D: "disk_image D" "disk_image D'" and nb: "numBytes h \<le> numBytes h'"
  shows "take (nat (numBytes h)) (file_bytes h' D') = file_bytes h D"
proof (rule nth_equalityI)
  have wf': "wf_file h' D'" and ns: "numSectors h \<le> numSectors h'" using e by (simp_all add: extends_def)
  note len = length_file_bytes [OF wf D(1)] length_file_bytes [OF wf' D(2)]
  show "length (take (nat (numBytes h)) (file_bytes h' D')) = length (file_bytes h D)" using len nb by simp
  fix i assume "i < length (take (nat (numBytes h)) (file_bytes h' D'))"
  then have i: "i < nat (numBytes h)" "i < nat (numBytes h')" using len nb by simp_all
  note q = file_sector_in [OF wf i(1)]
  have q': "i div 128 < nat (numSectors h')" using q ns by linarith
  let ?k = "data_sector (primaryIndexTable h) D (i div 128)"
  have ds: "data_sector (primaryIndexTable h') D' (i div 128) = ?k" using e q by (simp add: extends_def)
  have "?k \<notin> set (map ((!) (primaryIndexTable h')) [0..<num_tables h'])"
  proof
    assume "?k \<in> set (map ((!) (primaryIndexTable h')) [0..<num_tables h'])"
    then obtain x where "x < num_tables h'" "?k = primaryIndexTable h' ! x" by auto
    moreover have "\<forall>i q. i < num_tables h' \<and> q < nat (numSectors h') \<longrightarrow> primaryIndexTable h' ! i \<noteq> data_sector (primaryIndexTable h') D' q"
      using wf' by (simp add: wf_file_def file_blocks_def distinct_block_list)
    ultimately show False using q' ds by metis
  qed
  then have "D' ! nat ?k = D ! nat ?k" using e data_sector_range [OF wf q] by (simp add: extends_def)
  then show "take (nat (numBytes h)) (file_bytes h' D') ! i = file_bytes h D ! i"
    using file_bytes_nth [OF wf' D(2) i(2)] file_bytes_nth [OF wf D(1) i(1)] i by (simp add: sector_data_def ds)
qed

lemma wf_header_extend:
  assumes "wf_header h" "h' = h\<lparr>primaryIndexTable := primaryIndexTable h', numBytes := numBytes h', numSectors := numSectors h'\<rparr>"
    "wf_file h' D" "list_all int32 (primaryIndexTable h')"
  shows "wf_header h'"
proof -
  have "0 \<le> numBytes h'" "numBytes h' \<le> 102400" "0 \<le> numSectors h'" "numSectors h' \<le> 800" using assms(3) by (auto simp: wf_file_def)
  then have "int32 (numBytes h')" "int32 (numSectors h')" by simp_all
  moreover have "createTime h' = createTime h" "lastVisitTime h' = lastVisitTime h" "lastWriteTime h' = lastWriteTime h"
    "fileType h' = fileType h" "numVisits h' = numVisits h" by (subst assms(2), simp)+
  ultimately show ?thesis using assms(1,3,4) by (simp add: wf_header_def header_ints_def wf_file_def)
qed

text \<open>
  The file \<open>h\<close> at sector \<open>k\<close> and the free map \<open>m\<close> share no sectors, and the map knows the
  sectors of both.
\<close>

definition apart :: "byte list list \<Rightarrow> FileHeader \<Rightarrow> BitMap \<Rightarrow> int \<Rightarrow> FileHeader \<Rightarrow> bool" where
  "apart D h0 m k h \<longleftrightarrow> k \<noteq> 0 \<and> insert 0 (insert k (set (file_blocks h0 D) \<union> set (file_blocks h D))) \<subseteq> marked m \<and>
     set (file_blocks h D) \<inter> insert 0 (set (file_blocks h0 D)) = {} \<and> k \<notin> set (file_blocks h0 D)"

lemma extend_file_ok:
  assumes s: "fs_at {} D C s" and m: "map_at D h0 m" and f: "file_at D k h bs" and ap: "apart D h0 m k h"
    and of: "stamped h (hdr f)" "wf_header (hdr f)" "hdrSectorNumber f = k" and e: "0 < extra"
    and N: "numSectors h = int N" and E: "divRoundUp extra SectorSize = int E" "N + E \<le> 800"
    and space: "int E + int ((N + E + 31) div 32 - num_tables h) \<le> room m"
  shows "yields (extend_file junk extra f s) (\<lambda>(ok, h', s'). ok \<and> numBytes h' = numBytes h + extra \<and>
    (\<exists>D' news m' bs'. fs_at {} D' C s' \<and> map_at D' h0 m \<and> file_blocks h0 D' = file_blocks h0 D \<and> file_at D' k h' bs' \<and>
      take (nat (numBytes h)) bs' = bs \<and> header_at D' k = h' \<and>
      allocates m news m' \<and> set (file_blocks h' D') = set (file_blocks h D) \<union> set news \<and> numSectors h \<le> numSectors h'))"
proof -
  note fh = file_at_header [OF f]
  have m': "wf_map m" "numBits m = 1024" "file_at D 0 h0 (BitMap_bytes m)" using m by (auto simp: map_at_def)
  note D = fs_at_image [OF s]
  obtain b where b: "BitMap_new (\<lambda>i. word_of_int (junk 100 i)) 1024 = Inr b" "wf_map b" "numBits b = 1024"
    using BitMap_new_spec [of 1024] by fastforce
  obtain f0 s1 t where s1: "OpenFile_new 0 s = Inr (f0, s1)" "int32 t" "fs_at {} (touch t 0 D) C s1" "opened h0 0 f0"
    "file_at (touch t 0 D) 0 h0 (BitMap_bytes m)" "file_blocks h0 (touch t 0 D) = file_blocks h0 D"
    using OpenFile_new_at [OF s m'(3)] by (auto elim!: yields_obtain)
  let ?D1 = "touch t 0 D"
  have f1: "file_at ?D1 k h bs" "file_blocks h ?D1 = file_blocks h D"
    using file_at_touch [OF f D, of 0 t] ap s1(2) by (auto simp: apart_def)
  have "map_at ?D1 h0 m" using s1(5) m' by (simp add: map_at_def)
  then obtain f0' s2 where s2: "BitMap_FetchFrom f0 b s1 = Inr (m, f0', s2)" "fs_at {} ?D1 C s2"
    using BitMap_FetchFrom_at [OF s1(3) _ _ b(2,3), of h0 m f0] s1(4) by (auto simp: opened_def elim!: yields_obtain)
  note sf = stamped_file [OF of(1)]
  have wf1: "wf_file (hdr f) ?D1" "set (file_blocks (hdr f) ?D1) \<subseteq> marked m"
    using file_at_header(7) [OF f1(1)] sf f1(2) ap by (auto simp: apart_def)
  have sp: "int E + int ((N + E + 31) div 32 - num_tables (hdr f)) \<le> room m" using space sf(4) by (simp add: num_tables_def)
  from ExtendAllocate_ok [OF wf1(1) m'(1,2) wf1(2) fs_at_disk [OF s2(2)] e _ E sp, of junk] N sf(4)
  obtain h' m2 d D2 where x: "ExtendAllocate junk extra (hdr f) m (sdisk s2) = Inr (True, h', m2, d)"
    "numBytes h' = numBytes (hdr f) + extra" "disk_at {} D2 d" "extends (hdr f) ?D1 m h' D2 m2"
    by (auto elim!: yields_obtain)
  have wf2: "wf_file h' D2" using x(4) by (simp add: extends_def)
  obtain news where news: "allocates m news m2" "set (file_blocks h' D2) = set (file_blocks h D) \<union> set news"
    using x(4) sf f1(2) by (auto simp: extends_def)
  have wh: "wf_header h'"
  proof (rule wf_header_extend [OF of(2) _ wf2])
    show "h' = hdr f\<lparr>primaryIndexTable := primaryIndexTable h', numBytes := numBytes h', numSectors := numSectors h'\<rparr>"
      using x(4) by (simp add: extends_def)
    show "list_all int32 (primaryIndexTable h')"
      using ExtendAllocate_int32 [OF x(1) m'(2)] of(2) by (simp add: wf_header_def header_ints_def)
  qed
  have out: "insert 0 (insert k (set (file_blocks h0 D))) \<inter> set (file_blocks h' D2) = {}"
    using news ap fh(8) by (auto simp: apart_def allocates_def)
  have D2: "disk_image D2" using disk_at_image [OF x(3)] .
  let ?D3 = "D2[nat k := header_bytes h']"
  have f3: "file_at ?D3 k h' (file_bytes h' D2)" "file_blocks h' ?D3 = file_blocks h' D2"
    using header_write_at [OF wh wf2 _ fh(1,2) D2] out by auto
  obtain s4 where s4: "do_disk (FileHeader_WriteBack k h') (s2\<lparr>sdisk := d\<rparr>) = Inr s4" "fs_at {} ?D3 C s4"
    using WriteBack_fs [of "{}" D2 C "s2\<lparr>sdisk := d\<rparr>" k h'] x(3) s2(2) fh(1,2) wh
    by (auto simp: fs_at_def wf_header_def elim!: yields_obtain)
  have keep: "?D3 ! nat j = ?D1 ! nat j" if "0 \<le> j" "j < 1024" "j \<noteq> k" "j \<notin> set (file_blocks h' D2)" for j
  proof -
    have "j \<notin> set (map ((!) (primaryIndexTable h')) [0..<num_tables h'])"
      using that(4) by (auto simp: file_blocks_def block_list_def)
    then have "D2 ! nat j = ?D1 ! nat j" using x(4) that by (simp add: extends_def)
    then show ?thesis using that fh(1) by simp
  qed
  have "file_at ?D3 0 h0 (BitMap_bytes m)" "file_blocks h0 ?D3 = file_blocks h0 ?D1"
  proof -
    have "header_at ?D3 0 = header_at ?D1 0" using keep [of 0] out ap by (simp add: header_at_def apart_def)
    then have "stamped h0 (header_at ?D3 0)" using file_at_header(6) [OF s1(5)] by simp
    moreover have "?D3 ! nat j = ?D1 ! nat j" if "j \<in> set (file_blocks h0 ?D1)" for j
      using keep [of j] file_block_range [OF file_at_header(7) [OF s1(5)] that] that out ap s1(6) by (auto simp: apart_def)
    ultimately show "file_at ?D3 0 h0 (BitMap_bytes m)" "file_blocks h0 ?D3 = file_blocks h0 ?D1" using file_at_frame [OF s1(5)] by blast+
  qed
  then have map3: "map_at ?D3 h0 m" "file_blocks h0 ?D3 = file_blocks h0 D" using m' s1(6) by (simp_all add: map_at_def)
  have pre: "take (nat (numBytes h)) (file_bytes h' D2) = bs"
    using extends_bytes [OF x(4) wf1(1) touch_image [OF D] D2] x(2) e sf file_at_header(4) [OF f1(1)] f1(1)
    by (simp add: file_at_def)
  have h3: "header_at ?D3 k = h'" using fh(1,2) D2 wh by (simp add: header_at_def disk_image_def header_of_header_bytes)
  have "extend_file junk extra f s = Inr (True, h', s4)"
    using b(1) s1(1) s2(1) x(1) s4(1) of(3) by (simp add: extend_file_def on_disk_def)
  moreover have "numSectors h \<le> numSectors h'" using x(4) sf(4) by (simp add: extends_def)
  moreover have "numBytes h' = numBytes h + extra" using x(2) sf(3) by simp
  ultimately show ?thesis
    using s4(2) map3 f3 pre h3 news unfolding yields_def by (simp, intro exI [of _ ?D3]) auto
qed


lemma WriteAt_extend:
  assumes s: "fs_at {} D C s" and m: "map_at D h0 m" and f: "file_at D k h bs" and ap: "apart D h0 m k h"
    and of: "hdrSectorNumber f = k" and p: "0 \<le> position" "0 < n" "numBytes h < position + n" and fr: "nat n \<le> length from"
    and N: "numSectors h = int N" and E: "divRoundUp (position + n - numBytes h) SectorSize = int E" "N + E \<le> 800"
    and space: "int E + int ((N + E + 31) div 32 - num_tables h) \<le> room m"
  shows "yields (WriteAt junk from n position f s) (\<lambda>(r, f', s'). r = n \<and>
    (\<exists>D' h' bs' old news m'. fs_at {} D' C s' \<and> map_at D' h0 m \<and> file_at D' k h' bs' \<and> numBytes h' = position + n \<and>
      length old = nat (position + n) \<and> take (nat (numBytes h)) old = bs \<and>
      bs' = bcopyTo (nat position) (take (nat n) from) old \<and>
      allocates m news m' \<and> set (file_blocks h' D') = set (file_blocks h D) \<union> set news))"
proof -
  note fh = file_at_header [OF f]
  let ?extra = "n + position - numBytes h"
  obtain s1 where s1: "refetch f s = Inr (header_at D k, s1)" "fs_at {} D C s1"
    using refetch_ok [OF s] of fh(1,2) by (auto elim!: yields_obtain)
  obtain t1 s2 where s2: "time_now s1 = (t1, s2)" "int32 t1" "fs_at {} D C s2" using time_now_at [OF s1(2)] .
  obtain t2 s3 where s3: "time_now s2 = (t2, s3)" "int32 t2" "fs_at {} D C s3" using time_now_at [OF s2(3)] .
  let ?h1 = "(header_at D k)\<lparr>lastVisitTime := t1, lastWriteTime := t2\<rparr>"
  let ?f1 = "f\<lparr>hdr := ?h1\<rparr>"
  have st: "stamped h (hdr ?f1)" using stamped_trans [OF fh(6) stampedI(2)] by simp
  have wh: "wf_header (hdr ?f1)" using header_at_wf [of D k] s2(2) s3(2) by (simp add: wf_header_def header_ints_def)
  have ex: "?extra = position + n - numBytes h" "0 < ?extra" using p by simp_all
  have of1: "hdrSectorNumber ?f1 = k" using of by simp
  have E': "divRoundUp ?extra SectorSize = int E" using E(1) by (simp only: ex(1))
  from extend_file_ok [OF s3(3) m f ap st wh of1 ex(2) N E' E(2) space, of junk]
  obtain h' s4 D3 news m' old where x: "extend_file junk ?extra ?f1 s3 = Inr (True, h', s4)" "numBytes h' = numBytes h + ?extra"
    "fs_at {} D3 C s4" "map_at D3 h0 m" "file_blocks h0 D3 = file_blocks h0 D" "file_at D3 k h' old"
    "take (nat (numBytes h)) old = bs" "header_at D3 k = h'"
    "allocates m news m'" "set (file_blocks h' D3) = set (file_blocks h D) \<union> set news"
    by (auto elim!: yields_obtain)
  have nb: "numBytes h' = position + n" using x(2) by simp
  have wf': "wf_file h' D3" using file_at_header(7) [OF x(6)] .
  have old: "file_bytes h' D3 = old" "length old = nat (position + n)"
    using x(6) file_at_length [OF x(6) fs_at_image [OF x(3)]] nb by (simp_all add: file_at_def)
  have "yields (write_range (junk 101) from n position (?f1\<lparr>hdr := h'\<rparr>) s4) (\<lambda>(f', s').
    \<exists>D'. fs_at {} D' C s' \<and> data_only h' D3 D' \<and>
      file_bytes h' D' = bcopyTo (nat position) (take (nat n) from) (file_bytes h' D3) \<and>
      stamped h' (hdr f') \<and> hdrSectorNumber f' = hdrSectorNumber (?f1\<lparr>hdr := h'\<rparr>) \<and> seekPosition f' = seekPosition (?f1\<lparr>hdr := h'\<rparr>))"
    using of fh(1,2) x(8) nb p by (intro write_range_ok [OF x(3) _ _ _ wf' _ _ _ _ fr]) (simp_all add: stampedI)
  then obtain f5 s5 D5 where w: "write_range (junk 101) from n position (?f1\<lparr>hdr := h'\<rparr>) s4 = Inr (f5, s5)" "fs_at {} D5 C s5"
    "data_only h' D3 D5" "file_bytes h' D5 = bcopyTo (nat position) (take (nat n) from) old"
    using old(1) by (auto elim!: yields_obtain)
  have res: "WriteAt junk from n position f s = Inr (n, f5, s5)"
    using s1(1) s2(1) s3(1) x(1) w(1) p(2,3) fh(5) by (simp add: WriteAt_def FileLength_def)
  have news: "set news \<inter> marked m = {}" using x(9) by (simp add: allocates_def)
  have ns: "0 \<le> numSectors h'" using wf_file_numSectors [OF wf'] .
  have f5: "file_at D5 k h' (bcopyTo (nat position) (take (nat n) from) old)"
  proof -
    have "\<forall>q < nat (numSectors h'). data_sector (primaryIndexTable h') D3 q \<noteq> int (nat k)"
      using fh(1) file_at_header(8) [OF x(6)] data_sector_mem [of _ h' D3] by auto
    then have "header_at D5 k = header_at D3 k" using w(3) fh(1,2) by (simp add: data_only_def header_at_def)
    then show ?thesis using w(3,4) x(6) by (simp add: file_at_def data_only_def)
  qed
  have "set (file_blocks h0 D3) \<inter> set (file_blocks h' D3) = {}" "0 \<notin> set (file_blocks h' D3)"
    using x(5,10) ap news by (auto simp: apart_def)
  then have "map_at D5 h0 m" using file_at_data(1) [OF _ w(3) _ _ ns, of 0 h0 "BitMap_bytes m"] x(4) by (simp add: map_at_def)
  moreover have "set (file_blocks h' D5) = set (file_blocks h D) \<union> set news" using w(3) x(10) by (simp add: data_only_def)
  ultimately show ?thesis
    using w(2) f5 nb old(2) x(7,9) unfolding res yields_Inr prod.case by blast
qed


section \<open>An open file as an array of bytes with a position\<close>

datatype file_op = SeekOp int | ReadOp int | WriteOp "byte list"

fun file_step :: "(nat \<Rightarrow> nat \<Rightarrow> int) \<Rightarrow> file_op \<Rightarrow> OpenFile \<Rightarrow> fsys \<Rightarrow> (byte list \<times> OpenFile \<times> fsys) result" where
  "file_step junk (SeekOp p) f s = Inr ([], Seek p f, s)"
| "file_step junk (ReadOp n) f s = OpenFile_Read n f s"
| "file_step junk (WriteOp d) f s = bindE (OpenFile_Write junk d (int (length d)) f s) (\<lambda>(r, f, s). Inr ([], f, s))"

fun file_run :: "(nat \<Rightarrow> nat \<Rightarrow> int) \<Rightarrow> file_op list \<Rightarrow> OpenFile \<Rightarrow> fsys \<Rightarrow> (byte list list \<times> OpenFile \<times> fsys) result" where
  "file_run junk [] f s = Inr ([], f, s)"
| "file_run junk (x # xs) f s =
     bindE (file_step junk x f s) (\<lambda>(out, f, s). bindE (file_run junk xs f s) (\<lambda>(outs, f, s). Inr (out # outs, f, s)))"

text \<open>The specification: \<open>None\<close> for a request that does not stay inside the array.\<close>

fun array_step :: "file_op \<Rightarrow> byte list \<Rightarrow> int \<Rightarrow> (byte list \<times> byte list \<times> int) option" where
  "array_step (SeekOp p) bs pos = Some ([], bs, p)"
| "array_step (ReadOp n) bs pos =
     (if pos < 0 then None
      else let out = slice (nat pos) (nat n) bs in Some (out, bs, pos + int (length out)))"
| "array_step (WriteOp d) bs pos =
     (if pos < 0 \<or> length bs < nat pos + length d then None
      else Some ([], bcopyTo (nat pos) d bs, pos + int (length d)))"

fun array_run :: "file_op list \<Rightarrow> byte list \<Rightarrow> int \<Rightarrow> (byte list list \<times> byte list \<times> int) option" where
  "array_run [] bs pos = Some ([], bs, pos)"
| "array_run (x # xs) bs pos =
     (case array_step x bs pos of None \<Rightarrow> None
      | Some (out, bs, pos) \<Rightarrow>
          (case array_run xs bs pos of None \<Rightarrow> None | Some (outs, bs, pos) \<Rightarrow> Some (out # outs, bs, pos)))"

lemma data_only_refl: "wf_file h D \<Longrightarrow> disk_image D \<Longrightarrow> data_only h D D"
  by (simp add: data_only_def)

lemma data_only_trans:
  assumes "data_only h D D1" "data_only h D1 D2"
  shows "data_only h D D2"
proof -
  have "block_list (primaryIndexTable h) D1 0 (num_tables h) 0 (nat (numSectors h)) =
      block_list (primaryIndexTable h) D 0 (num_tables h) 0 (nat (numSectors h))"
    using assms(1) by (simp add: data_only_def file_blocks_def)
  then have "data_sector (primaryIndexTable h) D1 q = data_sector (primaryIndexTable h) D q" if "q < nat (numSectors h)" for q
    using that by (simp add: block_list_def)
  then show ?thesis using assms by (auto simp: data_only_def)
qed

lemma file_step_refines:
  assumes s: "fs_at {} D C s" and f: "file_at D k h bs" and o: "opened h k f"
    and a: "array_step x bs (seekPosition f) = Some (out, bs', pos')"
  shows "yields (file_step junk x f s) (\<lambda>(out', f', s'). out' = out \<and> opened h k f' \<and> seekPosition f' = pos' \<and>
    (\<exists>D'. fs_at {} D' C s' \<and> data_only h D D' \<and> file_at D' k h bs'))"
proof -
  have dr: "data_only h D D" using data_only_refl file_at_header(7) [OF f] fs_at_image [OF s] by blast
  have k: "hdrSectorNumber f = k" using o by (simp add: opened_def)
  note len = file_at_length [OF f fs_at_image [OF s]]
  show ?thesis
  proof (cases x)
    case (SeekOp p)
    then show ?thesis using a o s f dr by (auto simp: Seek_def opened_def)
  next
    case (ReadOp n)
    then have p: "0 \<le> seekPosition f" and r: "out = slice (nat (seekPosition f)) (nat n) bs" "bs' = bs" "pos' = seekPosition f + int (length out)"
      using a by (auto simp: Let_def split: if_splits)
    have "(if n \<le> 0 then [] else slice (nat (seekPosition f)) (nat n) bs) = out" using r(1) by (simp add: slice_def)
    with ReadAt_at [OF s f k p, of n] show ?thesis
      using ReadOp r dr f by (auto simp: OpenFile_Read_def opened_def elim!: yields_mono)
  next
    case (WriteOp d)
    then have p: "0 \<le> seekPosition f" "nat (seekPosition f) + length d \<le> length bs"
      and r: "out = []" "bs' = bcopyTo (nat (seekPosition f)) d bs" "pos' = seekPosition f + int (length d)"
      using a by (auto split: if_splits)
    have "yields (WriteAt junk d (int (length d)) (seekPosition f) f s) (\<lambda>(r, f', s'). r = int (length d) \<and> opened h k f' \<and>
        seekPosition f' = seekPosition f \<and> (\<exists>D'. fs_at {} D' C s' \<and> data_only h D D' \<and> file_at D' k h bs'))"
    proof (cases "d = []")
      case True
      obtain s1 where s1: "refetch f s = Inr (header_at D k, s1)" "fs_at {} D C s1"
        using refetch_ok [OF s] k file_at_header(1,2) [OF f] by (auto elim!: yields_obtain)
      obtain t1 s2 where s2: "time_now s1 = (t1, s2)" "fs_at {} D C s2" using time_now_at [OF s1(2)] .
      obtain t2 s3 where s3: "time_now s2 = (t2, s3)" "fs_at {} D C s3" using time_now_at [OF s2(2)] .
      show ?thesis
        using True s1(1) s2(1) s3 r(2) f dr k stamped_trans [OF file_at_header(6) [OF f] stampedI(2)]
        by (auto simp: WriteAt_def opened_def)
    next
      case False
      have "0 \<le> numBytes h" using file_at_header(7) [OF f] by (simp add: wf_file_def)
      then have l: "0 < int (length d)" "seekPosition f + int (length d) \<le> numBytes h"
        using p False unfolding len by auto
      have b: "bcopyTo (nat (seekPosition f)) (take (nat (int (length d))) d) bs = bs'" using r(2) by simp
      show ?thesis using WriteAt_at [OF s f k p(1) l, of d junk] unfolding b by simp
    qed
    then show ?thesis using WriteOp r by (auto simp: OpenFile_Write_def opened_def elim!: yields_mono)
  qed
qed

lemma file_run_refines:
  assumes "fs_at {} D C s" "file_at D k h bs" "opened h k f" "array_run xs bs (seekPosition f) = Some (outs, bs', pos')"
  shows "yields (file_run junk xs f s) (\<lambda>(outs', f', s'). outs' = outs \<and> opened h k f' \<and> seekPosition f' = pos' \<and>
    (\<exists>D'. fs_at {} D' C s' \<and> data_only h D D' \<and> file_at D' k h bs'))"
  using assms
proof (induction xs arbitrary: D s f bs outs)
  case Nil
  then show ?case using data_only_refl file_at_header(7) [OF Nil.prems(2)] fs_at_image [OF Nil.prems(1)] by auto
next
  case (Cons x xs)
  obtain out bs1 pos1 outs1 where a: "array_step x bs (seekPosition f) = Some (out, bs1, pos1)"
    "array_run xs bs1 pos1 = Some (outs1, bs', pos')" "outs = out # outs1"
    using Cons.prems(4) by (auto split: option.splits)
  obtain f1 s1 D1 where s1: "file_step junk x f s = Inr (out, f1, s1)" "opened h k f1" "seekPosition f1 = pos1"
    "fs_at {} D1 C s1" "data_only h D D1" "file_at D1 k h bs1"
    using file_step_refines [OF Cons.prems(1-3) a(1), of junk] by (auto elim!: yields_obtain)
  obtain f2 s2 D2 where s2: "file_run junk xs f1 s1 = Inr (outs1, f2, s2)" "opened h k f2" "seekPosition f2 = pos'"
    "fs_at {} D2 C s2" "data_only h D1 D2" "file_at D2 k h bs'"
    using Cons.IH [OF s1(4,6,2)] a(2) s1(3) by (auto elim!: yields_obtain)
  then show ?case using s1(1) a(3) data_only_trans [OF s1(5) s2(5)] by auto
qed

end
