(* ===== verification/Directory_Table.thy ===== *)
theory Directory_Table
  imports Open_File
begin

text \<open>
  \<^verbatim>\<open>filesys/directory.h\<close>, \<^verbatim>\<open>filesys/directory.cc\<close>: the table of file names and header sectors.

  An entry holds the name as a pointer to a C string in the memory of the running
  Nachos; the pointer, not the string, is what goes to the disk.  A pointer is an
  index into \<open>cstrings\<close>, the strings allocated so far, counted from 1; 0 is \<^verbatim>\<open>NULL\<close>.
  A \<^verbatim>\<open>char *\<close> argument is a \<open>string option\<close>.  The three padding bytes of an entry are zero.
\<close>

section \<open>The class\<close>

record DirectoryEntry =
  inUse :: bool
  esector :: int
  ename :: int

record Directory =
  table :: "DirectoryEntry list"
  tableSize :: int

definition cstring :: "int \<Rightarrow> fsys \<Rightarrow> string result" where
  "cstring p s =
    (if p = 0 then Inl NullDeref
     else requireE WildPointer (1 \<le> p \<and> p \<le> int (length (cstrings s))) (Inr (cstrings s ! nat (p - 1))))"

definition new_cstring :: "string \<Rightarrow> fsys \<Rightarrow> int \<times> fsys" where
  "new_cstring str s = (int (length (cstrings s)) + 1, s\<lparr>cstrings := cstrings s @ [str]\<rparr>)"

abbreviation (input) EntrySize :: int where "EntrySize \<equiv> 12"

text \<open>The constructor also stamps the header in sector 1.\<close>

definition Directory_new :: "(nat \<Rightarrow> int) \<Rightarrow> int \<Rightarrow> fsys \<Rightarrow> (Directory \<times> fsys) result" where
  "Directory_new junk n s =
    (let t = map (\<lambda>i. \<lparr>inUse = False, esector = to_int32 (junk (2 * i)), ename = to_int32 (junk (2 * i + 1))\<rparr>) [0..<nat n] in
     bindE (on_disk (FileHeader_FetchFrom 1) s) (\<lambda>(dirHdr, s).
     let (now, s) = time_now s in
     bindE (do_disk (FileHeader_WriteBack 1 (dirHdr\<lparr>lastVisitTime := now\<rparr>)) s) (\<lambda>s.
     Inr (\<lparr>table = t, tableSize = n\<rparr>, s))))"

text \<open>The table in memory.\<close>

definition entry_bytes :: "DirectoryEntry \<Rightarrow> byte list" where
  "entry_bytes e = int_bytes (if inUse e then 1 else 0) @ int_bytes (esector e) @ int_bytes (ename e)"

definition entry_of_bytes :: "byte list \<Rightarrow> DirectoryEntry" where
  "entry_of_bytes bs = \<lparr>inUse = (bs ! 0 \<noteq> 0), esector = bytes_int (slice 4 4 bs), ename = bytes_int (slice 8 4 bs)\<rparr>"

definition table_bytes :: "DirectoryEntry list \<Rightarrow> byte list" where
  "table_bytes t = concat (map entry_bytes t)"

fun table_of_bytes :: "nat \<Rightarrow> byte list \<Rightarrow> DirectoryEntry list" where
  "table_of_bytes 0 bs = []"
| "table_of_bytes (Suc n) bs = entry_of_bytes (take 12 bs) # table_of_bytes n (drop 12 bs)"

definition Directory_FetchFrom :: "OpenFile \<Rightarrow> Directory \<Rightarrow> fsys \<Rightarrow> (Directory \<times> OpenFile \<times> fsys) result" where
  "Directory_FetchFrom f d s =
     bindE (ReadAt (tableSize d * EntrySize) 0 f s) (\<lambda>(bs, f, s).
     Inr (d\<lparr>table := table_of_bytes (length (table d)) (bcopyTo 0 bs (table_bytes (table d)))\<rparr>, f, s))"

definition Directory_WriteBack :: "(nat \<Rightarrow> nat \<Rightarrow> int) \<Rightarrow> OpenFile \<Rightarrow> Directory \<Rightarrow> fsys \<Rightarrow> (OpenFile \<times> fsys) result" where
  "Directory_WriteBack junk f d s =
     bindE (WriteAt junk (table_bytes (table d)) (tableSize d * EntrySize) 0 f s) (\<lambda>(n, f, s). Inr (f, s))"

text \<open>\<^verbatim>\<open>FindIndex\<close>: the loop over the indices still to be tried.\<close>

fun FindIndex_loop :: "string option \<Rightarrow> DirectoryEntry list \<Rightarrow> int \<Rightarrow> fsys \<Rightarrow> int result" where
  "FindIndex_loop name [] i s = Inr (-1)"
| "FindIndex_loop name (e # es) i s =
     (case name of
        Some n \<Rightarrow>
          if inUse e \<and> ename e \<noteq> 0
          then bindE (cstring (ename e) s) (\<lambda>str. if str = n then Inr i else FindIndex_loop name es (i + 1) s)
          else FindIndex_loop name es (i + 1) s
      | None \<Rightarrow> FindIndex_loop name es (i + 1) s)"

definition FindIndex :: "string option \<Rightarrow> Directory \<Rightarrow> fsys \<Rightarrow> int result" where
  "FindIndex name d s = FindIndex_loop name (take (nat (tableSize d)) (table d)) 0 s"

definition Directory_Find :: "string option \<Rightarrow> Directory \<Rightarrow> fsys \<Rightarrow> int result" where
  "Directory_Find name d s =
     bindE (FindIndex name d s) (\<lambda>i. Inr (if i \<noteq> -1 then esector (table d ! nat i) else -1))"

text \<open>\<^verbatim>\<open>Add\<close>: the loop that looks for a free entry; \<open>done\<close> are the entries passed.\<close>

fun Add_loop :: "string option \<Rightarrow> int \<Rightarrow> DirectoryEntry list \<Rightarrow> DirectoryEntry list \<Rightarrow> fsys \<Rightarrow>
    (bool \<times> DirectoryEntry list \<times> fsys) result" where
  "Add_loop name newSector passed [] s = Inr (False, passed, s)"
| "Add_loop name newSector passed (e # es) s =
     (if \<not> inUse e then
        (case name of
           None \<Rightarrow> Inl NullDeref
         | Some n \<Rightarrow>
             let (p, s) = new_cstring n s
             in Inr (True, passed @ \<lparr>inUse = True, esector = newSector, ename = p\<rparr> # es, s))
      else Add_loop name newSector (passed @ [e]) es s)"

definition Directory_Add :: "string option \<Rightarrow> int \<Rightarrow> Directory \<Rightarrow> fsys \<Rightarrow> (bool \<times> Directory \<times> fsys) result" where
  "Directory_Add name newSector d s =
     bindE (FindIndex name d s) (\<lambda>i.
     if i \<noteq> -1 then Inr (False, d, s)
     else bindE (Add_loop name newSector [] (table d) s) (\<lambda>(ok, t, s). Inr (ok, d\<lparr>table := t\<rparr>, s)))"

definition Directory_Remove :: "string option \<Rightarrow> Directory \<Rightarrow> fsys \<Rightarrow> (bool \<times> Directory) result" where
  "Directory_Remove name d s =
     bindE (FindIndex name d s) (\<lambda>i.
     if i = -1 then Inr (False, d)
     else Inr (True, d\<lparr>table := (table d)[nat i := (table d ! nat i)\<lparr>inUse := False, ename := 0\<rparr>]\<rparr>))"

text \<open>The names \<^verbatim>\<open>List\<close> prints, and what \<^verbatim>\<open>Print\<close> prints for each entry.\<close>

definition Directory_List :: "Directory \<Rightarrow> fsys \<Rightarrow> string list result" where
  "Directory_List d s =
     foldE (\<lambda>e out. if inUse e then bindE (cstring (ename e) s) (\<lambda>str. Inr (out @ [str])) else Inr out) (table d) []"

definition Directory_Print :: "Directory \<Rightarrow> fsys \<Rightarrow> ((string \<times> int \<times> int list \<times> byte list list) list \<times> fsys) result" where
  "Directory_Print d s =
     foldE (\<lambda>e (out, s).
       if inUse e then
         bindE (cstring (ename e) s) (\<lambda>str.
         bindE (on_disk (FileHeader_FetchFrom (esector e)) s) (\<lambda>(h, s).
         bindE (on_disk (\<lambda>d. bindE (FileHeader_Print h d) (\<lambda>(pit, data, d). Inr ((pit, data), d))) s) (\<lambda>((pit, data), s).
         Inr (out @ [(str, esector e, pit, data)], s))))
       else Inr (out, s)) (table d) ([], s)"


section \<open>The directory as a map from names to sectors\<close>

definition entry_name :: "string list \<Rightarrow> DirectoryEntry \<Rightarrow> string" where
  "entry_name C e = C ! nat (ename e - 1)"

definition entry_pair :: "string list \<Rightarrow> DirectoryEntry \<Rightarrow> string \<times> int" where
  "entry_pair C e = (entry_name C e, esector e)"

definition dir_map :: "string list \<Rightarrow> DirectoryEntry list \<Rightarrow> string \<rightharpoonup> int" where
  "dir_map C t = map_of (map (entry_pair C) (filter inUse t))"

text \<open>The names of the entries in use exist and are different.\<close>

definition wf_table :: "string list \<Rightarrow> DirectoryEntry list \<Rightarrow> bool" where
  "wf_table C t \<longleftrightarrow> (\<forall>e \<in> set t. inUse e \<longrightarrow> 1 \<le> ename e \<and> ename e \<le> int (length C)) \<and>
     distinct (map (entry_name C) (filter inUse t))"

definition wf_dir :: "Directory \<Rightarrow> fsys \<Rightarrow> bool" where
  "wf_dir d s \<longleftrightarrow> tableSize d = int (length (table d)) \<and> wf_table (cstrings s) (table d)"

abbreviation abs_dir :: "Directory \<Rightarrow> fsys \<Rightarrow> string \<rightharpoonup> int" where
  "abs_dir d s \<equiv> dir_map (cstrings s) (table d)"

lemma cstring_ok: "1 \<le> ename e \<Longrightarrow> ename e \<le> int (length (cstrings s)) \<Longrightarrow> cstring (ename e) s = Inr (entry_name (cstrings s) e)"
  by (simp add: cstring_def entry_name_def)

lemma dir_map_Some:
  "wf_table C t \<Longrightarrow> dir_map C t n = Some k \<longleftrightarrow> (\<exists>e \<in> set t. inUse e \<and> entry_name C e = n \<and> esector e = k)"
proof -
  assume w: "wf_table C t"
  have "fst \<circ> entry_pair C = entry_name C" by (simp add: entry_pair_def fun_eq_iff)
  then have "distinct (map fst (map (entry_pair C) (filter inUse t)))" using w by (simp add: wf_table_def)
  then show ?thesis by (auto simp: dir_map_def map_of_eq_Some_iff entry_pair_def)
qed

lemma dir_map_None: "dir_map C t n = None \<longleftrightarrow> (\<forall>e \<in> set t. inUse e \<longrightarrow> entry_name C e \<noteq> n)"
  by (auto simp: dir_map_def map_of_eq_None_iff entry_pair_def image_iff)

lemma FindIndex_loop_ok:
  assumes "\<forall>e \<in> set es. inUse e \<longrightarrow> 1 \<le> ename e \<and> ename e \<le> int (length (cstrings s))"
  shows "if \<exists>e \<in> set es. inUse e \<and> entry_name (cstrings s) e = n
    then \<exists>j < length es. inUse (es ! j) \<and> entry_name (cstrings s) (es ! j) = n \<and> FindIndex_loop (Some n) es i s = Inr (i + int j)
    else FindIndex_loop (Some n) es i s = Inr (-1)"
  using assms
proof (induction es arbitrary: i)
  case (Cons e es)
  show ?case
  proof (cases "inUse e \<and> entry_name (cstrings s) e = n")
    case True
    then show ?thesis using Cons.prems by (auto simp: cstring_ok intro!: exI [of _ 0])
  next
    case False
    then have step: "FindIndex_loop (Some n) (e # es) i s = FindIndex_loop (Some n) es (i + 1) s"
      using Cons.prems by (auto simp: cstring_ok)
    have "if \<exists>e \<in> set es. inUse e \<and> entry_name (cstrings s) e = n
      then \<exists>j < length es. inUse (es ! j) \<and> entry_name (cstrings s) (es ! j) = n \<and> FindIndex_loop (Some n) es (i + 1) s = Inr (i + 1 + int j)
      else FindIndex_loop (Some n) es (i + 1) s = Inr (-1)"
      using Cons by auto
    then show ?thesis unfolding step using False by (auto split: if_splits intro!: exI [of _ "Suc _"])
  qed
qed simp

lemma FindIndex_ok:
  assumes "wf_dir d s"
  shows "(abs_dir d s n = None \<and> FindIndex (Some n) d s = Inr (-1)) \<or>
    (\<exists>j < length (table d). inUse (table d ! j) \<and> entry_name (cstrings s) (table d ! j) = n \<and>
      abs_dir d s n = Some (esector (table d ! j)) \<and> FindIndex (Some n) d s = Inr (int j))"
proof -
  have w: "wf_table (cstrings s) (table d)" and F: "FindIndex (Some n) d s = FindIndex_loop (Some n) (table d) 0 s"
    using assms by (simp_all add: wf_dir_def FindIndex_def)
  have v: "\<forall>e \<in> set (table d). inUse e \<longrightarrow> 1 \<le> ename e \<and> ename e \<le> int (length (cstrings s))"
    using w by (simp add: wf_table_def)
  show ?thesis
  proof (cases "\<exists>e \<in> set (table d). inUse e \<and> entry_name (cstrings s) e = n")
    case True
    then obtain j where "j < length (table d)" "inUse (table d ! j)" "entry_name (cstrings s) (table d ! j) = n"
      "FindIndex_loop (Some n) (table d) 0 s = Inr (int j)"
      using FindIndex_loop_ok [OF v, of n 0] by auto
    then show ?thesis using F dir_map_Some [OF w, of n] by auto
  next
    case False
    then show ?thesis using F FindIndex_loop_ok [OF v, of n 0] by (auto simp: dir_map_None)
  qed
qed

lemma Directory_Find_ok:
  "wf_dir d s \<Longrightarrow> Directory_Find (Some n) d s = Inr (case abs_dir d s n of Some k \<Rightarrow> k | None \<Rightarrow> -1)"
  using FindIndex_ok [of d s n] by (auto simp: Directory_Find_def)

lemma Directory_Find_None: "Directory_Find None d s = Inr (-1)"
proof -
  have "FindIndex_loop None es i s = Inr (-1)" for es i by (induction es arbitrary: i) auto
  then show ?thesis by (simp add: Directory_Find_def FindIndex_def)
qed

lemma Add_loop_full: "\<forall>e \<in> set es. inUse e \<Longrightarrow> Add_loop name k passed es s = Inr (False, passed @ es, s)"
  by (induction es arbitrary: passed) auto

lemma Add_loop_free:
  "\<forall>e \<in> set xs. inUse e \<Longrightarrow> \<not> inUse e \<Longrightarrow> Add_loop (Some n) k passed (xs @ e # ys) s =
    Inr (True, passed @ xs @ \<lparr>inUse = True, esector = k, ename = int (length (cstrings s)) + 1\<rparr> # ys, s\<lparr>cstrings := cstrings s @ [n]\<rparr>)"
  by (induction xs arbitrary: passed) (auto simp: new_cstring_def)

lemma wf_table_extend:
  assumes "wf_table C t"
  shows "wf_table (C @ C') t" "dir_map (C @ C') t = dir_map C t"
proof -
  have e: "entry_name (C @ C') x = entry_name C x" if "x \<in> set (filter inUse t)" for x
    using that assms by (auto simp: wf_table_def entry_name_def nth_append)
  then have m: "map (entry_name (C @ C')) (filter inUse t) = map (entry_name C) (filter inUse t)" by simp
  show "wf_table (C @ C') t" using assms unfolding wf_table_def m by auto
  have "map (entry_pair (C @ C')) (filter inUse t) = map (entry_pair C) (filter inUse t)" using e by (simp add: entry_pair_def)
  then show "dir_map (C @ C') t = dir_map C t" by (simp only: dir_map_def)
qed

lemma add_entry:
  fixes k :: int
  assumes w: "wf_table C (xs @ e # ys)" and e: "\<not> inUse e" and n: "dir_map C (xs @ e # ys) n = None"
  defines "t \<equiv> xs @ \<lparr>inUse = True, esector = k, ename = int (length C) + 1\<rparr> # ys"
  shows "wf_table (C @ [n]) t" "dir_map (C @ [n]) t = (dir_map C (xs @ e # ys))(n \<mapsto> k)"
proof -
  let ?new = "\<lparr>inUse = True, esector = k, ename = int (length C) + 1\<rparr>"
  have nm: "entry_name (C @ [n]) ?new = n" by (simp add: entry_name_def)
  have w': "wf_table (C @ [n]) (xs @ e # ys)" and m': "dir_map (C @ [n]) (xs @ e # ys) = dir_map C (xs @ e # ys)"
    using wf_table_extend [OF w] by auto
  have out: "\<forall>x \<in> set (xs @ ys). inUse x \<longrightarrow> entry_name (C @ [n]) x \<noteq> n"
    using n unfolding m' [symmetric] dir_map_None by auto
  show "wf_table (C @ [n]) t"
    using w' e out by (auto simp: wf_table_def t_def nm)
  have "map_of (map (entry_pair (C @ [n])) (filter inUse xs)) n = None"
    using out by (auto simp: map_of_eq_None_iff entry_pair_def)
  then show "dir_map (C @ [n]) t = (dir_map C (xs @ e # ys))(n \<mapsto> k)"
    unfolding m' [symmetric] using e by (auto simp: dir_map_def t_def entry_pair_def [of _ ?new] nm map_add_def fun_eq_iff split: option.splits)
qed

lemma Directory_Add_ok:
  assumes w: "wf_dir d s"
  shows "if abs_dir d s n \<noteq> None then Directory_Add (Some n) k d s = Inr (False, d, s)
    else if \<forall>e \<in> set (table d). inUse e then Directory_Add (Some n) k d s = Inr (False, d, s)
    else \<exists>d'. Directory_Add (Some n) k d s = Inr (True, d', s\<lparr>cstrings := cstrings s @ [n]\<rparr>) \<and>
      tableSize d' = tableSize d \<and> length (table d') = length (table d) \<and>
      set (table d') \<subseteq> insert \<lparr>inUse = True, esector = k, ename = int (length (cstrings s)) + 1\<rparr> (set (table d)) \<and>
      wf_dir d' (s\<lparr>cstrings := cstrings s @ [n]\<rparr>) \<and>
      abs_dir d' (s\<lparr>cstrings := cstrings s @ [n]\<rparr>) = (abs_dir d s)(n \<mapsto> k)"
proof (cases "abs_dir d s n = None")
  case False
  then show ?thesis using FindIndex_ok [OF w, of n] by (auto simp: Directory_Add_def)
next
  case True
  then have fi: "FindIndex (Some n) d s = Inr (-1)" using FindIndex_ok [OF w, of n] by auto
  show ?thesis
  proof (cases "\<forall>e \<in> set (table d). inUse e")
    case all: True
    then show ?thesis using True fi Add_loop_full [OF all, of "Some n" k "[]" s] by (simp add: Directory_Add_def)
  next
    case False
    then obtain xs e ys where t: "table d = xs @ e # ys" "\<not> inUse e" "\<forall>x \<in> set xs. inUse x"
      using split_list_first_prop [of "table d" "\<lambda>e. \<not> inUse e"] by auto
    let ?t = "xs @ \<lparr>inUse = True, esector = k, ename = int (length (cstrings s)) + 1\<rparr> # ys"
    have "wf_table (cstrings s) (xs @ e # ys)" "dir_map (cstrings s) (xs @ e # ys) n = None"
      using w True by (simp_all add: wf_dir_def t(1))
    from add_entry [OF this(1) t(2) this(2), of k] show ?thesis
      using True False fi t w by (auto simp: Directory_Add_def Add_loop_free wf_dir_def)
  qed
qed

lemma remove_entry:
  assumes w: "wf_table C t" and j: "j < length t" "inUse (t ! j)"
  defines "t' \<equiv> t[j := (t ! j)\<lparr>inUse := False, ename := 0\<rparr>]"
  shows "wf_table C t'" "dir_map C t' = (dir_map C t)(entry_name C (t ! j) := None)"
proof -
  let ?e = "t ! j" and ?xs = "take j t" and ?ys = "drop (Suc j) t"
  have t: "t = ?xs @ ?e # ?ys" using j(1) by (rule id_take_nth_drop)
  have t': "t' = ?xs @ ?e\<lparr>inUse := False, ename := 0\<rparr> # ?ys" unfolding t'_def using j(1) by (rule upd_conv_take_nth_drop)
  have fs: "filter inUse t = filter inUse ?xs @ ?e # filter inUse ?ys" "filter inUse t' = filter inUse ?xs @ filter inUse ?ys"
    using j(2) by (subst t, simp) (subst t', simp)
  have d: "distinct (map (entry_name C) (filter inUse ?xs @ ?e # filter inUse ?ys))" using w fs(1) by (simp add: wf_table_def)
  have "\<forall>e \<in> set t'. inUse e \<longrightarrow> e \<in> set t"
    unfolding t' using set_take_subset [of j t] set_drop_subset [of "Suc j" t] by auto
  then show "wf_table C t'" using w d unfolding wf_table_def fs(2) by auto
  have "entry_name C ?e \<notin> fst ` set (map (entry_pair C) (filter inUse ?xs))" "entry_name C ?e \<notin> fst ` set (map (entry_pair C) (filter inUse ?ys))"
    using d by (auto simp: entry_pair_def image_iff)
  then have "map_of (map (entry_pair C) (filter inUse ?xs)) (entry_name C ?e) = None" "map_of (map (entry_pair C) (filter inUse ?ys)) (entry_name C ?e) = None"
    by (simp_all only: map_of_eq_None_iff not_False_eq_True)
  then show "dir_map C t' = (dir_map C t)(entry_name C ?e := None)"
    unfolding dir_map_def fs by (auto simp: entry_pair_def [of _ ?e] map_add_def fun_eq_iff split: option.splits)
qed

lemma Directory_Remove_ok:
  assumes w: "wf_dir d s"
  shows "if abs_dir d s n = None then Directory_Remove (Some n) d s = Inr (False, d)
    else \<exists>d'. Directory_Remove (Some n) d s = Inr (True, d') \<and> wf_dir d' s \<and> tableSize d' = tableSize d \<and>
      (\<exists>j < length (table d). inUse (table d ! j) \<and> abs_dir d s n = Some (esector (table d ! j)) \<and>
        table d' = (table d)[j := (table d ! j)\<lparr>inUse := False, ename := 0\<rparr>]) \<and>
      abs_dir d' s = (abs_dir d s)(n := None)"
proof (cases "abs_dir d s n = None")
  case True
  then show ?thesis using FindIndex_ok [OF w, of n] by (auto simp: Directory_Remove_def)
next
  case False
  then obtain j where j: "j < length (table d)" "inUse (table d ! j)" "entry_name (cstrings s) (table d ! j) = n"
    "abs_dir d s n = Some (esector (table d ! j))" "FindIndex (Some n) d s = Inr (int j)" using FindIndex_ok [OF w, of n] by auto
  have "wf_table (cstrings s) (table d)" using w by (simp add: wf_dir_def)
  from remove_entry [OF this j(1,2)] show ?thesis
    using False j w by (auto simp: Directory_Remove_def wf_dir_def)
qed


section \<open>The contract of a table of names\<close>

datatype dir_op = LookupOp string | AddOp string int | RemoveOp string

text \<open>A finite map with room for \<open>cap\<close> names; lookups answer -1 and updates 0 when they fail.\<close>

fun map_step :: "nat \<Rightarrow> dir_op \<Rightarrow> (string \<rightharpoonup> int) \<Rightarrow> int \<times> (string \<rightharpoonup> int)" where
  "map_step cap (LookupOp n) m = (case m n of Some k \<Rightarrow> k | None \<Rightarrow> -1, m)"
| "map_step cap (AddOp n k) m = (if m n \<noteq> None \<or> card (dom m) = cap then (0, m) else (1, m(n \<mapsto> k)))"
| "map_step cap (RemoveOp n) m = (if m n = None then (0, m) else (1, m(n := None)))"

fun map_run :: "nat \<Rightarrow> dir_op list \<Rightarrow> (string \<rightharpoonup> int) \<Rightarrow> int list \<times> (string \<rightharpoonup> int)" where
  "map_run cap [] m = ([], m)"
| "map_run cap (x # xs) m = (let (out, m) = map_step cap x m; (outs, m) = map_run cap xs m in (out # outs, m))"

fun table_step :: "(string \<Rightarrow> 'd \<Rightarrow> int result) \<Rightarrow> (string \<Rightarrow> int \<Rightarrow> 'd \<Rightarrow> (bool \<times> 'd) result) \<Rightarrow>
    (string \<Rightarrow> 'd \<Rightarrow> (bool \<times> 'd) result) \<Rightarrow> dir_op \<Rightarrow> 'd \<Rightarrow> (int \<times> 'd) result" where
  "table_step lkp ins del (LookupOp n) d = bindE (lkp n d) (\<lambda>k. Inr (k, d))"
| "table_step lkp ins del (AddOp n k) d = bindE (ins n k d) (\<lambda>(ok, d). Inr (if ok then 1 else 0, d))"
| "table_step lkp ins del (RemoveOp n) d = bindE (del n d) (\<lambda>(ok, d). Inr (if ok then 1 else 0, d))"

fun table_run :: "(dir_op \<Rightarrow> 'd \<Rightarrow> (int \<times> 'd) result) \<Rightarrow> dir_op list \<Rightarrow> 'd \<Rightarrow> (int list \<times> 'd) result" where
  "table_run step [] d = Inr ([], d)"
| "table_run step (x # xs) d =
     bindE (step x d) (\<lambda>(out, d). bindE (table_run step xs d) (\<lambda>(outs, d). Inr (out # outs, d)))"

locale name_table =
  fixes lkp :: "string \<Rightarrow> 'd \<Rightarrow> int result"
    and ins :: "string \<Rightarrow> int \<Rightarrow> 'd \<Rightarrow> (bool \<times> 'd) result"
    and del :: "string \<Rightarrow> 'd \<Rightarrow> (bool \<times> 'd) result"
    and good :: "'d \<Rightarrow> bool"
    and view :: "'d \<Rightarrow> string \<rightharpoonup> int"
    and cap :: "'d \<Rightarrow> nat"
  assumes lookup: "good d \<Longrightarrow> lkp n d = Inr (case view d n of Some k \<Rightarrow> k | None \<Rightarrow> -1)"
    and refused: "good d \<Longrightarrow> view d n \<noteq> None \<or> card (dom (view d)) = cap d \<Longrightarrow> ins n k d = Inr (False, d)"
    and added: "good d \<Longrightarrow> view d n = None \<Longrightarrow> card (dom (view d)) \<noteq> cap d \<Longrightarrow>
      yields (ins n k d) (\<lambda>(ok, d'). ok \<and> good d' \<and> cap d' = cap d \<and> view d' = (view d)(n \<mapsto> k))"
    and missing: "good d \<Longrightarrow> view d n = None \<Longrightarrow> del n d = Inr (False, d)"
    and removed: "good d \<Longrightarrow> view d n \<noteq> None \<Longrightarrow>
      yields (del n d) (\<lambda>(ok, d'). ok \<and> good d' \<and> cap d' = cap d \<and> view d' = (view d)(n := None))"
begin

lemma step_refines:
  assumes "good d" "map_step (cap d) x (view d) = (out, m)"
  shows "yields (table_step lkp ins del x d) (\<lambda>(out', d'). out' = out \<and> good d' \<and> cap d' = cap d \<and> view d' = m)"
proof (cases x)
  case (LookupOp n)
  then show ?thesis using assms lookup [OF assms(1), of n] by auto
next
  case (AddOp n k)
  then show ?thesis
    using assms refused [OF assms(1), of n k] added [OF assms(1), of n k] by (auto split: if_splits elim!: yields_mono)
next
  case (RemoveOp n)
  then show ?thesis
    using assms missing [OF assms(1), of n] removed [OF assms(1), of n] by (auto split: if_splits elim!: yields_mono)
qed

lemma run_refines:
  assumes "good d" "map_run (cap d) xs (view d) = (outs, m)"
  shows "yields (table_run (table_step lkp ins del) xs d) (\<lambda>(outs', d'). outs' = outs \<and> good d' \<and> cap d' = cap d \<and> view d' = m)"
  using assms
proof (induction xs arbitrary: d outs)
  case (Cons x xs)
  obtain out m1 where m1: "map_step (cap d) x (view d) = (out, m1)" by force
  then obtain d1 where d1: "table_step lkp ins del x d = Inr (out, d1)" "good d1" "cap d1 = cap d" "view d1 = m1"
    using step_refines [OF Cons.prems(1) m1] by (auto elim!: yields_obtain)
  obtain outs1 where "map_run (cap d1) xs (view d1) = (outs1, m)" "outs = out # outs1"
    using Cons.prems(2) m1 d1 by (auto split: prod.splits)
  then show ?case using Cons.IH [OF d1(2)] d1 by (auto elim!: yields_mono)
qed simp

end

lemma card_dir_map:
  assumes "wf_table C t"
  shows "card (dom (dir_map C t)) = length t \<longleftrightarrow> (\<forall>e \<in> set t. inUse e)"
proof -
  have "dom (dir_map C t) = set (map (entry_name C) (filter inUse t))"
    by (auto simp: dir_map_def dom_map_of_conv_image_fst entry_pair_def image_iff)
  then have "card (dom (dir_map C t)) = length (filter inUse t)"
    using assms distinct_card [of "map (entry_name C) (filter inUse t)"] by (simp add: wf_table_def)
  then show ?thesis using length_filter_less [of _ t inUse] by (metis filter_True less_irrefl)
qed

text \<open>The directory with the memory its names live in.\<close>

interpretation dir: name_table "\<lambda>n (d, s). Directory_Find (Some n) d s"
  "\<lambda>n k (d, s). bindE (Directory_Add (Some n) k d s) (\<lambda>(ok, d, s). Inr (ok, d, s))"
  "\<lambda>n (d, s). bindE (Directory_Remove (Some n) d s) (\<lambda>(ok, d). Inr (ok, d, s))"
  "\<lambda>(d, s). wf_dir d s" "\<lambda>(d, s). abs_dir d s" "\<lambda>(d, s). length (table d)"
proof (unfold_locales, goal_cases)
  case (1 x n)
  then show ?case by (cases x) (simp add: Directory_Find_ok)
next
  case (2 x n k)
  obtain d s where x: "x = (d, s)" by force
  have "wf_table (cstrings s) (table d)" using 2 by (simp add: x wf_dir_def)
  then show ?case using Directory_Add_ok [of d s n k] 2 card_dir_map [of "cstrings s" "table d"] by (auto simp: x split: if_splits)
next
  case (3 x n k)
  obtain d s where x: "x = (d, s)" by force
  have "wf_table (cstrings s) (table d)" using 3 by (simp add: x wf_dir_def)
  then show ?case using Directory_Add_ok [of d s n k] 3 card_dir_map [of "cstrings s" "table d"] by (auto simp: x wf_dir_def split: if_splits)
next
  case (4 x n)
  then show ?case using Directory_Remove_ok [of "fst x" "snd x" n] by (cases x) auto
next
  case (5 x n)
  then show ?case using Directory_Remove_ok [of "fst x" "snd x" n] by (cases x) (auto simp: wf_dir_def)
qed

section \<open>The table on the disk\<close>

definition entry_ok :: "DirectoryEntry \<Rightarrow> bool" where
  "entry_ok e \<longleftrightarrow> int32 (esector e) \<and> int32 (ename e)"

lemma length_entry_bytes [simp]: "length (entry_bytes e) = 12"
  by (simp add: entry_bytes_def)

lemma length_table_bytes [simp]: "length (table_bytes t) = 12 * length t"
  by (induction t) (simp_all add: table_bytes_def)

lemma entry_roundtrip:
  assumes "entry_ok e"
  shows "entry_of_bytes (entry_bytes e) = e"
proof -
  have "int_bytes 1 ! 0 \<noteq> 0" "int_bytes 0 ! 0 = 0" by (simp_all add: int_bytes_def word_bytes_def)
  then have "inUse (entry_of_bytes (entry_bytes e)) = inUse e"
    by (simp add: entry_of_bytes_def entry_bytes_def nth_append)
  moreover have "slice 4 4 (entry_bytes e) = int_bytes (esector e)" "slice 8 4 (entry_bytes e) = int_bytes (ename e)"
    by (simp_all add: slice_def entry_bytes_def)
  ultimately show ?thesis using assms by (simp add: entry_ok_def entry_of_bytes_def)
qed

lemma table_roundtrip:
  "list_all entry_ok t \<Longrightarrow> table_of_bytes (length t) (table_bytes t @ rest) = t"
  by (induction t) (simp_all add: table_bytes_def entry_roundtrip)


section \<open>Properties\<close>

text \<open>The steps of the directory on a pair of directory and memory.\<close>

definition directory_step :: "dir_op \<Rightarrow> Directory \<times> fsys \<Rightarrow> (int \<times> Directory \<times> fsys) result" where
  "directory_step = table_step (\<lambda>n (d, s). Directory_Find (Some n) d s)
     (\<lambda>n k (d, s). bindE (Directory_Add (Some n) k d s) (\<lambda>(ok, d, s). Inr (ok, d, s)))
     (\<lambda>n (d, s). bindE (Directory_Remove (Some n) d s) (\<lambda>(ok, d). Inr (ok, d, s)))"

text \<open>
  C22: the directory implements a finite map from names to sectors with room for as
  many names as it has entries.  Every sequence of \<^verbatim>\<open>Find\<close>, \<^verbatim>\<open>Add\<close> and \<^verbatim>\<open>Remove\<close> calls returns, gives
  the answers of the map (a second \<^verbatim>\<open>Add\<close> of a name and an \<^verbatim>\<open>Add\<close> to a full table are
  refused, a name that is not there is -1), and leaves the directory well formed.
\<close>

theorem directory_refines_map:
  assumes "wf_dir d s" "map_run (length (table d)) xs (abs_dir d s) = (outs, m)"
  shows "\<exists>d' s'. table_run directory_step xs (d, s) = Inr (outs, d', s') \<and> wf_dir d' s' \<and> abs_dir d' s' = m"
  using dir.run_refines [of "(d, s)" xs outs m] assms by (auto simp: directory_step_def yields_def)

definition empty_dir :: Directory where
  "empty_dir = \<lparr>table = replicate 10 \<lparr>inUse = False, esector = 0, ename = 0\<rparr>, tableSize = 10\<rparr>"

definition fresh_fs :: fsys where
  "fresh_fs = \<lparr>sdisk = fresh_disk, clock = (\<lambda>n. int n), cstrings = []\<rparr>"

lemma empty_dir_wf: "wf_dir empty_dir s" "abs_dir empty_dir s = Map.empty"
  by (simp_all add: wf_dir_def wf_table_def empty_dir_def dir_map_def)

theorem directory_refines_map_witness:
  "\<exists>d' s'. table_run directory_step [AddOp ''a'' 5, AddOp ''a'' 6, LookupOp ''a'', RemoveOp ''a'', LookupOp ''a''] (empty_dir, fresh_fs) =
     Inr ([1, 0, 5, 1, -1], d', s')"
proof -
  have "map_run (length (table empty_dir)) [AddOp ''a'' 5, AddOp ''a'' 6, LookupOp ''a'', RemoveOp ''a'', LookupOp ''a'']
      (abs_dir empty_dir fresh_fs) = ([1, 0, 5, 1, -1], Map.empty)"
    by (simp add: empty_dir_wf) (simp add: empty_dir_def)
  from directory_refines_map [OF empty_dir_wf(1) this] show ?thesis by blast
qed

lemma FindIndex_dangling:
  assumes "cstrings s = []" "\<exists>e \<in> set es. inUse e \<and> ename e \<noteq> 0"
  shows "FindIndex_loop (Some n) es i s = Inl WildPointer"
  using assms(2)
proof (induction es arbitrary: i)
  case (Cons e es)
  then show ?case using assms(1) by (cases "inUse e \<and> ename e \<noteq> 0") (auto simp: cstring_def requireE_def)
qed simp

text \<open>
  The names of a stored directory do not survive the end of the Nachos process.
  A non-empty directory that is written to the disk and read back with no C string
  allocated yet has its entries, but every lookup follows a dangling pointer.
\<close>

theorem directory_names_dangle:
  assumes "wf_dir d s" "list_all entry_ok (table d)" "abs_dir d s \<noteq> Map.empty" "cstrings s' = []"
  shows "table_of_bytes (length (table d)) (table_bytes (table d)) = table d \<and>
    Directory_Find (Some n) (d\<lparr>table := table_of_bytes (length (table d)) (table_bytes (table d))\<rparr>) s' = Inl WildPointer"
proof -
  have rt: "table_of_bytes (length (table d)) (table_bytes (table d)) = table d"
    using table_roundtrip [OF assms(2), of "[]"] by simp
  obtain nm where "abs_dir d s nm \<noteq> None" using assms(3) by (metis)
  then obtain e where "e \<in> set (table d)" "inUse e" unfolding dir_map_None by blast
  moreover from this have "ename e \<noteq> 0" using assms(1) by (auto simp: wf_dir_def wf_table_def)
  ultimately have "FindIndex_loop (Some n) (table d) 0 s' = Inl WildPointer" using FindIndex_dangling [OF assms(4)] by blast
  then show ?thesis using rt assms(1) by (simp add: Directory_Find_def FindIndex_def wf_dir_def)
qed

theorem directory_names_dangle_witness:
  "\<exists>d s. table_run directory_step [AddOp ''a'' 5] (empty_dir, fresh_fs) = Inr ([1], d, s) \<and>
     Directory_Find (Some ''a'') d s = Inr 5 \<and>
     Directory_Find (Some ''a'') (d\<lparr>table := table_of_bytes (length (table d)) (table_bytes (table d))\<rparr>) fresh_fs = Inl WildPointer"
proof -
  let ?d = "\<lparr>table = \<lparr>inUse = True, esector = 5, ename = 1\<rparr> # replicate 9 \<lparr>inUse = False, esector = 0, ename = 0\<rparr>, tableSize = 10\<rparr>"
  let ?s = "fresh_fs\<lparr>cstrings := [''a'']\<rparr>"
  have r: "replicate 10 x = x # replicate 9 x" for x :: DirectoryEntry by (simp add: eval_nat_numeral)
  have n: "FindIndex_loop (Some n) (replicate j \<lparr>inUse = False, esector = 0, ename = 0\<rparr>) i s = Inr (-1)" for n j i s
    by (induction j arbitrary: i) auto
  have run: "table_run directory_step [AddOp ''a'' 5] (empty_dir, fresh_fs) = Inr ([1], ?d, ?s)"
    by (simp add: directory_step_def Directory_Add_def FindIndex_def empty_dir_def n) (simp add: r new_cstring_def fresh_fs_def)
  have w: "wf_dir ?d ?s" and m: "abs_dir ?d ?s = [''a'' \<mapsto> 5]"
    by (simp_all add: wf_dir_def wf_table_def dir_map_def entry_pair_def entry_name_def)
  have e: "list_all entry_ok (table ?d)" by (simp add: list_all_iff entry_ok_def)
  have ne: "abs_dir ?d ?s \<noteq> Map.empty" unfolding m by simp
  have c: "cstrings fresh_fs = []" by (simp add: fresh_fs_def)
  have "Directory_Find (Some ''a'') (?d\<lparr>table := table_of_bytes (length (table ?d)) (table_bytes (table ?d))\<rparr>) fresh_fs = Inl WildPointer"
    using directory_names_dangle [OF w e ne c] by blast
  moreover have "Directory_Find (Some ''a'') ?d ?s = Inr 5"
    using Directory_Find_ok [OF w, of "''a''"] unfolding m by simp
  ultimately show ?thesis using run by blast
qed

end
