(* ===== verification/File_System.thy ===== *)
theory File_System
  imports Directory_Table
begin

text \<open>
  \<^verbatim>\<open>filesys/filesys.h\<close>, \<^verbatim>\<open>filesys/filesys.cc\<close> (the \<^verbatim>\<open>FILESYS\<close> build): formatting a disk, the walk
  along a path, and the operations \<^verbatim>\<open>Create\<close>, \<^verbatim>\<open>Open\<close>, \<^verbatim>\<open>Remove\<close>, \<^verbatim>\<open>List\<close>, \<^verbatim>\<open>Print\<close>.

  \<open>junk c\<close> is the uninitialised memory of the \<open>c\<close>-th call of an operation.  The buffers
  for path names are modelled by their contents; that the source allocates them one
  byte too small is not.  Output is returned by the operations that only print.
\<close>

section \<open>State\<close>

record FileSystem =
  freeMapFile :: OpenFile
  directoryFile :: OpenFile

type_synonym memory = "nat \<Rightarrow> nat \<Rightarrow> nat \<Rightarrow> int"

abbreviation (input) FreeMapSector :: int where "FreeMapSector \<equiv> 0"
abbreviation (input) DirectorySector :: int where "DirectorySector \<equiv> 1"
abbreviation (input) FreeMapFileSize :: int where "FreeMapFileSize \<equiv> 128"
abbreviation (input) NumDirEntries :: int where "NumDirEntries \<equiv> 10"
abbreviation (input) DirectoryFileSize :: int where "DirectoryFileSize \<equiv> 120"

text \<open>\<^verbatim>\<open>new FileHeader\<close> and \<^verbatim>\<open>new BitMap(NumSectors)\<close>.\<close>

definition FileHeader_new :: "(nat \<Rightarrow> int) \<Rightarrow> FileHeader" where
  "FileHeader_new j = header_of_bytes (ints_bytes (map j [0..<32]))"

definition FreeMap_new :: "(nat \<Rightarrow> int) \<Rightarrow> BitMap result" where
  "FreeMap_new j = BitMap_new (\<lambda>i. word_of_int (j i)) NumSectors"

definition Allocate_fs :: "(nat \<Rightarrow> nat \<Rightarrow> int) \<Rightarrow> int \<Rightarrow> int \<Rightarrow> FileHeader \<Rightarrow> BitMap \<Rightarrow> fsys \<Rightarrow>
    (bool \<times> FileHeader \<times> BitMap \<times> fsys) result" where
  "Allocate_fs junk fileSize ftype h freeMap s =
    (let (now, s) = time_now s in
     bindE (Allocate junk now fileSize ftype h freeMap (sdisk s)) (\<lambda>(ok, h, freeMap, d). Inr (ok, h, freeMap, s\<lparr>sdisk := d\<rparr>)))"

section \<open>Operations\<close>

text \<open>\<^verbatim>\<open>FileSystem(TRUE)\<close>; the printing of the new file system under the debug flag \<^verbatim>\<open>f\<close> is left out.\<close>

definition FileSystem_format :: "memory \<Rightarrow> fsys \<Rightarrow> (FileSystem \<times> fsys) result" where
  "FileSystem_format junk s =
     bindE (FreeMap_new (junk 0 0)) (\<lambda>freeMap.
     bindE (Directory_new (junk 0 1) NumDirEntries s) (\<lambda>(directory, s).
     let mapHdr = FileHeader_new (junk 0 2); dirHdr = FileHeader_new (junk 0 3) in
     bindE (BitMap_Mark FreeMapSector freeMap) (\<lambda>freeMap.
     bindE (BitMap_Mark DirectorySector freeMap) (\<lambda>freeMap.
     bindE (Allocate_fs (junk 1) FreeMapFileSize 1 mapHdr freeMap s) (\<lambda>(ok, mapHdr, freeMap, s). ASSERT ok (
     bindE (Allocate_fs (junk 2) DirectoryFileSize 1 dirHdr freeMap s) (\<lambda>(ok, dirHdr, freeMap, s). ASSERT ok (
     let (t1, s) = time_now s; (t2, s) = time_now s; (t3, s) = time_now s; (t4, s) = time_now s;
         mapHdr = mapHdr\<lparr>lastVisitTime := t1, lastWriteTime := t3\<rparr>;
         dirHdr = dirHdr\<lparr>lastVisitTime := t2, lastWriteTime := t4\<rparr> in
     bindE (do_disk (FileHeader_WriteBack FreeMapSector mapHdr) s) (\<lambda>s.
     bindE (do_disk (FileHeader_WriteBack DirectorySector dirHdr) s) (\<lambda>s.
     bindE (OpenFile_new FreeMapSector s) (\<lambda>(mapFile, s).
     bindE (OpenFile_new DirectorySector s) (\<lambda>(dirFile, s).
     bindE (BitMap_WriteBack (junk 3) mapFile freeMap s) (\<lambda>(mapFile, s).
     bindE (Directory_WriteBack (junk 4) dirFile directory s) (\<lambda>(dirFile, s).
     Inr (\<lparr>freeMapFile = mapFile, directoryFile = dirFile\<rparr>, s)))))))))))))))"

definition FileSystem_open :: "fsys \<Rightarrow> (FileSystem \<times> fsys) result" where
  "FileSystem_open s =
     bindE (OpenFile_new FreeMapSector s) (\<lambda>(mapFile, s).
     bindE (OpenFile_new DirectorySector s) (\<lambda>(dirFile, s).
     Inr (\<lparr>freeMapFile = mapFile, directoryFile = dirFile\<rparr>, s)))"

definition FileSystem_new :: "memory \<Rightarrow> bool \<Rightarrow> fsys \<Rightarrow> (FileSystem \<times> fsys) result" where
  "FileSystem_new junk format s = (if format then FileSystem_format junk s else FileSystem_open s)"

text \<open>
  The loop of \<^verbatim>\<open>getFileName\<close> that looks for the first two slashes: the indices behind the
  first and behind the second one, 0 when there is none.
\<close>

fun scan_path :: "string \<Rightarrow> nat \<Rightarrow> nat \<Rightarrow> nat \<Rightarrow> nat \<Rightarrow> nat \<times> nat" where
  "scan_path [] i tokNum fstart sstart = (fstart, sstart)"
| "scan_path (c # cs) i tokNum fstart sstart =
     (if tokNum < 2 then
        if c = CHR ''/'' then
          let tokNum = tokNum + 1;
              fstart = (if tokNum = 1 then i + 1 else fstart);
              sstart = (if tokNum = 2 then i + 1 else sstart)
          in scan_path cs (i + 1) tokNum fstart sstart
        else scan_path cs (i + 1) tokNum fstart sstart
      else (fstart, sstart))"

lemma scan_path_second: "snd (scan_path cs i 1 f 0) \<noteq> 0 \<Longrightarrow> fst (scan_path cs i 1 f 0) = f \<and> cs \<noteq> []"
proof (induction cs arbitrary: i)
  case (Cons c cs)
  have "scan_path cs j 2 f g = (f, g)" for j g by (cases cs) auto
  then show ?case using Cons by (auto simp: numeral_2_eq_2 split: if_splits)
qed simp

lemma scan_path_first: "snd (scan_path cs i 0 0 0) \<noteq> 0 \<Longrightarrow> 0 < fst (scan_path cs i 0 0 0) \<and> cs \<noteq> []"
proof (induction cs arbitrary: i)
  case (Cons c cs)
  then show ?case using scan_path_second [of cs "Suc i" "Suc i"] by (auto split: if_splits)
qed simp

function path_walk :: "string \<Rightarrow> Directory \<Rightarrow> OpenFile \<Rightarrow> fsys \<Rightarrow> (string option \<times> Directory \<times> OpenFile \<times> fsys) result" where
  "path_walk name directory currDirectoryFile s =
     bindE (Directory_FetchFrom currDirectoryFile directory s) (\<lambda>(directory, currDirectoryFile, s).
     let (fstart, sstart) = scan_path name 0 0 0 0 in
     if sstart = 0 then Inr (Some (drop fstart name), directory, currDirectoryFile, s)
     else
       bindE (Directory_Find (Some (slice fstart (sstart - 1 - fstart) name)) directory s) (\<lambda>newSector.
       if newSector = -1 then Inr (None, directory, currDirectoryFile, s)
       else
         bindE (OpenFile_new newSector s) (\<lambda>(currDirectoryFile, s).
         path_walk (drop fstart name) directory currDirectoryFile s)))"
  by pat_completeness auto

termination
proof (relation "measure (length \<circ> fst)", goal_cases)
  case (2 name)
  then show ?case using scan_path_first [of name 0] by (cases "scan_path name 0 0 0 0") auto
qed simp

definition getFileName :: "(nat \<Rightarrow> int) \<Rightarrow> string \<Rightarrow> fsys \<Rightarrow> (string option \<times> Directory \<times> OpenFile \<times> fsys) result" where
  "getFileName junk name s =
     bindE (OpenFile_new 1 s) (\<lambda>(rootFile, s).
     bindE (Directory_new junk NumDirEntries s) (\<lambda>(directory, s).
     path_walk name directory rootFile s))"


declare path_walk.simps [simp del]

text \<open>
  \<^verbatim>\<open>Create\<close> from the point where a sector for the header is found and the name is added:
  allocate the data, write the header, initialise a new directory, write the
  parent directory (it is read and listed again) and the free map.
\<close>

definition create_directory :: "memory \<Rightarrow> int \<Rightarrow> ftrans" where
  "create_directory junk k s =
     bindE (OpenFile_new k s) (\<lambda>(newDirectoryFile, s).
     bindE (Directory_new (junk 10 0) NumDirEntries s) (\<lambda>(newDirectory, s).
     bindE (Directory_WriteBack (junk 11) newDirectoryFile newDirectory s) (\<lambda>(newDirectoryFile, s). Inr s)))"

definition create_file :: "memory \<Rightarrow> int \<Rightarrow> int \<Rightarrow> int \<Rightarrow> Directory \<Rightarrow> BitMap \<Rightarrow> OpenFile \<Rightarrow> FileSystem \<Rightarrow> fsys \<Rightarrow>
    (bool \<times> FileSystem \<times> fsys) result" where
  "create_file junk k initialSize ftype directory freeMap currDirectoryFile fs s =
     bindE (Allocate_fs (junk 12) initialSize ftype (FileHeader_new (junk 10 1)) freeMap s) (\<lambda>(ok, h, freeMap, s).
     if \<not> ok then Inr (False, fs, s)
     else
       bindE (do_disk (FileHeader_WriteBack k h) s) (\<lambda>s.
       bindE (if ftype = 1 then create_directory junk k s else Inr s) (\<lambda>s.
       bindE (Directory_WriteBack (junk 13) currDirectoryFile directory s) (\<lambda>(currDirectoryFile, s).
       bindE (Directory_FetchFrom currDirectoryFile directory s) (\<lambda>(directory, currDirectoryFile, s).
       bindE (Directory_List directory s) (\<lambda>_.
       bindE (BitMap_WriteBack (junk 14) (freeMapFile fs) freeMap s) (\<lambda>(mapFile, s).
       Inr (True, fs\<lparr>freeMapFile := mapFile\<rparr>, s))))))))"

definition Create :: "memory \<Rightarrow> string \<Rightarrow> int \<Rightarrow> int \<Rightarrow> FileSystem \<Rightarrow> fsys \<Rightarrow> (bool \<times> FileSystem \<times> fsys) result" where
  "Create junk Name initialSize ftype fs s =
     bindE (getFileName (junk 10 2) Name s) (\<lambda>(name, directory, currDirectoryFile, s).
     bindE (Directory_Find name directory s) (\<lambda>found.
     if found \<noteq> -1 then Inr (False, fs, s)
     else
       bindE (FreeMap_new (junk 10 3)) (\<lambda>freeMap.
       bindE (BitMap_FetchFrom (freeMapFile fs) freeMap s) (\<lambda>(freeMap, mapFile, s).
       let fs = fs\<lparr>freeMapFile := mapFile\<rparr> in
       bindE (BitMap_Find freeMap) (\<lambda>(k, freeMap).
       if k = -1 then Inr (False, fs, s)
       else
         bindE (Directory_Add name k directory s) (\<lambda>(added, directory, s).
         if \<not> added then Inr (False, fs, s)
         else create_file junk k initialSize ftype directory freeMap currDirectoryFile fs s))))))"

text \<open>
  \<^verbatim>\<open>Open\<close>: the variable for the result is the one \<^verbatim>\<open>getFileName\<close> leaves the open directory
  file in.
\<close>

definition FileSystem_Open :: "memory \<Rightarrow> string \<Rightarrow> fsys \<Rightarrow> (OpenFile option \<times> fsys) result" where
  "FileSystem_Open junk Name s =
     bindE (getFileName (junk 20 0) Name s) (\<lambda>(name, directory, openFile, s).
     bindE (Directory_Find name directory s) (\<lambda>k.
     if k \<ge> 0 then
       bindE (on_disk (FileHeader_FetchFrom k) s) (\<lambda>(h, s).
       bindE (do_disk (FileHeader_WriteBack k (h\<lparr>numVisits := numVisits h + 1\<rparr>)) s) (\<lambda>s.
       bindE (OpenFile_new k s) (\<lambda>(openFile, s). Inr (Some openFile, s))))
     else Inr (Some openFile, s)))"

text \<open>The end of \<^verbatim>\<open>Remove\<close> for a file and for a directory: free the sectors, drop the name.\<close>

definition remove_blocks :: "memory \<Rightarrow> int \<Rightarrow> string option \<Rightarrow> FileHeader \<Rightarrow> Directory \<Rightarrow> OpenFile \<Rightarrow> FileSystem \<Rightarrow> fsys \<Rightarrow>
    (FileSystem \<times> fsys) result" where
  "remove_blocks junk k name fileHdr directory openFile fs s =
     bindE (FreeMap_new (junk 30 0)) (\<lambda>freeMap.
     bindE (BitMap_FetchFrom (freeMapFile fs) freeMap s) (\<lambda>(freeMap, mapFile, s).
     bindE (on_disk (Deallocate fileHdr freeMap) s) (\<lambda>(freeMap, s).
     bindE (BitMap_Clear k freeMap) (\<lambda>freeMap.
     bindE (Directory_Remove name directory s) (\<lambda>(removed, directory).
     bindE (BitMap_WriteBack (junk 31) mapFile freeMap s) (\<lambda>(mapFile, s).
     bindE (Directory_WriteBack (junk 32) openFile directory s) (\<lambda>(openFile, s).
     Inr (fs\<lparr>freeMapFile := mapFile\<rparr>, s))))))))"

text \<open>
  \<^verbatim>\<open>Remove\<close>: \<open>n\<close> bounds the nesting of directories.  The path of an entry of a directory
  is built in a buffer of 100 bytes.
\<close>

fun FileSystem_Remove :: "nat \<Rightarrow> memory \<Rightarrow> string \<Rightarrow> FileSystem \<Rightarrow> fsys \<Rightarrow> (bool \<times> FileSystem \<times> fsys) result" where
  "FileSystem_Remove 0 junk Name fs s = Inl Diverges"
| "FileSystem_Remove (Suc n) junk Name fs s =
     bindE (getFileName (junk 30 1) Name s) (\<lambda>(name, directory, openFile, s).
     bindE (Directory_Find name directory s) (\<lambda>k.
     if k = -1 then Inr (False, fs, s)
     else
       bindE (on_disk (FileHeader_FetchFrom k) s) (\<lambda>(fileHdr, s).
       if fileType fileHdr = 0 then
         let fileHdr' = fileHdr\<lparr>numVisits := numVisits fileHdr - 1\<rparr> in
         bindE (do_disk (FileHeader_WriteBack k fileHdr') s) (\<lambda>s.
         if numVisits fileHdr \<noteq> 1 then Inr (False, fs, s)
         else bindE (remove_blocks junk k name fileHdr' directory openFile fs s) (\<lambda>(fs, s). Inr (True, fs, s)))
       else
         bindE (OpenFile_new k s) (\<lambda>(dirFile, s).
         bindE (Directory_new (junk 30 2) NumDirEntries s) (\<lambda>(dir, s).
         bindE (Directory_FetchFrom dirFile dir s) (\<lambda>(dir, dirFile, s).
         bindE (foldE (\<lambda>e (fs, s).
             if inUse e then
               bindE (cstring (ename e) s) (\<lambda>str.
               requireE OutOfBounds (length Name + 1 + length str < 100)
                 (bindE (FileSystem_Remove n junk (Name @ ''/'' @ str) fs s) (\<lambda>(_, fs, s). Inr (fs, s))))
             else Inr (fs, s)) (table dir) (fs, s)) (\<lambda>(fs, s).
         bindE (remove_blocks junk k name fileHdr directory openFile fs s) (\<lambda>(fs, s). Inr (True, fs, s)))))))))"

definition FileSystem_List :: "memory \<Rightarrow> FileSystem \<Rightarrow> fsys \<Rightarrow> (string list \<times> FileSystem \<times> fsys) result" where
  "FileSystem_List junk fs s =
     bindE (Directory_new (junk 40 0) NumDirEntries s) (\<lambda>(directory, s).
     bindE (Directory_FetchFrom (directoryFile fs) directory s) (\<lambda>(directory, dirFile, s).
     bindE (Directory_List directory s) (\<lambda>names. Inr (names, fs\<lparr>directoryFile := dirFile\<rparr>, s))))"

definition print_header :: "int \<Rightarrow> fsys \<Rightarrow> ((int list \<times> byte list list) \<times> fsys) result" where
  "print_header k s =
     bindE (on_disk (FileHeader_FetchFrom k) s) (\<lambda>(h, s).
     on_disk (\<lambda>d. bindE (FileHeader_Print h d) (\<lambda>(pit, data, d). Inr ((pit, data), d))) s)"

definition FileSystem_Print :: "memory \<Rightarrow> FileSystem \<Rightarrow> fsys \<Rightarrow>
    (((int list \<times> byte list list) list \<times> int list \<times> (string \<times> int \<times> int list \<times> byte list list) list) \<times> FileSystem \<times> fsys) result" where
  "FileSystem_Print junk fs s =
     bindE (FreeMap_new (junk 50 0)) (\<lambda>freeMap.
     bindE (Directory_new (junk 50 1) NumDirEntries s) (\<lambda>(directory, s).
     bindE (print_header FreeMapSector s) (\<lambda>(mapOut, s).
     bindE (print_header DirectorySector s) (\<lambda>(dirOut, s).
     bindE (BitMap_FetchFrom (freeMapFile fs) freeMap s) (\<lambda>(freeMap, mapFile, s).
     bindE (BitMap_Print freeMap) (\<lambda>bits.
     bindE (Directory_FetchFrom (directoryFile fs) directory s) (\<lambda>(directory, dirFile, s).
     bindE (Directory_Print directory s) (\<lambda>(entries, s).
     Inr (([mapOut, dirOut], bits, entries), fs\<lparr>freeMapFile := mapFile, directoryFile := dirFile\<rparr>, s)))))))))"


section \<open>The layout of the disk\<close>

text \<open>
  A list of files: header sector, header (up to its time stamps) and contents.  Their
  sectors, headers included, are all different.
\<close>

type_synonym files = "(int \<times> FileHeader \<times> byte list) list"

definition foot :: "byte list list \<Rightarrow> int \<times> FileHeader \<times> byte list \<Rightarrow> int list" where
  "foot D = (\<lambda>(k, h, bs). k # file_blocks h D)"

definition feet :: "byte list list \<Rightarrow> files \<Rightarrow> int list" where
  "feet D L = concat (map (foot D) L)"

definition layout :: "byte list list \<Rightarrow> files \<Rightarrow> bool" where
  "layout D L \<longleftrightarrow> (\<forall>(k, h, bs) \<in> set L. file_at D k h bs) \<and> distinct (feet D L)"

lemma feet_Cons: "feet D ((k, h, bs) # L) = k # file_blocks h D @ feet D L"
  by (simp add: feet_def foot_def)

lemma feet_range:
  assumes "layout D L" "j \<in> set (feet D L)"
  shows "0 \<le> j" "j < 1024"
proof -
  obtain k h bs where "(k, h, bs) \<in> set L" "j \<in> set (k # file_blocks h D)"
    using assms(2) by (auto simp: feet_def foot_def)
  moreover from this have "file_at D k h bs" using assms(1) by (auto simp: layout_def)
  ultimately show "0 \<le> j" "j < 1024"
    using file_at_header(1,2,7) [of D k h bs] file_block_range [of h D j] by auto
qed

lemma layout_file: "layout D L \<Longrightarrow> (k, h, bs) \<in> set L \<Longrightarrow> file_at D k h bs"
  by (auto simp: layout_def)

lemma feet_mem: "(k, h, bs) \<in> set L \<Longrightarrow> insert k (set (file_blocks h D)) \<subseteq> set (feet D L)"
  by (force simp: feet_def foot_def)

lemma header_sectors: "fst ` set F \<subseteq> set (feet D (A @ F))"
  by (force simp: feet_def foot_def)

lemma layout_frame:
  assumes L: "layout D L" and same: "\<And>j. j \<in> set (feet D L) \<Longrightarrow> D' ! nat j = D ! nat j"
  shows "layout D' L" "feet D' L = feet D L"
proof -
  have f: "file_at D' k h bs \<and> file_blocks h D' = file_blocks h D" if x: "(k, h, bs) \<in> set L" for k h bs
  proof -
    have "D' ! nat j = D ! nat j" if "j \<in> insert k (set (file_blocks h D))" for j
      using same that feet_mem [OF x, of D] by blast
    moreover from this have "header_at D' k = header_at D k" by (simp add: header_at_def)
    ultimately show ?thesis
      using file_at_frame [OF layout_file [OF L x], of D'] file_at_header(6) [OF layout_file [OF L x]] by auto
  qed
  then have "map (foot D') L = map (foot D) L" by (auto simp: foot_def)
  then show e: "feet D' L = feet D L" by (simp only: feet_def)
  show "layout D' L" using L f unfolding layout_def e by auto
qed

lemma layout_perm:
  assumes "mset L = mset L'"
  shows "layout D L \<longleftrightarrow> layout D L'" "set (feet D L) = set (feet D L')"
proof -
  have "mset (feet D L) = sum_mset (image_mset (\<lambda>x. mset (foot D x)) (mset L))" for L
    by (induction L) (simp_all add: feet_def)
  then have "mset (feet D L) = mset (feet D L')" using assms by simp
  then have "distinct (feet D L) \<longleftrightarrow> distinct (feet D L')" "set (feet D L) = set (feet D L')"
    using mset_eq_imp_distinct_iff mset_eq_setD by blast+
  moreover have "set L = set L'" using assms mset_eq_setD by blast
  ultimately show "layout D L \<longleftrightarrow> layout D L'" "set (feet D L) = set (feet D L')" by (simp_all add: layout_def)
qed

lemma layout_data:
  assumes L: "layout D ((k, h, bs) # L)" and d: "data_only h D D'" and f: "file_at D' k h bs'"
  shows "layout D' ((k, h, bs') # L)" "feet D' ((k, h, bs') # L) = feet D ((k, h, bs) # L)"
proof -
  have fb: "file_blocks h D' = file_blocks h D" using d by (simp add: data_only_def)
  have dist: "distinct (k # file_blocks h D @ feet D L)" and LL: "layout D L"
    using L by (auto simp: layout_def feet_Cons)
  have "D' ! nat j = D ! nat j" if j: "j \<in> set (feet D L)" for j
  proof -
    have "j \<notin> set (file_blocks h D)" using dist j by auto
    then have "\<forall>q < nat (numSectors h). data_sector (primaryIndexTable h) D q \<noteq> int (nat j)"
      using data_sector_mem [of _ h D] feet_range [OF LL j] by auto
    then show ?thesis using d feet_range [OF LL j] by (simp add: data_only_def)
  qed
  from layout_frame [OF LL this] have "layout D' L" "feet D' L = feet D L" by auto
  then show "layout D' ((k, h, bs') # L)" "feet D' ((k, h, bs') # L) = feet D ((k, h, bs) # L)"
    using f dist fb by (auto simp: layout_def feet_Cons)
qed

lemma layout_touch:
  assumes L: "layout D L" and D: "disk_image D" and x: "(k, h, bs) \<in> set L" and t: "int32 t"
  shows "layout (touch t k D) L" "set (feet (touch t k D) L) = set (feet D L)"
proof -
  obtain A B where "L = A @ (k, h, bs) # B" using split_list [OF x] by blast
  then have p: "mset L = mset ((k, h, bs) # A @ B)" by simp
  have L1: "layout D ((k, h, bs) # A @ B)" using L layout_perm(1) [OF p] by blast
  have fa: "file_at D k h bs" and k: "0 \<le> k" "k < NumSectors" "k \<notin> set (file_blocks h D)"
    using layout_file [OF L x] file_at_header [OF layout_file [OF L x]] by auto
  have f: "file_at (touch t k D) k h bs" "file_blocks h (touch t k D) = file_blocks h D"
    using file_at_touch [OF fa D k t] by auto
  have LL: "layout D (A @ B)" and dist: "distinct (k # file_blocks h D @ feet D (A @ B))" using L1 by (auto simp: layout_def feet_Cons)
  have "touch t k D ! nat j = D ! nat j" if "j \<in> set (feet D (A @ B))" for j
    using touch_other [OF k(1), of j t D] feet_range [OF LL that] dist that by auto
  from layout_frame [OF LL this] have f': "layout (touch t k D) (A @ B)" "feet (touch t k D) (A @ B) = feet D (A @ B)" by auto
  then have "layout (touch t k D) ((k, h, bs) # A @ B)" using f dist by (auto simp: layout_def feet_Cons)
  then show "layout (touch t k D) L" using layout_perm(1) [OF p] by blast
  show "set (feet (touch t k D) L) = set (feet D L)"
    unfolding layout_perm(2) [OF p] feet_Cons f(2) f'(2) ..
qed

text \<open>A new file in sectors that are not in use.\<close>

lemma layout_new:
  assumes L: "layout D L" and f: "file_at D' k h bs"
    and same: "\<And>j. j \<in> set (feet D L) \<Longrightarrow> D' ! nat j = D ! nat j"
    and dis: "insert k (set (file_blocks h D')) \<inter> set (feet D L) = {}"
  shows "layout D' ((k, h, bs) # L)" "set (feet D' ((k, h, bs) # L)) = insert k (set (file_blocks h D')) \<union> set (feet D L)"
proof -
  have L': "layout D' L" "feet D' L = feet D L" using layout_frame [OF L same] by auto
  have "distinct (file_blocks h D')" "k \<notin> set (file_blocks h D')"
    using file_at_header(7,8) [OF f] by (auto simp: wf_file_def)
  then show "layout D' ((k, h, bs) # L)" using L' f dis by (auto simp: layout_def feet_Cons)
  show "set (feet D' ((k, h, bs) # L)) = insert k (set (file_blocks h D')) \<union> set (feet D L)" using L' by (auto simp: feet_Cons)
qed


section \<open>Directories on the disk\<close>

lemma Directory_new_at:
  assumes s: "fs_at {} D C s"
  shows "yields (Directory_new junk NumDirEntries s) (\<lambda>(d, s'). (\<exists>t. int32 t \<and> fs_at {} (touch t 1 D) C s') \<and>
    length (table d) = 10 \<and> tableSize d = 10 \<and> (\<forall>e \<in> set (table d). \<not> inUse e \<and> entry_ok e))"
proof -
  obtain s1 where s1: "on_disk (FileHeader_FetchFrom 1) s = Inr (header_at D 1, s1)" "fs_at {} D C s1"
    using FetchFrom_fs [OF s, of 1] by (auto simp: header_at_def elim!: yields_obtain)
  obtain t s2 where s2: "time_now s1 = (t, s2)" "int32 t" "fs_at {} D C s2" using time_now_at [OF s1(2)] .
  have "yields (do_disk (FileHeader_WriteBack 1 ((header_at D 1)\<lparr>lastVisitTime := t\<rparr>)) s2) (fs_at {} (touch t 1 D) C)"
    using WriteBack_fs [OF s2(3), of 1 "(header_at D 1)\<lparr>lastVisitTime := t\<rparr>"] by (simp add: touch_def)
  then show ?thesis using s1(1) s2(1,2) by (auto simp: Directory_new_def entry_ok_def elim!: yields_mono)
qed

lemma Directory_FetchFrom_at:
  assumes s: "fs_at {} D C s" and f: "file_at D k h (table_bytes t)" and t: "length t = 10" "list_all entry_ok t"
    and o: "hdrSectorNumber f = k" and d: "length (table d) = 10" "tableSize d = 10"
  shows "yields (Directory_FetchFrom f d s) (\<lambda>(d', f', s'). d' = \<lparr>table = t, tableSize = 10\<rparr> \<and> opened h k f' \<and> fs_at {} D C s')"
proof -
  have "slice 0 120 (table_bytes t) = table_bytes t" using t by (simp add: slice_def)
  then have "yields (ReadAt 120 0 f s) (\<lambda>(bs, f', s'). bs = table_bytes t \<and> opened h k f' \<and> fs_at {} D C s')"
    using ReadAt_at [OF s f o, of 0 120] by (auto elim!: yields_mono)
  moreover have "bcopyTo 0 (table_bytes t) (table_bytes (table d)) = table_bytes t" using t d by simp
  moreover have "table_of_bytes 10 (table_bytes t) = t" using table_roundtrip [OF t(2), of "[]"] t(1) by simp
  ultimately show ?thesis using d by (auto simp: Directory_FetchFrom_def elim!: yields_mono)
qed

lemma Directory_WriteBack_at:
  assumes s: "fs_at {} D C s" and f: "file_at D k h bs" and bs: "length bs = 120" and o: "hdrSectorNumber f = k"
    and d: "length (table d) = 10" "tableSize d = 10"
  shows "yields (Directory_WriteBack junk f d s) (\<lambda>(f', s'). opened h k f' \<and>
    (\<exists>D'. fs_at {} D' C s' \<and> data_only h D D' \<and> file_at D' k h (table_bytes (table d))))"
proof -
  have "0 \<le> numBytes h" using file_at_header(7) [OF f] by (simp add: wf_file_def)
  then have "numBytes h = 120" using file_at_length [OF f fs_at_image [OF s]] bs by simp
  then have "yields (WriteAt junk (table_bytes (table d)) 120 0 f s) (\<lambda>(r, f', s'). r = 120 \<and> opened h k f' \<and> seekPosition f' = seekPosition f \<and>
      (\<exists>D'. fs_at {} D' C s' \<and> data_only h D D' \<and> file_at D' k h (bcopyTo (nat 0) (take (nat 120) (table_bytes (table d))) bs)))"
    using d by (intro WriteAt_at [OF s f o]) simp_all
  moreover have "bcopyTo (nat 0) (take (nat 120) (table_bytes (table d))) bs = table_bytes (table d)" using d bs by simp
  ultimately show ?thesis using d by (auto simp: Directory_WriteBack_def elim!: yields_mono)
qed

lemma Directory_List_ok:
  assumes "wf_table (cstrings s) (table d)"
  shows "Directory_List d s = Inr (map (entry_name (cstrings s)) (filter inUse (table d)))"
proof -
  let ?f = "\<lambda>e out. if inUse e then bindE (cstring (ename e) s) (\<lambda>str. Inr (out @ [str])) else Inr out"
  have "foldE ?f es out = Inr (out @ map (entry_name (cstrings s)) (filter inUse es))"
    if "\<forall>e \<in> set es. inUse e \<longrightarrow> 1 \<le> ename e \<and> ename e \<le> int (length (cstrings s))" for es out
    using that by (induction es arbitrary: out) (auto simp: cstring_ok)
  then show ?thesis using assms by (simp add: Directory_List_def wf_table_def)
qed

section \<open>Paths\<close>

lemma scan_path_plain: "CHR ''/'' \<notin> set name \<Longrightarrow> tok < 2 \<Longrightarrow> scan_path name i tok f g = (f, g)"
  by (induction name arbitrary: i) auto

lemma scan_path_after: "CHR ''/'' \<notin> set a \<Longrightarrow> tok < 2 \<Longrightarrow> scan_path (a @ b) i tok f g = scan_path b (i + length a) tok f g"
  by (induction a arbitrary: i) auto

text \<open>
  The part before the first slash is dropped; the part between the first two slashes
  is the directory to look for.
\<close>

lemma scan_path_two:
  assumes "CHR ''/'' \<notin> set a" "CHR ''/'' \<notin> set b"
  shows "scan_path (a @ ''/'' @ b @ ''/'' @ c) 0 0 0 0 = (length a + 1, length a + length b + 2)"
proof -
  have "scan_path c j 2 f g = (f, g)" for j f g by (cases c) auto
  then show ?thesis using assms by (simp add: scan_path_after numeral_2_eq_2)
qed

lemma scan_path_one:
  assumes "CHR ''/'' \<notin> set a" "CHR ''/'' \<notin> set b"
  shows "scan_path (a @ ''/'' @ b) 0 0 0 0 = (length a + 1, 0)"
  using assms by (simp add: scan_path_after scan_path_plain)

text \<open>The root directory as a file, its names in the C strings.\<close>

definition root_at :: "byte list list \<Rightarrow> files \<Rightarrow> FileHeader \<Rightarrow> DirectoryEntry list \<Rightarrow> bool" where
  "root_at D L h1 t \<longleftrightarrow> layout D L \<and> (1, h1, table_bytes t) \<in> set L \<and> length t = 10 \<and> list_all entry_ok t"

lemma root_opened:
  assumes s: "fs_at {} D C s" and r: "root_at D L h1 t"
  shows "yields (bindE (OpenFile_new 1 s) (\<lambda>(rootFile, s). bindE (Directory_new junk NumDirEntries s) (\<lambda>(directory, s).
      bindE (Directory_FetchFrom rootFile directory s) (\<lambda>(directory, rootFile, s). Inr (directory, rootFile, s)))))
    (\<lambda>(d, f, s'). d = \<lparr>table = t, tableSize = 10\<rparr> \<and> opened h1 1 f \<and>
      (\<exists>D'. fs_at {} D' C s' \<and> root_at D' L h1 t \<and> set (feet D' L) = set (feet D L)))"
proof -
  have L: "layout D L" and x: "(1, h1, table_bytes t) \<in> set L" and t: "length t = 10" "list_all entry_ok t"
    using r by (simp_all add: root_at_def)
  obtain f1 s1 t1 where s1: "OpenFile_new 1 s = Inr (f1, s1)" "int32 t1" "fs_at {} (touch t1 1 D) C s1" "opened h1 1 f1"
    using OpenFile_new_at [OF s layout_file [OF L x]] by (auto elim!: yields_obtain)
  note L1 = layout_touch [OF L fs_at_image [OF s] x s1(2)]
  obtain d s2 t2 where s2: "Directory_new junk NumDirEntries s1 = Inr (d, s2)" "int32 t2" "fs_at {} (touch t2 1 (touch t1 1 D)) C s2"
    "length (table d) = 10" "tableSize d = 10" using Directory_new_at [OF s1(3), of junk] by (auto elim!: yields_obtain)
  note L2 = layout_touch [OF L1(1) fs_at_image [OF s1(3)] x s2(2)]
  have o: "hdrSectorNumber f1 = 1" using s1(4) by (simp add: opened_def)
  from Directory_FetchFrom_at [OF s2(3) layout_file [OF L2(1) x] t o s2(4,5)]
  show ?thesis using s1(1) s2(1) L1 L2 x t by (auto simp: root_at_def elim!: yields_mono)
qed

lemma getFileName_plain:
  assumes s: "fs_at {} D C s" and r: "root_at D L h1 t" and n: "CHR ''/'' \<notin> set name"
  shows "yields (getFileName junk name s) (\<lambda>(n, d, f, s'). n = Some name \<and> d = \<lparr>table = t, tableSize = 10\<rparr> \<and> opened h1 1 f \<and>
      (\<exists>D'. fs_at {} D' C s' \<and> root_at D' L h1 t \<and> set (feet D' L) = set (feet D L)))"
  using root_opened [OF s r, of junk] scan_path_plain [OF n, of 0 0 0 0]
  by (auto simp: getFileName_def path_walk.simps elim!: yields_mono)

text \<open>A path through a directory that the root does not have.\<close>

lemma getFileName_missing:
  assumes s: "fs_at {} D C s" and r: "root_at D L h1 t" and w: "wf_table C t"
    and n: "CHR ''/'' \<notin> set a" "CHR ''/'' \<notin> set b" and m: "dir_map C t b = None"
  shows "yields (getFileName junk (a @ ''/'' @ b @ ''/'' @ c) s) (\<lambda>(n, d, f, s'). n = None \<and> d = \<lparr>table = t, tableSize = 10\<rparr> \<and> opened h1 1 f \<and>
      (\<exists>D'. fs_at {} D' C s' \<and> root_at D' L h1 t \<and> set (feet D' L) = set (feet D L)))"
proof -
  have nm: "slice (length a + 1) (length a + length b + 2 - 1 - (length a + 1)) (a @ ''/'' @ b @ ''/'' @ c) = b" by (simp add: slice_def)
  have look: "Directory_Find (Some b) \<lparr>table = t, tableSize = 10\<rparr> s' = Inr (-1)" if "fs_at {} D' C s'" for s' D'
  proof -
    have "wf_dir \<lparr>table = t, tableSize = 10\<rparr> s'" "cstrings s' = C" using that w r by (simp_all add: wf_dir_def fs_at_def root_at_def)
    then show ?thesis using Directory_Find_ok [of "\<lparr>table = t, tableSize = 10\<rparr>" s' b] m by simp
  qed
  obtain f1 s1 D1 where s1: "bindE (OpenFile_new 1 s) (\<lambda>(rootFile, s). bindE (Directory_new junk NumDirEntries s) (\<lambda>(directory, s).
      bindE (Directory_FetchFrom rootFile directory s) (\<lambda>(directory, rootFile, s). Inr (directory, rootFile, s)))) =
      Inr (\<lparr>table = t, tableSize = 10\<rparr>, f1, s1)" "opened h1 1 f1" "fs_at {} D1 C s1" "root_at D1 L h1 t" "set (feet D1 L) = set (feet D L)"
    using root_opened [OF s r, of junk] by (auto elim!: yields_obtain)
  show ?thesis
    using s1 look [OF s1(3)] nm
    by (auto simp: getFileName_def path_walk.simps scan_path_two [OF n] bindE_eq_Inr yields_def simp del: append_Cons)
qed


section \<open>The invariant of the file system\<close>

lemma inj_map_upd: "inj_on f (dom f) \<Longrightarrow> k \<notin> ran f \<Longrightarrow> inj_on (f(n \<mapsto> k)) (dom (f(n \<mapsto> k)))"
proof -
  assume i: "inj_on f (dom f)" and "k \<notin> ran f"
  then have "f x \<noteq> Some k" for x by (auto simp: ran_def)
  then show ?thesis using i by (auto simp: inj_on_def split: if_splits)
qed

lemma inj_map_del: "inj_on f (dom f) \<Longrightarrow> inj_on (f(n := None)) (dom (f(n := None)))"
  by (auto simp: inj_on_def)

lemma ran_map_del:
  assumes "inj_on f (dom f)" "f n = Some k"
  shows "ran (f(n := None)) = ran f - {k}"
proof -
  have "x = n \<longleftrightarrow> f x = Some k" for x using assms by (auto simp: inj_on_def dom_def)
  then have "(f(n := None)) x = Some y \<longleftrightarrow> f x = Some y \<and> y \<noteq> k" for x y by auto
  then show ?thesis unfolding ran_def by blast
qed

text \<open>
  The free map \<open>m\<close> is in its file, and the sectors it marks are exactly those of the free
  map file, the root directory and the files \<open>F\<close>; the root directory \<open>t\<close> names each of
  the files \<open>F\<close> once, by the sector of its header, and nothing else.
\<close>

definition fs_inv :: "byte list list \<Rightarrow> string list \<Rightarrow> FileHeader \<Rightarrow> FileHeader \<Rightarrow> BitMap \<Rightarrow> DirectoryEntry list \<Rightarrow> files \<Rightarrow> bool" where
  "fs_inv D C h0 h1 m t F \<longleftrightarrow>
     root_at D ((0, h0, BitMap_bytes m) # (1, h1, table_bytes t) # F) h1 t \<and>
     set (feet D ((0, h0, BitMap_bytes m) # (1, h1, table_bytes t) # F)) = marked m \<and>
     wf_map m \<and> numBits m = 1024 \<and> wf_table C t \<and> ran (dir_map C t) = fst ` set F \<and> inj_on (dir_map C t) (dom (dir_map C t))"

lemma fs_inv_map:
  assumes "fs_inv D C h0 h1 m t F"
  shows "map_at D h0 m"
proof -
  have "layout D ((0, h0, BitMap_bytes m) # (1, h1, table_bytes t) # F)" using assms by (simp add: fs_inv_def root_at_def)
  from layout_file [OF this, of 0 h0 "BitMap_bytes m"] show ?thesis using assms by (simp add: map_at_def fs_inv_def)
qed

lemma fs_inv_touch:
  assumes "fs_inv D C h0 h1 m t F" "root_at D' ((0, h0, BitMap_bytes m) # (1, h1, table_bytes t) # F) h1 t"
    "set (feet D' ((0, h0, BitMap_bytes m) # (1, h1, table_bytes t) # F)) = set (feet D ((0, h0, BitMap_bytes m) # (1, h1, table_bytes t) # F))"
  shows "fs_inv D' C h0 h1 m t F"
  using assms by (simp add: fs_inv_def)

lemma FreeMap_new_ok: "\<exists>b. FreeMap_new j = Inr b \<and> wf_map b \<and> numBits b = 1024"
  using BitMap_new_spec [of NumSectors] by (fastforce simp: FreeMap_new_def)

lemma fetch_free_map:
  assumes s: "fs_at {} D C s" and i: "fs_inv D C h0 h1 m t F" and fs: "hdrSectorNumber (freeMapFile fs) = 0"
  shows "yields (bindE (FreeMap_new j) (\<lambda>freeMap. BitMap_FetchFrom (freeMapFile fs) freeMap s))
    (\<lambda>(b, f, s'). b = m \<and> opened h0 0 f \<and> fs_at {} D C s')"
proof -
  obtain b where "FreeMap_new j = Inr b" "wf_map b" "numBits b = 1024" using FreeMap_new_ok by blast
  then show ?thesis using BitMap_FetchFrom_at [OF s fs_inv_map [OF i] fs] by simp
qed

lemma FileHeader_new_wf: "wf_header (FileHeader_new j)"
  by (simp add: FileHeader_new_def wf_header_of_bytes)

text \<open>A header as \<^verbatim>\<open>Allocate\<close> returns it can be stored.\<close>

lemma Allocate_header:
  assumes "Allocate junk now fileSize ftype (FileHeader_new j) m d = Inr (True, h', m', d')" "numBits m = 1024"
    and "wf_file h' D'" "createTime h' = now" "fileType h' = ftype" "int32 now" "int32 ftype"
    and "numVisits h' = numVisits (FileHeader_new j)" "lastVisitTime h' = lastVisitTime (FileHeader_new j)"
      "lastWriteTime h' = lastWriteTime (FileHeader_new j)"
  shows "wf_header h'"
proof -
  have "list_all int32 (primaryIndexTable h')"
    using Allocate_int32 [OF assms(1,2)] FileHeader_new_wf [of j] by (simp add: wf_header_def header_ints_def)
  moreover have "int32 (numBytes h')" "int32 (numSectors h')" using assms(3) by (auto simp: wf_file_def)
  moreover have "length (primaryIndexTable h') = NumDirect" using assms(3) by (simp add: wf_file_def)
  ultimately show ?thesis using assms FileHeader_new_wf [of j] by (simp add: wf_header_def header_ints_def)
qed

text \<open>The sectors a file of \<open>n\<close> bytes takes besides its header.\<close>

definition sectors_needed :: "int \<Rightarrow> int" where
  "sectors_needed n = divRoundUp n SectorSize + divRoundUp (divRoundUp n SectorSize) IndexSize"

lemma sectors_needed_nonneg: "0 \<le> n \<Longrightarrow> 0 \<le> sectors_needed n"
  by (simp add: sectors_needed_def divRoundUp_bounds(3))

lemma length_file_blocks:
  "numSectors h = divRoundUp n SectorSize \<Longrightarrow> 0 \<le> n \<Longrightarrow> int (length (file_blocks h D)) = sectors_needed n"
  by (simp add: file_blocks_def block_list_def num_tables_def sectors_needed_def divRoundUp_bounds(3))

lemma Allocate_fs_ok:
  assumes s: "fs_at {} D C s" and size: "0 \<le> fileSize" "fileSize \<le> 102400" and m: "wf_map m" "numBits m = 1024" and ty: "int32 ftype"
    and space: "sectors_needed fileSize \<le> room m"
  shows "yields (Allocate_fs junk fileSize ftype (FileHeader_new j) m s) (\<lambda>(ok, h, m', s'). ok \<and> wf_header h \<and>
    numBytes h = fileSize \<and> fileType h = ftype \<and> numSectors h = divRoundUp fileSize SectorSize \<and> numVisits h = numVisits (FileHeader_new j) \<and>
    room m' = room m - sectors_needed fileSize \<and>
    (\<exists>D'. fs_at {} D' C s' \<and> wf_file h D' \<and> allocates m (file_blocks h D') m' \<and>
      (\<forall>j < 1024. int j \<notin> set (file_blocks h D') \<longrightarrow> D' ! j = D ! j)))"
proof -
  obtain now s1 where s1: "time_now s = (now, s1)" "int32 now" "fs_at {} D C s1" using time_now_at [OF s] .
  have len: "length (primaryIndexTable (FileHeader_new j)) = NumDirect" using FileHeader_new_wf by (simp add: wf_header_def)
  obtain h m' d D' where a: "Allocate junk now fileSize ftype (FileHeader_new j) m (sdisk s1) = Inr (True, h, m', d)" "disk_at {} D' d"
    "wf_file h D'" "numBytes h = fileSize" "fileType h = ftype" "createTime h = now" "numVisits h = numVisits (FileHeader_new j)"
    "lastVisitTime h = lastVisitTime (FileHeader_new j)" "lastWriteTime h = lastWriteTime (FileHeader_new j)"
    "allocates m (file_blocks h D') m'" "\<forall>j < 1024. int j \<notin> set (file_blocks h D') \<longrightarrow> D' ! j = D ! j"
      "numSectors h = divRoundUp fileSize SectorSize"
    using Allocate_ok [OF size m(2,1) _ len fs_at_disk [OF s1(3)], of junk now ftype] space
    by (auto simp: sectors_needed_def elim!: yields_obtain)
  have "wf_header h" using Allocate_header [OF a(1) m(2) a(3,6,5) s1(2) ty a(7,8,9)] .
  moreover have "fs_at {} D' C (s1\<lparr>sdisk := d\<rparr>)" using a(2) s1(3) by (simp add: fs_at_def)
  moreover have "room m' = room m - sectors_needed fileSize"
    using allocates_room [OF a(10)] length_file_blocks [OF a(12) size(1), of D'] by simp
  ultimately show ?thesis using a s1(1) by (auto simp: Allocate_fs_def)
qed

text \<open>A new file at header sector \<open>k\<close>, taken from the free map together with its data.\<close>

lemma new_file:
  assumes s: "fs_at {} D C s" and L: "layout D L" "set (feet D L) = marked m" and m: "wf_map m" "numBits m = 1024" and ty: "int32 ftype"
    and size: "0 \<le> fileSize" "fileSize \<le> 102400" and k: "allocates m [k] m1"
    and space: "sectors_needed fileSize \<le> room m1"
  shows "yields (bindE (Allocate_fs junk fileSize ftype (FileHeader_new j) m1 s)
      (\<lambda>(ok, h, m', s). bindE (do_disk (FileHeader_WriteBack k h) s) (\<lambda>s. Inr (ok, h, m', s))))
    (\<lambda>(ok, h, m', s'). ok \<and> numBytes h = fileSize \<and> fileType h = ftype \<and> numSectors h = divRoundUp fileSize SectorSize \<and>
      numVisits h = numVisits (FileHeader_new j) \<and> wf_map m' \<and> numBits m' = 1024 \<and>
      room m' = room m1 - sectors_needed fileSize \<and>
      (\<exists>D' bs. fs_at {} D' C s' \<and> layout D' ((k, h, bs) # L) \<and> set (feet D' ((k, h, bs) # L)) = marked m'))"
proof -
  have m1: "wf_map m1" "numBits m1 = 1024" and kr: "0 \<le> k" "k < NumSectors" "k \<notin> marked m" "marked m1 = insert k (marked m)"
    using k m by (auto simp: allocates_def)
  obtain h m' s1 D1 where a: "Allocate_fs junk fileSize ftype (FileHeader_new j) m1 s = Inr (True, h, m', s1)" "wf_header h"
    "numBytes h = fileSize" "fileType h = ftype" "fs_at {} D1 C s1" "wf_file h D1" "allocates m1 (file_blocks h D1) m'"
    "\<forall>j < 1024. int j \<notin> set (file_blocks h D1) \<longrightarrow> D1 ! j = D ! j" "room m' = room m1 - sectors_needed fileSize"
    "numSectors h = divRoundUp fileSize SectorSize" "numVisits h = numVisits (FileHeader_new j)"
    using Allocate_fs_ok [OF s size m1 ty space, of junk j] by (auto elim!: yields_obtain)
  let ?D = "D1[nat k := header_bytes h]"
  have kb: "k \<notin> set (file_blocks h D1)" using a(7) kr by (auto simp: allocates_def)
  note hw = header_write_at [OF a(2,6) kb kr(1,2) fs_at_image [OF a(5)]]
  have dis: "insert k (set (file_blocks h ?D)) \<inter> set (feet D L) = {}"
    using a(7) kr L(2) unfolding hw(2) by (auto simp: allocates_def)
  have same: "?D ! nat i = D ! nat i" if "i \<in> set (feet D L)" for i
  proof -
    have "i \<noteq> k" "i \<notin> set (file_blocks h D1)" using that dis unfolding hw(2) by auto
    then show ?thesis using feet_range [OF L(1) that] a(8) kr(1) by simp
  qed
  note new = layout_new [OF L(1) hw(1) same dis]
  have "set (feet ?D ((k, h, file_bytes h D1) # L)) = insert k (set (file_blocks h D1)) \<union> marked m"
    using new(2) hw(2) L(2) by simp
  then have "set (feet ?D ((k, h, file_bytes h D1) # L)) = marked m'" using a(7) kr(4) by (auto simp: allocates_def)
  moreover obtain s2 where "do_disk (FileHeader_WriteBack k h) s1 = Inr s2" "fs_at {} ?D C s2"
    using WriteBack_fs [OF a(5) kr(1,2), of h] a(2) by (auto simp: wf_header_def elim!: yields_obtain)
  ultimately show ?thesis using a(1,3,4,9-11) new(1) allocates_wf [OF a(7)] m1(2) by auto
qed


section \<open>Creating a file\<close>

text \<open>The files of the file system, in the order of the list of the invariant.\<close>

abbreviation (input) system :: "FileHeader \<Rightarrow> BitMap \<Rightarrow> FileHeader \<Rightarrow> DirectoryEntry list \<Rightarrow> files \<Rightarrow> files" where
  "system h0 m h1 t F \<equiv> (0, h0, BitMap_bytes m) # (1, h1, table_bytes t) # F"

text \<open>Writing the root directory and the free map back.\<close>

lemma write_root:
  assumes s: "fs_at {} D C s" and L: "layout D (system h0 m h1 t F)" "length t = 10" and o: "hdrSectorNumber f = 1"
    and d: "length (table d) = 10" "tableSize d = 10"
  shows "yields (Directory_WriteBack junk f d s) (\<lambda>(f', s'). opened h1 1 f' \<and>
    (\<exists>D'. fs_at {} D' C s' \<and> layout D' (system h0 m h1 (table d) F) \<and>
      set (feet D' (system h0 m h1 (table d) F)) = set (feet D (system h0 m h1 t F))))"
proof -
  have p: "mset (system h0 m h1 t F) = mset ((1, h1, table_bytes t) # (0, h0, BitMap_bytes m) # F)" for t by simp
  have L': "layout D ((1, h1, table_bytes t) # (0, h0, BitMap_bytes m) # F)" using L(1) layout_perm(1) [OF p] by blast
  have f: "file_at D 1 h1 (table_bytes t)" using layout_file [OF L(1)] by simp
  have b: "length (table_bytes t) = 120" using L(2) by simp
  obtain f' s' D' where w: "Directory_WriteBack junk f d s = Inr (f', s')" "opened h1 1 f'" "fs_at {} D' C s'" "data_only h1 D D'"
    "file_at D' 1 h1 (table_bytes (table d))" using Directory_WriteBack_at [OF s f b o d, of junk] by (auto elim!: yields_obtain)
  note ld = layout_data [OF L' w(4,5)]
  have "layout D' (system h0 m h1 (table d) F)" using ld(1) layout_perm(1) [OF p] by blast
  moreover have "set (feet D' (system h0 m h1 (table d) F)) = set (feet D (system h0 m h1 t F))"
    unfolding layout_perm(2) [OF p] ld(2) ..
  ultimately show ?thesis using w by auto
qed

lemma write_map:
  assumes s: "fs_at {} D C s" and L: "layout D (system h0 m h1 t F)" and o: "hdrSectorNumber f = 0"
    and m: "wf_map m" "numBits m = 1024" "wf_map m'" "numBits m' = 1024"
  shows "yields (BitMap_WriteBack junk f m' s) (\<lambda>(f', s'). opened h0 0 f' \<and>
    (\<exists>D'. fs_at {} D' C s' \<and> layout D' (system h0 m' h1 t F) \<and>
      set (feet D' (system h0 m' h1 t F)) = set (feet D (system h0 m h1 t F))))"
proof -
  have b: "length (BitMap_bytes m) = 128" using map_words [OF m(1,2)] by simp
  obtain f' s' D' where w: "BitMap_WriteBack junk f m' s = Inr (f', s')" "opened h0 0 f'" "fs_at {} D' C s'" "data_only h0 D D'" "map_at D' h0 m'"
    using BitMap_WriteBack_at [OF s _ b o m(3,4), of h0 junk] layout_file [OF L, of 0] by (auto elim!: yields_obtain)
  have "file_at D' 0 h0 (BitMap_bytes m')" using w(5) by (simp add: map_at_def)
  from layout_data [OF L w(4) this] show ?thesis using w by auto
qed

lemma create_file_ok:
  assumes s: "fs_at {} D C s" and L: "layout D (system h0 m h1 t F)" "set (feet D (system h0 m h1 t F)) = marked m" "length t = 10"
    and m: "wf_map m" "numBits m = 1024" and ty: "int32 ftype" "ftype \<noteq> 1"
    and size: "0 \<le> fileSize" "fileSize \<le> 102400" and k: "allocates m [k] m1"
    and space: "sectors_needed fileSize \<le> room m1"
    and d: "length (table d) = 10" "tableSize d = 10" "wf_table C (table d)" "list_all entry_ok (table d)"
    and o: "hdrSectorNumber f = 1" "hdrSectorNumber (freeMapFile fs) = 0"
  shows "yields (create_file junk k fileSize ftype d m1 f fs s) (\<lambda>(ok, fs', s'). ok \<and>
    directoryFile fs' = directoryFile fs \<and> hdrSectorNumber (freeMapFile fs') = 0 \<and>
    (\<exists>D' m' h bs. fs_at {} D' C s' \<and> wf_map m' \<and> numBits m' = 1024 \<and> numBytes h = fileSize \<and> fileType h = ftype \<and>
      numSectors h = divRoundUp fileSize SectorSize \<and> numVisits h = numVisits (FileHeader_new (junk 10 1)) \<and>
      room m' = room m1 - sectors_needed fileSize \<and> layout D' (system h0 m' h1 (table d) ((k, h, bs) # F)) \<and>
      set (feet D' (system h0 m' h1 (table d) ((k, h, bs) # F))) = marked m'))"
proof -
  obtain h m' s2 D2 bs s1 where a: "Allocate_fs (junk 12) fileSize ftype (FileHeader_new (junk 10 1)) m1 s = Inr (True, h, m', s1)"
    "do_disk (FileHeader_WriteBack k h) s1 = Inr s2" "numBytes h = fileSize" "fileType h = ftype" "wf_map m'" "numBits m' = 1024"
    "fs_at {} D2 C s2" "layout D2 ((k, h, bs) # system h0 m h1 t F)" "set (feet D2 ((k, h, bs) # system h0 m h1 t F)) = marked m'"
    "room m' = room m1 - sectors_needed fileSize" "numSectors h = divRoundUp fileSize SectorSize"
    "numVisits h = numVisits (FileHeader_new (junk 10 1))"
    using new_file [OF s L(1,2) m ty(1) size k space, of "junk 12" "junk 10 1"]
    by (auto simp: bindE_eq_Inr elim!: yields_obtain)
  have p: "mset ((k, h, bs) # system h0 m h1 t F) = mset (system h0 m h1 t ((k, h, bs) # F))" by simp
  have L2: "layout D2 (system h0 m h1 t ((k, h, bs) # F))" "set (feet D2 (system h0 m h1 t ((k, h, bs) # F))) = marked m'"
    using a(8,9) layout_perm [OF p] by auto
  obtain f3 s3 D3 where b: "Directory_WriteBack (junk 13) f d s2 = Inr (f3, s3)" "opened h1 1 f3" "fs_at {} D3 C s3"
    "layout D3 (system h0 m h1 (table d) ((k, h, bs) # F))" "set (feet D3 (system h0 m h1 (table d) ((k, h, bs) # F))) = marked m'"
    using write_root [OF a(7) L2(1) L(3) o(1) d(1,2), of "junk 13"] L2(2) by (auto elim!: yields_obtain)
  have f3: "hdrSectorNumber f3 = 1" and t3: "file_at D3 1 h1 (table_bytes (table d))"
    using b(2) layout_file [OF b(4)] by (simp_all add: opened_def)
  obtain f4 s4 where c: "Directory_FetchFrom f3 d s3 = Inr (\<lparr>table = table d, tableSize = 10\<rparr>, f4, s4)" "fs_at {} D3 C s4"
    using Directory_FetchFrom_at [OF b(3) t3 d(1,4) f3 d(1,2)] by (auto elim!: yields_obtain)
  have ls: "\<exists>names. Directory_List \<lparr>table = table d, tableSize = 10\<rparr> s4 = Inr names"
    using Directory_List_ok [of s4 "\<lparr>table = table d, tableSize = 10\<rparr>"] d(3) c(2) by (simp add: fs_at_def)
  obtain f5 s5 D5 where e: "BitMap_WriteBack (junk 14) (freeMapFile fs) m' s4 = Inr (f5, s5)" "opened h0 0 f5" "fs_at {} D5 C s5"
    "layout D5 (system h0 m' h1 (table d) ((k, h, bs) # F))" "set (feet D5 (system h0 m' h1 (table d) ((k, h, bs) # F))) = marked m'"
    using write_map [OF c(2) b(4) o(2) m a(5,6), of "junk 14"] b(5) by (auto elim!: yields_obtain)
  have "create_file junk k fileSize ftype d m1 f fs s = Inr (True, fs\<lparr>freeMapFile := f5\<rparr>, s5)"
    using a(1,2) ty(2) b(1) c(1) ls e(1) by (auto simp: create_file_def)
  then show ?thesis using e a by (auto simp: opened_def)
qed

lemma Create_ok:
  assumes s: "fs_at {} D C s" and i: "fs_inv D C h0 h1 m t F" and fs: "hdrSectorNumber (freeMapFile fs) = 0"
    and n: "CHR ''/'' \<notin> set n" "dir_map C t n = None" "\<exists>e \<in> set t. \<not> inUse e"
    and ty: "int32 ftype" "ftype \<noteq> 1" and size: "0 \<le> fileSize" "fileSize \<le> 102400"
    and space: "1 + sectors_needed fileSize \<le> room m"
    and mem: "int (length C) + 1 < 2 ^ 31"
  shows "yields (Create junk n fileSize ftype fs s) (\<lambda>(ok, fs', s'). ok \<and>
    directoryFile fs' = directoryFile fs \<and> hdrSectorNumber (freeMapFile fs') = 0 \<and>
    (\<exists>D' m' t' k h bs. fs_at {} D' (C @ [n]) s' \<and> fs_inv D' (C @ [n]) h0 h1 m' t' ((k, h, bs) # F) \<and>
      dir_map (C @ [n]) t' = (dir_map C t)(n \<mapsto> k) \<and> numBytes h = fileSize \<and> fileType h = ftype \<and>
      numSectors h = divRoundUp fileSize SectorSize \<and> numVisits h = numVisits (FileHeader_new (junk 10 1)) \<and>
      room m' = room m - 1 - sectors_needed fileSize))"
proof -
  have I: "root_at D (system h0 m h1 t F) h1 t" "set (feet D (system h0 m h1 t F)) = marked m" "wf_map m" "numBits m = 1024"
    "wf_table C t" "ran (dir_map C t) = fst ` set F" "inj_on (dir_map C t) (dom (dir_map C t))" using i by (simp_all add: fs_inv_def)
  have t: "length t = 10" "list_all entry_ok t" using I(1) by (simp_all add: root_at_def)
  let ?d = "\<lparr>table = t, tableSize = 10\<rparr>"
  obtain f1 s1 D1 where g: "getFileName (junk 10 2) n s = Inr (Some n, ?d, f1, s1)" "opened h1 1 f1" "fs_at {} D1 C s1"
    "root_at D1 (system h0 m h1 t F) h1 t" "set (feet D1 (system h0 m h1 t F)) = marked m"
    using getFileName_plain [OF s I(1) n(1), of "junk 10 2"] I(2) by (auto elim!: yields_obtain)
  have i1: "fs_inv D1 C h0 h1 m t F" using fs_inv_touch [OF i g(4)] g(5) I(2) by simp
  have wd: "wf_dir ?d u" "abs_dir ?d u = dir_map C t" if "cstrings u = C" for u using that I(5) t by (simp_all add: wf_dir_def)
  have find: "Directory_Find (Some n) ?d s1 = Inr (-1)" using Directory_Find_ok [OF wd(1)] wd(2) n(2) g(3) by (simp add: fs_at_def)
  obtain b mf s2 where b: "FreeMap_new (junk 10 3) = Inr b" "BitMap_FetchFrom (freeMapFile fs) b s1 = Inr (m, mf, s2)"
    "opened h0 0 mf" "fs_at {} D1 C s2"
    using fetch_free_map [OF g(3) i1 fs, of "junk 10 3"] by (auto simp: bindE_eq_Inr elim!: yields_obtain)
  have nn: "0 \<le> sectors_needed fileSize" using sectors_needed_nonneg size(1) .
  obtain k m1 where k: "BitMap_Find m = Inr (k, m1)" "allocates m [k] m1"
    using Find_allocates [OF I(3)] space nn by (auto elim!: yields_obtain)
  have kr: "0 \<le> k" "k < 1024" using k(2) I(4) by (auto simp: allocates_def)
  let ?s3 = "s2\<lparr>cstrings := C @ [n]\<rparr>" and ?e = "\<lparr>inUse = True, esector = k, ename = int (length C) + 1\<rparr>"
  have c2: "cstrings s2 = C" using b(4) by (simp add: fs_at_def)
  obtain d' where d': "Directory_Add (Some n) k ?d s2 = Inr (True, d', ?s3)" "tableSize d' = 10" "length (table d') = 10"
    "set (table d') \<subseteq> insert ?e (set t)" "wf_dir d' ?s3" "abs_dir d' ?s3 = (dir_map C t)(n \<mapsto> k)"
    using Directory_Add_ok [OF wd(1) [OF c2], of n k] wd(2) [OF c2] n t c2 by (auto split: if_splits)
  have s3: "fs_at {} D1 (C @ [n]) ?s3" using b(4) by (simp add: fs_at_def)
  have wt: "wf_table (C @ [n]) (table d')" using d'(5) by (simp add: wf_dir_def)
  have ek: "list_all entry_ok (table d')"
    using d'(4) t(2) kr mem by (auto simp: list_all_iff entry_ok_def int32_def)
  have sp: "sectors_needed fileSize \<le> room m1"
    using space allocates_room [OF k(2)] by simp
  have L1: "layout D1 (system h0 m h1 t F)" using g(4) by (simp add: root_at_def)
  have o1: "hdrSectorNumber f1 = 1" "hdrSectorNumber (freeMapFile (fs\<lparr>freeMapFile := mf\<rparr>)) = 0" using g(2) b(3) by (simp_all add: opened_def)
  obtain fs' s' D' m' h bs where e: "create_file junk k fileSize ftype d' m1 f1 (fs\<lparr>freeMapFile := mf\<rparr>) ?s3 = Inr (True, fs', s')"
    "directoryFile fs' = directoryFile fs" "hdrSectorNumber (freeMapFile fs') = 0" "fs_at {} D' (C @ [n]) s'" "wf_map m'" "numBits m' = 1024"
    "numBytes h = fileSize" "fileType h = ftype" "layout D' (system h0 m' h1 (table d') ((k, h, bs) # F))"
    "set (feet D' (system h0 m' h1 (table d') ((k, h, bs) # F))) = marked m'" "room m' = room m1 - sectors_needed fileSize"
    "numSectors h = divRoundUp fileSize SectorSize" "numVisits h = numVisits (FileHeader_new (junk 10 1))"
    using create_file_ok [OF s3 L1 g(5) t(1) I(3,4) ty size k(2) sp d'(3,2) wt ek o1, of junk] by (auto elim!: yields_obtain)
  have cr: "Create junk n fileSize ftype fs s = Inr (True, fs', s')"
    using g(1) find b(1,2) k(1) kr(1) d'(1) e(1) by (auto simp: Create_def)
  have dm: "dir_map (C @ [n]) (table d') = (dir_map C t)(n \<mapsto> k)" using d'(6) by simp
  have kF: "k \<notin> fst ` set F"
    using header_sectors [of F D1 "[(0, h0, BitMap_bytes m), (1, h1, table_bytes t)]"] g(5) k(2) by (auto simp: allocates_def)
  have "ran ((dir_map C t)(n \<mapsto> k)) = fst ` set ((k, h, bs) # F)" using I(6) n(2) by (simp add: ran_map_upd)
  moreover have "inj_on ((dir_map C t)(n \<mapsto> k)) (dom ((dir_map C t)(n \<mapsto> k)))"
    using inj_map_upd [OF I(7)] kF I(6) by simp
  ultimately have "fs_inv D' (C @ [n]) h0 h1 m' (table d') ((k, h, bs) # F)"
    using e(5,6,9,10) wt ek d'(3) dm by (auto simp: fs_inv_def root_at_def)
  moreover have "room m' = room m - 1 - sectors_needed fileSize" using e(11) allocates_room [OF k(2)] by simp
  ultimately show ?thesis using cr dm e(2,3,4,7,8,12,13) unfolding yields_def by blast
qed

section \<open>Formatting a disk\<close>

lemma format_maps:
  "\<exists>b m1 m2. FreeMap_new j = Inr b \<and> BitMap_Mark 0 b = Inr m1 \<and> BitMap_Mark 1 m1 = Inr m2 \<and>
     wf_map m2 \<and> numBits m2 = 1024 \<and> marked m2 = {0, 1} \<and> room m2 = 1022"
proof -
  obtain b where b: "FreeMap_new j = Inr b" "wf_map b" "numBits b = 1024" "marked b = {}"
    using BitMap_new_spec [of NumSectors] by (fastforce simp: FreeMap_new_def)
  obtain m1 where m1: "BitMap_Mark 0 b = Inr m1" "wf_map m1" "numBits m1 = 1024" "marked m1 = {0}"
    using BitMap_Mark_ok [OF b(2), of 0] b by auto
  obtain m2 where m2: "BitMap_Mark 1 m1 = Inr m2" "wf_map m2" "numBits m2 = 1024" "marked m2 = {0, 1}"
    using BitMap_Mark_ok [OF m1(2), of 1] m1 by (auto simp: insert_commute)
  then show ?thesis using b m1 by (simp add: room_def)
qed

lemma sectors_needed_small: "0 < n \<Longrightarrow> n \<le> 128 \<Longrightarrow> sectors_needed n = 2"
proof -
  assume "0 < n" "n \<le> 128"
  then have "divRoundUp n SectorSize = 1" by (simp add: divRoundUp_nonneg)
  then show ?thesis by (simp add: sectors_needed_def divRoundUp_nonneg)
qed

text \<open>The headers of the two system files, allocated and stored.\<close>

lemma format_alloc:
  assumes s: "fs_at {} D C s" and m: "wf_map m" "numBits m = 1024" "marked m = {0, 1}" "room m = 1022"
  shows "yields (Allocate_fs j1 128 1 (FileHeader_new k1) m s) (\<lambda>(ok, h0, m1, s1). ok \<and>
    yields (Allocate_fs j2 120 1 (FileHeader_new k2) m1 s1) (\<lambda>(ok, h1, m2, s2). ok \<and>
      wf_map m2 \<and> numBits m2 = 1024 \<and> room m2 = 1018 \<and> wf_header h0 \<and> wf_header h1 \<and> numBytes h0 = 128 \<and> numBytes h1 = 120 \<and>
      (\<exists>D2. fs_at {} D2 C s2 \<and> wf_file h0 D2 \<and> wf_file h1 D2 \<and> distinct (0 # 1 # file_blocks h0 D2 @ file_blocks h1 D2) \<and>
        marked m2 = set (0 # 1 # file_blocks h0 D2 @ file_blocks h1 D2))))"
proof -
  have i1: "int32 1" by (simp add: int32_def)
  have sp1: "sectors_needed 128 \<le> room m" by (simp add: m(4) sectors_needed_small)
  obtain h0 m1 s1 D1 where a: "Allocate_fs j1 128 1 (FileHeader_new k1) m s = Inr (True, h0, m1, s1)" "wf_header h0" "numBytes h0 = 128"
    "room m1 = 1020" "fs_at {} D1 C s1" "wf_file h0 D1" "allocates m (file_blocks h0 D1) m1"
    using Allocate_fs_ok [OF s _ _ m(1,2) i1 sp1, of j1 k1] m(4) by (auto simp: sectors_needed_small elim!: yields_obtain)
  have m1: "wf_map m1" "numBits m1 = 1024" "marked m1 = {0, 1} \<union> set (file_blocks h0 D1)" using a(7) m by (auto simp: allocates_def)
  have sp2: "sectors_needed 120 \<le> room m1" by (simp add: a(4) sectors_needed_small)
  obtain h1 m2 s2 D2 where b: "Allocate_fs j2 120 1 (FileHeader_new k2) m1 s1 = Inr (True, h1, m2, s2)" "wf_header h1" "numBytes h1 = 120"
    "room m2 = 1018" "fs_at {} D2 C s2" "wf_file h1 D2" "allocates m1 (file_blocks h1 D2) m2"
    "\<forall>j < 1024. int j \<notin> set (file_blocks h1 D2) \<longrightarrow> D2 ! j = D1 ! j"
    using Allocate_fs_ok [OF a(5) _ _ m1(1,2) i1 sp2, of j2 k2] a(4) by (auto simp: sectors_needed_small elim!: yields_obtain)
  have same: "D2 ! nat j = D1 ! nat j" if "j \<in> set (file_blocks h0 D1)" for j
  proof -
    have "j \<notin> set (file_blocks h1 D2)" using that m1(3) b(7) by (auto simp: allocates_def)
    then show ?thesis using b(8) file_block_range [OF a(6) that] by simp
  qed
  have f0: "file_blocks h0 D2 = file_blocks h0 D1" "wf_file h0 D2" using file_frame(1,2) [OF a(6) same] by simp_all
  have "distinct (0 # 1 # file_blocks h0 D2 @ file_blocks h1 D2)" "marked m2 = set (0 # 1 # file_blocks h0 D2 @ file_blocks h1 D2)"
    "wf_map m2" "numBits m2 = 1024"
    using a(7) b(7) m m1(3) unfolding f0 by (auto simp: allocates_def)
  then show ?thesis using a(1-3) b(1-6) f0(2) by auto
qed

lemma layout_two:
  assumes D: "disk_image D" and h: "wf_header h0" "wf_header h1" and f: "wf_file h0 D" "wf_file h1 D"
    and d: "distinct (0 # 1 # file_blocks h0 D @ file_blocks h1 D)"
  defines "D' \<equiv> D[0 := header_bytes h0, 1 := header_bytes h1]"
  shows "\<exists>bs cs. layout D' [(1, h1, cs), (0, h0, bs)] \<and>
    set (feet D' [(1, h1, cs), (0, h0, bs)]) = set (0 # 1 # file_blocks h0 D @ file_blocks h1 D)"
proof -
  let ?D0 = "D[0 := header_bytes h0]"
  have w0: "file_at ?D0 0 h0 (file_bytes h0 D)" "file_blocks h0 ?D0 = file_blocks h0 D"
    using header_write_at [OF h(1) f(1) _ _ _ D, of 0] d by simp_all
  have L0: "layout ?D0 [(0, h0, file_bytes h0 D)]" "feet ?D0 [(0, h0, file_bytes h0 D)] = 0 # file_blocks h0 D"
    using w0 d by (simp_all add: layout_def feet_def foot_def)
  have "?D0 ! nat j = D ! nat j" if "j \<in> set (file_blocks h1 D)" for j
    using that d file_block_range [OF f(2) that] by (cases "nat j") auto
  from file_frame(1,2) [OF f(2) this] have f1: "file_blocks h1 ?D0 = file_blocks h1 D" "wf_file h1 ?D0" by auto
  have "disk_image ?D0" using disk_image_update [OF D] h(1) by (simp add: length_header_bytes wf_header_def)
  then have w1: "file_at D' 1 h1 (file_bytes h1 ?D0)" "file_blocks h1 D' = file_blocks h1 D"
    using header_write_at [OF h(2) f1(2), of 1] d f1(1) by (simp_all add: D'_def)
  have keep: "D' ! nat j = ?D0 ! nat j" if "j \<in> set (feet ?D0 [(0, h0, file_bytes h0 D)])" for j
  proof -
    have "j \<noteq> 1" using that d unfolding L0(2) by auto
    then have "nat j \<noteq> 1" by linarith
    then show ?thesis by (simp add: D'_def)
  qed
  have dis: "insert 1 (set (file_blocks h1 D')) \<inter> set (feet ?D0 [(0, h0, file_bytes h0 D)]) = {}"
    using d unfolding L0(2) w1(2) by auto
  note new = layout_new [OF L0(1) w1(1) keep dis]
  have "insert 1 (set (file_blocks h1 D')) \<union> set (feet ?D0 [(0, h0, file_bytes h0 D)]) = set (0 # 1 # file_blocks h0 D @ file_blocks h1 D)"
    unfolding L0(2) w1(2) by auto
  then show ?thesis using new by metis
qed

lemma format_contents:
  assumes s: "fs_at {} D C s" and L: "layout D [(1, h1, cs), (0, h0, bs)]" "set (feet D [(1, h1, cs), (0, h0, bs)]) = marked m"
    and h: "numBytes h0 = 128" "numBytes h1 = 120" and m: "wf_map m" "numBits m = 1024"
    and d: "length (table d) = 10" "tableSize d = 10" "\<forall>e \<in> set (table d). \<not> inUse e \<and> entry_ok e"
  shows "yields (bindE (OpenFile_new 0 s) (\<lambda>(mapFile, s). bindE (OpenFile_new 1 s) (\<lambda>(dirFile, s).
      bindE (BitMap_WriteBack j1 mapFile m s) (\<lambda>(mapFile, s). bindE (Directory_WriteBack j2 dirFile d s) (\<lambda>(dirFile, s).
      Inr (\<lparr>freeMapFile = mapFile, directoryFile = dirFile\<rparr>, s))))))
    (\<lambda>(fs, s'). hdrSectorNumber (freeMapFile fs) = 0 \<and> hdrSectorNumber (directoryFile fs) = 1 \<and>
      (\<exists>D'. fs_at {} D' C s' \<and> fs_inv D' C h0 h1 m (table d) []))"
proof -
  have f0: "file_at D 0 h0 bs" using layout_file [OF L(1)] by simp
  obtain f s1 x where a: "OpenFile_new 0 s = Inr (f, s1)" "int32 x" "fs_at {} (touch x 0 D) C s1" "opened h0 0 f"
    using OpenFile_new_at [OF s f0] by (auto elim!: yields_obtain)
  let ?D1 = "touch x 0 D"
  have L1: "layout ?D1 [(1, h1, cs), (0, h0, bs)]" "set (feet ?D1 [(1, h1, cs), (0, h0, bs)]) = marked m"
    using layout_touch [OF L(1) fs_at_image [OF s] _ a(2), of 0 h0 bs] L(2) by simp_all
  have f1: "file_at ?D1 1 h1 cs" using layout_file [OF L1(1)] by simp
  obtain g s2 y where b: "OpenFile_new 1 s1 = Inr (g, s2)" "int32 y" "fs_at {} (touch y 1 ?D1) C s2" "opened h1 1 g"
    using OpenFile_new_at [OF a(3) f1] by (auto elim!: yields_obtain)
  let ?D2 = "touch y 1 ?D1"
  have L2: "layout ?D2 [(1, h1, cs), (0, h0, bs)]" "set (feet ?D2 [(1, h1, cs), (0, h0, bs)]) = marked m"
    using layout_touch [OF L1(1) fs_at_image [OF a(3)] _ b(2), of 1 h1 cs] L1(2) by simp_all
  have p: "mset [(1, h1, cs), (0, h0, bs)] = mset [(0, h0, bs), (1, h1, cs)]" for bs by simp
  have L3: "layout ?D2 [(0, h0, bs), (1, h1, cs)]" "set (feet ?D2 [(0, h0, bs), (1, h1, cs)]) = marked m"
    using L2 layout_perm [OF p] by auto
  have g0: "file_at ?D2 0 h0 bs" "length bs = 128" using layout_file [OF L3(1)] file_at_length [OF f0 fs_at_image [OF s]] h(1) by simp_all
  obtain f' s3 D3 where c: "BitMap_WriteBack j1 f m s2 = Inr (f', s3)" "opened h0 0 f'" "fs_at {} D3 C s3" "data_only h0 ?D2 D3" "map_at D3 h0 m"
    using BitMap_WriteBack_at [OF b(3) g0 _ m, of f j1] a(4) by (auto simp: opened_def elim!: yields_obtain)
  have m3: "file_at D3 0 h0 (BitMap_bytes m)" using c(5) by (simp add: map_at_def)
  have L4: "layout D3 [(1, h1, cs), (0, h0, BitMap_bytes m)]" "set (feet D3 [(1, h1, cs), (0, h0, BitMap_bytes m)]) = marked m"
    using layout_data [OF L3(1) c(4) m3] L3(2) layout_perm [OF p] by auto
  have g1: "file_at D3 1 h1 cs" "length cs = 120" using layout_file [OF L4(1)] file_at_length [OF f1 fs_at_image [OF a(3)]] h(2) by simp_all
  obtain g' s4 D4 where e: "Directory_WriteBack j2 g d s3 = Inr (g', s4)" "opened h1 1 g'" "fs_at {} D4 C s4" "data_only h1 D3 D4"
    "file_at D4 1 h1 (table_bytes (table d))"
    using Directory_WriteBack_at [OF c(3) g1 _ d(1,2), of g j2] b(4) by (auto simp: opened_def elim!: yields_obtain)
  have q: "mset [(1, h1, table_bytes (table d)), (0, h0, BitMap_bytes m)] = mset (system h0 m h1 (table d) [])" by simp
  have L5: "layout D4 (system h0 m h1 (table d) [])" "set (feet D4 (system h0 m h1 (table d) [])) = marked m"
    using layout_data [OF L4(1) e(4,5)] L4(2) layout_perm(1) [OF q] unfolding layout_perm(2) [OF q, symmetric] by simp_all
  have "wf_table C (table d)" "list_all entry_ok (table d)" using d(3) by (auto simp: wf_table_def list_all_iff filter_empty_conv)
  moreover have "dir_map C (table d) = Map.empty" using d(3) by (simp add: dir_map_def filter_empty_conv)
  ultimately have "fs_inv D4 C h0 h1 m (table d) []" using L5 m d by (auto simp: fs_inv_def root_at_def)
  then show ?thesis using a(1) b(1) c(1,2) e(1-3) by (auto simp: opened_def)
qed

lemma FileSystem_format_ok:
  assumes s: "fs_at {} D C s"
  shows "yields (FileSystem_format junk s) (\<lambda>(fs, s'). hdrSectorNumber (freeMapFile fs) = 0 \<and> hdrSectorNumber (directoryFile fs) = 1 \<and>
    (\<exists>D' h0 h1 m t. fs_at {} D' C s' \<and> fs_inv D' C h0 h1 m t [] \<and> (\<forall>e \<in> set t. \<not> inUse e) \<and> room m = 1018))"
proof -
  obtain b m1 m where m: "FreeMap_new (junk 0 0) = Inr b" "BitMap_Mark 0 b = Inr m1" "BitMap_Mark 1 m1 = Inr m"
    "wf_map m" "numBits m = 1024" "marked m = {0, 1}" "room m = 1022" using format_maps by blast
  obtain d s1 D1 where d: "Directory_new (junk 0 1) NumDirEntries s = Inr (d, s1)" "fs_at {} D1 C s1" "length (table d) = 10" "tableSize d = 10"
    "\<forall>e \<in> set (table d). \<not> inUse e \<and> entry_ok e" using Directory_new_at [OF s, of "junk 0 1"] by (auto elim!: yields_obtain)
  obtain h0 m2 s2 h1 m3 s3 D3 where b: "Allocate_fs (junk 1) 128 1 (FileHeader_new (junk 0 2)) m s1 = Inr (True, h0, m2, s2)"
    "Allocate_fs (junk 2) 120 1 (FileHeader_new (junk 0 3)) m2 s2 = Inr (True, h1, m3, s3)"
    "wf_map m3" "numBits m3 = 1024" "room m3 = 1018" "wf_header h0" "wf_header h1" "numBytes h0 = 128" "numBytes h1 = 120"
    "fs_at {} D3 C s3" "wf_file h0 D3" "wf_file h1 D3" "distinct (0 # 1 # file_blocks h0 D3 @ file_blocks h1 D3)"
    "marked m3 = set (0 # 1 # file_blocks h0 D3 @ file_blocks h1 D3)"
    using format_alloc [OF d(2) m(4-7), of "junk 1" "junk 0 2" "junk 2" "junk 0 3"] by (fastforce elim!: yields_obtain)
  obtain t1 u1 where t1: "time_now s3 = (t1, u1)" "int32 t1" "fs_at {} D3 C u1" using time_now_at [OF b(10)] .
  obtain t2 u2 where t2: "time_now u1 = (t2, u2)" "int32 t2" "fs_at {} D3 C u2" using time_now_at [OF t1(3)] .
  obtain t3 u3 where t3: "time_now u2 = (t3, u3)" "int32 t3" "fs_at {} D3 C u3" using time_now_at [OF t2(3)] .
  obtain t4 u4 where t4: "time_now u3 = (t4, u4)" "int32 t4" "fs_at {} D3 C u4" using time_now_at [OF t3(3)] .
  let ?g0 = "h0\<lparr>lastVisitTime := t1, lastWriteTime := t3\<rparr>" and ?g1 = "h1\<lparr>lastVisitTime := t2, lastWriteTime := t4\<rparr>"
  have wh: "wf_header ?g0" "wf_header ?g1" using b(6,7) t1(2) t2(2) t3(2) t4(2) by (simp_all add: wf_header_def header_ints_def)
  have g: "wf_file ?g0 D3" "wf_file ?g1 D3" "file_blocks ?g0 D3 = file_blocks h0 D3" "file_blocks ?g1 D3 = file_blocks h1 D3"
    using b stamped_file(1,6) [OF stampedI(2)] by simp_all
  let ?D = "D3[0 := header_bytes ?g0, 1 := header_bytes ?g1]"
  obtain bs cs where L: "layout ?D [(1, ?g1, cs), (0, ?g0, bs)]" "set (feet ?D [(1, ?g1, cs), (0, ?g0, bs)]) = marked m3"
    using layout_two [OF fs_at_image [OF t4(3)] wh g(1,2)] b(13,14) g(3,4) by auto
  obtain u5 where u5: "do_disk (FileHeader_WriteBack 0 ?g0) u4 = Inr u5" "fs_at {} (D3[0 := header_bytes ?g0]) C u5"
    using WriteBack_fs [OF t4(3), of 0 ?g0] wh(1) by (auto simp: wf_header_def elim!: yields_obtain)
  obtain u6 where u6: "do_disk (FileHeader_WriteBack 1 ?g1) u5 = Inr u6" "fs_at {} ?D C u6"
    using WriteBack_fs [OF u5(2), of 1 ?g1] wh(2) by (auto simp: wf_header_def elim!: yields_obtain)
  have nb: "numBytes ?g0 = 128" "numBytes ?g1 = 120" using b by simp_all
  note c = format_contents [OF u6(2) L nb b(3,4) d(3-5), of "junk 3" "junk 4"]
  have e: "FileSystem_format junk s = bindE (OpenFile_new 0 u6) (\<lambda>(mapFile, s). bindE (OpenFile_new 1 s) (\<lambda>(dirFile, s).
      bindE (BitMap_WriteBack (junk 3) mapFile m3 s) (\<lambda>(mapFile, s). bindE (Directory_WriteBack (junk 4) dirFile d s) (\<lambda>(dirFile, s).
      Inr (\<lparr>freeMapFile = mapFile, directoryFile = dirFile\<rparr>, s)))))"
    using m(1-3) d(1) b(1,2) t1(1) t2(1) t3(1) t4(1) u5(1) u6(1) by (simp add: FileSystem_format_def)
  show ?thesis unfolding e by (rule yields_mono [OF c]) (use d(5) b(5) in blast)
qed


section \<open>Opening and removing a file\<close>

lemma fs_inv_perm:
  assumes "fs_inv D C h0 h1 m t F" "mset F = mset F'"
  shows "fs_inv D C h0 h1 m t F'"
proof -
  have p: "mset (system h0 m h1 t F) = mset (system h0 m h1 t F')" "set F = set F'" using assms(2) mset_eq_setD by auto
  show ?thesis using assms(1) layout_perm [OF p(1), of D] p(2) by (auto simp: fs_inv_def root_at_def)
qed

lemma layout_drop:
  assumes "layout D (x # L)"
  shows "layout D L" "set (feet D L) = set (feet D (x # L)) - set (foot D x)"
  using assms by (auto simp: layout_def feet_def)

lemma sector_data_cong: "primaryIndexTable g = primaryIndexTable h \<Longrightarrow> sector_data g D = sector_data h D"
  by (rule ext) (simp add: sector_data_def)

lemma stamped_numVisits: "stamped h h' \<Longrightarrow> stamped (h\<lparr>numVisits := v\<rparr>) (h'\<lparr>numVisits := v\<rparr>)"
  by (cases h) (auto simp: stamped_def)

text \<open>A header that differs from the one of the file in the counters and times only.\<close>

lemma fs_inv_header:
  assumes i: "fs_inv D C h0 h1 m t ((k, h, bs) # F)" and D: "disk_image D" and g: "wf_header g"
    and same: "numBytes g = numBytes h" "numSectors g = numSectors h" "primaryIndexTable g = primaryIndexTable h"
  shows "fs_inv (D[nat k := header_bytes g]) C h0 h1 m t ((k, g, bs) # F)"
proof -
  let ?D = "D[nat k := header_bytes g]" and ?R = "system h0 m h1 t F"
  have p: "mset (system h0 m h1 t ((k, h, bs) # F)) = mset ((k, h, bs) # ?R)" for h by simp
  have I: "layout D ((k, h, bs) # ?R)" "set (feet D ((k, h, bs) # ?R)) = marked m"
    using i layout_perm [OF p] by (auto simp: fs_inv_def root_at_def)
  have f: "file_at D k h bs" using layout_file [OF I(1)] by simp
  note fh = file_at_header [OF f]
  have fb: "file_blocks g D = file_blocks h D" "file_bytes g D = file_bytes h D"
    using same sector_data_cong [OF same(3)] by (simp_all add: file_blocks_def num_tables_def file_bytes_def raw_contents_def)
  have wf: "wf_file g D" using fh(7) same fb by (simp add: wf_file_def)
  have w: "file_at ?D k g bs" "file_blocks g ?D = file_blocks h D"
    using header_write_at [OF g wf _ fh(1,2) D] fh(8) fb f by (simp_all add: file_at_def)
  have d: "distinct (k # file_blocks h D @ feet D ?R)" using I(1) by (simp add: layout_def feet_Cons)
  have s: "?D ! nat j = D ! nat j" if "j \<in> set (feet D ?R)" for j
  proof -
    have "j \<noteq> k" "0 \<le> j" using that d feet_range [OF layout_drop(1) [OF I(1)] that] by auto
    then show ?thesis using fh(1) by simp
  qed
  have x: "insert k (set (file_blocks g ?D)) \<inter> set (feet D ?R) = {}" using d w(2) by auto
  note new = layout_new [OF layout_drop(1) [OF I(1)] w(1) s x]
  have "layout ?D (system h0 m h1 t ((k, g, bs) # F))" using new(1) layout_perm(1) [OF p] by blast
  moreover have "set (feet ?D ((k, g, bs) # ?R)) = insert k (set (file_blocks h D)) \<union> set (feet D ?R)" using new(2) unfolding w(2) .
  then have "set (feet ?D ((k, g, bs) # ?R)) = marked m" using I(2) unfolding feet_Cons [of D k h bs ?R] by simp
  then have "set (feet ?D (system h0 m h1 t ((k, g, bs) # F))) = marked m" using I(2) layout_perm(2) [OF p, of ?D] by simp
  ultimately show ?thesis using i by (simp add: fs_inv_def root_at_def)
qed

lemma fs_inv_visit:
  assumes i: "fs_inv D C h0 h1 m t F" and D: "disk_image D" and x: "(k, h, bs) \<in> set (system h0 m h1 t F)" and t: "int32 now"
  shows "fs_inv (touch now k D) C h0 h1 m t F"
proof -
  have "layout D (system h0 m h1 t F)" using i by (simp add: fs_inv_def root_at_def)
  from layout_touch [OF this D x t] show ?thesis using i by (auto simp: fs_inv_def root_at_def)
qed

lemma fs_inv_file:
  assumes "fs_inv D C h0 h1 m t F" "(k, h, bs) \<in> set F"
  shows "file_at D k h bs"
  using assms layout_file [of D "system h0 m h1 t F" k h bs] by (auto simp: fs_inv_def root_at_def)

text \<open>A name without slashes is looked up in the root directory.\<close>

lemma lookup_name:
  assumes s: "fs_at {} D C s" and i: "fs_inv D C h0 h1 m t F" and n: "CHR ''/'' \<notin> set n"
  shows "yields (getFileName junk n s) (\<lambda>(name, d, f, s'). name = Some n \<and> d = \<lparr>table = t, tableSize = 10\<rparr> \<and> opened h1 1 f \<and>
      wf_dir d s' \<and> abs_dir d s' = dir_map C t \<and> Directory_Find name d s' = Inr (case dir_map C t n of Some k \<Rightarrow> k | None \<Rightarrow> -1) \<and>
      (\<exists>D'. fs_at {} D' C s' \<and> fs_inv D' C h0 h1 m t F))"
proof -
  have I: "root_at D (system h0 m h1 t F) h1 t" "wf_table C t" "length t = 10" using i by (simp_all add: fs_inv_def root_at_def)
  let ?d = "\<lparr>table = t, tableSize = 10\<rparr>"
  obtain f s1 D1 where g: "getFileName junk n s = Inr (Some n, ?d, f, s1)" "opened h1 1 f" "fs_at {} D1 C s1"
    "root_at D1 (system h0 m h1 t F) h1 t" "set (feet D1 (system h0 m h1 t F)) = set (feet D (system h0 m h1 t F))"
    using getFileName_plain [OF s I(1) n, of junk] by (auto elim!: yields_obtain)
  have c: "cstrings s1 = C" using g(3) by (simp add: fs_at_def)
  have w: "wf_dir ?d s1" using I c by (simp add: wf_dir_def)
  show ?thesis using g w c Directory_Find_ok [OF w, of n] fs_inv_touch [OF i g(4,5)] by auto
qed

lemma FileSystem_Open_ok:
  assumes s: "fs_at {} D C s" and i: "fs_inv D C h0 h1 m t ((k, h, bs) # F)"
    and n: "CHR ''/'' \<notin> set n" "dir_map C t n = Some k" and v: "numVisits h + 1 < 2 ^ 31"
  shows "yields (FileSystem_Open junk n s) (\<lambda>(r, s'). \<exists>f D' h'. r = Some f \<and> opened h' k f \<and> seekPosition f = 0 \<and>
    fs_at {} D' C s' \<and> stamped (h\<lparr>numVisits := numVisits h + 1\<rparr>) h' \<and> fs_inv D' C h0 h1 m t ((k, h', bs) # F))"
proof -
  obtain d f s1 D1 where a: "getFileName (junk 20 0) n s = Inr (Some n, d, f, s1)" "Directory_Find (Some n) d s1 = Inr k"
    "fs_at {} D1 C s1" "fs_inv D1 C h0 h1 m t ((k, h, bs) # F)"
    using lookup_name [OF s i n(1), of "junk 20 0"] n(2) by (auto elim!: yields_obtain)
  note fh = file_at_header [OF fs_inv_file [OF a(4), of k h bs, simplified]]
  let ?h = "header_at D1 k" let ?g = "?h\<lparr>numVisits := numVisits ?h + 1\<rparr>"
  note st = stamped_file [OF fh(6)]
  obtain s2 where b: "on_disk (FileHeader_FetchFrom k) s1 = Inr (?h, s2)" "fs_at {} D1 C s2"
    using FetchFrom_fs [OF a(3) fh(1,2)] by (auto simp: header_at_def elim!: yields_obtain)
  have "- (2 ^ 31) \<le> numVisits ?h" using header_at_wf [of D1 k] by (auto simp: wf_header_def header_ints_def int32_def)
  then have g: "wf_header ?g" using header_at_wf [of D1 k] v st(8) by (auto simp: wf_header_def header_ints_def int32_def)
  obtain s3 where c: "do_disk (FileHeader_WriteBack k ?g) s2 = Inr s3" "fs_at {} (D1[nat k := header_bytes ?g]) C s3"
    using WriteBack_fs [OF b(2) fh(1,2), of ?g] g by (auto simp: wf_header_def elim!: yields_obtain)
  have i3: "fs_inv (D1[nat k := header_bytes ?g]) C h0 h1 m t ((k, ?g, bs) # F)"
    by (rule fs_inv_header [OF a(4) fs_at_image [OF b(2)] g]) (use st in simp_all)
  obtain f4 s4 now where e: "OpenFile_new k s3 = Inr (f4, s4)" "int32 now" "fs_at {} (touch now k (D1[nat k := header_bytes ?g])) C s4"
    "opened ?g k f4" "seekPosition f4 = 0"
    using OpenFile_new_at [OF c(2) fs_inv_file [OF i3, of k ?g bs]] by (auto elim!: yields_obtain)
  have "fs_inv (touch now k (D1[nat k := header_bytes ?g])) C h0 h1 m t ((k, ?g, bs) # F)"
    by (rule fs_inv_visit [OF i3 fs_at_image [OF c(2)] _ e(2), of k ?g bs]) simp
  moreover have "stamped (h\<lparr>numVisits := numVisits h + 1\<rparr>) ?g" using stamped_numVisits [OF fh(6)] st(8) by simp
  moreover have "FileSystem_Open junk n s = Inr (Some f4, s4)" using a(1,2) b(1) c(1) e(1) fh(1) by (simp add: FileSystem_Open_def)
  ultimately show ?thesis using e(3-5) by auto
qed

lemma Deallocate_fs:
  assumes s: "fs_at {} D C s" and wf: "wf_file h D" and m: "wf_map m" "numBits m = 1024" "set (file_blocks h D) \<subseteq> marked m"
  shows "yields (on_disk (Deallocate h m) s) (\<lambda>(m', s'). wf_map m' \<and> numBits m' = 1024 \<and>
    marked m' = marked m - set (file_blocks h D) \<and> fs_at {} D C s')"
  using Deallocate_ok [OF wf m fs_at_disk [OF s]] s
  by (auto simp: fs_at_def yields_on_disk elim!: yields_mono)

text \<open>The sectors of a file are given back.\<close>

lemma release_file:
  assumes i: "fs_inv D C h0 h1 m t ((k, h, bs) # F)" and m: "wf_map m'" "numBits m' = 1024"
    "marked m' = marked m - insert k (set (file_blocks h D))"
  shows "layout D (system h0 m h1 t F)" "set (feet D (system h0 m h1 t F)) = marked m'" "k \<notin> fst ` set F"
    "room m' = room m + 1 + int (num_tables h) + numSectors h"
proof -
  let ?R = "system h0 m h1 t F"
  have p: "mset (system h0 m h1 t ((k, h, bs) # F)) = mset ((k, h, bs) # ?R)" by simp
  have I: "layout D ((k, h, bs) # ?R)" "set (feet D ((k, h, bs) # ?R)) = marked m" "numBits m = 1024" "wf_map m"
    using i layout_perm [OF p] by (auto simp: fs_inv_def root_at_def)
  show "layout D ?R" using layout_drop(1) [OF I(1)] .
  show "set (feet D ?R) = marked m'" using layout_drop(2) [OF I(1)] I(2) m(3) by (simp add: foot_def)
  have d: "distinct (k # file_blocks h D @ feet D ?R)" using I(1) by (simp add: layout_def feet_Cons)
  then show "k \<notin> fst ` set F" using header_sectors [of F D "[(0, h0, BitMap_bytes m), (1, h1, table_bytes t)]"] by auto
  have f: "wf_file h D" using layout_file [OF I(1), of k h bs] file_at_header(7) by auto
  have sub: "set (k # file_blocks h D) \<subseteq> marked m" using I(2) by (auto simp: feet_Cons)
  have "finite (marked m)" using I(2) by (metis List.finite_set)
  then have "card (marked m') + card (set (k # file_blocks h D)) = card (marked m)"
    using m(3) card_Diff_subset [OF _ sub] card_mono [OF _ sub] by simp
  moreover have "card (set (k # file_blocks h D)) = 1 + num_tables h + nat (numSectors h)"
  proof -
    have "length (k # file_blocks h D) = 1 + num_tables h + nat (numSectors h)" by (simp add: file_blocks_def block_list_def)
    moreover have "distinct (k # file_blocks h D)" using d by simp
    ultimately show ?thesis using distinct_card by metis
  qed
  ultimately show "room m' = room m + 1 + int (num_tables h) + numSectors h"
    using I(3) m(2) wf_file_numSectors [OF f] by (simp add: room_def)
qed

lemma remove_blocks_ok:
  assumes s: "fs_at {} D C s" and i: "fs_inv D C h0 h1 m t ((k, h, bs) # F)" and fs: "hdrSectorNumber (freeMapFile fs) = 0"
    and n: "dir_map C t n = Some k" and o: "hdrSectorNumber f = 1"
  shows "yields (remove_blocks junk k (Some n) h \<lparr>table = t, tableSize = 10\<rparr> f fs s) (\<lambda>(fs', s').
    directoryFile fs' = directoryFile fs \<and> hdrSectorNumber (freeMapFile fs') = 0 \<and>
    (\<exists>D' m' t'. fs_at {} D' C s' \<and> fs_inv D' C h0 h1 m' t' F \<and> dir_map C t' = (dir_map C t)(n := None) \<and>
      room m' = room m + 1 + int (num_tables h) + numSectors h))"
proof -
  let ?d = "\<lparr>table = t, tableSize = 10\<rparr>"
  have I: "wf_table C t" "length t = 10" "list_all entry_ok t" "wf_map m" "numBits m = 1024" "ran (dir_map C t) = fst ` set ((k, h, bs) # F)"
    "inj_on (dir_map C t) (dom (dir_map C t))" "set (feet D (system h0 m h1 t ((k, h, bs) # F))) = marked m" using i by (simp_all add: fs_inv_def root_at_def)
  obtain b mf s1 where a: "FreeMap_new (junk 30 0) = Inr b" "BitMap_FetchFrom (freeMapFile fs) b s = Inr (m, mf, s1)" "opened h0 0 mf" "fs_at {} D C s1"
    using fetch_free_map [OF s i fs, of "junk 30 0"] by (auto simp: bindE_eq_Inr elim!: yields_obtain)
  note fh = file_at_header [OF fs_inv_file [OF i, of k h bs, simplified]]
  have sub: "set (file_blocks h D) \<subseteq> marked m"
    using feet_mem [of k h bs "system h0 m h1 t ((k, h, bs) # F)" D] I(8) by simp
  obtain m2 s2 where b: "on_disk (Deallocate h m) s1 = Inr (m2, s2)" "wf_map m2" "numBits m2 = 1024"
    "marked m2 = marked m - set (file_blocks h D)" "fs_at {} D C s2"
    using Deallocate_fs [OF a(4) fh(7) I(4,5) sub] by (auto elim!: yields_obtain)
  obtain m3 where c: "BitMap_Clear k m2 = Inr m3" "wf_map m3" "numBits m3 = 1024" "marked m3 = marked m - insert k (set (file_blocks h D))"
    using BitMap_Clear_ok [OF b(2), of k] b(3,4) fh(1,2) by auto
  note r = release_file [OF i c(2-4)]
  have c2: "cstrings s2 = C" using b(5) by (simp add: fs_at_def)
  have w: "wf_dir ?d s2" "abs_dir ?d s2 = dir_map C t" using I c2 by (simp_all add: wf_dir_def)
  obtain d' j where d: "Directory_Remove (Some n) ?d s2 = Inr (True, d')" "wf_dir d' s2" "tableSize d' = 10" "j < 10"
    "table d' = t[j := (t ! j)\<lparr>inUse := False, ename := 0\<rparr>]" "abs_dir d' s2 = (dir_map C t)(n := None)"
    using Directory_Remove_ok [OF w(1), of n] w(2) n I(2) by (auto split: if_splits)
  have ok: "list_all entry_ok (table d')" "length (table d') = 10"
    using d(4,5) I(2,3) by (auto simp: list_all_length nth_list_update entry_ok_def int32_def)
  have o0: "hdrSectorNumber mf = 0" using a(3) by (simp add: opened_def)
  obtain f3 s3 D3 where e: "BitMap_WriteBack (junk 31) mf m3 s2 = Inr (f3, s3)" "opened h0 0 f3" "fs_at {} D3 C s3"
    "layout D3 (system h0 m3 h1 t F)" "set (feet D3 (system h0 m3 h1 t F)) = marked m3"
    using write_map [OF b(5) r(1) o0 I(4,5) c(2,3), of "junk 31"] r(2) by (auto elim!: yields_obtain)
  obtain f4 s4 D4 where g: "Directory_WriteBack (junk 32) f d' s3 = Inr (f4, s4)" "fs_at {} D4 C s4"
    "layout D4 (system h0 m3 h1 (table d') F)" "set (feet D4 (system h0 m3 h1 (table d') F)) = marked m3"
    using write_root [OF e(3,4) I(2) o ok(2) d(3), of "junk 32"] e(5) by (auto elim!: yields_obtain)
  have "dir_map C (table d') = (dir_map C t)(n := None)" "wf_table C (table d')" using d(2,6) c2 by (simp_all add: wf_dir_def)
  moreover have "ran ((dir_map C t)(n := None)) = fst ` set F" using ran_map_del [OF I(7) n] I(6) r(3) by auto
  ultimately have "fs_inv D4 C h0 h1 m3 (table d') F" "dir_map C (table d') = (dir_map C t)(n := None)"
    using g(3,4) ok c(2,3) inj_map_del [OF I(7), of n] by (auto simp: fs_inv_def root_at_def)
  moreover have "remove_blocks junk k (Some n) h ?d f fs s = Inr (fs\<lparr>freeMapFile := f3\<rparr>, s4)"
    using a(1,2) b(1) c(1) d(1) e(1) g(1) by (simp add: remove_blocks_def)
  ultimately show ?thesis using g(2) e(2) r(4) by (auto simp: opened_def)
qed

lemma FileSystem_Remove_ok:
  assumes s: "fs_at {} D C s" and i: "fs_inv D C h0 h1 m t ((k, h, bs) # F)" and fs: "hdrSectorNumber (freeMapFile fs) = 0"
    and n: "CHR ''/'' \<notin> set n" "dir_map C t n = Some k" and h: "fileType h = 0" "numVisits h = 1"
  shows "yields (FileSystem_Remove (Suc j) junk n fs s) (\<lambda>(ok, fs', s'). ok \<and>
    directoryFile fs' = directoryFile fs \<and> hdrSectorNumber (freeMapFile fs') = 0 \<and>
    (\<exists>D' m' t'. fs_at {} D' C s' \<and> fs_inv D' C h0 h1 m' t' F \<and> dir_map C t' = (dir_map C t)(n := None) \<and>
      room m' = room m + 1 + int (num_tables h) + numSectors h))"
proof -
  let ?d = "\<lparr>table = t, tableSize = 10\<rparr>"
  obtain f s1 D1 where a: "getFileName (junk 30 1) n s = Inr (Some n, ?d, f, s1)" "opened h1 1 f" "Directory_Find (Some n) ?d s1 = Inr k"
    "fs_at {} D1 C s1" "fs_inv D1 C h0 h1 m t ((k, h, bs) # F)"
    using lookup_name [OF s i n(1), of "junk 30 1"] n(2) by (auto elim!: yields_obtain)
  note fh = file_at_header [OF fs_inv_file [OF a(5), of k h bs, simplified]]
  note st = stamped_file [OF fh(6)]
  let ?h = "header_at D1 k" let ?g = "?h\<lparr>numVisits := numVisits ?h - 1\<rparr>"
  obtain s2 where b: "on_disk (FileHeader_FetchFrom k) s1 = Inr (?h, s2)" "fs_at {} D1 C s2"
    using FetchFrom_fs [OF a(4) fh(1,2)] by (auto simp: header_at_def elim!: yields_obtain)
  have g: "wf_header ?g" using header_at_wf [of D1 k] h(2) st(8) by (auto simp: wf_header_def header_ints_def int32_def)
  obtain s3 where c: "do_disk (FileHeader_WriteBack k ?g) s2 = Inr s3" "fs_at {} (D1[nat k := header_bytes ?g]) C s3"
    using WriteBack_fs [OF b(2) fh(1,2), of ?g] g by (auto simp: wf_header_def elim!: yields_obtain)
  have i3: "fs_inv (D1[nat k := header_bytes ?g]) C h0 h1 m t ((k, ?g, bs) # F)"
    by (rule fs_inv_header [OF a(5) fs_at_image [OF b(2)] g]) (use st in simp_all)
  have same: "num_tables ?g = num_tables h" "numSectors ?g = numSectors h" using st by (simp_all add: num_tables_def)
  have o: "hdrSectorNumber f = 1" using a(2) by (simp add: opened_def)
  have "FileSystem_Remove (Suc j) junk n fs s = bindE (remove_blocks junk k (Some n) ?g ?d f fs s3) (\<lambda>(fs, s). Inr (True, fs, s))"
    using a(1,3) b(1) c(1) fh(1) h st by (simp add: Let_def)
  then show ?thesis using remove_blocks_ok [OF c(2) i3 fs n(2) o, of junk] unfolding same by (auto elim!: yields_mono)
qed

text \<open>The calls that change nothing but time stamps.\<close>

lemma Create_exists:
  assumes s: "fs_at {} D C s" and i: "fs_inv D C h0 h1 m t F" and n: "CHR ''/'' \<notin> set n" "dir_map C t n = Some k"
  shows "yields (Create junk n fileSize ftype fs s) (\<lambda>(ok, fs', s'). \<not> ok \<and> fs' = fs \<and>
    (\<exists>D'. fs_at {} D' C s' \<and> fs_inv D' C h0 h1 m t F))"
proof -
  have "k \<in> fst ` set F" using i n(2) by (auto simp: fs_inv_def ran_def)
  then obtain h bs where "(k, h, bs) \<in> set F" by auto
  then have "file_at D k h bs" by (rule fs_inv_file [OF i])
  then have "k \<noteq> -1" using file_at_header(1) by fastforce
  then show ?thesis using lookup_name [OF s i n(1), of "junk 10 2"] n(2) by (auto simp: Create_def elim!: yields_obtain)
qed

lemma Remove_missing:
  assumes s: "fs_at {} D C s" and i: "fs_inv D C h0 h1 m t F" and n: "CHR ''/'' \<notin> set n" "dir_map C t n = None"
  shows "yields (FileSystem_Remove (Suc j) junk n fs s) (\<lambda>(ok, fs', s'). \<not> ok \<and> fs' = fs \<and>
    (\<exists>D'. fs_at {} D' C s' \<and> fs_inv D' C h0 h1 m t F))"
  using lookup_name [OF s i n(1), of "junk 30 1"] n(2) by (auto elim!: yields_obtain)

lemma Open_missing:
  assumes s: "fs_at {} D C s" and i: "fs_inv D C h0 h1 m t F" and n: "CHR ''/'' \<notin> set n" "dir_map C t n = None"
  shows "yields (FileSystem_Open junk n s) (\<lambda>(r, s'). (\<exists>f. r = Some f \<and> opened h1 1 f) \<and>
    (\<exists>D'. fs_at {} D' C s' \<and> fs_inv D' C h0 h1 m t F))"
  using lookup_name [OF s i n(1), of "junk 20 0"] n(2) by (auto simp: FileSystem_Open_def elim!: yields_obtain)

lemma Add_no_name: "\<exists>e \<in> set (table d). \<not> inUse e \<Longrightarrow> Directory_Add None k d s = Inl NullDeref"
proof -
  have f: "FindIndex_loop None es i s = Inr (-1)" for es i by (induction es arbitrary: i) auto
  have "\<exists>e \<in> set es. \<not> inUse e \<Longrightarrow> Add_loop None k passed es s = Inl NullDeref" for es passed
    by (induction es arbitrary: passed) auto
  then show "\<exists>e \<in> set (table d). \<not> inUse e \<Longrightarrow> ?thesis" by (simp add: Directory_Add_def FindIndex_def f)
qed

lemma Create_no_parent:
  assumes s: "fs_at {} D C s" and i: "fs_inv D C h0 h1 m t F" and fs: "hdrSectorNumber (freeMapFile fs) = 0"
    and n: "CHR ''/'' \<notin> set a" "CHR ''/'' \<notin> set b" "dir_map C t b = None" and sp: "0 < room m" "\<exists>e \<in> set t. \<not> inUse e"
  shows "Create junk (a @ ''/'' @ b @ ''/'' @ c) fileSize ftype fs s = Inl NullDeref"
proof -
  have I: "root_at D (system h0 m h1 t F) h1 t" "wf_table C t" "wf_map m" using i by (simp_all add: fs_inv_def root_at_def)
  let ?d = "\<lparr>table = t, tableSize = 10\<rparr>" let ?n = "a @ ''/'' @ b @ ''/'' @ c"
  obtain f s1 D1 where g: "getFileName (junk 10 2) ?n s = Inr (None, ?d, f, s1)" "fs_at {} D1 C s1"
    "root_at D1 (system h0 m h1 t F) h1 t" "set (feet D1 (system h0 m h1 t F)) = set (feet D (system h0 m h1 t F))"
    using getFileName_missing [OF s I(1,2) n, of "junk 10 2" c] by (auto elim!: yields_obtain)
  note i1 = fs_inv_touch [OF i g(3,4)]
  obtain x mf s2 where b: "FreeMap_new (junk 10 3) = Inr x" "BitMap_FetchFrom (freeMapFile fs) x s1 = Inr (m, mf, s2)"
    using fetch_free_map [OF g(2) i1 fs, of "junk 10 3"] by (auto simp: bindE_eq_Inr elim!: yields_obtain)
  obtain k m1 where k: "BitMap_Find m = Inr (k, m1)" "allocates m [k] m1" using Find_allocates [OF I(3) sp(1)] by (auto elim!: yields_obtain)
  have "k \<noteq> -1" using k(2) by (auto simp: allocates_def)
  moreover have "Directory_Add None k ?d s2 = Inl NullDeref" using Add_no_name sp(2) by simp
  ultimately show ?thesis using g(1) b k(1) by (simp add: Create_def Directory_Find_None)
qed


section \<open>Properties\<close>

text \<open>
  C30: \<^verbatim>\<open>FileSystem(TRUE)\<close> turns any disk into an empty file system: it returns, the free map
  and the root directory are in their files, the map marks exactly the six sectors of
  these two files, and no entry of the directory is in use.
\<close>

theorem format_correct:
  assumes "fs_at {} D C s"
  shows "yields (FileSystem_new junk True s) (\<lambda>(fs, s'). hdrSectorNumber (freeMapFile fs) = 0 \<and> hdrSectorNumber (directoryFile fs) = 1 \<and>
    (\<exists>D' h0 h1 m t. fs_at {} D' C s' \<and> fs_inv D' C h0 h1 m t [] \<and> (\<forall>e \<in> set t. \<not> inUse e) \<and> room m = 1018))"
  using FileSystem_format_ok [OF assms, of junk] by (simp add: FileSystem_new_def)

lemma fresh_fs_at: "fs_at {} zero_disk [] fresh_fs"
  using fresh_disk_at by (simp add: fs_at_def fresh_fs_def)

theorem format_correct_witness:
  "\<exists>fs s D h0 h1 m t. FileSystem_new (\<lambda>_ _ _. 0) True fresh_fs = Inr (fs, s) \<and> fs_inv D [] h0 h1 m t [] \<and> room m = 1018"
proof -
  obtain fs s D h0 h1 m t where "FileSystem_new (\<lambda>_ _ _. 0) True fresh_fs = Inr (fs, s)" "fs_inv D [] h0 h1 m t []" "room m = 1018"
    using format_correct [OF fresh_fs_at, of "\<lambda>_ _ _. 0"] by (auto elim!: yields_obtain)
  then show ?thesis by blast
qed

text \<open>A formatted disk to apply the operations to.\<close>

lemma formatted:
  obtains fs s D h0 h1 m t where "FileSystem_new (\<lambda>_ _ _. 0) True fresh_fs = Inr (fs, s)" "fs_at {} D [] s"
    "fs_inv D [] h0 h1 m t []" "dir_map [] t = Map.empty" "\<exists>e \<in> set t. \<not> inUse e" "room m = 1018" "hdrSectorNumber (freeMapFile fs) = 0"
proof -
  obtain fs s D h0 h1 m t where a: "FileSystem_new (\<lambda>_ _ _. 0) True fresh_fs = Inr (fs, s)" "fs_at {} D [] s"
    "fs_inv D [] h0 h1 m t []" "\<forall>e \<in> set t. \<not> inUse e" "room m = 1018" "hdrSectorNumber (freeMapFile fs) = 0"
    using FileSystem_format_ok [OF fresh_fs_at, of "\<lambda>_ _ _. 0"] by (auto simp: FileSystem_new_def elim!: yields_obtain)
  then have "length t = 10" "dir_map [] t = Map.empty" by (simp_all add: fs_inv_def root_at_def dir_map_def filter_empty_conv)
  moreover then have "\<exists>e \<in> set t. \<not> inUse e" using a(4) by (cases t) auto
  ultimately show thesis using that a by blast
qed





text \<open>
  C6: An open file behaves as an array of bytes with a position.  Whatever sequence of
  seeks, reads and writes inside the file is asked for, the calls return what the array
  returns, the file on disk holds the contents of the array, and the rest of the file system (free
  map, directory, other files) is what it was.
\<close>

theorem open_file_refines_array:
  assumes "fs_at {} D C s" "fs_inv D C h0 h1 m t ((k, h, bs) # F)" "opened h k f"
    and "array_run xs bs (seekPosition f) = Some (outs, bs', pos')"
  shows "yields (file_run junk xs f s) (\<lambda>(outs', f', s'). outs' = outs \<and> opened h k f' \<and> seekPosition f' = pos' \<and>
    (\<exists>D'. fs_at {} D' C s' \<and> fs_inv D' C h0 h1 m t ((k, h, bs') # F)))"
proof -
  have f: "file_at D k h bs" using fs_inv_file [OF assms(2)] by simp
  have "fs_inv D' C h0 h1 m t ((k, h, bs') # F)" if d: "data_only h D D'" "file_at D' k h bs'" for D'
  proof -
    have p: "mset (system h0 m h1 t ((k, h, bs) # F)) = mset ((k, h, bs) # system h0 m h1 t F)" for bs by simp
    have "layout D ((k, h, bs) # system h0 m h1 t F)" using assms(2) layout_perm(1) [OF p] by (auto simp: fs_inv_def root_at_def)
    note l = layout_data [OF this d]
    have "layout D' (system h0 m h1 t ((k, h, bs') # F))" using l(1) layout_perm(1) [OF p] by blast
    moreover have "set (feet D' (system h0 m h1 t ((k, h, bs') # F))) = set (feet D (system h0 m h1 t ((k, h, bs) # F)))"
      unfolding layout_perm(2) [OF p] l(2) ..
    ultimately show ?thesis using assms(2) by (simp add: fs_inv_def root_at_def)
  qed
  then show ?thesis by (intro yields_mono [OF file_run_refines [OF assms(1) f assms(3,4)]]) auto
qed

text \<open>A new file, open at position 0.\<close>

lemma created:
  obtains fs s fs1 s1 f s2 D h0 h1 m t k h bs where "FileSystem_new (\<lambda>_ _ _. 0) True fresh_fs = Inr (fs, s)"
    "Create (\<lambda>_ _ _. 0) ''a'' 300 0 fs s = Inr (True, fs1, s1)" "FileSystem_Open (\<lambda>_ _ _. 0) ''a'' s1 = Inr (Some f, s2)"
    "fs_at {} D [''a''] s2" "fs_inv D [''a''] h0 h1 m t [(k, h, bs)]" "opened h k f" "seekPosition f = 0" "length bs = 300"
    "numBytes h = 300" "numSectors h = 3" "room m = 1013"
proof -
  obtain fs s D h0 h1 m t where f: "FileSystem_new (\<lambda>_ _ _. 0) True fresh_fs = Inr (fs, s)" "fs_at {} D [] s"
    "fs_inv D [] h0 h1 m t []" "dir_map [] t = Map.empty" "\<exists>e \<in> set t. \<not> inUse e" "room m = 1018" "hdrSectorNumber (freeMapFile fs) = 0"
    by (rule formatted)
  have sn: "sectors_needed 300 = 4" by (simp add: sectors_needed_def divRoundUp_nonneg)
  have nm: "CHR ''/'' \<notin> set ''a''" "dir_map [] t ''a'' = None" and i0: "int32 0" using f(4) by (simp_all add: int32_def)
  obtain fs1 s1 D1 m1 t1 k h bs where a: "Create (\<lambda>_ _ _. 0) ''a'' 300 0 fs s = Inr (True, fs1, s1)" "fs_at {} D1 [''a''] s1"
    "fs_inv D1 [''a''] h0 h1 m1 t1 [(k, h, bs)]" "dir_map [''a''] t1 = [''a'' \<mapsto> k]" "numBytes h = 300"
    "numSectors h = divRoundUp 300 SectorSize" "numVisits h = numVisits (FileHeader_new (\<lambda>_. 0))" "room m1 = 1013"
    using Create_ok [OF f(2,3,7) nm f(5) i0, of 300 "\<lambda>_ _ _. 0"] f(4,6) sn by (auto elim!: yields_obtain)
  have v: "numVisits h = 0" unfolding a(7)
    by (simp add: FileHeader_new_def header_of_bytes_def header_of_ints_def list_all_length int32_def del: upt_rec_numeral)
  have n1: "dir_map [''a''] t1 ''a'' = Some k" using a(4) by simp
  obtain g s2 D2 h' where b: "FileSystem_Open (\<lambda>_ _ _. 0) ''a'' s1 = Inr (Some g, s2)" "opened h' k g" "seekPosition g = 0" "fs_at {} D2 [''a''] s2"
    "stamped (h\<lparr>numVisits := 1\<rparr>) h'" "fs_inv D2 [''a''] h0 h1 m1 t1 [(k, h', bs)]"
    using FileSystem_Open_ok [OF a(2,3) nm(1) n1, of "\<lambda>_ _ _. 0"] v by (auto elim!: yields_obtain)
  have h': "numBytes h' = 300" "numSectors h' = 3" using stamped_file [OF b(5)] a(5,6) by (simp_all add: divRoundUp_nonneg)
  then have "length bs = 300" using file_at_length [OF fs_inv_file [OF b(6), of k h' bs] fs_at_image [OF b(4)]] by simp
  then show thesis using that f(1) a(1,8) b(1-4,6) h' by blast
qed

theorem open_file_refines_array_witness:
  "\<exists>fs s fs1 s1 f s2 f' s3. FileSystem_new (\<lambda>_ _ _. 0) True fresh_fs = Inr (fs, s) \<and> Create (\<lambda>_ _ _. 0) ''a'' 300 0 fs s = Inr (True, fs1, s1) \<and>
    FileSystem_Open (\<lambda>_ _ _. 0) ''a'' s1 = Inr (Some f, s2) \<and>
    file_run (\<lambda>_ _. 0) [SeekOp 126, WriteOp [1, 2, 3, 4], SeekOp 125, ReadOp 0, SeekOp 127, ReadOp 2] f s2 = Inr ([[], [], [], [], [], [2, 3]], f', s3)"
proof (rule created)
  fix fs s fs1 s1 f s2 D h0 h1 m t k h bs
  assume a: "FileSystem_new (\<lambda>_ _ _. 0) True fresh_fs = Inr (fs, s)"
    "Create (\<lambda>_ _ _. 0) ''a'' 300 0 fs s = Inr (True, fs1, s1)" "FileSystem_Open (\<lambda>_ _ _. 0) ''a'' s1 = Inr (Some f, s2)"
    and b: "fs_at {} D [''a''] s2" "fs_inv D [''a''] h0 h1 m t [(k, h, bs)]" "opened h k f" "seekPosition f = 0" "length bs = 300"
  have "array_run [SeekOp 126, WriteOp [1, 2, 3, 4], SeekOp 125, ReadOp 0, SeekOp 127, ReadOp 2] bs 0 =
      Some ([[], [], [], [], [], [2, 3]], bcopyTo 126 [1, 2, 3, 4] bs, 129)"
    using b(5) by (simp add: slice_def bcopyTo_def)
  from open_file_refines_array [OF b(1-3), unfolded b(4), OF this, of "\<lambda>_ _. 0"] a
  show ?thesis by (auto elim!: yields_obtain)
qed

lemma fs_inv_apart:
  assumes i: "fs_inv D C h0 h1 m t ((k, h, bs) # F)"
  shows "apart D h0 m k h"
proof -
  have "distinct (feet D (system h0 m h1 t ((k, h, bs) # F)))" "set (feet D (system h0 m h1 t ((k, h, bs) # F))) = marked m"
    using i by (simp_all add: fs_inv_def root_at_def layout_def)
  then show ?thesis unfolding feet_Cons apart_def by auto
qed

text \<open>A file that needs more bytes than its sectors hold has more sectors.\<close>

lemma more_blocks:
  assumes "wf_file h D" "wf_file h' D'" "128 * numSectors h < numBytes h'" "set (file_blocks h' D') = set (file_blocks h D) \<union> B"
  shows "\<exists>j \<in> B. j \<in> set (file_blocks h' D')"
proof -
  have len: "length (file_blocks h D) = (nat (numSectors h) + 31) div 32 + nat (numSectors h)" if "wf_file h D" for h D
    using wf_file_numSectors [OF that] by (simp add: file_blocks_def block_list_def num_tables_eq)
  have "numSectors h < numSectors h'" using assms(2,3) by (simp add: wf_file_def)
  then have "nat (numSectors h) < nat (numSectors h')" using wf_file_numSectors [OF assms(1)] by simp
  then have "length (file_blocks h D) < length (file_blocks h' D')"
    unfolding len [OF assms(1)] len [OF assms(2)] by (intro add_le_less_mono div_le_mono) auto
  moreover have "card (set (file_blocks h D)) = length (file_blocks h D)" "card (set (file_blocks h' D')) = length (file_blocks h' D')"
    using assms(1,2) by (simp_all add: wf_file_def distinct_card)
  ultimately have "set (file_blocks h' D') \<noteq> set (file_blocks h D)" by auto
  then show ?thesis using assms(4) by auto
qed

text \<open>
  C36: \<^verbatim>\<open>WriteAt\<close> past the last sector of a file extends it: it returns the number of bytes, the file
  on disk has the new length and holds the new data after the old.  But the free map on disk is not
  written: it still marks what it did before, and at least one sector of the extended
  file is free in it, so the next allocation from the disk hands out the same sector again.
\<close>

theorem WriteAt_extension_unmapped:
  assumes "fs_at {} D C s" "fs_inv D C h0 h1 m t ((k, h, bs) # F)" "hdrSectorNumber f = k"
    and "0 \<le> position" "0 < n" "128 * numSectors h < position + n" "nat n \<le> length d"
    and "numSectors h = int N" "divRoundUp (position + n - numBytes h) SectorSize = int E" "N + E \<le> 800"
    and "int E + int ((N + E + 31) div 32 - num_tables h) \<le> room m"
  shows "yields (WriteAt junk d n position f s) (\<lambda>(r, f', s'). r = n \<and>
    (\<exists>D' h' old. fs_at {} D' C s' \<and> file_at D' k h' (bcopyTo (nat position) (take (nat n) d) old) \<and>
      numBytes h' = position + n \<and> length old = nat (position + n) \<and> take (nat (numBytes h)) old = bs \<and>
      map_at D' h0 m \<and> (\<exists>j \<in> set (file_blocks h' D'). j \<notin> marked m)))"
proof -
  have f: "file_at D k h bs" using fs_inv_file [OF assms(2)] by simp
  have "numBytes h < position + n" using file_at_header(7) [OF f] assms(6) by (simp add: wf_file_def)
  then obtain f' s' D' h' bs' old news m' where w: "WriteAt junk d n position f s = Inr (n, f', s')" "fs_at {} D' C s'" "map_at D' h0 m"
    "file_at D' k h' bs'" "numBytes h' = position + n" "length old = nat (position + n)" "take (nat (numBytes h)) old = bs"
    "bs' = bcopyTo (nat position) (take (nat n) d) old" "allocates m news m'" "set (file_blocks h' D') = set (file_blocks h D) \<union> set news"
    using WriteAt_extend [OF assms(1) fs_inv_map [OF assms(2)] f fs_inv_apart [OF assms(2)] assms(3-5) _ assms(7-11), of junk]
    unfolding yields_def by blast
  obtain j where "j \<in> set news" "j \<in> set (file_blocks h' D')"
    using more_blocks [OF file_at_header(7) [OF f] file_at_header(7) [OF w(4)] _ w(10)] assms(6) w(5) by auto
  moreover from this have "j \<notin> marked m" using w(9) by (auto simp: allocates_def)
  ultimately show ?thesis using w(2-7) unfolding w(1) yields_Inr prod.case w(8) by blast
qed

theorem WriteAt_extension_unmapped_witness:
  "\<exists>fs s fs1 s1 f s2 f' s3 D h m h0. FileSystem_new (\<lambda>_ _ _. 0) True fresh_fs = Inr (fs, s) \<and> Create (\<lambda>_ _ _. 0) ''a'' 300 0 fs s = Inr (True, fs1, s1) \<and>
    FileSystem_Open (\<lambda>_ _ _. 0) ''a'' s1 = Inr (Some f, s2) \<and> WriteAt (\<lambda>_ _. 0) (replicate 400 7) 400 0 f s2 = Inr (400, f', s3) \<and>
    fs_at {} D [''a''] s3 \<and> map_at D h0 m \<and> (\<exists>j \<in> set (file_blocks h D). j \<notin> marked m)"
proof (rule created)
  fix fs s fs1 s1 f s2 D h0 h1 m t k h bs
  assume a: "FileSystem_new (\<lambda>_ _ _. 0) True fresh_fs = Inr (fs, s)"
    "Create (\<lambda>_ _ _. 0) ''a'' 300 0 fs s = Inr (True, fs1, s1)" "FileSystem_Open (\<lambda>_ _ _. 0) ''a'' s1 = Inr (Some f, s2)"
    and b: "fs_at {} D [''a''] s2" "fs_inv D [''a''] h0 h1 m t [(k, h, bs)]" "opened h k f" "numBytes h = 300" "numSectors h = 3" "room m = 1013"
  have o: "hdrSectorNumber f = k" using b(3) by (simp add: opened_def)
  have c: "divRoundUp (0 + 400 - numBytes h) SectorSize = int 1" "numSectors h = int 3" "128 * numSectors h < 0 + 400"
    "int 1 + int ((3 + 1 + 31) div 32 - num_tables h) \<le> room m" "nat 400 \<le> length (replicate 400 (7 :: byte))"
    "0 \<le> (0 :: int)" "0 < (400 :: int)" "3 + 1 \<le> (800 :: nat)"
    using b(4-6) by (simp_all add: divRoundUp_nonneg num_tables_eq)
  from WriteAt_extension_unmapped [OF b(1,2) o c(6,7,3,5,2,1,8,4), of "\<lambda>_ _. 0"]
  obtain f' s3 D' h' where "WriteAt (\<lambda>_ _. 0) (replicate 400 7) 400 0 f s2 = Inr (400, f', s3)" "fs_at {} D' [''a''] s3" "map_at D' h0 m"
    "\<exists>j \<in> set (file_blocks h' D'). j \<notin> marked m" unfolding yields_def by blast
  with a show ?thesis by blast
qed

text \<open>
  C37: \<^verbatim>\<open>Open\<close> of a name that does not exist does not return \<^verbatim>\<open>NULL\<close>, as its comment says, but the
  open file of the directory that was searched: a caller that then writes to the "file" overwrites the
  root directory.
\<close>

theorem Open_missing_gives_directory:
  assumes "fs_at {} D C s" "fs_inv D C h0 h1 m t F" "CHR ''/'' \<notin> set n" "dir_map C t n = None"
  shows "yields (FileSystem_Open junk n s) (\<lambda>(r, s'). (\<exists>f. r = Some f \<and> opened h1 1 f) \<and>
    (\<exists>D'. fs_at {} D' C s' \<and> fs_inv D' C h0 h1 m t F))"
  by (rule Open_missing [OF assms])

theorem Open_missing_gives_directory_witness:
  "\<exists>fs s f s'. FileSystem_new (\<lambda>_ _ _. 0) True fresh_fs = Inr (fs, s) \<and>
    FileSystem_Open (\<lambda>_ _ _. 0) ''a'' s = Inr (Some f, s') \<and> hdrSectorNumber f = 1"
proof -
  obtain fs s D h0 h1 m t where f: "FileSystem_new (\<lambda>_ _ _. 0) True fresh_fs = Inr (fs, s)" "fs_at {} D [] s"
    "fs_inv D [] h0 h1 m t []" "dir_map [] t = Map.empty" by (rule formatted)
  then have "CHR ''/'' \<notin> set ''a''" "dir_map [] t ''a'' = None" by simp_all
  from Open_missing_gives_directory [OF f(2,3) this, of "\<lambda>_ _ _. 0"] f(1) show ?thesis by (auto simp: opened_def elim!: yields_obtain)
qed

text \<open>
  C38: \<^verbatim>\<open>Create\<close> of a path whose directory does not exist does not return \<^verbatim>\<open>FALSE\<close>: \<^verbatim>\<open>getFileName\<close> leaves a null
  name, and adding it to the directory takes the length of the null string.
\<close>

theorem Create_without_parent_crashes:
  assumes "fs_at {} D C s" "fs_inv D C h0 h1 m t F" "hdrSectorNumber (freeMapFile fs) = 0"
    and "CHR ''/'' \<notin> set a" "CHR ''/'' \<notin> set b" "dir_map C t b = None" "0 < room m" "\<exists>e \<in> set t. \<not> inUse e"
  shows "Create junk (a @ ''/'' @ b @ ''/'' @ c) fileSize ftype fs s = Inl NullDeref"
  by (rule Create_no_parent [OF assms])

theorem Create_without_parent_crashes_witness:
  "\<exists>fs s. FileSystem_new (\<lambda>_ _ _. 0) True fresh_fs = Inr (fs, s) \<and> Create (\<lambda>_ _ _. 0) ''/dir/x'' 300 0 fs s = Inl NullDeref"
proof -
  obtain fs s D h0 h1 m t where f: "FileSystem_new (\<lambda>_ _ _. 0) True fresh_fs = Inr (fs, s)" "fs_at {} D [] s"
    "fs_inv D [] h0 h1 m t []" "dir_map [] t = Map.empty" "\<exists>e \<in> set t. \<not> inUse e" "room m = 1018" "hdrSectorNumber (freeMapFile fs) = 0"
    by (rule formatted)
  then have "CHR ''/'' \<notin> set []" "CHR ''/'' \<notin> set ''dir''" "dir_map [] t ''dir'' = None" "0 < room m" by simp_all
  from Create_without_parent_crashes [OF f(2,3,7) this f(5), of "\<lambda>_ _ _. 0" "''x''" 300 0] f(1) show ?thesis by auto
qed

end
