(* ===== verification/Elevator_Device.thy ===== *)
theory Elevator_Device
  imports Threads
begin

text \<open>
  The bank of elevators (\<^verbatim>\<open>machine/elevator.h\<close>, \<^verbatim>\<open>machine/elevator.cc\<close>).

  \<open>elevsys\<close> extends the kernel state with the members of \<^verbatim>\<open>ElevatorBank\<close>; the list of
  riders of an elevator holds the addresses of their threads, the event lists hold
  the events themselves.  The callbacks for riders and controllers are the arguments
  \<open>wakeR\<close> and \<open>wakeC\<close> of the interrupt handler.
\<close>

section \<open>State\<close>

datatype Direction = Down | Up | Neither

datatype ElevatorEvent = NoEvent | DoorsOpened | UpButtonPressed | DownButtonPressed
  | FloorButtonPressed | ElevatorArrived

record PendingElevatorEvent =
  evKind :: ElevatorEvent
  evFloor :: int
  evElevator :: int

record ElevatorInfo =
  display :: Direction
  doorsOpen :: bool
  inMotion :: bool
  lastFloor :: int
  willArrive :: int
  goingTo :: int
  riders :: "nat list"

record elevsys = kernel +
  numElevators :: int
  numFloors :: int
  riderEvents :: "PendingElevatorEvent list"
  controllerEvents :: "PendingElevatorEvent list"
  elevators :: "ElevatorInfo list"

type_synonym etrans = "elevsys \<Rightarrow> elevsys result"

abbreviation (input) MaxRiders :: nat where "MaxRiders \<equiv> 4"
abbreviation (input) DelayPerFloor :: int where "DelayPerFloor \<equiv> 100"

section \<open>One elevator\<close>

definition ElevatorInfo_new :: ElevatorInfo where
  "ElevatorInfo_new = \<lparr>display = Neither, doorsOpen = False, inMotion = False, lastFloor = 0,
     willArrive = 0, goingTo = 0, riders = []\<rparr>"

definition Info_OpenDoors :: "ElevatorInfo \<Rightarrow> (int \<times> ElevatorInfo) result" where
  "Info_OpenDoors e = ASSERT (\<not> doorsOpen e \<and> \<not> inMotion e) (Inr (lastFloor e, e\<lparr>doorsOpen := True\<rparr>))"

definition Info_CloseDoors :: "ElevatorInfo \<Rightarrow> ElevatorInfo result" where
  "Info_CloseDoors e = ASSERT (doorsOpen e) (Inr (e\<lparr>doorsOpen := False\<rparr>))"

definition Info_MoveTo :: "int \<Rightarrow> int \<Rightarrow> ElevatorInfo \<Rightarrow> (bool \<times> ElevatorInfo) result" where
  "Info_MoveTo now goingToFloor e =
     ASSERT (\<not> doorsOpen e \<and> (inMotion e \<or> lastFloor e \<noteq> goingToFloor))
       (let e = e\<lparr>goingTo := goingToFloor\<rparr> in
        if \<not> inMotion e then Inr (True, e\<lparr>willArrive := now + DelayPerFloor, inMotion := True\<rparr>)
        else Inr (False, e))"

definition Info_Enter :: "nat \<Rightarrow> int \<Rightarrow> ElevatorInfo \<Rightarrow> (bool \<times> ElevatorInfo) result" where
  "Info_Enter me onFloor e =
    (if \<not> doorsOpen e \<or> lastFloor e \<noteq> onFloor then Inr (False, e)
     else ASSERT (\<not> inMotion e) (ASSERT (length (riders e) < MaxRiders)
       (Inr (True, e\<lparr>riders := riders e @ [me]\<rparr>))))"

text \<open>\<^verbatim>\<open>riders->Remove(currentThread)\<close>: see \<open>List_RemoveItem_correct\<close>.\<close>

definition Info_Exit :: "nat \<Rightarrow> int \<Rightarrow> ElevatorInfo \<Rightarrow> (bool \<times> ElevatorInfo) result" where
  "Info_Exit me onFloor e =
    (if \<not> doorsOpen e \<or> lastFloor e \<noteq> onFloor then Inr (False, e)
     else ASSERT (\<not> inMotion e) (requireE NullDeref (riders e \<noteq> []) (ASSERT (me \<in> set (riders e))
       (Inr (True, e\<lparr>riders := remove1 me (riders e)\<rparr>)))))"

definition ReachedNextFloor :: "int \<Rightarrow> ElevatorInfo \<Rightarrow> bool \<times> ElevatorInfo" where
  "ReachedNextFloor now e =
    (if inMotion e \<and> now \<ge> willArrive e
     then (True, e\<lparr>lastFloor := lastFloor e + (if goingTo e > lastFloor e then 1 else -1)\<rparr>)
     else (False, e))"

definition CheckArrived :: "ElevatorInfo \<Rightarrow> bool \<times> ElevatorInfo" where
  "CheckArrived e = (if inMotion e \<and> lastFloor e = goingTo e then (True, e\<lparr>inMotion := False\<rparr>) else (False, e))"

section \<open>The bank\<close>

definition ElevatorBank_new :: "int \<Rightarrow> int \<Rightarrow> elevsys \<Rightarrow> elevsys" where
  "ElevatorBank_new numElvtr numFlr s = s\<lparr>numElevators := numElvtr, numFloors := numFlr, riderEvents := [],
     controllerEvents := [], elevators := map (\<lambda>_. ElevatorInfo_new) [0..numElvtr - 1]\<rparr>"

definition valid_elevator :: "int \<Rightarrow> elevsys \<Rightarrow> bool" where
  "valid_elevator i s \<longleftrightarrow> 0 \<le> i \<and> i < numElevators s"

definition valid_floor :: "int \<Rightarrow> elevsys \<Rightarrow> bool" where
  "valid_floor f s \<longleftrightarrow> 0 \<le> f \<and> f < numFloors s"

definition set_elevator :: "int \<Rightarrow> ElevatorInfo \<Rightarrow> elevsys \<Rightarrow> elevsys" where
  "set_elevator i e s = s\<lparr>elevators := (elevators s)[nat i := e]\<rparr>"

datatype listener = RiderList | ControllerList

definition PostEvent :: "listener \<Rightarrow> ElevatorEvent \<Rightarrow> int \<Rightarrow> int \<Rightarrow> bool \<Rightarrow> etrans" where
  "PostEvent l ev fl el quiet s =
    (let event = \<lparr>evKind = ev, evFloor = fl, evElevator = el\<rparr>;
         s = (case l of RiderList \<Rightarrow> s\<lparr>riderEvents := riderEvents s @ [event]\<rparr>
                      | ControllerList \<Rightarrow> s\<lparr>controllerEvents := controllerEvents s @ [event]\<rparr>)
     in if \<not> quiet then Schedule ElevatorHandler 0 1 ElevatorInt s else Inr s)"

text \<open>The event, its floor and its elevator; the latter two are left alone by an empty list.\<close>

definition getNextEvent :: "listener \<Rightarrow> elevsys \<Rightarrow> (ElevatorEvent \<times> (int \<times> int) option) \<times> elevsys" where
  "getNextEvent l s =
    (case (case l of RiderList \<Rightarrow> riderEvents s | ControllerList \<Rightarrow> controllerEvents s) of
       [] \<Rightarrow> ((NoEvent, None), s)
     | e # es \<Rightarrow> ((evKind e, Some (evFloor e, evElevator e)),
         case l of RiderList \<Rightarrow> s\<lparr>riderEvents := es\<rparr> | ControllerList \<Rightarrow> s\<lparr>controllerEvents := es\<rparr>))"

definition OpenDoors :: "int \<Rightarrow> etrans" where
  "OpenDoors i s = ASSERT (valid_elevator i s)
    (bindE (Info_OpenDoors (elevators s ! nat i)) (\<lambda>(fl, e). PostEvent RiderList DoorsOpened fl i False (set_elevator i e s)))"

definition CloseDoors :: "int \<Rightarrow> etrans" where
  "CloseDoors i s = ASSERT (valid_elevator i s)
    (bindE (Info_CloseDoors (elevators s ! nat i)) (\<lambda>e. Inr (set_elevator i e s)))"

definition MoveTo :: "int \<Rightarrow> int \<Rightarrow> etrans" where
  "MoveTo goingToFloor i s = ASSERT (valid_elevator i s) (ASSERT (valid_floor goingToFloor s)
    (bindE (Info_MoveTo (totalTicks (stats s)) goingToFloor (elevators s ! nat i)) (\<lambda>(started, e).
     let s = set_elevator i e s in
     if started then Schedule ElevatorHandler 0 DelayPerFloor ElevatorInt s else Inr s)))"

definition WhereIsElevator :: "int \<Rightarrow> elevsys \<Rightarrow> int result" where
  "WhereIsElevator i s = ASSERT (valid_elevator i s) (Inr (lastFloor (elevators s ! nat i)))"

definition MarkDirection :: "int \<Rightarrow> Direction \<Rightarrow> etrans" where
  "MarkDirection i dir s = ASSERT (valid_elevator i s) (Inr (set_elevator i ((elevators s ! nat i)\<lparr>display := dir\<rparr>) s))"

definition PressButton :: "int \<Rightarrow> Direction \<Rightarrow> etrans" where
  "PressButton onFloor dir s = ASSERT (valid_floor onFloor s \<and> dir \<noteq> Neither)
    (PostEvent ControllerList (if dir = Up then UpButtonPressed else DownButtonPressed) onFloor 0 False s)"

definition getDirection :: "int \<Rightarrow> elevsys \<Rightarrow> Direction result" where
  "getDirection i s = ASSERT (valid_elevator i s) (Inr (display (elevators s ! nat i)))"

definition EnterElevator :: "int \<Rightarrow> int \<Rightarrow> elevsys \<Rightarrow> (bool \<times> elevsys) result" where
  "EnterElevator onFloor i s = ASSERT (valid_floor onFloor s) (ASSERT (valid_elevator i s)
    (bindE (Info_Enter (currentThread s) onFloor (elevators s ! nat i)) (\<lambda>(ok, e). Inr (ok, set_elevator i e s))))"

definition PressFloor :: "int \<Rightarrow> int \<Rightarrow> etrans" where
  "PressFloor goingToFloor i s = ASSERT (valid_floor goingToFloor s) (ASSERT (valid_elevator i s)
    (PostEvent ControllerList FloorButtonPressed goingToFloor i False s))"

definition ExitElevator :: "int \<Rightarrow> int \<Rightarrow> elevsys \<Rightarrow> (bool \<times> elevsys) result" where
  "ExitElevator onFloor i s = ASSERT (valid_floor onFloor s) (ASSERT (valid_elevator i s)
    (bindE (Info_Exit (currentThread s) onFloor (elevators s ! nat i)) (\<lambda>(ok, e). Inr (ok, set_elevator i e s))))"

text \<open>One round of the loop of \<^verbatim>\<open>HandleInterrupt\<close>, with its variable \<^verbatim>\<open>intSched\<close>.\<close>

definition check_elevator :: "int \<Rightarrow> bool \<times> elevsys \<Rightarrow> (bool \<times> elevsys) result" where
  "check_elevator i = (\<lambda>(intSched, s).
     let (reached, e) = ReachedNextFloor (totalTicks (stats s)) (elevators s ! nat i);
         s = set_elevator i e s in
     if reached then
       let (arrived, e) = CheckArrived e; s = set_elevator i e s in
       if arrived then
         bindE (PostEvent ControllerList ElevatorArrived (goingTo e) i True s) (\<lambda>s. Inr (intSched, s))
       else if \<not> intSched then
         let s = set_elevator i (e\<lparr>willArrive := willArrive e + DelayPerFloor\<rparr>) s in
         bindE (Schedule ElevatorHandler 0 DelayPerFloor ElevatorInt s) (\<lambda>s. Inr (True, s))
       else Inr (intSched, s)
     else Inr (intSched, s))"

definition ElevatorBank_HandleInterrupt :: "etrans \<Rightarrow> etrans \<Rightarrow> etrans" where
  "ElevatorBank_HandleInterrupt wakeR wakeC s =
     bindE (foldE check_elevator [0..numElevators s - 1] (False, s)) (\<lambda>(_, s).
     bindE (if riderEvents s \<noteq> [] then wakeR s else Inr s) (\<lambda>s.
     if controllerEvents s \<noteq> [] then wakeC s else Inr s))"

definition elevator_call :: "etrans \<Rightarrow> etrans \<Rightarrow> handler \<Rightarrow> int \<Rightarrow> etrans" where
  "elevator_call wakeR wakeC h a s =
    (if h = ElevatorHandler then ElevatorBank_HandleInterrupt wakeR wakeC s else Inl WildPointer)"

text \<open>The callbacks of \<^verbatim>\<open>machine/elevatortest.cc\<close>: each signals a semaphore, inside the handler.\<close>

abbreviation (input) riderWakeup :: nat where "riderWakeup \<equiv> 0"
abbreviation (input) controllerWakeup :: nat where "controllerWakeup \<equiv> 1"

definition riders_callback :: etrans where
  "riders_callback s = Semaphore_V (\<lambda>h a s. Inl WildPointer) Inr 0 riderWakeup s"

definition controllers_callback :: etrans where
  "controllers_callback s = Semaphore_V (\<lambda>h a s. Inl WildPointer) Inr 0 controllerWakeup s"

section \<open>Safety\<close>

text \<open>
  A moving elevator has its doors closed, nobody rides too many, and an elevator
  that stands is at a floor of the building.  While it moves, its last floor can be
  one below the ground floor.
\<close>

definition info_ok :: "int \<Rightarrow> ElevatorInfo \<Rightarrow> bool" where
  "info_ok nf e \<longleftrightarrow> -1 \<le> lastFloor e \<and> lastFloor e < nf \<and> 0 \<le> goingTo e \<and> goingTo e < nf \<and>
     \<not> (doorsOpen e \<and> inMotion e) \<and> (\<not> inMotion e \<longrightarrow> 0 \<le> lastFloor e) \<and> length (riders e) \<le> MaxRiders"

definition bank_ok :: "elevsys \<Rightarrow> bool" where
  "bank_ok s \<longleftrightarrow> numElevators s = int (length (elevators s)) \<and> (\<forall>e \<in> set (elevators s). info_ok (numFloors s) e)"

lemma bank_ok_more: "kernel.more s' = kernel.more s \<Longrightarrow> bank_ok s' = bank_ok s"
  by (cases s; cases s') (simp add: bank_ok_def)

lemma bank_ok_set:
  assumes "bank_ok s" "info_ok (numFloors s) e"
  shows "bank_ok (set_elevator i e s)"
  using assms set_update_subset_insert [of "elevators s" "nat i" e] by (auto simp: bank_ok_def set_elevator_def)

lemma bank_ok_info: "bank_ok s \<Longrightarrow> valid_elevator i s \<Longrightarrow> info_ok (numFloors s) (elevators s ! nat i)"
  by (auto simp: bank_ok_def valid_elevator_def)

lemma bank_ok_update [simp]:
  "bank_ok (s\<lparr>pending := p\<rparr>) = bank_ok s" "bank_ok (s\<lparr>riderEvents := re\<rparr>) = bank_ok s" "bank_ok (s\<lparr>controllerEvents := ce\<rparr>) = bank_ok s"
  by (simp_all add: bank_ok_def)

lemma set_elevator_simps [simp]:
  "numFloors (set_elevator i e s) = numFloors s" "numElevators (set_elevator i e s) = numElevators s"
  "stats (set_elevator i e s) = stats s" "inHandler (set_elevator i e s) = inHandler s"
  by (simp_all add: set_elevator_def)

lemma Schedule_bank:
  assumes "Schedule h a t ty s = Inr s'"
  shows "bank_ok s' = bank_ok s" "numFloors s' = numFloors (s :: elevsys)" "numElevators s' = numElevators s" "inHandler s' = inHandler s"
  using assms by (auto simp: Schedule_def Let_def result_simps)

lemma PostEvent_bank:
  assumes "PostEvent l ev fl el q s = Inr s'"
  shows "bank_ok s' = bank_ok s" "numFloors s' = numFloors s" "numElevators s' = numElevators s" "inHandler s' = inHandler s"
  using assms Schedule_bank by (cases l; force simp: PostEvent_def Let_def split: if_splits)+

lemma check_elevator_ok:
  assumes "bank_ok s" "valid_elevator i s" "check_elevator i (b, s) = Inr (b', s')"
  shows "bank_ok s' \<and> numElevators s' = numElevators s \<and> inHandler s' = inHandler s"
proof -
  let ?e = "elevators s ! nat i"
  obtain r e where r: "ReachedNextFloor (totalTicks (stats s)) ?e = (r, e)" by (cases "ReachedNextFloor (totalTicks (stats s)) ?e")
  obtain a e' where a: "CheckArrived e = (a, e')" by (cases "CheckArrived e")
  have ok: "info_ok (numFloors s) ?e" using bank_ok_info [OF assms(1,2)] .
  have "info_ok (numFloors s) e" and m: "r \<Longrightarrow> inMotion e" using r ok by (auto simp: ReachedNextFloor_def info_ok_def split: if_splits)
  then have e: "info_ok (numFloors s) e" "info_ok (numFloors s) (e'\<lparr>willArrive := w\<rparr>)" "info_ok (numFloors s) e'" for w
    using a by (auto simp: CheckArrived_def info_ok_def split: if_splits)
  have same: "nat i < length (elevators s)" using assms(1,2) by (auto simp: bank_ok_def valid_elevator_def)
  have B: "bank_ok (set_elevator i e s)" "bank_ok (set_elevator i e' (set_elevator i e s))"
    "bank_ok (set_elevator i (e'\<lparr>willArrive := willArrive e' + DelayPerFloor\<rparr>) (set_elevator i e' (set_elevator i e s)))"
    using e by (simp_all add: bank_ok_set assms(1))
  show ?thesis
    using assms(3) B by (auto simp: check_elevator_def r a Let_def result_simps PostEvent_bank Schedule_bank split: if_splits)
qed

lemma check_elevators_ok:
  assumes "bank_ok s" "\<forall>i \<in> set is. valid_elevator i s" "foldE check_elevator is (b, s) = Inr (b', s')"
  shows "bank_ok s' \<and> inHandler s' = inHandler s"
  using assms
proof (induction "is" arbitrary: b s)
  case (Cons i js)
  obtain b1 s1 where c: "check_elevator i (b, s) = Inr (b1, s1)" "foldE check_elevator js (b1, s1) = Inr (b', s')"
    using Cons.prems(3) by (auto simp: bindE_eq_Inr)
  have "bank_ok s1 \<and> numElevators s1 = numElevators s \<and> inHandler s1 = inHandler s" using check_elevator_ok [OF Cons.prems(1) _ c(1)] Cons.prems(2) by simp
  then show ?case using Cons.IH [OF _ _ c(2)] Cons.prems(2) by (simp add: valid_elevator_def)
qed simp

text \<open>What the device relies on of its callbacks: called in the handler, they leave the bank alone.\<close>

locale elevator_callbacks =
  fixes wakeR wakeC :: etrans
  assumes wakeR_keeps: "inHandler s \<Longrightarrow> wakeR s = Inr s' \<Longrightarrow> kernel.more s' = kernel.more s \<and> inHandler s'"
    and wakeC_keeps: "inHandler s \<Longrightarrow> wakeC s = Inr s' \<Longrightarrow> kernel.more s' = kernel.more s \<and> inHandler s'"
begin

lemma handler_ok:
  assumes "bank_ok s" "inHandler s" "ElevatorBank_HandleInterrupt wakeR wakeC s = Inr s'"
  shows "bank_ok s'"
proof -
  obtain b s1 s2 where c: "foldE check_elevator [0..numElevators s - 1] (False, s) = Inr (b, s1)"
    "(if riderEvents s1 \<noteq> [] then wakeR s1 else Inr s1) = Inr s2" "(if controllerEvents s2 \<noteq> [] then wakeC s2 else Inr s2) = Inr s'"
    using assms(3) by (auto simp: ElevatorBank_HandleInterrupt_def bindE_eq_Inr)
  have "bank_ok s1" "inHandler s1" using check_elevators_ok [OF assms(1) _ c(1)] assms(2) by (auto simp: valid_elevator_def)
  then have "bank_ok s2" "inHandler s2" using c(2) wakeR_keeps [of s1 s2] bank_ok_more [of s2 s1] by (auto split: if_splits)
  then show ?thesis using c(3) wakeC_keeps [of s2 s'] bank_ok_more [of s' s2] by (auto split: if_splits)
qed

end

lemma V_in_handler:
  assumes "inHandler s" "Semaphore_V call dload n i (s :: elevsys) = Inr s'"
  shows "kernel.more s' = kernel.more s \<and> inHandler s'"
  using assms
  by (auto simp: result_simps Semaphore_V_def SetLevel_def ChangeLevel_def Let_def V_body_def set_sem_def ReadyToRun_def setStatus_def
      update_thread_def thread_at_def split: list.splits option.splits if_splits)

interpretation elevatortest: elevator_callbacks riders_callback controllers_callback
  by unfold_locales (auto simp: riders_callback_def controllers_callback_def dest: V_in_handler)

section \<open>All runs\<close>

text \<open>
  A step is a call by some thread, the interrupt handler, or anything else that the
  kernel does: time passes, other threads run, other devices interrupt.
\<close>

inductive elevator_step :: "elevsys \<Rightarrow> elevsys \<Rightarrow> bool" where
  open_doors: "OpenDoors i s = Inr s' \<Longrightarrow> elevator_step s s'"
| close_doors: "CloseDoors i s = Inr s' \<Longrightarrow> elevator_step s s'"
| move_to: "MoveTo f i s = Inr s' \<Longrightarrow> elevator_step s s'"
| mark: "MarkDirection i d s = Inr s' \<Longrightarrow> elevator_step s s'"
| press_button: "PressButton f d s = Inr s' \<Longrightarrow> elevator_step s s'"
| enter: "EnterElevator f i s = Inr (ok, s') \<Longrightarrow> elevator_step s s'"
| press_floor: "PressFloor f i s = Inr s' \<Longrightarrow> elevator_step s s'"
| exit: "ExitElevator f i s = Inr (ok, s') \<Longrightarrow> elevator_step s s'"
| next_event: "getNextEvent l s = (ev, s') \<Longrightarrow> elevator_step s s'"
| interrupt: "inHandler s \<Longrightarrow> ElevatorBank_HandleInterrupt riders_callback controllers_callback s = Inr s' \<Longrightarrow> elevator_step s s'"
| kernel: "kernel.more s' = kernel.more s \<Longrightarrow> elevator_step s s'"

lemma Info_ok:
  assumes "info_ok nf e"
  shows "Info_OpenDoors e = Inr (fl, e') \<Longrightarrow> info_ok nf e'" "Info_CloseDoors e = Inr e' \<Longrightarrow> info_ok nf e'"
    "0 \<le> f \<Longrightarrow> f < nf \<Longrightarrow> Info_MoveTo now f e = Inr (b, e') \<Longrightarrow> info_ok nf e'"
    "Info_Enter me f e = Inr (b, e') \<Longrightarrow> info_ok nf e'" "Info_Exit me f e = Inr (b, e') \<Longrightarrow> info_ok nf e'" "info_ok nf (e\<lparr>display := d\<rparr>)"
  using assms
  by (auto simp: info_ok_def Info_OpenDoors_def Info_CloseDoors_def Info_MoveTo_def Info_Enter_def Info_Exit_def result_simps Let_def
      length_remove1 split: if_splits)

lemma elevator_step_ok:
  assumes "elevator_step s s'" and B: "bank_ok s"
  shows "bank_ok s'"
  using assms(1)
proof cases
  case (open_doors i)
  then obtain fl e where o: "valid_elevator i s" "Info_OpenDoors (elevators s ! nat i) = Inr (fl, e)"
    "PostEvent RiderList DoorsOpened fl i False (set_elevator i e s) = Inr s'" by (auto simp: OpenDoors_def result_simps)
  show ?thesis using bank_ok_set [OF B Info_ok(1) [OF bank_ok_info [OF B o(1)] o(2)]] PostEvent_bank(1) [OF o(3)] by simp
next
  case (close_doors i)
  then obtain e where o: "valid_elevator i s" "Info_CloseDoors (elevators s ! nat i) = Inr e" "s' = set_elevator i e s"
    by (auto simp: CloseDoors_def result_simps)
  show ?thesis using bank_ok_set [OF B Info_ok(2) [OF bank_ok_info [OF B o(1)] o(2)]] o(3) by simp
next
  case (move_to f i)
  then obtain b e where o: "valid_elevator i s" "0 \<le> f" "f < numFloors s" "Info_MoveTo (totalTicks (stats s)) f (elevators s ! nat i) = Inr (b, e)"
    "(if b then Schedule ElevatorHandler 0 DelayPerFloor ElevatorInt (set_elevator i e s) else Inr (set_elevator i e s)) = Inr s'"
    by (auto simp: MoveTo_def valid_floor_def result_simps Let_def)
  show ?thesis
    using bank_ok_set [OF B Info_ok(3) [OF bank_ok_info [OF B o(1)] o(2-4)]] o(5)
      Schedule_bank(1) [of ElevatorHandler 0 DelayPerFloor ElevatorInt "set_elevator i e s" s'] by (auto split: if_splits)
next
  case (mark i d)
  then show ?thesis using bank_ok_set [OF B Info_ok(6) [OF bank_ok_info [OF B]]] by (auto simp: MarkDirection_def result_simps)
next
  case (enter f i ok)
  then obtain e where o: "valid_elevator i s" "Info_Enter (currentThread s) f (elevators s ! nat i) = Inr (ok, e)" "s' = set_elevator i e s"
    by (auto simp: EnterElevator_def result_simps)
  show ?thesis using bank_ok_set [OF B Info_ok(4) [OF bank_ok_info [OF B o(1)] o(2)]] o(3) by simp
next
  case (exit f i ok)
  then obtain e where o: "valid_elevator i s" "Info_Exit (currentThread s) f (elevators s ! nat i) = Inr (ok, e)" "s' = set_elevator i e s"
    by (auto simp: ExitElevator_def result_simps)
  show ?thesis using bank_ok_set [OF B Info_ok(5) [OF bank_ok_info [OF B o(1)] o(2)]] o(3) by simp
next
  case (next_event l ev)
  then show ?thesis using B by (cases l) (auto simp: getNextEvent_def split: list.splits)
next
  case interrupt
  then show ?thesis using elevatortest.handler_ok B by blast
next
  case kernel
  then show ?thesis using bank_ok_more B by blast
next
  case (press_button f d)
  then show ?thesis using B PostEvent_bank(1) by (auto simp: PressButton_def result_simps)
next
  case (press_floor f i)
  then show ?thesis using B PostEvent_bank(1) by (auto simp: PressFloor_def result_simps)
qed

lemma bank_ok_new: "0 \<le> n \<Longrightarrow> 0 < nf \<Longrightarrow> bank_ok (ElevatorBank_new n nf s)"
  by (auto simp: bank_ok_def ElevatorBank_new_def ElevatorInfo_new_def info_ok_def)

section \<open>Riding\<close>

text \<open>The next \<open>n\<close> interrupts, with the clock advanced to each as the idle loop does.\<close>

fun next_interrupts :: "nat \<Rightarrow> etrans" where
  "next_interrupts 0 s = Inr s"
| "next_interrupts (Suc n) s =
     bindE (CheckIfDue (elevator_call riders_callback controllers_callback) Inr True s) (\<lambda>(_, s). next_interrupts n s)"

text \<open>A bank with one elevator and no other device, with nothing pending.\<close>

definition lone_elevator :: "ElevatorInfo \<Rightarrow> elevsys \<Rightarrow> bool" where
  "lone_elevator e s \<longleftrightarrow> elevators s = [e] \<and> numElevators s = 1 \<and> level s = IntOff \<and> riderEvents s = [] \<and>
     controllerEvents s = [] \<and> set (squeue (sems s controllerWakeup)) \<subseteq> dom (threads s)"

definition on_the_way :: "ElevatorInfo \<Rightarrow> elevsys \<Rightarrow> bool" where
  "on_the_way e s \<longleftrightarrow> lone_elevator e s \<and> inMotion e \<and> totalTicks (stats s) \<le> willArrive e \<and>
     pending s = [(willArrive e, PendingInterrupt_new ElevatorHandler 0 (willArrive e) ElevatorInt)]"

text \<open>One floor further.\<close>

lemma one_floor:
  assumes s: "on_the_way e s" and d: "goingTo e \<noteq> lastFloor e" "goingTo e \<noteq> lastFloor e + sgn (goingTo e - lastFloor e)"
  shows "\<exists>s'. CheckIfDue (elevator_call riders_callback controllers_callback) Inr True s = Inr (True, s') \<and>
    on_the_way (e\<lparr>lastFloor := lastFloor e + sgn (goingTo e - lastFloor e), willArrive := willArrive e + DelayPerFloor\<rparr>) s' \<and>
    totalTicks (stats s') = willArrive e \<and> numFloors s' = numFloors s"
  using assms
  by (auto simp: on_the_way_def lone_elevator_def CheckIfDue_def fire_def elevator_call_def ElevatorBank_HandleInterrupt_def
      PendingInterrupt_new_def check_elevator_def ReachedNextFloor_def CheckArrived_def set_elevator_def Schedule_def Let_def sgn_if split: if_splits)

lemma V_yields:
  assumes "inHandler s" "level s = IntOff" "set (squeue (sems s i)) \<subseteq> dom (threads s)"
  shows "yields (Semaphore_V call dload n i s) (\<lambda>s'. kernel.more s' = kernel.more s \<and> stats s' = stats s \<and> level s' = IntOff \<and> pending s' = pending s)"
proof (cases "squeue (sems s i)")
  case Nil
  then show ?thesis using assms by (simp add: Semaphore_V_def SetLevel_def ChangeLevel_def Let_def V_body_def set_sem_def)
next
  case (Cons p ps)
  then obtain t where "threads s p = Some t" using assms(3) by auto
  then show ?thesis using assms Cons
    by (simp add: Semaphore_V_def SetLevel_def ChangeLevel_def Let_def V_body_def set_sem_def ReadyToRun_def setStatus_def update_thread_def thread_at_def)
qed

text \<open>The last floor: the controllers are told.\<close>

lemma last_floor:
  assumes s: "on_the_way e s" and d: "goingTo e \<noteq> lastFloor e" "goingTo e = lastFloor e + sgn (goingTo e - lastFloor e)"
  shows "yields (CheckIfDue (elevator_call riders_callback controllers_callback) Inr True s) (\<lambda>(_, s').
    elevators s' = [e\<lparr>lastFloor := goingTo e, inMotion := False\<rparr>] \<and> pending s' = [] \<and> riderEvents s' = [] \<and>
    controllerEvents s' = [\<lparr>evKind = ElevatorArrived, evFloor = goingTo e, evElevator = 0\<rparr>] \<and> totalTicks (stats s') = willArrive e)"
proof -
  let ?u = "s\<lparr>pending := [], stats := (if willArrive e > totalTicks (stats s) then (stats s)\<lparr>idleTicks := idleTicks (stats s) + (willArrive e - totalTicks (stats s)),
    totalTicks := willArrive e\<rparr> else stats s), inHandler := True, istatus := SystemMode, elevators := [e\<lparr>lastFloor := goingTo e, inMotion := False\<rparr>],
    controllerEvents := [\<lparr>evKind = ElevatorArrived, evFloor = goingTo e, evElevator = 0\<rparr>]\<rparr>"
  have t: "totalTicks (stats ?u) = willArrive e" using s by (simp add: on_the_way_def)
  have "yields (Semaphore_V (\<lambda>h a s. Inl WildPointer) Inr 0 controllerWakeup ?u)
      (\<lambda>s'. kernel.more s' = kernel.more ?u \<and> stats s' = stats ?u \<and> level s' = IntOff \<and> pending s' = pending ?u)"
    using s by (intro V_yields) (simp_all add: on_the_way_def lone_elevator_def)
  then obtain v where v: "Semaphore_V (\<lambda>h a s. Inl WildPointer) Inr 0 controllerWakeup ?u = Inr v" "kernel.more v = kernel.more ?u"
    "stats v = stats ?u" "pending v = pending ?u" by (auto elim!: yields_obtain)
  have m: "elevators v = elevators ?u" "riderEvents v = riderEvents ?u" "controllerEvents v = controllerEvents ?u"
    using v(2) by (cases v; cases s; simp)+
  have lf: "lastFloor e + (if lastFloor e < goingTo e then 1 else -1) = goingTo e" using d by (auto simp: sgn_if split: if_splits)
  have "CheckIfDue (elevator_call riders_callback controllers_callback) Inr True s = Inr (True, v\<lparr>istatus := istatus s, inHandler := False\<rparr>)"
    using s d v(1) lf
    by (cases s) (auto simp: on_the_way_def lone_elevator_def CheckIfDue_def fire_def elevator_call_def ElevatorBank_HandleInterrupt_def
      PendingInterrupt_new_def check_elevator_def ReachedNextFloor_def CheckArrived_def set_elevator_def PostEvent_def controllers_callback_def Let_def split: if_splits)
  then show ?thesis using v(3,4) m s t by (simp add: on_the_way_def lone_elevator_def)
qed

lemma ride:
  assumes "on_the_way e s" "nat \<bar>goingTo e - lastFloor e\<bar> = Suc n"
  shows "yields (next_interrupts (Suc n) s) (\<lambda>s'.
    elevators s' = [e\<lparr>lastFloor := goingTo e, inMotion := False, willArrive := willArrive e + DelayPerFloor * int n\<rparr>] \<and>
    controllerEvents s' = [\<lparr>evKind = ElevatorArrived, evFloor = goingTo e, evElevator = 0\<rparr>] \<and>
    totalTicks (stats s') = willArrive e + DelayPerFloor * int n)"
  using assms
proof (induction n arbitrary: e s)
  case 0
  then have "goingTo e \<noteq> lastFloor e" "goingTo e = lastFloor e + sgn (goingTo e - lastFloor e)" by (auto simp: sgn_if)
  from last_floor [OF 0(1) this] show ?case by (cases e) (auto elim!: yields_mono)
next
  case (Suc n)
  then have d: "goingTo e \<noteq> lastFloor e" "goingTo e \<noteq> lastFloor e + sgn (goingTo e - lastFloor e)" by (auto simp: sgn_if)
  let ?e = "e\<lparr>lastFloor := lastFloor e + sgn (goingTo e - lastFloor e), willArrive := willArrive e + DelayPerFloor\<rparr>"
  obtain s' where s': "CheckIfDue (elevator_call riders_callback controllers_callback) Inr True s = Inr (True, s')" "on_the_way ?e s'"
    using one_floor [OF Suc.prems(1) d] by blast
  have "nat \<bar>goingTo ?e - lastFloor ?e\<bar> = Suc n" using Suc.prems(2) by (auto simp: sgn_if split: if_splits)
  note ih = Suc.IH [OF s'(2) this]
  have "next_interrupts (Suc (Suc n)) s = next_interrupts (Suc n) s'" using s'(1) by simp
  with ih show ?case by (cases e) (simp add: algebra_simps del: next_interrupts.simps)
qed

section \<open>Properties\<close>

text \<open>
  C19: in every run of the bank, whatever the threads call, whenever interrupts come and whatever
  the rest of the kernel does in between, an elevator that moves has its doors
  closed, at most four riders are aboard, and an elevator that stands is at a floor of the
  building and was sent to one.
\<close>

theorem elevator_safety:
  assumes "0 \<le> n" "0 < nf" "elevator_step\<^sup>*\<^sup>* (ElevatorBank_new n nf s0) s" "e \<in> set (elevators s)"
  shows "\<not> (doorsOpen e \<and> inMotion e) \<and> length (riders e) \<le> 4 \<and> lastFloor e < numFloors s \<and>
    0 \<le> goingTo e \<and> goingTo e < numFloors s \<and> 0 \<le> lastFloor e + (if inMotion e then 1 else 0)"
proof -
  have "bank_ok s" using assms(3)
    by (induction rule: rtranclp_induct) (auto intro: bank_ok_new [OF assms(1,2)] elevator_step_ok)
  then show ?thesis using assms(4) by (auto simp: bank_ok_def info_ok_def)
qed

definition idle_kernel :: elevsys where
  "idle_kernel = \<lparr>level = IntOff, pending = [], inHandler = False, yieldOnReturn = False, istatus = SystemMode, stats = Statistics_new,
     threads = (\<lambda>_. None), freshThread = 0, threadMap = replicate MaxThreads False, currentThread = 0, threadToBeDestroyed = None,
     readyList = [], blockedList = [], sems = (\<lambda>_. Semaphore_new 0), locks = (\<lambda>_. \<lparr>lsem = 0, holder = None\<rparr>), conds = (\<lambda>_. []),
     randoms = (\<lambda>_. 0), numElevators = 0, numFloors = 0, riderEvents = [], controllerEvents = [], elevators = []\<rparr>"

theorem elevator_safety_witness:
  "\<exists>s e. OpenDoors 0 (ElevatorBank_new 1 2 idle_kernel) = Inr s \<and> e \<in> set (elevators s) \<and> doorsOpen e \<and> \<not> (doorsOpen e \<and> inMotion e)"
proof -
  obtain s where s: "OpenDoors 0 (ElevatorBank_new 1 2 idle_kernel) = Inr s" "elevators s = [ElevatorInfo_new\<lparr>doorsOpen := True\<rparr>]"
    by (auto simp: OpenDoors_def valid_elevator_def ElevatorBank_new_def Info_OpenDoors_def ElevatorInfo_new_def PostEvent_def Schedule_def
        set_elevator_def Let_def)
  have "elevator_step\<^sup>*\<^sup>* (ElevatorBank_new 1 2 idle_kernel) s" using elevator_step.open_doors [OF s(1)] by blast
  from elevator_safety [OF _ _ this, of "ElevatorInfo_new\<lparr>doorsOpen := True\<rparr>"] show ?thesis using s by auto
qed

text \<open>
  C20: an elevator that is sent to another floor, with no other elevator and no other
  device, gets there: it passes one floor with each interrupt, a fixed time apart, and on
  arrival it stands at the floor and exactly one event tells the controllers.
\<close>

theorem elevator_arrives:
  assumes "lone_elevator e s" "pending s = []" "\<not> doorsOpen e" "\<not> inMotion e" "0 \<le> f" "f < numFloors s" "f \<noteq> lastFloor e"
  shows "yields (bindE (MoveTo f 0 s) (next_interrupts (nat \<bar>f - lastFloor e\<bar>))) (\<lambda>s'.
    (\<exists>e'. elevators s' = [e'] \<and> lastFloor e' = f \<and> \<not> inMotion e' \<and> riders e' = riders e) \<and>
    controllerEvents s' = [\<lparr>evKind = ElevatorArrived, evFloor = f, evElevator = 0\<rparr>] \<and>
    totalTicks (stats s') = totalTicks (stats s) + DelayPerFloor * \<bar>f - lastFloor e\<bar>)"
proof -
  let ?w = "totalTicks (stats s) + DelayPerFloor"
  let ?e = "e\<lparr>goingTo := f, willArrive := ?w, inMotion := True\<rparr>"
  let ?s = "s\<lparr>elevators := [?e], pending := [(?w, PendingInterrupt_new ElevatorHandler 0 ?w ElevatorInt)]\<rparr>"
  have m: "MoveTo f 0 s = Inr ?s"
    using assms by (simp add: MoveTo_def valid_elevator_def valid_floor_def Info_MoveTo_def lone_elevator_def set_elevator_def Schedule_def Let_def)
  have o: "on_the_way ?e ?s" using assms by (simp add: on_the_way_def lone_elevator_def)
  obtain n where n: "nat \<bar>f - lastFloor e\<bar> = Suc n" using assms(7) by (cases "nat \<bar>f - lastFloor e\<bar>") auto
  have "\<bar>f - lastFloor e\<bar> = int n + 1" using n by linarith
  then have a: "DelayPerFloor * \<bar>f - lastFloor e\<bar> = DelayPerFloor * int n + DelayPerFloor" by simp
  from ride [OF o] n have "yields (next_interrupts (Suc n) ?s) (\<lambda>s'.
    elevators s' = [?e\<lparr>lastFloor := f, inMotion := False, willArrive := ?w + DelayPerFloor * int n\<rparr>] \<and>
    controllerEvents s' = [\<lparr>evKind = ElevatorArrived, evFloor = f, evElevator = 0\<rparr>] \<and>
    totalTicks (stats s') = ?w + DelayPerFloor * int n)" by simp
  then show ?thesis unfolding n m a bindE_Inr by (rule yields_mono) auto
qed

theorem elevator_arrives_witness:
  "\<exists>s'. bindE (MoveTo 3 0 (ElevatorBank_new 1 5 idle_kernel)) (next_interrupts 3) = Inr s' \<and> totalTicks (stats s') = 300"
proof -
  have s: "lone_elevator ElevatorInfo_new (ElevatorBank_new 1 5 idle_kernel)" "pending (ElevatorBank_new 1 5 idle_kernel) = []"
    "numFloors (ElevatorBank_new 1 5 idle_kernel) = 5" "totalTicks (stats (ElevatorBank_new 1 5 idle_kernel)) = 0"
    by (simp_all add: lone_elevator_def ElevatorBank_new_def idle_kernel_def Semaphore_new_def Statistics_new_def)
  have e: "\<not> doorsOpen ElevatorInfo_new" "\<not> inMotion ElevatorInfo_new" "lastFloor ElevatorInfo_new = 0" by (simp_all add: ElevatorInfo_new_def)
  from elevator_arrives [OF s(1,2) e(1,2), of 3] s(3,4) e(3) show ?thesis by (auto simp: eval_nat_numeral elim!: yields_obtain)
qed

text \<open>
  Of two elevators that start together the second is too fast.  The handler moves on the arrival time
  of the first moving elevator only, so the second has already passed two floors after the time
  for one.
\<close>

theorem second_elevator_too_fast:
  assumes "numElevators s = 2" "elevators s = [e0, e1]" "level s = IntOff" "pending s = []" "riderEvents s = []" "controllerEvents s = []"
    and "lastFloor e0 = 0" "\<not> doorsOpen e0" "\<not> inMotion e0" "lastFloor e1 = 0" "\<not> doorsOpen e1" "\<not> inMotion e1" "3 < numFloors s"
  shows "yields (bindE (MoveTo 3 0 s) (\<lambda>s. bindE (MoveTo 3 1 s) (next_interrupts 2))) (\<lambda>s'.
    totalTicks (stats s') = totalTicks (stats s) + DelayPerFloor \<and> WhereIsElevator 0 s' = Inr 1 \<and> WhereIsElevator 1 s' = Inr 2)"
proof -
  have u: "[0..1] = [0, 1 :: int]" by (simp add: upto.simps)
  show ?thesis using assms
    by (simp add: MoveTo_def valid_elevator_def valid_floor_def Info_MoveTo_def set_elevator_def Schedule_def Let_def WhereIsElevator_def u
        eval_nat_numeral CheckIfDue_def fire_def elevator_call_def ElevatorBank_HandleInterrupt_def PendingInterrupt_new_def check_elevator_def
        ReachedNextFloor_def CheckArrived_def seq_sorted_insert_def)
qed

theorem second_elevator_too_fast_witness:
  "\<exists>s'. bindE (MoveTo 3 0 (ElevatorBank_new 2 5 idle_kernel)) (\<lambda>s. bindE (MoveTo 3 1 s) (next_interrupts 2)) = Inr s' \<and>
     totalTicks (stats s') = 100 \<and> WhereIsElevator 1 s' = Inr 2"
proof -
  let ?s = "ElevatorBank_new 2 5 idle_kernel"
  have u: "[0..1] = [0, 1 :: int]" by (simp add: upto.simps)
  have "numElevators ?s = 2" "elevators ?s = [ElevatorInfo_new, ElevatorInfo_new]" "level ?s = IntOff" "pending ?s = []" "riderEvents ?s = []"
    "controllerEvents ?s = []" "lastFloor ElevatorInfo_new = 0" "\<not> doorsOpen ElevatorInfo_new" "\<not> inMotion ElevatorInfo_new" "3 < numFloors ?s"
    "totalTicks (stats ?s) = 0"
    by (simp_all add: ElevatorBank_new_def idle_kernel_def ElevatorInfo_new_def Statistics_new_def u)
  with second_elevator_too_fast [of ?s ElevatorInfo_new ElevatorInfo_new] show ?thesis by (auto elim!: yields_obtain)
qed

text \<open>
  A moving elevator that is told to stop at the floor it last passed counts downwards from
  there: at the ground floor it gets to floor \<open>- 1\<close>.
\<close>

theorem elevator_below_ground:
  assumes "lone_elevator e s" "pending s = []" "\<not> doorsOpen e" "\<not> inMotion e" "lastFloor e = 0" "1 < numFloors s"
  shows "yields (bindE (MoveTo 1 0 s) (\<lambda>s. bindE (MoveTo 0 0 s) (next_interrupts 1))) (\<lambda>s'. WhereIsElevator 0 s' = Inr (-1))"
  using assms
  by (simp add: lone_elevator_def MoveTo_def valid_elevator_def valid_floor_def Info_MoveTo_def set_elevator_def Schedule_def Let_def WhereIsElevator_def
      CheckIfDue_def fire_def elevator_call_def ElevatorBank_HandleInterrupt_def PendingInterrupt_new_def check_elevator_def
      ReachedNextFloor_def CheckArrived_def)

end
