(* ===== verification/Console_Device.thy ===== *)
theory Console_Device
  imports Threads
begin

text \<open>
  The console device and its synchronised version (\<^verbatim>\<open>machine/console.h\<close>, \<^verbatim>\<open>machine/console.cc\<close>), and
  the echo program \<^verbatim>\<open>ConsoleTest\<close> of \<^verbatim>\<open>userprog/progtest.cc\<close>.

  \<open>consys\<close> extends the kernel state with the members of \<^verbatim>\<open>Console\<close> and the two UNIX files behind it:
  \<open>keyboard\<close> holds what has been typed and not yet read, \<open>screen\<close> what has been written.  A file that has
  ended (\<open>kbdClosed\<close>) polls as readable, and the read then finds nothing, which \<^verbatim>\<open>Read\<close> of
  \<^verbatim>\<open>sysdep.cc\<close> refuses.  The buffer \<open>incoming\<close> is a \<^verbatim>\<open>char\<close>; its value for "empty" is \<^verbatim>\<open>EOF\<close>,
  that is -1.
\<close>

section \<open>The device\<close>

record consys = kernel +
  keyboard :: "byte list"
  kbdClosed :: bool
  screen :: "byte list"
  putBusy :: bool
  incoming :: byte

type_synonym ctrans = "consys \<Rightarrow> consys result"

abbreviation (input) EOF :: byte where "EOF \<equiv> - 1"
abbreviation (input) ConsoleTime :: int where "ConsoleTime \<equiv> 100"

definition Console_new :: ctrans where
  "Console_new s = Schedule ConsoleReadPoll 0 ConsoleTime ConsoleReadInt (s\<lparr>putBusy := False, incoming := EOF\<rparr>)"

definition PollFile :: "consys \<Rightarrow> bool" where
  "PollFile s \<longleftrightarrow> keyboard s \<noteq> [] \<or> kbdClosed s"

definition CheckCharAvail :: "ctrans \<Rightarrow> ctrans" where
  "CheckCharAvail readHandler s =
     bindE (Schedule ConsoleReadPoll 0 ConsoleTime ConsoleReadInt s) (\<lambda>s.
     if incoming s \<noteq> EOF \<or> \<not> PollFile s then Inr s
     else case keyboard s of
       [] \<Rightarrow> Inl AssertFailed
     | c # rest \<Rightarrow>
         readHandler (s\<lparr>keyboard := rest, incoming := c,
           stats := (stats s)\<lparr>numConsoleCharsRead := numConsoleCharsRead (stats s) + 1\<rparr>\<rparr>))"

definition WriteDone :: "ctrans \<Rightarrow> ctrans" where
  "WriteDone writeHandler s =
     writeHandler (s\<lparr>putBusy := False,
       stats := (stats s)\<lparr>numConsoleCharsWritten := numConsoleCharsWritten (stats s) + 1\<rparr>\<rparr>)"

definition GetChar :: "consys \<Rightarrow> byte \<times> consys" where
  "GetChar s = (incoming s, s\<lparr>incoming := EOF\<rparr>)"

definition PutChar :: "byte \<Rightarrow> ctrans" where
  "PutChar ch s = ASSERT (\<not> putBusy s)
    (Schedule ConsoleWriteDone 0 ConsoleTime ConsoleWriteInt (s\<lparr>screen := screen s @ [ch], putBusy := True\<rparr>))"

section \<open>The echo program\<close>

text \<open>Its semaphores, and the lock of the synchronised console.\<close>

abbreviation (input) readAvail :: nat where "readAvail \<equiv> 0"
abbreviation (input) writeDone :: nat where "writeDone \<equiv> 1"
abbreviation (input) consoleLock :: nat where "consoleLock \<equiv> 0"
abbreviation (input) consoleSem :: nat where "consoleSem \<equiv> 2"

definition ReadAvail :: ctrans where
  "ReadAvail s = Semaphore_V (\<lambda>h a s. Inl WildPointer) Inr 0 readAvail s"

definition WriteDone_signal :: ctrans where
  "WriteDone_signal s = Semaphore_V (\<lambda>h a s. Inl WildPointer) Inr 0 writeDone s"

definition console_call :: "handler \<Rightarrow> int \<Rightarrow> ctrans" where
  "console_call h a s =
    (if h = ConsoleReadPoll then CheckCharAvail ReadAvail s
     else if h = ConsoleWriteDone then WriteDone WriteDone_signal s
     else Inl WildPointer)"

definition SynchConsole_new :: ctrans where
  "SynchConsole_new s = bindE (Console_new s) (\<lambda>s.
     Inr (s\<lparr>locks := (locks s)(consoleLock := \<lparr>lsem = consoleSem, holder = None\<rparr>),
       sems := (sems s)(consoleSem := Semaphore_new 1)\<rparr>))"

definition SynchConsole_GetChar :: "nat \<Rightarrow> consys \<Rightarrow> (byte \<times> consys) result" where
  "SynchConsole_GetChar n s =
     bindE (Lock_Acquire console_call Inr n consoleLock s) (\<lambda>s.
     let (ch, s) = GetChar s in
     bindE (Lock_Release console_call Inr n consoleLock s) (\<lambda>s. Inr (ch, s)))"

definition SynchConsole_PutChar :: "nat \<Rightarrow> byte \<Rightarrow> ctrans" where
  "SynchConsole_PutChar n ch s =
     bindE (Lock_Acquire console_call Inr n consoleLock s) (\<lambda>s.
     bindE (PutChar ch s) (Lock_Release console_call Inr n consoleLock))"

text \<open>The loop of \<^verbatim>\<open>ConsoleTest\<close>, with a bound on its rounds; \<open>n\<close> bounds the waiting inside.\<close>

abbreviation (input) quit :: byte where "quit \<equiv> 0x71"

fun echo_loop :: "nat \<Rightarrow> nat \<Rightarrow> ctrans" where
  "echo_loop 0 n s = Inl Diverges"
| "echo_loop (Suc k) n s =
     bindE (Semaphore_P console_call Inr n readAvail s) (\<lambda>s.
     bindE (SynchConsole_GetChar n s) (\<lambda>(ch, s).
     bindE (SynchConsole_PutChar n ch s) (\<lambda>s.
     bindE (Semaphore_P console_call Inr n writeDone s) (\<lambda>s.
     if ch = quit then Inr s else echo_loop k n s))))"

definition ConsoleTest :: "nat \<Rightarrow> nat \<Rightarrow> ctrans" where
  "ConsoleTest k n s =
     bindE (SynchConsole_new s) (\<lambda>s.
     echo_loop k n (s\<lparr>sems := (sems s)(readAvail := Semaphore_new 0, writeDone := Semaphore_new 0)\<rparr>))"

section \<open>The invariant of the console\<close>

text \<open>
  A view of the echo program: the thread, what has been typed, what it has got and shown, the
  semaphore it sleeps on, the characters it has taken a turn for (\<open>taken\<close>) and the completed or
  running output it still has to wait for (\<open>owed\<close>), the state of the lock, a lower bound for the next poll, the time at
  which the running output completes, and whether a character is known to have arrived, the output to have finished.
\<close>

record cview =
  vme :: nat
  typed :: "byte list"
  got :: "byte list"
  shown :: "byte list"
  asleep :: "nat option"
  taken :: int
  owed :: int
  lockVal :: int
  lockHolder :: "nat option"
  pollFrom :: int
  doneAt :: int
  arrived :: bool
  finished :: bool

definition buffered :: "consys \<Rightarrow> byte list" where
  "buffered s = (if incoming s = EOF then [] else [incoming s])"

definition busy :: "consys \<Rightarrow> int" where
  "busy s = (if putBusy s then 1 else 0)"

text \<open>The interrupts pending: one poll, and the completion of the output if one is running.\<close>

definition con_pending :: "cview \<Rightarrow> consys \<Rightarrow> bool" where
  "con_pending v s \<longleftrightarrow> sorted (map fst (pending s)) \<and>
     (\<exists>w q r. mset (pending s) = {#(w, q)#} + (if putBusy s then {#(doneAt v, r)#} else {#}) \<and>
        phandler q = ConsoleReadPoll \<and> ptype q \<noteq> TimerInt \<and> phandler r = ConsoleWriteDone \<and> ptype r \<noteq> TimerInt \<and>
        pollFrom v \<le> w \<and> (putBusy s \<longrightarrow> doneAt v < w + ConsoleTime))"

definition con_device :: "cview \<Rightarrow> consys \<Rightarrow> bool" where
  "con_device v s \<longleftrightarrow> \<not> kbdClosed s \<and> EOF \<notin> set (typed v) \<and> typed v = got v @ buffered s @ keyboard s \<and> screen s = shown v \<and>
     (arrived v \<longrightarrow> buffered s \<noteq> []) \<and> (finished v \<longrightarrow> \<not> putBusy s)"

definition con_sync :: "cview \<Rightarrow> consys \<Rightarrow> bool" where
  "con_sync v s \<longleftrightarrow> svalue (sems s readAvail) = int (length (buffered s)) - taken v \<and> taken v \<le> int (length (buffered s)) \<and>
     svalue (sems s writeDone) = owed v - busy s \<and> busy s \<le> owed v \<and>
     sems s consoleSem = \<lparr>svalue = lockVal v, squeue = []\<rparr> \<and>
     locks s consoleLock = \<lparr>lsem = consoleSem, holder = lockHolder v\<rparr>"

definition con_thread :: "cview \<Rightarrow> consys \<Rightarrow> bool" where
  "con_thread v s \<longleftrightarrow> currentThread s = vme v \<and> threadToBeDestroyed s = None \<and>
     (\<exists>t. threads s (vme v) = Some t \<and> started t \<and> (hasStack t \<longrightarrow> fencepost t = STACK_FENCEPOST))"

text \<open>The queues: empty while the thread runs; while it sleeps it is in one queue or, once woken, ready.\<close>

definition con_queues :: "cview \<Rightarrow> consys \<Rightarrow> bool" where
  "con_queues v s \<longleftrightarrow>
     (asleep v = None \<longrightarrow> readyList s = [] \<and> squeue (sems s readAvail) = [] \<and> squeue (sems s writeDone) = []) \<and>
     (\<forall>i. asleep v = Some i \<longrightarrow> i \<in> {readAvail, writeDone} \<and> squeue (sems s (1 - i)) = [] \<and>
        (readyList s = [] \<and> squeue (sems s i) = [vme v] \<and> svalue (sems s i) = 0 \<or>
         readyList s = [vme v] \<and> squeue (sems s i) = [] \<and> svalue (sems s i) \<noteq> 0))"

definition con_good :: "cview \<Rightarrow> consys \<Rightarrow> bool" where
  "con_good v s \<longleftrightarrow> con_pending v s \<and> con_device v s \<and> con_sync v s \<and> con_thread v s \<and> con_queues v s \<and> \<not> inHandler s"

lemmas con_defs = con_device_def con_sync_def con_thread_def con_queues_def buffered_def busy_def

section \<open>The handlers keep the invariant\<close>

text \<open>The effect of a signal on the thread: it is woken if it sleeps on that semaphore.\<close>

definition signalled :: "nat \<Rightarrow> consys \<Rightarrow> consys" where
  "signalled i s =
    (case squeue (sems s i) of
       [] \<Rightarrow> s\<lparr>sems := (sems s)(i := (sems s i)\<lparr>svalue := svalue (sems s i) + 1\<rparr>)\<rparr>
     | p # ps \<Rightarrow> s\<lparr>sems := (sems s)(i := (sems s i)\<lparr>squeue := ps, svalue := svalue (sems s i) + 1\<rparr>), readyList := readyList s @ [p],
         threads := (threads s)(p := map_option (\<lambda>t. t\<lparr>tstatus := READY\<rparr>) (threads s p))\<rparr>)"

lemma V_body_signalled:
  "(\<forall>p \<in> set (squeue (sems s i)). threads s p \<noteq> None) \<Longrightarrow> V_body i s = Inr (signalled i s)"
  by (cases s) (auto simp: V_body_def signalled_def set_sem_def ReadyToRun_def setStatus_def update_thread_def thread_at_def Let_def
      split: list.splits)

lemma fire_eq:
  assumes "call (phandler p) (parg p) (s\<lparr>inHandler := True, istatus := SystemMode\<rparr>) = Inr s'"
  shows "fire call Inr p s = Inr (s'\<lparr>istatus := istatus s, inHandler := False\<rparr>)"
  using assms by (simp add: fire_def)

text \<open>A character arrives, or the poll finds nothing to do.\<close>

definition polled :: "consys \<Rightarrow> consys" where
  "polled s =
    (let due = totalTicks (stats s) + ConsoleTime;
         s = s\<lparr>pending := seq_sorted_insert due (PendingInterrupt_new ConsoleReadPoll 0 due ConsoleReadInt) (pending s)\<rparr> in
     if incoming s \<noteq> EOF \<or> keyboard s = [] then s
     else signalled readAvail (s\<lparr>keyboard := tl (keyboard s), incoming := hd (keyboard s),
       stats := (stats s)\<lparr>numConsoleCharsRead := numConsoleCharsRead (stats s) + 1\<rparr>\<rparr>))"

definition completed :: "consys \<Rightarrow> consys" where
  "completed s = signalled writeDone (s\<lparr>putBusy := False,
     stats := (stats s)\<lparr>numConsoleCharsWritten := numConsoleCharsWritten (stats s) + 1\<rparr>\<rparr>)"

lemma signalled_fields [simp]:
  "pending (signalled i s) = pending s" "level (signalled i s) = level s" "stats (signalled i s) = stats s"
  "inHandler (signalled i s) = inHandler s" "istatus (signalled i s) = istatus s" "yieldOnReturn (signalled i s) = yieldOnReturn s"
  "keyboard (signalled i s) = keyboard s" "kbdClosed (signalled i s) = kbdClosed s" "screen (signalled i s) = screen s"
  "putBusy (signalled i s) = putBusy s" "incoming (signalled i s) = incoming s" "currentThread (signalled i s) = currentThread s"
  "threadToBeDestroyed (signalled i s) = threadToBeDestroyed s" "locks (signalled i s) = locks s"
  by (simp_all add: signalled_def split: list.splits)

lemma polled_fields [simp]:
  "level (polled s) = level s" "totalTicks (stats (polled s)) = totalTicks (stats s)" "yieldOnReturn (polled s) = yieldOnReturn s"
  "level (completed s) = level s" "totalTicks (stats (completed s)) = totalTicks (stats s)"
  "yieldOnReturn (completed s) = yieldOnReturn s" "putBusy (completed s) = False"
  by (simp_all add: polled_def completed_def Let_def)

lemma queues_threads:
  assumes "con_queues v s" "con_thread v s" "i \<in> {readAvail, writeDone}"
  shows "\<forall>p \<in> set (squeue (sems s i)). threads s p \<noteq> None"
  using assms by (cases "asleep v") (auto simp: con_queues_def con_thread_def)

lemma call_poll:
  assumes "con_thread v s" "con_queues v s" "\<not> kbdClosed s" "level s = IntOff"
  shows "console_call ConsoleReadPoll a s = Inr (polled s)"
proof -
  have "V_body readAvail (s\<lparr>pending := ps, keyboard := k, incoming := c, stats := st\<rparr>) =
      Inr (signalled readAvail (s\<lparr>pending := ps, keyboard := k, incoming := c, stats := st\<rparr>))" for ps k c st
    using queues_threads [OF assms(2,1), of readAvail] by (intro V_body_signalled) simp
  then show ?thesis using assms(3,4)
    by (auto simp: console_call_def CheckCharAvail_def Schedule_def PollFile_def ReadAvail_def V_handler polled_def Let_def
        split: list.splits)
qed

lemma call_done:
  assumes "con_thread v s" "con_queues v s" "level s = IntOff"
  shows "console_call ConsoleWriteDone a s = Inr (completed s)"
proof -
  have "V_body writeDone (s\<lparr>putBusy := False, stats := st\<rparr>) = Inr (signalled writeDone (s\<lparr>putBusy := False, stats := st\<rparr>))" for st
    using queues_threads [OF assms(2,1), of writeDone] by (intro V_body_signalled) simp
  then show ?thesis using assms(3)
    by (simp add: console_call_def WriteDone_def WriteDone_signal_def V_handler completed_def)
qed

lemma con_fields [simp]:
  "con_thread v (s\<lparr>inHandler := b\<rparr>) = con_thread v s" "con_thread v (s\<lparr>istatus := m\<rparr>) = con_thread v s"
  "con_thread v (s\<lparr>pending := ps\<rparr>) = con_thread v s" "con_thread v (s\<lparr>stats := st\<rparr>) = con_thread v s"
  "con_thread v (s\<lparr>level := l\<rparr>) = con_thread v s" "con_thread v (s\<lparr>yieldOnReturn := y\<rparr>) = con_thread v s"
  "con_queues v (s\<lparr>inHandler := b\<rparr>) = con_queues v s" "con_queues v (s\<lparr>istatus := m\<rparr>) = con_queues v s"
  "con_queues v (s\<lparr>pending := ps\<rparr>) = con_queues v s" "con_queues v (s\<lparr>stats := st\<rparr>) = con_queues v s"
  "con_queues v (s\<lparr>level := l\<rparr>) = con_queues v s" "con_queues v (s\<lparr>yieldOnReturn := y\<rparr>) = con_queues v s"
  "con_sync v (s\<lparr>inHandler := b\<rparr>) = con_sync v s" "con_sync v (s\<lparr>istatus := m\<rparr>) = con_sync v s"
  "con_sync v (s\<lparr>pending := ps\<rparr>) = con_sync v s" "con_sync v (s\<lparr>stats := st\<rparr>) = con_sync v s"
  "con_sync v (s\<lparr>level := l\<rparr>) = con_sync v s" "con_sync v (s\<lparr>yieldOnReturn := y\<rparr>) = con_sync v s"
  "con_device v (s\<lparr>inHandler := b\<rparr>) = con_device v s" "con_device v (s\<lparr>istatus := m\<rparr>) = con_device v s"
  "con_device v (s\<lparr>pending := ps\<rparr>) = con_device v s" "con_device v (s\<lparr>stats := st\<rparr>) = con_device v s"
  "con_device v (s\<lparr>level := l\<rparr>) = con_device v s" "con_device v (s\<lparr>yieldOnReturn := y\<rparr>) = con_device v s"
  "con_pending v (s\<lparr>inHandler := b\<rparr>) = con_pending v s" "con_pending v (s\<lparr>istatus := m\<rparr>) = con_pending v s"
  "con_pending v (s\<lparr>stats := st\<rparr>) = con_pending v s"
  "con_pending v (s\<lparr>level := l\<rparr>) = con_pending v s" "con_pending v (s\<lparr>yieldOnReturn := y\<rparr>) = con_pending v s"
  by (simp_all add: con_defs con_pending_def)

lemma con_views [simp]:
  "con_pending (v\<lparr>typed := x_typed\<rparr>) s = con_pending v s" "con_pending (v\<lparr>got := x_got\<rparr>) s = con_pending v s"
  "con_pending (v\<lparr>shown := x_shown\<rparr>) s = con_pending v s" "con_pending (v\<lparr>asleep := x_asleep\<rparr>) s = con_pending v s"
  "con_pending (v\<lparr>taken := x_taken\<rparr>) s = con_pending v s" "con_pending (v\<lparr>owed := x_owed\<rparr>) s = con_pending v s"
  "con_pending (v\<lparr>lockVal := x_lockVal\<rparr>) s = con_pending v s" "con_pending (v\<lparr>lockHolder := x_lockHolder\<rparr>) s = con_pending v s"
  "con_pending (v\<lparr>arrived := x_arrived\<rparr>) s = con_pending v s" "con_pending (v\<lparr>finished := x_finished\<rparr>) s = con_pending v s"
  "con_device (v\<lparr>asleep := x_asleep\<rparr>) s = con_device v s" "con_device (v\<lparr>taken := x_taken\<rparr>) s = con_device v s"
  "con_device (v\<lparr>owed := x_owed\<rparr>) s = con_device v s" "con_device (v\<lparr>lockVal := x_lockVal\<rparr>) s = con_device v s"
  "con_device (v\<lparr>lockHolder := x_lockHolder\<rparr>) s = con_device v s" "con_device (v\<lparr>pollFrom := x_pollFrom\<rparr>) s = con_device v s"
  "con_device (v\<lparr>doneAt := x_doneAt\<rparr>) s = con_device v s" "con_sync (v\<lparr>typed := x_typed\<rparr>) s = con_sync v s"
  "con_sync (v\<lparr>got := x_got\<rparr>) s = con_sync v s" "con_sync (v\<lparr>shown := x_shown\<rparr>) s = con_sync v s"
  "con_sync (v\<lparr>asleep := x_asleep\<rparr>) s = con_sync v s" "con_sync (v\<lparr>pollFrom := x_pollFrom\<rparr>) s = con_sync v s"
  "con_sync (v\<lparr>doneAt := x_doneAt\<rparr>) s = con_sync v s" "con_sync (v\<lparr>arrived := x_arrived\<rparr>) s = con_sync v s"
  "con_sync (v\<lparr>finished := x_finished\<rparr>) s = con_sync v s" "con_thread (v\<lparr>typed := x_typed\<rparr>) s = con_thread v s"
  "con_thread (v\<lparr>got := x_got\<rparr>) s = con_thread v s" "con_thread (v\<lparr>shown := x_shown\<rparr>) s = con_thread v s"
  "con_thread (v\<lparr>asleep := x_asleep\<rparr>) s = con_thread v s" "con_thread (v\<lparr>taken := x_taken\<rparr>) s = con_thread v s"
  "con_thread (v\<lparr>owed := x_owed\<rparr>) s = con_thread v s" "con_thread (v\<lparr>lockVal := x_lockVal\<rparr>) s = con_thread v s"
  "con_thread (v\<lparr>lockHolder := x_lockHolder\<rparr>) s = con_thread v s" "con_thread (v\<lparr>pollFrom := x_pollFrom\<rparr>) s = con_thread v s"
  "con_thread (v\<lparr>doneAt := x_doneAt\<rparr>) s = con_thread v s" "con_thread (v\<lparr>arrived := x_arrived\<rparr>) s = con_thread v s"
  "con_thread (v\<lparr>finished := x_finished\<rparr>) s = con_thread v s" "con_queues (v\<lparr>typed := x_typed\<rparr>) s = con_queues v s"
  "con_queues (v\<lparr>got := x_got\<rparr>) s = con_queues v s" "con_queues (v\<lparr>shown := x_shown\<rparr>) s = con_queues v s"
  "con_queues (v\<lparr>taken := x_taken\<rparr>) s = con_queues v s" "con_queues (v\<lparr>owed := x_owed\<rparr>) s = con_queues v s"
  "con_queues (v\<lparr>lockVal := x_lockVal\<rparr>) s = con_queues v s" "con_queues (v\<lparr>lockHolder := x_lockHolder\<rparr>) s = con_queues v s"
  "con_queues (v\<lparr>pollFrom := x_pollFrom\<rparr>) s = con_queues v s" "con_queues (v\<lparr>doneAt := x_doneAt\<rparr>) s = con_queues v s"
  "con_queues (v\<lparr>arrived := x_arrived\<rparr>) s = con_queues v s" "con_queues (v\<lparr>finished := x_finished\<rparr>) s = con_queues v s"
  by (simp_all add: con_defs con_pending_def)

text \<open>The thread-side invariants after a signal.\<close>

lemma signalled_thread: "con_thread v s \<Longrightarrow> con_thread v (signalled i s)"
  by (auto simp: con_thread_def signalled_def split: list.splits)

lemma polled_sides:
  assumes "con_device v s" "con_sync v s" "con_thread v s" "con_queues v s"
  shows "con_device v (polled s)" "con_sync v (polled s)" "con_thread v (polled s)" "con_queues v (polled s)"
proof -
  let ?s = "\<lambda>ps. s\<lparr>pending := ps\<rparr>"
  show "con_thread v (polled s)" using assms(3)
    by (auto simp: polled_def Let_def intro!: signalled_thread) (auto simp: con_thread_def)
  show "con_device v (polled s)" using assms(1)
    by (cases "keyboard s") (auto simp: polled_def Let_def con_device_def buffered_def)
  show "con_sync v (polled s)" using assms(1,2)
    by (cases "keyboard s") (auto simp: polled_def Let_def con_device_def con_sync_def buffered_def busy_def signalled_def split: list.splits)
  show "con_queues v (polled s)" using assms(1,2,4)
    by (cases "keyboard s"; cases "asleep v")
      (auto simp: polled_def Let_def con_device_def con_sync_def con_queues_def buffered_def signalled_def split: list.splits)
qed

lemma completed_sides:
  assumes "con_device v s" "con_sync v s" "con_thread v s" "con_queues v s" "putBusy s"
  shows "con_device v (completed s)" "con_sync v (completed s)" "con_thread v (completed s)" "con_queues v (completed s)"
proof -
  show "con_thread v (completed s)" using assms(3)
    by (auto simp: completed_def intro!: signalled_thread) (auto simp: con_thread_def)
  show "con_device v (completed s)" using assms(1) by (auto simp: completed_def con_device_def buffered_def)
  show "con_sync v (completed s)" using assms(2,5)
    by (auto simp: completed_def con_sync_def buffered_def busy_def signalled_def split: list.splits)
  show "con_queues v (completed s)" using assms(2,4,5)
    by (cases "asleep v") (auto simp: completed_def con_sync_def con_queues_def busy_def signalled_def split: list.splits)
qed

text \<open>The two shapes of a pending list whose first entry is due.\<close>

lemma con_pending_cases:
  assumes "con_pending v s" "pending s = (w, p) # rest"
  obtains (poll) "phandler p = ConsoleReadPoll" "ptype p \<noteq> TimerInt" "pollFrom v \<le> w" "\<not> putBusy s" "rest = []"
  | (poll_busy) r where "phandler p = ConsoleReadPoll" "ptype p \<noteq> TimerInt" "pollFrom v \<le> w" "putBusy s" "rest = [(doneAt v, r)]"
      "phandler r = ConsoleWriteDone" "ptype r \<noteq> TimerInt" "w \<le> doneAt v" "doneAt v < w + ConsoleTime"
  | (finish) w' q where "phandler p = ConsoleWriteDone" "ptype p \<noteq> TimerInt" "w = doneAt v" "putBusy s" "rest = [(w', q)]"
      "phandler q = ConsoleReadPoll" "ptype q \<noteq> TimerInt" "pollFrom v \<le> w'" "doneAt v < w' + ConsoleTime"
proof -
  from assms obtain w0 q r where m: "add_mset (w, p) (mset rest) = {#(w0, q)#} + (if putBusy s then {#(doneAt v, r)#} else {#})"
    and q: "phandler q = ConsoleReadPoll" "ptype q \<noteq> TimerInt" "pollFrom v \<le> w0" "putBusy s \<longrightarrow> doneAt v < w0 + ConsoleTime"
    and r: "phandler r = ConsoleWriteDone" "ptype r \<noteq> TimerInt"
    and srt: "sorted (w # map fst rest)"
    unfolding con_pending_def by auto
  show thesis
  proof (cases "putBusy s")
    case False
    then have "(w, p) = (w0, q)" "rest = []" using m by auto
    then show thesis using q(1-3) False poll by simp
  next
    case True
    then have "(w, p) = (w0, q) \<and> mset rest = {#(doneAt v, r)#} \<or> (w, p) = (doneAt v, r) \<and> mset rest = {#(w0, q)#}"
      using m by (auto simp: add_eq_conv_ex)
    then consider "(w, p) = (w0, q)" "rest = [(doneAt v, r)]" | "(w, p) = (doneAt v, r)" "rest = [(w0, q)]"
      using mset_single_iff by (metis mset_single_iff_right)
    then show thesis using q r True srt poll_busy [of r] finish [of w0 q] by cases auto
  qed
qed

lemma con_pending_polled:
  assumes "con_pending v s" "pending s = (w, p) # rest" "phandler p = ConsoleReadPoll" "w \<le> totalTicks (stats s)"
  shows "con_pending (v\<lparr>pollFrom := w + ConsoleTime\<rparr>) (polled (s\<lparr>pending := rest\<rparr>))"
    "con_pending v (polled (s\<lparr>pending := rest\<rparr>))"
proof -
  let ?due = "totalTicks (stats s) + ConsoleTime"
  let ?q = "PendingInterrupt_new ConsoleReadPoll 0 ?due ConsoleReadInt"
  have p: "pending (polled (s\<lparr>pending := rest\<rparr>)) = seq_sorted_insert ?due ?q rest" "putBusy (polled (s\<lparr>pending := rest\<rparr>)) = putBusy s"
    by (simp_all add: polled_def Let_def)
  have q: "phandler ?q = ConsoleReadPoll" "ptype ?q \<noteq> TimerInt" by (simp_all add: PendingInterrupt_new_def)
  have i: "con_pending u (polled (s\<lparr>pending := rest\<rparr>))" if "doneAt u = doneAt v" "pollFrom u \<le> ?due" for u
  proof (rule con_pending_cases [OF assms(1,2)], goal_cases)
    case 1
    then show ?case using q that unfolding con_pending_def p mset_seq_sorted_insert
      by (intro conjI exI [of _ ?due] exI [of _ ?q] exI [of _ "PendingInterrupt_new ConsoleWriteDone 0 0 ConsoleWriteInt"])
        (auto simp: PendingInterrupt_new_def)
  next
    case (2 r)
    then show ?case using q that assms(4) unfolding con_pending_def p mset_seq_sorted_insert
      by (intro conjI sorted_seq_sorted_insert exI [of _ ?due] exI [of _ ?q] exI [of _ r]) auto
  qed (use assms(3) in simp)
  have "pollFrom v \<le> w" by (rule con_pending_cases [OF assms(1,2)]) (use assms(3) in auto)
  then show "con_pending (v\<lparr>pollFrom := w + ConsoleTime\<rparr>) (polled (s\<lparr>pending := rest\<rparr>))" "con_pending v (polled (s\<lparr>pending := rest\<rparr>))"
    using i [of v] i [of "v\<lparr>pollFrom := w + ConsoleTime\<rparr>"] assms(4) by simp_all
qed

lemma con_pending_completed:
  assumes "con_pending v s" "pending s = (w, p) # rest" "phandler p = ConsoleWriteDone"
  shows "con_pending v (completed (s\<lparr>pending := rest\<rparr>))" "putBusy s"
  by (rule con_pending_cases [OF assms(1,2)]; use assms(3) in \<open>force simp: con_pending_def completed_def\<close>)+

lemma fire_console:
  assumes "con_good v s" "level s = IntOff" "pending s = (w, p) # rest" "w \<le> totalTicks (stats s)"
  shows "\<exists>s' new. fire console_call Inr p (s\<lparr>pending := rest\<rparr>) = Inr s' \<and> con_good v s' \<and> level s' = IntOff \<and>
    istatus s' = istatus s \<and> totalTicks (stats s') = totalTicks (stats s) \<and> yieldOnReturn s' = yieldOnReturn s \<and>
    pending s' = insert_all new rest \<and> (\<forall>e \<in> set new. totalTicks (stats s) < fst e) \<and>
    (phandler p = ConsoleReadPoll \<longrightarrow> con_good (v\<lparr>pollFrom := w + ConsoleTime\<rparr>) s' \<and> (keyboard s \<noteq> [] \<longrightarrow> buffered s' \<noteq> [])) \<and>
    (phandler p = ConsoleWriteDone \<longrightarrow> \<not> putBusy s')"
proof -
  define t where "t = s\<lparr>inHandler := True, istatus := SystemMode\<rparr>"
  have tr: "t\<lparr>pending := rest\<rparr> = s\<lparr>pending := rest, inHandler := True, istatus := SystemMode\<rparr>" by (simp add: t_def)
  have g: "con_pending v t" "con_device v t" "con_sync v t" "con_thread v t" "con_queues v t" "pending t = (w, p) # rest"
    "w \<le> totalTicks (stats t)"
    using assms by (simp_all add: con_good_def t_def)
  have open_kbd: "\<not> kbdClosed s" using assms(1) by (simp add: con_good_def con_device_def)
  let ?t = "t\<lparr>pending := rest\<rparr>"
  consider "phandler p = ConsoleReadPoll" | "phandler p = ConsoleWriteDone"
    by (rule con_pending_cases [OF g(1,6)])
  then show ?thesis
  proof cases
    case 1
    have c: "console_call (phandler p) (parg p) ?t = Inr (polled ?t)"
      unfolding 1 using g(4,5) open_kbd assms(2) by (intro call_poll [of v]) (simp_all add: t_def)
    let ?s' = "(polled ?t)\<lparr>istatus := istatus s, inHandler := False\<rparr>"
    note k = con_pending_polled [OF g(1,6) 1 g(7)]
    note sides = polled_sides [of _ ?t]
    have "con_good v ?s'" using k(2) sides [of v] g(2-5) by (simp add: con_good_def)
    moreover have "con_good (v\<lparr>pollFrom := w + ConsoleTime\<rparr>) ?s'"
      using k(1) sides [of v] g(2-5) by (simp add: con_good_def)
    moreover have "pending ?s' = insert_all [(totalTicks (stats s) + ConsoleTime,
        PendingInterrupt_new ConsoleReadPoll 0 (totalTicks (stats s) + ConsoleTime) ConsoleReadInt)] rest"
      by (simp add: polled_def Let_def insert_all_def t_def)
    moreover have "keyboard s \<noteq> [] \<longrightarrow> buffered ?s' \<noteq> []"
    proof
      assume k: "keyboard s \<noteq> []"
      then have "hd (keyboard s) \<in> set (typed v)" using g(2) by (auto simp: con_device_def t_def)
      then have "hd (keyboard s) \<noteq> EOF" using g(2) by (auto simp: con_device_def)
      then show "buffered ?s' \<noteq> []" using k by (simp add: buffered_def polled_def Let_def t_def)
    qed
    moreover have "fire console_call Inr p (s\<lparr>pending := rest\<rparr>) = Inr ?s'"
      using fire_eq [of console_call p "s\<lparr>pending := rest\<rparr>" "polled ?t"] c tr by simp
    moreover have "level ?s' = IntOff" "totalTicks (stats ?s') = totalTicks (stats s)" "yieldOnReturn ?s' = yieldOnReturn s"
      using assms(2) by (simp_all add: t_def)
    ultimately show ?thesis using 1 by (intro exI [of _ ?s'] exI) auto
  next
    case 2
    have c: "console_call (phandler p) (parg p) ?t = Inr (completed ?t)"
      unfolding 2 using g(4,5) assms(2) by (intro call_done [of v]) (simp_all add: t_def)
    let ?s' = "(completed ?t)\<lparr>istatus := istatus s, inHandler := False\<rparr>"
    note k = con_pending_completed [OF g(1,6) 2]
    have "con_good v ?s'" using k completed_sides [of v ?t] g(2-5) by (simp add: con_good_def)
    moreover have "pending ?s' = insert_all [] rest" by (simp add: completed_def insert_all_def)
    moreover have "fire console_call Inr p (s\<lparr>pending := rest\<rparr>) = Inr ?s'"
      using fire_eq [of console_call p "s\<lparr>pending := rest\<rparr>" "completed ?t"] c tr by simp
    moreover have "level ?s' = IntOff" "totalTicks (stats ?s') = totalTicks (stats s)" "yieldOnReturn ?s' = yieldOnReturn s"
      using assms(2) by (simp_all add: t_def)
    ultimately show ?thesis using 2 by (intro exI [of _ ?s'] exI [of _ "[]"]) auto
  qed
qed

lemma con_good_fields:
  "con_good v (s\<lparr>level := l\<rparr>) = con_good v s" "con_good v (s\<lparr>stats := st\<rparr>) = con_good v s"
  "con_good v (s\<lparr>istatus := m\<rparr>) = con_good v s" "con_good v (s\<lparr>yieldOnReturn := y\<rparr>) = con_good v s"
  by (simp_all add: con_good_def)

interpretation con: lone_kernel console_call Inr "con_good v" for v
proof (unfold_locales, goal_cases)
  case (1 s xs)
  then show ?case by (auto simp: con_good_def con_pending_def)
next
  case (2 s)
  then show ?case by (simp add: con_good_def con_pending_def)
next
  case (7 s w p rest)
  then show ?case using fire_console [OF 7(1-4)] by blast
next
  case (8 s w p rest s')
  then show ?case using fire_console [OF 8(1-4)] by auto
next
  case (9 s)
  then show ?case by (simp add: con_good_def)
qed (simp_all add: con_good_fields)

section \<open>Waiting\<close>

lemma con_known:
  "con_good v s \<Longrightarrow> buffered s \<noteq> [] \<Longrightarrow> con_good (v\<lparr>arrived := True\<rparr>) s"
  "con_good v s \<Longrightarrow> \<not> putBusy s \<Longrightarrow> con_good (v\<lparr>finished := True\<rparr>) s"
  by (auto simp: con_good_def con_device_def)

lemma Idle_event:
  assumes "con_good v s" "level s = IntOff" "pending s = (w, p) # rest"
    and u: "\<And>s'. con_good v s' \<Longrightarrow>
      (phandler p = ConsoleReadPoll \<longrightarrow> con_good (v\<lparr>pollFrom := w + ConsoleTime\<rparr>) s' \<and> (keyboard s \<noteq> [] \<longrightarrow> buffered s' \<noteq> [])) \<Longrightarrow>
      (phandler p = ConsoleWriteDone \<longrightarrow> \<not> putBusy s') \<Longrightarrow> con_good u s'"
  shows "\<exists>s'. Idle console_call Inr s = Inr s' \<and> con_good u s' \<and> level s' = IntOff \<and> istatus s' = SystemMode \<and> \<not> yieldOnReturn s'"
proof (rule con.Idle_from [OF assms(2,3)])
  have "con_pending v s" using assms(1) by (simp add: con_good_def)
  from con_pending_cases [OF this assms(3)] show "\<not> (ptype p = TimerInt \<and> rest = [])" by blast
  fix st :: Statistics assume st: "totalTicks st = max (totalTicks (stats s)) w"
  let ?t = "s\<lparr>istatus := IdleMode, stats := st\<rparr>"
  have t: "con_good v ?t" "level ?t = IntOff" "pending ?t = (w, p) # rest" "w \<le> totalTicks (stats ?t)"
    using assms(1-3) st by (simp_all add: con_good_fields)
  from fire_console [OF t] show "\<exists>u'. fire console_call Inr p (s\<lparr>istatus := IdleMode, stats := st, pending := rest\<rparr>) = Inr u' \<and>
      con_good u u' \<and> level u' = IntOff"
    using u by auto
qed

text \<open>What the device-side invariants read.\<close>

lemma con_same:
  "incoming s' = incoming s \<Longrightarrow> keyboard s' = keyboard s \<Longrightarrow> kbdClosed s' = kbdClosed s \<Longrightarrow> screen s' = screen s \<Longrightarrow>
    putBusy s' = putBusy s \<Longrightarrow> con_device v s' = con_device v s"
  "pending s' = pending s \<Longrightarrow> putBusy s' = putBusy s \<Longrightarrow> con_pending v s' = con_pending v s"
  by (simp_all add: con_device_def buffered_def con_pending_def)

text \<open>The thread falls asleep.\<close>

lemma con_asleep:
  assumes "con_good v s" "asleep v = None" "i \<in> {readAvail, writeDone}" "svalue (sems s i) = 0"
  shows "con_good (v\<lparr>asleep := Some i\<rparr>) (asleep_on i s)" "level (asleep_on i s) = IntOff"
    "pending (asleep_on i s) = pending s" "keyboard (asleep_on i s) = keyboard s" "putBusy (asleep_on i s) = putBusy s"
    "readyList (asleep_on i s) = []"
proof -
  let ?s = "asleep_on i s"
  have f: "pending ?s = pending s" "putBusy ?s = putBusy s" "keyboard ?s = keyboard s" "kbdClosed ?s = kbdClosed s" "screen ?s = screen s"
    "incoming ?s = incoming s" "locks ?s = locks s" "readyList ?s = readyList s" "currentThread ?s = currentThread s"
    "threadToBeDestroyed ?s = threadToBeDestroyed s" "inHandler ?s = inHandler s" "level ?s = IntOff"
    by (simp_all add: asleep_on_def)
  have "con_pending v ?s" "con_device v ?s" using assms(1) con_same [of ?s s v] by (simp_all add: con_good_def f)
  moreover have "con_sync v ?s" using assms(1,3) by (auto simp: con_good_def con_sync_def buffered_def busy_def f) (auto simp: asleep_on_def)
  moreover have "con_thread v ?s" using assms(1) by (auto simp: con_good_def con_thread_def f) (auto simp: asleep_on_def)
  moreover have "con_queues (v\<lparr>asleep := Some i\<rparr>) ?s" using assms
    by (auto simp: con_good_def con_queues_def con_thread_def f) (auto simp: asleep_on_def)
  ultimately show "con_good (v\<lparr>asleep := Some i\<rparr>) ?s" using assms(1) by (simp add: con_good_def f)
  show "level ?s = IntOff" "pending ?s = pending s" "keyboard ?s = keyboard s" "putBusy ?s = putBusy s" by (simp_all add: f)
  show "readyList ?s = []" using assms(1,2) by (simp add: con_good_def con_queues_def f)
qed

text \<open>It is ready again: the wait ends, and it takes the value it was waiting for.\<close>

lemma con_ready:
  assumes "con_good v s" "asleep v = Some i" "svalue (sems s i) \<noteq> 0"
  shows "Sleep_wait console_call Inr n s = Inr (vme v, s\<lparr>readyList := []\<rparr>)"
  using assms by (subst Sleep_wait.simps) (auto simp: con_good_def con_queues_def FindNextToRun_def)

lemma con_not_ready:
  assumes "readyList s = []"
  shows "Sleep_wait console_call Inr (Suc n) s = bindE (Idle console_call Inr s) (Sleep_wait console_call Inr n)"
  using assms by (subst Sleep_wait.simps) (simp add: FindNextToRun_def)

text \<open>A value is taken from a semaphore by the running thread, or by the thread that has just been woken.\<close>

definition took :: "nat \<Rightarrow> cview \<Rightarrow> cview" where
  "took i v = (if i = readAvail then v\<lparr>asleep := None, taken := taken v + 1\<rparr> else v\<lparr>asleep := None, owed := owed v - 1\<rparr>)"

lemma con_take:
  assumes "con_good v s" "i \<in> {readAvail, writeDone}" "svalue (sems s i) \<noteq> 0"
    and s': "s' = set_sem i ((sems s i)\<lparr>svalue := svalue (sems s i) - 1\<rparr>) (if asleep v = None then s else woken (s\<lparr>readyList := []\<rparr>))"
    and v: "asleep v = None \<or> asleep v = Some i"
  shows "con_good (took i v) s'"
proof -
  have f: "pending s' = pending s" "putBusy s' = putBusy s" "keyboard s' = keyboard s" "kbdClosed s' = kbdClosed s" "screen s' = screen s"
    "incoming s' = incoming s" "locks s' = locks s" "currentThread s' = currentThread s"
    "threadToBeDestroyed s' = threadToBeDestroyed s" "inHandler s' = inHandler s"
    "sems s' = (sems s)(i := (sems s i)\<lparr>svalue := svalue (sems s i) - 1\<rparr>)"
    by (simp_all add: s' set_sem_def woken_def)
  have "con_pending v s'" "con_device v s'" using assms(1) con_same [of s' s v] by (simp_all add: con_good_def f)
  moreover have "con_sync (took i v) s'" using assms(1-3) by (auto simp: con_good_def con_sync_def buffered_def busy_def f took_def)
  moreover have "con_thread v s'" using assms(1) by (auto simp: con_good_def con_thread_def f) (auto simp: s' set_sem_def woken_def)
  moreover have "con_queues (took i v) s'" using assms(1-3) v
    by (auto simp: con_good_def con_queues_def f took_def) (auto simp: s' set_sem_def woken_def)
  ultimately show ?thesis using assms(1,2) by (auto simp: con_good_def f took_def)
qed

text \<open>
  The sleep ends: the thread that waits on semaphore \<open>i\<close> in the state \<open>s\<close> is chosen again after at most
  \<open>n\<close> rounds of the idle loop, and the semaphore has a value for it.
\<close>

definition wakes :: "nat \<Rightarrow> cview \<Rightarrow> nat \<Rightarrow> consys \<Rightarrow> bool" where
  "wakes i v n s \<longleftrightarrow> (\<exists>b. Sleep_wait console_call Inr n s = Inr (vme v, b\<lparr>readyList := []\<rparr>) \<and> con_good v b \<and> level b = IntOff \<and>
     istatus b = SystemMode \<and> \<not> yieldOnReturn b \<and> svalue (sems b i) \<noteq> 0)"

lemma con_wakes:
  assumes g: "con_good v s" "running s" "asleep v = None" "i \<in> {readAvail, writeDone}" "svalue (sems s i) = 0"
    and w: "wakes i (v\<lparr>asleep := Some i\<rparr>) (Suc n) (asleep_on i s)"
  shows "yields (Semaphore_P console_call Inr (Suc (Suc n)) i s) (\<lambda>s'. con_good (took i v) s' \<and> running s')"
proof -
  from w obtain b where wait: "Sleep_wait console_call Inr (Suc n) (asleep_on i s) = Inr (vme v, b\<lparr>readyList := []\<rparr>)"
    and b: "con_good (v\<lparr>asleep := Some i\<rparr>) b" "level b = IntOff" "istatus b = SystemMode" "\<not> yieldOnReturn b" "svalue (sems b i) \<noteq> 0"
    by (auto simp: wakes_def)
  have me: "currentThread s = vme v" "\<not> inHandler s" using g(1) by (simp_all add: con_good_def con_thread_def)
  obtain t where t: "threads s (currentThread s) = Some t" using g(1) by (auto simp: con_good_def con_thread_def)
  obtain t2 where t2: "threads b (vme v) = Some t2" "started t2" "hasStack t2 \<longrightarrow> fencepost t2 = STACK_FENCEPOST"
    "currentThread b = vme v" "threadToBeDestroyed b = None"
    using b(1) by (auto simp: con_good_def con_thread_def)
  have "took i (v\<lparr>asleep := Some i\<rparr>) = took i v" by (simp add: took_def)
  then have "con_good (took i v) (set_sem i ((sems b i)\<lparr>svalue := svalue (sems b i) - 1\<rparr>) (woken (b\<lparr>readyList := []\<rparr>)))"
    using con_take [OF b(1) g(4) b(5) refl] by simp
  then show ?thesis
    by (intro con.P_sleeps [OF g(2) me(2) g(5) t wait [folded me(1)]]) (use t2 b me(1) in simp_all)
qed

lemma con_taken:
  assumes g: "con_good v s" "running s" "asleep v = None" "i \<in> {readAvail, writeDone}" "svalue (sems s i) \<noteq> 0"
  shows "yields (Semaphore_P console_call Inr (Suc n) i s) (\<lambda>s'. con_good (took i v) s' \<and> running s')"
proof -
  have "con_good (took i v) (set_sem i ((sems s i)\<lparr>svalue := svalue (sems s i) - 1\<rparr>) s)"
    using con_take [OF g(1,4,5) refl] g(3) by simp
  from con.P_now [OF this g(2,5)] show ?thesis .
qed

lemma con_pending_obtain:
  assumes "con_good v s"
  obtains w p rest where "pending s = (w, p) # rest" "con_pending v s"
proof -
  have "con_pending v s" using assms by (simp add: con_good_def)
  moreover from this have "pending s \<noteq> []" by (auto simp: con_pending_def)
  ultimately show thesis using that by (cases "pending s") auto
qed

text \<open>The ghost knowledge about the device can be forgotten.\<close>

lemma con_forget:
  assumes "con_good (v\<lparr>pollFrom := x, arrived := a, finished := f\<rparr>) s" "pollFrom v \<le> x" "arrived v \<longrightarrow> a" "finished v \<longrightarrow> f"
  shows "con_good v s"
proof -
  have c: "con_pending (v\<lparr>pollFrom := x\<rparr>) s" "con_device (v\<lparr>pollFrom := x, arrived := a, finished := f\<rparr>) s"
    using assms(1) by (simp_all add: con_good_def)
  have d: "doneAt (v\<lparr>pollFrom := x\<rparr>) = doneAt v" "pollFrom (v\<lparr>pollFrom := x\<rparr>) = x" by simp_all
  from c(1) obtain w q r where "sorted (map fst (pending s))" "mset (pending s) = {#(w, q)#} + (if putBusy s then {#(doneAt v, r)#} else {#})"
    "phandler q = ConsoleReadPoll" "ptype q \<noteq> TimerInt" "phandler r = ConsoleWriteDone" "ptype r \<noteq> TimerInt"
    "x \<le> w" "putBusy s \<longrightarrow> doneAt v < w + ConsoleTime"
    unfolding con_pending_def d by blast
  moreover have "pollFrom v \<le> w" using \<open>x \<le> w\<close> assms(2) by simp
  ultimately have "con_pending v s" unfolding con_pending_def by blast
  moreover have "con_device v s" using c(2) assms(3,4) unfolding con_device_def by force
  ultimately show ?thesis using assms(1) by (simp add: con_good_def)
qed

lemma wakes_ready:
  assumes "con_good v s" "asleep v = Some i" "svalue (sems s i) \<noteq> 0" "level s = IntOff" "istatus s = SystemMode" "\<not> yieldOnReturn s"
  shows "wakes i v n s"
  using con_ready [OF assms(1-3)] assms unfolding wakes_def by blast

lemma wakes_Idle:
  assumes "readyList s = []" "Idle console_call Inr s = Inr b" "wakes i v n b"
  shows "wakes i v (Suc n) s"
  using assms con_not_ready [OF assms(1), of n] by (simp add: wakes_def)

text \<open>A character is there, or the next poll brings it.\<close>

lemma wait_read:
  assumes g: "con_good v s" "running s" "asleep v = None" "taken v = 0" "owed v = 0" "buffered s @ keyboard s \<noteq> []"
  shows "yields (Semaphore_P console_call Inr (Suc (Suc n)) readAvail s) (\<lambda>s'. con_good (took readAvail v) s' \<and> running s')"
proof (cases "svalue (sems s readAvail) = 0")
  case False
  then show ?thesis using con_taken [OF g(1-3)] by simp
next
  case True
  have "con_sync v s" using g(1) by (simp add: con_good_def)
  then have k: "keyboard s \<noteq> []" "\<not> putBusy s" using True g(4-6) by (auto simp: con_sync_def busy_def split: if_splits)
  let ?a = "asleep_on readAvail s" and ?v = "v\<lparr>asleep := Some readAvail\<rparr>"
  note a = con_asleep [OF g(1,3) _ True, simplified]
  obtain w p rest where p: "pending s = (w, p) # rest" "con_pending v s" by (rule con_pending_obtain [OF g(1)])
  have h: "phandler p = ConsoleReadPoll" by (rule con_pending_cases [OF p(2,1)]) (use k(2) in auto)
  obtain b where b: "Idle console_call Inr ?a = Inr b" "con_good (?v\<lparr>arrived := True\<rparr>) b" "level b = IntOff"
    "istatus b = SystemMode" "\<not> yieldOnReturn b"
    using Idle_event [OF a(1,2), of w p rest "?v\<lparr>arrived := True\<rparr>"] a(3,4) p(1) h k(1) con_known(1) by auto
  have sv: "svalue (sems b readAvail) \<noteq> 0" using b(2) g(4) by (auto simp: con_good_def con_sync_def con_device_def)
  have "con_good ?v b" by (rule con_forget [where x = "pollFrom v" and a = True and f = "finished v"]) (use b(2) in simp_all)
  then have "wakes readAvail ?v n b" using sv b(3-5) by (intro wakes_ready) simp_all
  from wakes_Idle [OF a(6) b(1) this] show ?thesis using con_wakes [OF g(1-3) _ True] by simp
qed

text \<open>The output in progress completes at the next interrupt, or at the one after a poll.\<close>

lemma wakes_finish:
  assumes g: "con_good v s" "asleep v = Some writeDone" "owed v = 1" "level s = IntOff" "readyList s = []"
    and p: "pending s = (w, p) # rest" "phandler p = ConsoleWriteDone"
  shows "wakes writeDone v (Suc n) s"
proof -
  obtain b where b: "Idle console_call Inr s = Inr b" "con_good (v\<lparr>finished := True\<rparr>) b" "level b = IntOff"
    "istatus b = SystemMode" "\<not> yieldOnReturn b"
    using Idle_event [OF g(1,4) p(1), of "v\<lparr>finished := True\<rparr>"] p(2) con_known(2) by auto
  have sv: "svalue (sems b writeDone) \<noteq> 0" using b(2) g(3) by (auto simp: con_good_def con_sync_def con_device_def busy_def)
  have "con_good v b" by (rule con_forget [where x = "pollFrom v" and a = "arrived v" and f = True]) (use b(2) in simp_all)
  then show ?thesis using sv b(3-5) g(2) by (intro wakes_Idle [OF g(5) b(1)] wakes_ready) simp_all
qed

lemma wait_write:
  assumes g: "con_good v s" "running s" "asleep v = None" "owed v = 1"
  shows "yields (Semaphore_P console_call Inr (Suc (Suc (Suc n))) writeDone s) (\<lambda>s'. con_good (took writeDone v) s' \<and> running s')"
proof (cases "svalue (sems s writeDone) = 0")
  case False
  then show ?thesis using con_taken [OF g(1-3)] by simp
next
  case True
  let ?a = "asleep_on writeDone s" and ?v = "v\<lparr>asleep := Some writeDone\<rparr>"
  have i: "writeDone \<in> {readAvail, writeDone}" by simp
  note a = con_asleep [OF g(1,3) i True]
  obtain w p rest where p: "pending ?a = (w, p) # rest" "con_pending ?v ?a" by (rule con_pending_obtain [OF a(1)])
  have "wakes writeDone ?v (Suc (Suc n)) ?a"
  proof (cases "phandler p = ConsoleWriteDone")
    case True
    show ?thesis using g(4) by (intro wakes_finish [OF a(1) _ _ a(2,6) p(1) True]) simp_all
  next
    case False
    have "con_sync v s" using g(1) by (simp add: con_good_def)
    then have "putBusy s" using True g(4) by (auto simp: con_sync_def busy_def split: if_splits)
    then have h: "phandler p = ConsoleReadPoll" "doneAt v < w + ConsoleTime" "pollFrom v \<le> w"
      by (rule_tac [!] con_pending_cases [OF p(2,1)]) (use False a(5) in auto)
    let ?u = "?v\<lparr>pollFrom := w + ConsoleTime\<rparr>"
    obtain b where b: "Idle console_call Inr ?a = Inr b" "con_good ?u b" "level b = IntOff"
      "istatus b = SystemMode" "\<not> yieldOnReturn b"
      using Idle_event [OF a(1,2) p(1), of ?u] h(1) by blast
    have bv: "con_good ?v b"
      by (rule con_forget [where x = "w + ConsoleTime" and a = "arrived v" and f = "finished v"]) (use b(2) h(3) in simp_all)
    show ?thesis
    proof (rule wakes_Idle [OF a(6) b(1)], cases "svalue (sems b writeDone) = 0")
      case False
      then show "wakes writeDone ?v (Suc n) b" using b(3-5) bv by (intro wakes_ready) simp_all
    next
      case True
      obtain w' p' rest' where p': "pending b = (w', p') # rest'" "con_pending ?u b" 
        by (rule con_pending_obtain [OF b(2)])
      have s: "con_sync ?v b" "con_queues ?v b" using bv by (simp_all add: con_good_def)
      then have "putBusy b" "readyList b = []" using True g(4) by (auto simp: con_sync_def con_queues_def busy_def split: if_splits)
      moreover have "phandler p' = ConsoleWriteDone"
        by (rule con_pending_cases [OF p'(2,1)]) (use h(2) \<open>putBusy b\<close> in auto)
      ultimately show "wakes writeDone ?v (Suc n) b"
        using b(3) bv g(4) by (intro wakes_finish [OF _ _ _ _ _ p'(1)]) simp_all
    qed
  qed
  then show ?thesis using con_wakes [OF g(1-3) i True] by simp
qed

section \<open>The operations of the synchronised console\<close>

lemma running_fields [simp]:
  "running (set_holder l h s) = running s" "running (s\<lparr>incoming := c\<rparr>) = running s"
  by (simp_all add: running_def set_holder_def)

lemma con_lock_value:
  assumes "con_good v s"
  shows "con_good (v\<lparr>lockVal := x\<rparr>) (set_sem consoleSem ((sems s consoleSem)\<lparr>svalue := x\<rparr>) s)"
proof -
  let ?s = "set_sem consoleSem ((sems s consoleSem)\<lparr>svalue := x\<rparr>) s"
  have "con_pending v ?s" "con_device v ?s" using assms con_same [of ?s s v] by (simp_all add: con_good_def set_sem_def)
  then show ?thesis using assms
    by (auto simp: con_good_def con_sync_def con_thread_def con_queues_def buffered_def busy_def set_sem_def)
qed

lemma con_lock_holder:
  assumes "con_good v s"
  shows "con_good (v\<lparr>lockHolder := h\<rparr>) (set_holder consoleLock h s)"
proof -
  let ?s = "set_holder consoleLock h s"
  have "con_pending v ?s" "con_device v ?s" using assms con_same [of ?s s v] by (simp_all add: con_good_def set_holder_def)
  then show ?thesis using assms
    by (auto simp: con_good_def con_sync_def con_thread_def con_queues_def buffered_def busy_def set_holder_def)
qed

lemma con_lock:
  "con_good v s \<Longrightarrow> sems s consoleSem = \<lparr>svalue = lockVal v, squeue = []\<rparr>"
  "con_good v s \<Longrightarrow> locks s consoleLock = \<lparr>lsem = consoleSem, holder = lockHolder v\<rparr>"
  "con_good v s \<Longrightarrow> currentThread s = vme v"
  by (simp_all add: con_good_def con_sync_def con_thread_def)

definition locked :: "cview \<Rightarrow> cview" where
  "locked v = v\<lparr>lockVal := 0, lockHolder := Some (vme v)\<rparr>"

definition unlocked :: "cview \<Rightarrow> cview" where
  "unlocked v = v\<lparr>lockVal := 1, lockHolder := None\<rparr>"

lemma con_Acquire:
  assumes g: "con_good v s" "running s" "lockVal v = 1"
  shows "yields (Lock_Acquire console_call Inr (Suc n) consoleLock s) (\<lambda>s'. con_good (locked v) s' \<and> running s')"
proof -
  have "con_good (v\<lparr>lockVal := 0\<rparr>) (set_sem consoleSem ((sems s consoleSem)\<lparr>svalue := svalue (sems s consoleSem) - 1\<rparr>) s)"
    using con_lock_value [OF g(1), of 0] con_lock(1) [OF g(1)] g(3) by simp
  then have "yields (Semaphore_P console_call Inr (Suc n) consoleSem s) (\<lambda>s'. con_good (v\<lparr>lockVal := 0\<rparr>) s' \<and> running s')"
    using con_lock(1) [OF g(1)] g(2,3) by (intro con.P_now) simp_all
  then show ?thesis unfolding Lock_Acquire_def con_lock(2) [OF g(1)]
    using con_lock(3) [of "v\<lparr>lockVal := 0\<rparr>"] con_lock_holder [of "v\<lparr>lockVal := 0\<rparr>"]
    by (auto simp: yields_def locked_def)
qed

lemma con_Release:
  assumes g: "con_good v s" "running s" "lockVal v = 0" "lockHolder v = Some (vme v)"
  shows "yields (Lock_Release console_call Inr n consoleLock s) (\<lambda>s'. con_good (unlocked v) s' \<and> running s')"
proof -
  have h: "isHeldByCurrentThread consoleLock s" using con_lock(2,3) [OF g(1)] g(4) by (simp add: isHeldByCurrentThread_def)
  have "con_good (v\<lparr>lockVal := 1\<rparr>) (set_sem consoleSem ((sems s consoleSem)\<lparr>svalue := svalue (sems s consoleSem) + 1\<rparr>) s)"
    using con_lock_value [OF g(1), of 1] con_lock(1) [OF g(1)] g(3) by simp
  then have "yields (Semaphore_V console_call Inr n consoleSem s) (\<lambda>s'. con_good (v\<lparr>lockVal := 1\<rparr>) s' \<and> running s')"
    using con_lock(1) [OF g(1)] g(2) by (intro con.V_now) simp_all
  then show ?thesis using h unfolding Lock_Release_def con_lock(2) [OF g(1)]
    using con_lock_holder [of "v\<lparr>lockVal := 1\<rparr>" _ None] by (auto simp: yields_def unlocked_def)
qed

lemma con_GetChar:
  assumes g: "con_good v s" "taken v = 1" "\<not> arrived v"
  obtains c ks where "GetChar s = (c, s\<lparr>incoming := EOF\<rparr>)" "typed v = got v @ c # ks"
    "con_good (v\<lparr>got := got v @ [c], taken := 0\<rparr>) (s\<lparr>incoming := EOF\<rparr>)"
proof -
  let ?s = "s\<lparr>incoming := EOF\<rparr>" and ?c = "incoming s"
  have c: "?c \<noteq> EOF" using g(1,2) by (auto simp: con_good_def con_sync_def buffered_def)
  then have b: "buffered s = [?c]" "buffered ?s = []" by (simp_all add: buffered_def)
  have d: "con_device v s" "con_sync v s" using g(1) by (simp_all add: con_good_def)
  then have t: "typed v = got v @ ?c # keyboard s" using b by (simp add: con_device_def)
  have "con_device (v\<lparr>got := got v @ [?c], taken := 0\<rparr>) ?s"
    using d(1) g(3) b t unfolding con_device_def by simp
  moreover have "con_sync (v\<lparr>taken := 0\<rparr>) ?s" using d(2) g(2) b by (simp add: con_sync_def busy_def)
  moreover have "con_pending v ?s" using g(1) con_same(2) [of ?s s v] by (simp add: con_good_def)
  moreover have "con_thread v ?s" "con_queues v ?s" using g(1) by (simp_all add: con_good_def con_thread_def con_queues_def)
  ultimately have "con_good (v\<lparr>got := got v @ [?c], taken := 0\<rparr>) ?s" using g(1) by (simp add: con_good_def con_sync_def)
  then show thesis by (rule that [OF _ t, rotated]) (simp add: GetChar_def)
qed

lemma con_PutChar:
  assumes g: "con_good v s" "running s" "owed v = 0" "\<not> finished v"
  shows "yields (PutChar c s) (\<lambda>s'. \<exists>x. con_good (v\<lparr>shown := shown v @ [c], owed := 1, doneAt := x\<rparr>) s' \<and> running s')"
proof -
  let ?x = "totalTicks (stats s) + ConsoleTime"
  let ?r = "PendingInterrupt_new ConsoleWriteDone 0 ?x ConsoleWriteInt"
  let ?s = "s\<lparr>screen := screen s @ [c], putBusy := True, pending := seq_sorted_insert ?x ?r (pending s)\<rparr>"
  have idle: "\<not> putBusy s" using g(1,3) by (auto simp: con_good_def con_sync_def busy_def split: if_splits)
  from g(1) idle obtain w q where q: "pending s = [(w, q)]" "phandler q = ConsoleReadPoll" "ptype q \<noteq> TimerInt" "pollFrom v \<le> w"
    by (auto simp: con_good_def con_pending_def)
  have w: "totalTicks (stats s) < w" using g(2) q(1) by (simp add: running_def)
  have d: "con_device v s" using g(1) by (simp add: con_good_def)
  have "con_pending (v\<lparr>shown := shown v @ [c], owed := 1, doneAt := ?x\<rparr>) ?s"
    unfolding con_pending_def using q w
    by (intro conjI exI [of _ w] exI [of _ q] exI [of _ ?r]) (auto simp: PendingInterrupt_new_def)
  moreover have "con_device (v\<lparr>shown := shown v @ [c], owed := 1, doneAt := ?x\<rparr>) ?s"
    using d g(4) unfolding con_device_def buffered_def by force
  moreover have "con_sync (v\<lparr>owed := 1\<rparr>) ?s"
    using g(1,3) idle by (auto simp: con_good_def con_sync_def busy_def buffered_def)
  moreover have "con_thread v ?s" "con_queues v ?s" using g(1) by (simp_all add: con_good_def con_thread_def con_queues_def)
  ultimately have "con_good (v\<lparr>shown := shown v @ [c], owed := 1, doneAt := ?x\<rparr>) ?s"
    using g(1) by (simp add: con_good_def con_sync_def)
  moreover have "running ?s" using g(2) q(1) by (simp add: running_def)
  moreover have "PutChar c s = Inr ?s" using idle by (simp add: PutChar_def Schedule_def Let_def)
  ultimately show ?thesis by (auto simp: yields_def)
qed

lemma con_SynchGetChar:
  assumes g: "con_good v s" "running s" "lockVal v = 1" "lockHolder v = None" "taken v = 1" "\<not> arrived v"
  shows "yields (SynchConsole_GetChar (Suc n) s) (\<lambda>(c, s'). (\<exists>ks. typed v = got v @ c # ks) \<and>
    con_good (v\<lparr>got := got v @ [c], taken := 0\<rparr>) s' \<and> running s')"
proof -
  obtain s1 where s1: "Lock_Acquire console_call Inr (Suc n) consoleLock s = Inr s1" "con_good (locked v) s1" "running s1"
    using con_Acquire [OF g(1-3)] by (auto simp: yields_def)
  obtain c ks where c: "GetChar s1 = (c, s1\<lparr>incoming := EOF\<rparr>)" "typed v = got v @ c # ks"
    "con_good ((locked v)\<lparr>got := got v @ [c], taken := 0\<rparr>) (s1\<lparr>incoming := EOF\<rparr>)"
    by (rule con_GetChar [OF s1(2)]) (use g(5,6) in \<open>simp_all add: locked_def\<close>)
  have "unlocked ((locked v)\<lparr>got := got v @ [c], taken := 0\<rparr>) = v\<lparr>got := got v @ [c], taken := 0\<rparr>"
    using g(3,4) by (cases v) (simp add: locked_def unlocked_def)
  then obtain s2 where "Lock_Release console_call Inr (Suc n) consoleLock (s1\<lparr>incoming := EOF\<rparr>) = Inr s2"
    "con_good (v\<lparr>got := got v @ [c], taken := 0\<rparr>) s2" "running s2"
    using con_Release [OF c(3), of "Suc n"] s1(3) by (auto simp: yields_def locked_def)
  then show ?thesis using s1(1) c(1,2) by (simp add: SynchConsole_GetChar_def)
qed

lemma con_SynchPutChar:
  assumes g: "con_good v s" "running s" "lockVal v = 1" "lockHolder v = None" "owed v = 0" "\<not> finished v"
  shows "yields (SynchConsole_PutChar (Suc n) c s)
    (\<lambda>s'. \<exists>x. con_good (v\<lparr>shown := shown v @ [c], owed := 1, doneAt := x\<rparr>) s' \<and> running s')"
proof -
  obtain s1 where s1: "Lock_Acquire console_call Inr (Suc n) consoleLock s = Inr s1" "con_good (locked v) s1" "running s1"
    using con_Acquire [OF g(1-3)] by (auto simp: yields_def)
  have l: "owed (locked v) = 0" "\<not> finished (locked v)" "shown (locked v) = shown v" using g(5,6) by (simp_all add: locked_def)
  obtain s2 x where s2: "PutChar c s1 = Inr s2" "con_good ((locked v)\<lparr>shown := shown v @ [c], owed := 1, doneAt := x\<rparr>) s2" "running s2"
    using con_PutChar [OF s1(2,3) l(1,2), of c] l(3) by (auto simp: yields_def)
  have "unlocked ((locked v)\<lparr>shown := shown v @ [c], owed := 1, doneAt := x\<rparr>) = v\<lparr>shown := shown v @ [c], owed := 1, doneAt := x\<rparr>"
    using g(3,4) by (cases v) (simp add: locked_def unlocked_def)
  then have "yields (Lock_Release console_call Inr (Suc n) consoleLock s2)
      (\<lambda>s'. con_good (v\<lparr>shown := shown v @ [c], owed := 1, doneAt := x\<rparr>) s' \<and> running s')"
    using con_Release [OF s2(2,3), of "Suc n"] by (simp add: locked_def)
  then show ?thesis using s1(1) s2(1) by (auto simp: SynchConsole_PutChar_def yields_def)
qed

section \<open>The echo\<close>

text \<open>The view between two rounds, after \<open>k\<close> characters.\<close>

definition echo_view :: "nat \<Rightarrow> byte list \<Rightarrow> byte list \<Rightarrow> int \<Rightarrow> int \<Rightarrow> nat \<Rightarrow> cview" where
  "echo_view me ty old poll x k = \<lparr>vme = me, typed = ty, got = take k ty, shown = old @ take k ty, asleep = None, taken = 0, owed = 0,
     lockVal = 1, lockHolder = None, pollFrom = poll, doneAt = x, arrived = False, finished = False\<rparr>"

lemma echo_round:
  assumes g: "con_good (echo_view me ty old poll x k) s" "running s" "k < length ty"
  shows "\<exists>y s'. con_good (echo_view me ty old poll y (Suc k)) s' \<and> running s' \<and>
    echo_loop (Suc j) (Suc (Suc (Suc n))) s = (if ty ! k = quit then Inr s' else echo_loop j (Suc (Suc (Suc n))) s')"
proof -
  let ?v = "echo_view me ty old poll x k" and ?n = "Suc (Suc n)"
  have v: "asleep ?v = None" "taken ?v = 0" "owed ?v = 0" by (simp_all add: echo_view_def)
  have "con_device ?v s" using g(1) by (simp add: con_good_def)
  then have "ty = take k ty @ buffered s @ keyboard s" by (simp add: con_device_def echo_view_def)
  then have "buffered s @ keyboard s \<noteq> []" using g(3) by (metis append_Nil2 length_take min.absorb4 nat_neq_iff)
  from wait_read [OF g(1,2) v this, of "Suc n"] obtain s1 where s1: "Semaphore_P console_call Inr (Suc ?n) readAvail s = Inr s1"
    "con_good (took readAvail ?v) s1" "running s1" by (auto simp: yields_def)
  let ?v1 = "took readAvail ?v"
  have v1: "lockVal ?v1 = 1" "lockHolder ?v1 = None" "taken ?v1 = 1" "\<not> arrived ?v1" by (simp_all add: took_def echo_view_def)
  from con_SynchGetChar [OF s1(2,3) v1, of ?n] obtain c s2 ks where s2: "SynchConsole_GetChar (Suc ?n) s1 = Inr (c, s2)"
    "typed ?v1 = got ?v1 @ c # ks" "con_good (?v1\<lparr>got := got ?v1 @ [c], taken := 0\<rparr>) s2" "running s2" by (auto simp: yields_def)
  have "ty = take k ty @ c # ks" using s2(2) by (simp add: took_def echo_view_def)
  then have c: "c = ty ! k" "take k ty @ [c] = take (Suc k) ty" using g(3)
    by (metis length_take min.absorb4 nth_append_length, metis length_take min.absorb4 nth_append_length take_Suc_conv_app_nth)
  let ?v2 = "?v1\<lparr>got := got ?v1 @ [c], taken := 0\<rparr>"
  have v2: "lockVal ?v2 = 1" "lockHolder ?v2 = None" "owed ?v2 = 0" "\<not> finished ?v2" by (simp_all add: took_def echo_view_def)
  from con_SynchPutChar [OF s2(3,4) v2, of ?n c] obtain s3 y where s3: "SynchConsole_PutChar (Suc ?n) c s2 = Inr s3"
    "con_good (?v2\<lparr>shown := shown ?v2 @ [c], owed := 1, doneAt := y\<rparr>) s3" "running s3" by (auto simp: yields_def)
  let ?v3 = "?v2\<lparr>shown := shown ?v2 @ [c], owed := 1, doneAt := y\<rparr>"
  have v3: "asleep ?v3 = None" "owed ?v3 = 1" by (simp_all add: took_def echo_view_def)
  from wait_write [OF s3(2,3) v3, of n] obtain s4 where s4: "Semaphore_P console_call Inr (Suc ?n) writeDone s3 = Inr s4"
    "con_good (took writeDone ?v3) s4" "running s4" by (auto simp: yields_def)
  have "took writeDone ?v3 = echo_view me ty old poll y (Suc k)" by (simp add: took_def echo_view_def c(2))
  then have "con_good (echo_view me ty old poll y (Suc k)) s4" using s4(2) by simp
  moreover have "echo_loop (Suc j) (Suc ?n) s = (if ty ! k = quit then Inr s4 else echo_loop j (Suc ?n) s4)"
    using s1(1) s2(1) s3(1) s4(1) c(1) by (simp only: echo_loop.simps bindE_Inr case_prod_conv)
  ultimately show ?thesis using s4(3) by blast
qed

lemma echo_run:
  assumes "con_good (echo_view me (xs @ quit # ys) old poll x k) s" "running s" "k \<le> length xs" "quit \<notin> set xs"
  shows "yields (echo_loop (Suc (length xs - k)) (Suc (Suc (Suc n))) s)
    (\<lambda>s'. \<exists>y. con_good (echo_view me (xs @ quit # ys) old poll y (Suc (length xs))) s')"
  using assms(1-3)
proof (induction "length xs - k" arbitrary: k x s)
  case 0
  then have k: "k = length xs" by simp
  from echo_round [OF 0(2,3), of "length xs - k" n] show ?case by (auto simp: k yields_def)
next
  case (Suc m)
  have k: "k < length xs" using Suc.hyps(2) by simp
  then have q: "(xs @ quit # ys) ! k \<noteq> quit" using assms(4) nth_mem [of k xs] by (metis nth_append)
  from echo_round [OF Suc.prems(1,2), of "length xs - k" n] k q obtain y s' where
    s': "con_good (echo_view me (xs @ quit # ys) old poll y (Suc k)) s'" "running s'"
    "echo_loop (Suc (length xs - k)) (Suc (Suc (Suc n))) s = echo_loop (length xs - k) (Suc (Suc (Suc n))) s'" by auto
  have "length xs - k = Suc (length xs - Suc k)" using k by simp
  then show ?case using Suc.hyps(1) [OF _ s'(1,2)] Suc.hyps(2) k s'(3) by simp
qed

text \<open>The state in which \<^verbatim>\<open>ConsoleTest\<close> is called: one thread, no device in use, the keyboard open.\<close>

definition console_ready :: "consys \<Rightarrow> bool" where
  "console_ready s \<longleftrightarrow> running s \<and> pending s = [] \<and> \<not> inHandler s \<and> readyList s = [] \<and> threadToBeDestroyed s = None \<and>
     (case threads s (currentThread s) of None \<Rightarrow> False | Some t \<Rightarrow> started t \<and> (hasStack t \<longrightarrow> fencepost t = STACK_FENCEPOST)) \<and>
     \<not> kbdClosed s \<and> EOF \<notin> set (keyboard s)"

lemma ConsoleTest_starts:
  assumes "console_ready s"
  shows "\<exists>s' poll x. ConsoleTest k n s = echo_loop k n s' \<and> running s' \<and>
    con_good (echo_view (currentThread s) (keyboard s) (screen s) poll x 0) s'"
proof -
  let ?due = "totalTicks (stats s) + ConsoleTime"
  let ?q = "PendingInterrupt_new ConsoleReadPoll 0 ?due ConsoleReadInt"
  let ?s = "s\<lparr>putBusy := False, incoming := EOF, pending := [(?due, ?q)], locks := (locks s)(consoleLock := \<lparr>lsem = consoleSem, holder = None\<rparr>),
      sems := (sems s)(consoleSem := Semaphore_new 1, readAvail := Semaphore_new 0, writeDone := Semaphore_new 0)\<rparr>"
  let ?v = "echo_view (currentThread s) (keyboard s) (screen s) ?due 0 0"
  have r: "running s" "pending s = []" using assms by (simp_all add: console_ready_def)
  have "ConsoleTest k n s = echo_loop k n ?s"
    using r(2) by (simp add: ConsoleTest_def SynchConsole_new_def Console_new_def Schedule_def Let_def)
  moreover have "running ?s" using r(1) by (simp add: running_def)
  moreover have "con_pending ?v ?s" unfolding con_pending_def
    by (intro conjI exI [of _ ?due] exI [of _ ?q] exI [of _ "PendingInterrupt_new ConsoleWriteDone 0 0 ConsoleWriteInt"])
      (simp_all add: PendingInterrupt_new_def echo_view_def)
  moreover have "con_device ?v ?s" "con_sync ?v ?s" "con_queues ?v ?s" "con_thread ?v ?s" "\<not> inHandler ?s"
    using assms by (auto simp: console_ready_def con_defs echo_view_def Semaphore_new_def split: option.splits)
  ultimately show ?thesis unfolding con_good_def by blast
qed

text \<open>
  C8: The echo program works through the interrupts: started by the only thread with \<^verbatim>\<open>q\<close> among the typed
  characters, it returns, having shown exactly the characters up to and including the first \<^verbatim>\<open>q\<close>, in order
  and none twice, with the output device idle; what was typed after it is still in the buffer and the keyboard.
  In every round it sleeps on the read semaphore until a poll finds a character and on the write semaphore until
  the output completes, three rounds of waiting at most.
\<close>

theorem ConsoleTest_echoes:
  assumes "console_ready s" "keyboard s = xs @ quit # ys" "quit \<notin> set xs"
  shows "\<exists>s'. ConsoleTest (Suc (length xs)) (3 + n) s = Inr s' \<and> screen s' = screen s @ xs @ [quit] \<and>
    buffered s' @ keyboard s' = ys \<and> \<not> putBusy s'"
proof -
  obtain s1 poll x where s1: "ConsoleTest (Suc (length xs)) (3 + n) s = echo_loop (Suc (length xs)) (3 + n) s1" "running s1"
    "con_good (echo_view (currentThread s) (xs @ quit # ys) (screen s) poll x 0) s1"
    using ConsoleTest_starts [OF assms(1)] assms(2) by metis
  obtain s' y where s': "echo_loop (Suc (length xs)) (3 + n) s1 = Inr s'"
    "con_good (echo_view (currentThread s) (xs @ quit # ys) (screen s) poll y (Suc (length xs))) s'"
    using echo_run [OF s1(3,2) _ assms(3), of n] by (auto simp: yields_def numeral_3_eq_3 simp del: echo_loop.simps)
  then have "con_device (echo_view (currentThread s) (xs @ quit # ys) (screen s) poll y (Suc (length xs))) s'"
    "con_sync (echo_view (currentThread s) (xs @ quit # ys) (screen s) poll y (Suc (length xs))) s'"
    by (simp_all add: con_good_def)
  then show ?thesis using s1(1) s'(1) by (auto simp: con_device_def con_sync_def echo_view_def busy_def split: if_splits)
qed

definition echo_state :: consys where
  "echo_state = \<lparr>level = IntOn, pending = [], inHandler = False, yieldOnReturn = False, istatus = SystemMode, stats = Statistics_new,
     threads = [0 \<mapsto> \<lparr>tid = 0, uid = 1, priority = 1000, timeSlice = 0, hasStack = False, fencepost = 0, tstatus = RUNNING,
       tname = ''main'', started = True\<rparr>],
     freshThread = 1, threadMap = True # replicate 127 False, currentThread = 0, threadToBeDestroyed = None, readyList = [],
     blockedList = [], sems = (\<lambda>_. Semaphore_new 0), locks = (\<lambda>_. \<lparr>lsem = 0, holder = None\<rparr>), conds = (\<lambda>_. []), randoms = (\<lambda>_. 0),
     keyboard = [0x68, 0x69, 0x71, 0x21], kbdClosed = False, screen = [0x3e], putBusy = False, incoming = 0\<rparr>"

theorem ConsoleTest_echoes_witness:
  "\<exists>s'. ConsoleTest 3 3 echo_state = Inr s' \<and> screen s' = [0x3e, 0x68, 0x69, 0x71] \<and> buffered s' @ keyboard s' = [0x21] \<and> \<not> putBusy s'"
  using ConsoleTest_echoes [of echo_state "[0x68, 0x69]" "[0x21]" 0]
  by (simp add: echo_state_def console_ready_def running_def numeral_3_eq_3 del: echo_loop.simps)

end
