(* ===== verification/Network_Device.thy ===== *)
theory Network_Device
  imports Threads Complex_Main
begin

text \<open>
  The network device (\<^verbatim>\<open>machine/network.h\<close>, \<^verbatim>\<open>machine/network.cc\<close>) and the layout of its packets.

  \<open>netsys\<close> extends the kernel state of one machine with the members of \<^verbatim>\<open>Network\<close>; \<open>socket\<close> holds the
  datagrams that the host has queued at the machine's socket.  Addresses and lengths are 32-bit words, read as
  signed or unsigned as the code does.  A fresh buffer holds whatever the heap held before: the argument \<open>junk\<close>.
  \<^verbatim>\<open>chanceToWork\<close> is a rational number, the rounding of its product with 100 is not modelled.
\<close>

section \<open>Packets\<close>

record PacketHeader =
  pto :: "32 word"
  pfrom :: "32 word"
  plength :: "32 word"

abbreviation (input) MaxWireSize :: nat where "MaxWireSize \<equiv> 64"
abbreviation (input) HeaderSize :: nat where "HeaderSize \<equiv> 12"
abbreviation (input) MaxPacketSize :: nat where "MaxPacketSize \<equiv> 52"
abbreviation (input) NetworkTime :: int where "NetworkTime \<equiv> 100"

definition packet_bytes :: "PacketHeader \<Rightarrow> byte list" where
  "packet_bytes h = word_bytes (pto h) @ word_bytes (pfrom h) @ word_bytes (plength h)"

definition packet_of_bytes :: "byte list \<Rightarrow> PacketHeader" where
  "packet_of_bytes bs = \<lparr>pto = bytes_word (slice 0 4 bs), pfrom = bytes_word (slice 4 4 bs), plength = bytes_word (slice 8 4 bs)\<rparr>"

text \<open>\<^verbatim>\<open>new char[n]\<close>.\<close>

definition new_buffer :: "(nat \<Rightarrow> byte) \<Rightarrow> nat \<Rightarrow> byte list" where
  "new_buffer junk n = map junk [0..<n]"

section \<open>The device\<close>

record netsys = kernel +
  ident :: "32 word"
  chanceToWork :: rat
  sendBusy :: bool
  inHdr :: PacketHeader
  inbox :: "byte list"
  socket :: "byte list list"

type_synonym 'z ntrans = "'z netsys_scheme \<Rightarrow> 'z netsys_scheme result"

definition Network_new :: "32 word \<Rightarrow> rat \<Rightarrow> 'z ntrans" where
  "Network_new addr reliability s =
     Schedule NetworkReadPoll 0 NetworkTime NetworkRecvInt
       (s\<lparr>ident := addr,
          chanceToWork := (if reliability < 0 then 0 else if reliability > 1 then 1 else reliability),
          sendBusy := False, inHdr := (inHdr s)\<lparr>plength := 0\<rparr>, socket := []\<rparr>)"

definition CheckPktAvail :: "'z ntrans \<Rightarrow> 'z ntrans" where
  "CheckPktAvail readHandler s =
     bindE (Schedule NetworkReadPoll 0 NetworkTime NetworkRecvInt s) (\<lambda>s.
     if plength (inHdr s) \<noteq> 0 then Inr s
     else case socket s of
       [] \<Rightarrow> Inr s
     | buffer # waiting \<Rightarrow>
         ASSERT (length buffer = MaxWireSize)
           (let s = s\<lparr>socket := waiting, inHdr := packet_of_bytes buffer\<rparr> in
            ASSERT (pto (inHdr s) = ident s \<and> unat (plength (inHdr s)) \<le> MaxPacketSize)
              (readHandler (s\<lparr>inbox := bcopyTo 0 (slice HeaderSize (unat (plength (inHdr s))) buffer) (inbox s),
                 stats := (stats s)\<lparr>numPacketsRecvd := numPacketsRecvd (stats s) + 1\<rparr>\<rparr>))))"

definition SendDone :: "'z ntrans \<Rightarrow> 'z ntrans" where
  "SendDone writeHandler s =
     writeHandler (s\<lparr>sendBusy := False, stats := (stats s)\<lparr>numPacketsSent := numPacketsSent (stats s) + 1\<rparr>\<rparr>)"

text \<open>\<open>Network_Send\<close> gives the datagram that it hands to the host for the socket of \<^verbatim>\<open>hdr.to\<close>, unless it loses the packet.\<close>

definition Network_Send :: "(nat \<Rightarrow> byte) \<Rightarrow> PacketHeader \<Rightarrow> byte list \<Rightarrow> 'z netsys_scheme \<Rightarrow>
    (byte list option \<times> 'z netsys_scheme) result" where
  "Network_Send junk hdr data s =
     ASSERT (\<not> sendBusy s \<and> plength hdr \<noteq> 0 \<and> unat (plength hdr) \<le> MaxPacketSize \<and> pfrom hdr = ident s)
       (bindE (Schedule NetworkSendDone 0 NetworkTime NetworkSendInt s) (\<lambda>s.
          let (r, s) = next_random s in
          if of_int (r smod 100) \<ge> chanceToWork s * 100 then Inr (None, s)
          else requireE OutOfBounds (unat (plength hdr) \<le> length data)
            (Inr (Some (bcopyTo HeaderSize (take (unat (plength hdr)) data)
                         (bcopyTo 0 (packet_bytes hdr) (new_buffer junk MaxWireSize))), s))))"

definition Network_Receive :: "byte list \<Rightarrow> 'z netsys_scheme \<Rightarrow> PacketHeader \<times> byte list \<times> 'z netsys_scheme" where
  "Network_Receive data s =
    (let hdr = inHdr s in
     (hdr, if plength hdr \<noteq> 0 then bcopyTo 0 (take (unat (plength hdr)) (inbox s)) data else data,
      s\<lparr>inHdr := hdr\<lparr>plength := 0\<rparr>\<rparr>))"

section \<open>Layout\<close>

lemma length_packet_bytes [simp]: "length (packet_bytes h) = HeaderSize"
  by (simp add: packet_bytes_def)

lemma length_new_buffer [simp]: "length (new_buffer junk n) = n"
  by (simp add: new_buffer_def)

lemma packet_roundtrip [simp]: "packet_of_bytes (packet_bytes h @ rest) = h"
  by (simp add: packet_of_bytes_def packet_bytes_def slice_def)

text \<open>A buffer that is filled from the front.\<close>

lemma bcopyTo_next:
  assumes "length xs = p" "p + length ys \<le> n"
  shows "bcopyTo p ys (bcopyTo 0 xs (new_buffer junk n)) = xs @ ys @ drop (p + length ys) (new_buffer junk n)"
  using assms by (simp add: bcopyTo_def add.commute)

text \<open>The datagram starts with the header and the data.\<close>

lemma Network_Send_datagram:
  assumes "Network_Send junk hdr data s = Inr (Some d, s')"
  shows "\<exists>rest. d = packet_bytes hdr @ take (unat (plength hdr)) data @ rest \<and> length d = MaxWireSize"
proof -
  have l: "unat (plength hdr) \<le> MaxPacketSize" "unat (plength hdr) \<le> length data"
    and d: "d = bcopyTo HeaderSize (take (unat (plength hdr)) data) (bcopyTo 0 (packet_bytes hdr) (new_buffer junk MaxWireSize))"
    using assms by (auto simp: Network_Send_def Schedule_def next_random_def Let_def result_simps split: if_splits)
  show ?thesis using l by (simp add: d bcopyTo_next)
qed

text \<open>A legal packet is sent or lost; the device then waits for the completion interrupt.\<close>

lemma Network_Send_returns:
  assumes "\<not> sendBusy s" "plength hdr \<noteq> 0" "unat (plength hdr) \<le> MaxPacketSize" "pfrom hdr = ident s" "unat (plength hdr) \<le> length data"
  defines "due \<equiv> totalTicks (stats s) + NetworkTime"
  shows "\<exists>d. Network_Send junk hdr data s = Inr (d, s\<lparr>pending := seq_sorted_insert due
    (PendingInterrupt_new NetworkSendDone 0 due NetworkSendInt) (pending s), randoms := \<lambda>n. randoms s (Suc n)\<rparr>)"
proof -
  let ?s = "s\<lparr>pending := seq_sorted_insert due (PendingInterrupt_new NetworkSendDone 0 due NetworkSendInt) (pending s)\<rparr>"
  have "Schedule NetworkSendDone 0 NetworkTime NetworkSendInt s = Inr ?s" by (simp add: Schedule_def due_def Let_def)
  then show ?thesis using assms(1-5)
    by (cases "of_int (randoms s 0 smod 100) \<ge> chanceToWork s * 100") (simp_all add: Network_Send_def next_random_def)
qed

end
