(* ===== verification/Post_Office.thy ===== *)
theory Post_Office
  imports Network_Device
begin

text \<open>
  The post office (\<^verbatim>\<open>network/post.h\<close>, \<^verbatim>\<open>network/post.cc\<close>) and the synchronised lists under its mailboxes
  (\<^verbatim>\<open>threads/synchlist.cc\<close>), on any number of machines that exchange datagrams.

  The code of a thread is a list of pieces.  A piece is what the thread executes between two points at which
  interrupts are enabled again; only there can an interrupt or another thread of the machine come in.  \<open>pexec\<close>
  executes one piece.  A piece that waits, for the value of a semaphore or for the signal of a condition, can
  be executed once what it waits for is there (the queues behind the waiting are the subject of
  \<^verbatim>\<open>Threads\<close> and \<^verbatim>\<open>Concurrency\<close>).  \<open>wstep\<close> lets any thread of any machine execute a piece, any thread call
  \<^verbatim>\<open>Send\<close> or \<^verbatim>\<open>Receive\<close>, and any machine take its next interrupt, in every order.
\<close>

section \<open>Mail\<close>

record MailHeader =
  mto :: "32 word"
  mfrom :: "32 word"
  mlength :: "32 word"

abbreviation (input) MaxMailSize :: nat where "MaxMailSize \<equiv> 40"

definition mailhdr_bytes :: "MailHeader \<Rightarrow> byte list" where
  "mailhdr_bytes h = word_bytes (mto h) @ word_bytes (mfrom h) @ word_bytes (mlength h)"

definition mailhdr_of_bytes :: "byte list \<Rightarrow> MailHeader" where
  "mailhdr_of_bytes bs = \<lparr>mto = bytes_word (slice 0 4 bs), mfrom = bytes_word (slice 4 4 bs), mlength = bytes_word (slice 8 4 bs)\<rparr>"

text \<open>Of the array \<^verbatim>\<open>data\<close> the part that the constructor fills.\<close>

record Mail =
  pktHdr :: PacketHeader
  mailHdr :: MailHeader
  mdata :: "byte list"

definition Mail_new :: "PacketHeader \<Rightarrow> MailHeader \<Rightarrow> byte list \<Rightarrow> Mail result" where
  "Mail_new pktH mailH msgData =
     ASSERT (unat (mlength mailH) \<le> MaxMailSize)
       (requireE OutOfBounds (unat (mlength mailH) \<le> length msgData)
         (Inr \<lparr>pktHdr = pktH, mailHdr = mailH, mdata = take (unat (mlength mailH)) msgData\<rparr>))"

section \<open>The state of a machine\<close>

text \<open>
  \<open>boxes\<close> holds the list of each mailbox; \<open>pdBuffer\<close> is the local buffer of \<^verbatim>\<open>PostalDelivery\<close>.  The semaphores and
  the lock of the post office come first, then the lock and the condition of each mailbox.
\<close>

record postsys = netsys +
  netAddr :: "32 word"
  numBoxes :: int
  boxes :: "Mail list list"
  pdBuffer :: "byte list"

abbreviation (input) messageAvailable :: nat where "messageAvailable \<equiv> 0"
abbreviation (input) messageSent :: nat where "messageSent \<equiv> 1"
abbreviation (input) sendLock :: nat where "sendLock \<equiv> 0"
abbreviation (input) boxLock :: "nat \<Rightarrow> nat" where "boxLock b \<equiv> Suc b"
abbreviation (input) lockSem :: "nat \<Rightarrow> nat" where "lockSem l \<equiv> l + 2"

datatype piece =
    DoP nat | DoV nat
  | DoAcquire nat | DoHold nat | DoRelease nat | DoUnhold nat
  | DoAppend nat Mail | DoSignal nat
  | DoRemove nat | DoWait nat | DoAsleep nat | DoReceived Mail
  | DoNetSend PacketHeader "byte list" Mail | DoDeliver

section \<open>Synchronised lists\<close>

definition SynchList_new :: "nat \<Rightarrow> postsys \<Rightarrow> postsys" where
  "SynchList_new b s = s\<lparr>boxes := (boxes s)[b := []],
     locks := (locks s)(boxLock b := \<lparr>lsem = lockSem (boxLock b), holder = None\<rparr>),
     sems := (sems s)(lockSem (boxLock b) := Semaphore_new 1), conds := (conds s)(b := [])\<rparr>"

definition SynchList_Append :: "nat \<Rightarrow> Mail \<Rightarrow> piece list" where
  "SynchList_Append b m = [DoAcquire (boxLock b), DoAppend b m, DoSignal b, DoRelease (boxLock b)]"

definition SynchList_Remove :: "nat \<Rightarrow> piece list" where
  "SynchList_Remove b = [DoAcquire (boxLock b), DoRemove b]"

section \<open>The post office\<close>

definition MailBox_Put :: "nat \<Rightarrow> PacketHeader \<Rightarrow> MailHeader \<Rightarrow> byte list \<Rightarrow> piece list result" where
  "MailBox_Put b pktH mailH data = bindE (Mail_new pktH mailH data) (\<lambda>mail. Inr (SynchList_Append b mail))"

text \<open>\<^verbatim>\<open>Get\<close>: \<open>DoReceived\<close> stands for what follows the removal, the copy of the message into the caller's variables.\<close>

definition MailBox_Get :: "nat \<Rightarrow> piece list" where
  "MailBox_Get b = SynchList_Remove b"

definition IncomingPacket :: "postsys \<Rightarrow> postsys result" where
  "IncomingPacket s = Semaphore_V (\<lambda>h a s. Inl WildPointer) Inr 0 messageAvailable s"

definition PacketSent :: "postsys \<Rightarrow> postsys result" where
  "PacketSent s = Semaphore_V (\<lambda>h a s. Inl WildPointer) Inr 0 messageSent s"

definition network_call :: "handler \<Rightarrow> int \<Rightarrow> postsys \<Rightarrow> postsys result" where
  "network_call h a s =
    (if h = NetworkReadPoll then CheckPktAvail IncomingPacket s
     else if h = NetworkSendDone then SendDone PacketSent s
     else Inl WildPointer)"

text \<open>\<open>PostOffice_new\<close> also gives the thread of the postal worker, whose code is \<open>PostalHelper\<close>.\<close>

definition PostOffice_new :: "32 word \<Rightarrow> rat \<Rightarrow> int \<Rightarrow> postsys \<Rightarrow> (nat \<times> postsys) result" where
  "PostOffice_new addr reliability nBoxes s =
    (let s = s\<lparr>sems := (sems s)(messageAvailable := Semaphore_new 0, messageSent := Semaphore_new 0, lockSem sendLock := Semaphore_new 1),
               locks := (locks s)(sendLock := \<lparr>lsem = lockSem sendLock, holder = None\<rparr>),
               netAddr := addr, numBoxes := nBoxes, boxes := replicate (nat nBoxes) []\<rparr>;
         s = fold SynchList_new [0..<nat nBoxes] s in
     bindE (Network_new addr reliability s) (\<lambda>s.
       let (t, s) = Thread_new ''postal worker'' 1000 s in
       bindE (Fork_body t s) (\<lambda>s. Inr (t, s))))"

definition PostalHelper :: "piece list" where
  "PostalHelper = [DoP messageAvailable, DoDeliver]"

text \<open>The body of the loop of \<^verbatim>\<open>PostalDelivery\<close> after the wait.\<close>

definition PostalDelivery :: "postsys \<Rightarrow> (piece list \<times> postsys) result" where
  "PostalDelivery s =
    (let (hdr, buffer, s) = Network_Receive (pdBuffer s) s;
         mailH = mailhdr_of_bytes buffer; s = s\<lparr>pdBuffer := buffer\<rparr> in
     ASSERT (0 \<le> sint (mto mailH) \<and> sint (mto mailH) < numBoxes s)
       (ASSERT (unat (mlength mailH) \<le> MaxMailSize)
         (bindE (MailBox_Put (nat (sint (mto mailH))) hdr mailH (drop HeaderSize buffer)) (\<lambda>put.
            Inr (put @ PostalHelper, s)))))"

text \<open>\<^verbatim>\<open>Send\<close>; the last argument of \<open>DoNetSend\<close> is the message as the caller gave it, for the trace.\<close>

definition PostOffice_Send :: "(nat \<Rightarrow> byte) \<Rightarrow> PacketHeader \<Rightarrow> MailHeader \<Rightarrow> byte list \<Rightarrow> postsys \<Rightarrow> piece list result" where
  "PostOffice_Send junk pktH mailH data s =
     ASSERT (unat (mlength mailH) \<le> MaxMailSize)
       (ASSERT (0 \<le> sint (mto mailH) \<and> sint (mto mailH) < numBoxes s)
         (let pktH = pktH\<lparr>pfrom := netAddr s, plength := mlength mailH + 12\<rparr>;
              payload = take (unat (mlength mailH)) data;
              buffer = bcopyTo HeaderSize payload (bcopyTo 0 (mailhdr_bytes mailH) (new_buffer junk MaxPacketSize)) in
          requireE OutOfBounds (unat (mlength mailH) \<le> length data)
            (Inr [DoAcquire sendLock, DoNetSend pktH buffer \<lparr>pktHdr = pktH, mailHdr = mailH, mdata = payload\<rparr>,
                  DoP messageSent, DoRelease sendLock])))"

definition PostOffice_Receive :: "int \<Rightarrow> postsys \<Rightarrow> piece list result" where
  "PostOffice_Receive box s = ASSERT (box \<ge> 0 \<and> box < numBoxes s) (Inr (MailBox_Get (nat box)))"

section \<open>Execution\<close>

text \<open>\<open>postman\<close> is the thread of the postal worker.\<close>

record node =
  sys :: postsys
  postman :: nat
  ncode :: "nat \<Rightarrow> piece list"

datatype event = EvSent "32 word" Mail | EvLost "32 word" Mail | EvGot "32 word" nat Mail

text \<open>
  One piece of thread \<open>t\<close>, with \<open>rest\<close> to follow; the result has the events, the datagram that leaves the
  machine, the state and the code that is left.
\<close>

definition pexec :: "(nat \<Rightarrow> byte) \<Rightarrow> nat \<Rightarrow> piece \<Rightarrow> piece list \<Rightarrow> postsys \<Rightarrow>
    (event list \<times> byte list option \<times> postsys \<times> piece list) result" where
  "pexec junk t p rest s =
    (case p of
        DoP i \<Rightarrow> if svalue (sems s i) = 0 then Inl WouldBlock
          else Inr ([], None, set_sem i ((sems s i)\<lparr>svalue := svalue (sems s i) - 1\<rparr>) s, rest)
      | DoV i \<Rightarrow> bindE (V_body i s) (\<lambda>s. Inr ([], None, s, rest))
      | DoAcquire l \<Rightarrow> Inr ([], None, s, DoP (lsem (locks s l)) # DoHold l # rest)
      | DoHold l \<Rightarrow> Inr ([], None, set_holder l (Some t) s, rest)
      | DoRelease l \<Rightarrow> Inr ([], None, s, if holder (locks s l) = Some t then DoV (lsem (locks s l)) # DoUnhold l # rest else rest)
      | DoUnhold l \<Rightarrow> Inr ([], None, set_holder l None s, rest)
      | DoAppend b m \<Rightarrow> Inr ([], None, s\<lparr>boxes := (boxes s)[b := boxes s ! b @ [m]]\<rparr>, rest)
      | DoSignal b \<Rightarrow> Inr ([], None, s\<lparr>conds := (conds s)(b := tl (conds s b))\<rparr>, rest)
      | DoRemove b \<Rightarrow>
          (case boxes s ! b of
             [] \<Rightarrow> Inr ([], None, s, [DoRelease (boxLock b), DoWait b, DoAcquire (boxLock b), DoRemove b] @ rest)
           | m # ms \<Rightarrow> Inr ([EvGot (ident s) b m], None, s\<lparr>boxes := (boxes s)[b := ms]\<rparr>, DoRelease (boxLock b) # DoReceived m # rest))
      | DoWait b \<Rightarrow> Inr ([], None, s\<lparr>conds := (conds s)(b := conds s b @ [t])\<rparr>, DoAsleep b # rest)
      | DoAsleep b \<Rightarrow> if t \<in> set (conds s b) then Inl WouldBlock else Inr ([], None, s, rest)
      | DoReceived m \<Rightarrow> ASSERT (unat (mlength (mailHdr m)) \<le> MaxMailSize) (Inr ([], None, s, rest))
      | DoNetSend hdr buffer m \<Rightarrow>
          bindE (Network_Send junk hdr buffer s) (\<lambda>(d, s).
            Inr ([if d = None then EvLost (pto hdr) m else EvSent (pto hdr) m], d, s, rest))
      | DoDeliver \<Rightarrow> bindE (PostalDelivery s) (\<lambda>(put, s). Inr ([], None, s, put @ rest)))"

type_synonym world = "32 word \<Rightarrow> node option"

datatype action =
    CallSend "32 word" nat "nat \<Rightarrow> byte" PacketHeader MailHeader "byte list"
  | CallReceive "32 word" nat int
  | Piece "32 word" nat "nat \<Rightarrow> byte"
  | Intr "32 word"

text \<open>The next interrupt of a machine, whenever it comes.\<close>

definition take_interrupt :: "postsys \<Rightarrow> postsys result" where
  "take_interrupt s = bindE (CheckIfDue network_call Inr True (s\<lparr>level := IntOff\<rparr>)) (\<lambda>(_, s'). Inr (s'\<lparr>level := level s\<rparr>))"

text \<open>\<^verbatim>\<open>SendToSocket\<close>: the host queues the datagram at the socket of the destination, which has to exist.\<close>

definition SendToSocket :: "32 word \<Rightarrow> byte list option \<Rightarrow> world \<Rightarrow> world result" where
  "SendToSocket to d w =
    (case d of None \<Rightarrow> Inr w
     | Some d \<Rightarrow> (case w to of None \<Rightarrow> Inl AssertFailed
         | Some nd \<Rightarrow> Inr (w(to \<mapsto> nd\<lparr>sys := (sys nd)\<lparr>socket := socket (sys nd) @ [d]\<rparr>\<rparr>))))"

definition put_code :: "nat \<Rightarrow> piece list \<Rightarrow> node \<Rightarrow> node" where
  "put_code t ps nd = nd\<lparr>ncode := (ncode nd)(t := ps)\<rparr>"

fun dest_of :: "piece \<Rightarrow> 32 word" where
  "dest_of (DoNetSend hdr buffer m) = pto hdr"
| "dest_of p = 0"

definition wstep :: "action \<Rightarrow> world \<Rightarrow> (event list \<times> world) result" where
  "wstep act w =
    (case act of
       CallSend a t junk pktH mailH data \<Rightarrow>
         (case w a of None \<Rightarrow> Inl WouldBlock | Some nd \<Rightarrow>
            if ncode nd t \<noteq> [] then Inl WouldBlock
            else bindE (PostOffice_Send junk pktH mailH data (sys nd)) (\<lambda>ps. Inr ([], w(a \<mapsto> put_code t ps nd))))
     | CallReceive a t b \<Rightarrow>
         (case w a of None \<Rightarrow> Inl WouldBlock | Some nd \<Rightarrow>
            if ncode nd t \<noteq> [] then Inl WouldBlock
            else bindE (PostOffice_Receive b (sys nd)) (\<lambda>ps. Inr ([], w(a \<mapsto> put_code t ps nd))))
     | Piece a t junk \<Rightarrow>
         (case w a of None \<Rightarrow> Inl WouldBlock | Some nd \<Rightarrow>
            (case ncode nd t of [] \<Rightarrow> Inl WouldBlock | p # rest \<Rightarrow>
               bindE (pexec junk t p rest (sys nd)) (\<lambda>(ev, d, s, ps).
               bindE (SendToSocket (dest_of p) d (w(a \<mapsto> put_code t ps (nd\<lparr>sys := s\<rparr>)))) (\<lambda>w'. Inr (ev, w')))))
     | Intr a \<Rightarrow>
         (case w a of None \<Rightarrow> Inl WouldBlock | Some nd \<Rightarrow>
            bindE (take_interrupt (sys nd)) (\<lambda>s. Inr ([], w(a \<mapsto> nd\<lparr>sys := s\<rparr>)))))"

text \<open>What the callers owe the post office: the mail fits, and is for a mailbox of a machine that is there.\<close>

fun legal_call :: "world \<Rightarrow> action \<Rightarrow> bool" where
  "legal_call w (CallSend a t junk pktH mailH data) \<longleftrightarrow> unat (mlength mailH) \<le> MaxMailSize \<and> unat (mlength mailH) \<le> length data \<and>
     (case w a of None \<Rightarrow> True | Some nd \<Rightarrow> 0 \<le> sint (mto mailH) \<and> sint (mto mailH) < numBoxes (sys nd)) \<and> w (pto pktH) \<noteq> None"
| "legal_call w (CallReceive a t b) \<longleftrightarrow> (case w a of None \<Rightarrow> True | Some nd \<Rightarrow> 0 \<le> b \<and> b < numBoxes (sys nd))"
| "legal_call w act \<longleftrightarrow> True"

inductive wreach :: "world \<Rightarrow> event list \<Rightarrow> world \<Rightarrow> bool" for w0 where
  wstart: "wreach w0 [] w0"
| wstep: "wreach w0 tr w \<Longrightarrow> legal_call w act \<Longrightarrow> wstep act w = Inr (ev, w') \<Longrightarrow> wreach w0 (tr @ ev) w'"

text \<open>A machine at start-up: its main thread has created the post office, the postal worker is about to run.\<close>

definition post_boot :: "32 word \<Rightarrow> rat \<Rightarrow> int \<Rightarrow> postsys \<Rightarrow> node result" where
  "post_boot addr reliability nBoxes s =
     bindE (PostOffice_new addr reliability nBoxes s) (\<lambda>(t, s). Inr \<lparr>sys = s, postman = t, ncode = (\<lambda>_. [])(t := PostalHelper)\<rparr>)"

section \<open>The way of a message\<close>

text \<open>The message in a buffer that starts with a mail header, and in a datagram.\<close>

definition payload_mail :: "PacketHeader \<Rightarrow> byte list \<Rightarrow> Mail" where
  "payload_mail hdr bs = \<lparr>pktHdr = hdr, mailHdr = mailhdr_of_bytes bs,
     mdata = take (unat (mlength (mailhdr_of_bytes bs))) (drop HeaderSize bs)\<rparr>"

definition wire_mail :: "byte list \<Rightarrow> Mail" where
  "wire_mail d = payload_mail (packet_of_bytes d) (drop HeaderSize d)"

definition legal_mail :: "int \<Rightarrow> 32 word \<Rightarrow> Mail \<Rightarrow> bool" where
  "legal_mail nb a m \<longleftrightarrow> pto (pktHdr m) = a \<and> plength (pktHdr m) = mlength (mailHdr m) + 12 \<and>
     unat (mlength (mailHdr m)) \<le> MaxMailSize \<and> 0 \<le> sint (mto (mailHdr m)) \<and> sint (mto (mailHdr m)) < nb"

text \<open>Messages that a machine has taken in or is about to: at the postal worker, in the device, in the socket.\<close>

definition held :: "piece list \<Rightarrow> Mail list" where
  "held ps = concat (map (\<lambda>p. case p of DoAppend b m \<Rightarrow> [m] | _ \<Rightarrow> []) ps)"

definition inboxed :: "postsys \<Rightarrow> Mail list" where
  "inboxed s = (if plength (inHdr s) = 0 then [] else [payload_mail (inHdr s) (inbox s)])"

definition transit :: "node \<Rightarrow> Mail list" where
  "transit nd = held (ncode nd (postman nd)) @ inboxed (sys nd) @ map wire_mail (socket (sys nd))"

definition box_of :: "Mail \<Rightarrow> nat" where
  "box_of m = nat (sint (mto (mailHdr m)))"

definition for_box :: "nat \<Rightarrow> Mail list \<Rightarrow> Mail list" where
  "for_box b ms = filter (\<lambda>m. box_of m = b) ms"

definition sent_to :: "32 word \<Rightarrow> event list \<Rightarrow> Mail list" where
  "sent_to a tr = concat (map (\<lambda>e. case e of EvSent c m \<Rightarrow> if c = a then [m] else [] | _ \<Rightarrow> []) tr)"

definition got :: "32 word \<Rightarrow> nat \<Rightarrow> event list \<Rightarrow> Mail list" where
  "got a b tr = concat (map (\<lambda>e. case e of EvGot c i m \<Rightarrow> if c = a \<and> i = b then [m] else [] | _ \<Rightarrow> []) tr)"

lemma trace_simps [simp]:
  "sent_to a (tr @ tr') = sent_to a tr @ sent_to a tr'" "got a b (tr @ tr') = got a b tr @ got a b tr'"
  "sent_to a [] = []" "got a b [] = []" "sent_to a [EvSent c m] = (if c = a then [m] else [])"
  "sent_to a [EvLost c m] = []" "sent_to a [EvGot c i m] = []" "got a b [EvSent c m] = []" "got a b [EvLost c m] = []"
  "got a b [EvGot c i m] = (if c = a \<and> i = b then [m] else [])"
  by (simp_all add: sent_to_def got_def)

lemma held_simps [simp]:
  "held [] = []" "held (DoAppend b m # ps) = m # held ps" "held (ps @ qs) = held ps @ held qs"
  "held (DoP i # ps) = held ps" "held (DoV i # ps) = held ps" "held (DoAcquire l # ps) = held ps"
  "held (DoHold l # ps) = held ps" "held (DoRelease l # ps) = held ps" "held (DoUnhold l # ps) = held ps"
  "held (DoSignal b # ps) = held ps" "held (DoRemove b # ps) = held ps" "held (DoWait b # ps) = held ps"
  "held (DoAsleep b # ps) = held ps" "held (DoReceived m # ps) = held ps" "held (DoNetSend h bs m # ps) = held ps"
  "held (DoDeliver # ps) = held ps" "held PostalHelper = []"
  by (simp_all add: held_def PostalHelper_def)

lemma for_box_simps [simp]:
  "for_box b (ms @ ms') = for_box b ms @ for_box b ms'" "for_box b [] = []"
  "for_box b (m # ms) = (if box_of m = b then m # for_box b ms else for_box b ms)"
  by (simp_all add: for_box_def)

section \<open>Layout\<close>

lemma length_mailhdr_bytes [simp]: "length (mailhdr_bytes h) = HeaderSize"
  by (simp add: mailhdr_bytes_def)

lemma mailhdr_roundtrip [simp]: "mailhdr_of_bytes (mailhdr_bytes h @ rest) = h"
  by (simp add: mailhdr_of_bytes_def mailhdr_bytes_def slice_def)

lemma payload_roundtrip:
  "length data = unat (mlength mh) \<Longrightarrow> payload_mail h (mailhdr_bytes mh @ data @ rest) = \<lparr>pktHdr = h, mailHdr = mh, mdata = data\<rparr>"
  by (simp add: payload_mail_def)

lemma legal_length:
  assumes "legal_mail nb a m"
  shows "unat (plength (pktHdr m)) = unat (mlength (mailHdr m)) + HeaderSize" "plength (pktHdr m) \<noteq> 0"
    "unat (plength (pktHdr m)) \<le> MaxPacketSize"
proof -
  have m: "unat (mlength (mailHdr m)) \<le> 40" "plength (pktHdr m) = mlength (mailHdr m) + 12"
    using assms by (simp_all add: legal_mail_def)
  then show l: "unat (plength (pktHdr m)) = unat (mlength (mailHdr m)) + HeaderSize" by (simp add: unat_word_ariths)
  show "plength (pktHdr m) \<noteq> 0" using l by (metis add_is_0 unat_0 zero_neq_numeral)
  show "unat (plength (pktHdr m)) \<le> MaxPacketSize" using l m(1) by simp
qed

text \<open>The message depends on the bytes that the header counts only.\<close>

lemma payload_cong:
  assumes "legal_mail nb a (payload_mail h xs)" "take (unat (plength h)) ys = take (unat (plength h)) xs"
  shows "payload_mail h ys = payload_mail h xs"
proof -
  let ?n = "unat (plength h)" and ?k = "unat (mlength (mailhdr_of_bytes xs))"
  have n: "?n = ?k + HeaderSize" using legal_length(1) [OF assms(1)] by (simp add: payload_mail_def)
  have t: "take j ys = take j xs" if "j \<le> ?n" for j using assms(2) that by (metis min.absorb1 take_take)
  have s: "slice p 4 ys = slice p 4 xs" if "p \<le> 8" for p
    using t [of "p + 4"] that n by (simp add: slice_def take_drop add.commute)
  have h: "mailhdr_of_bytes ys = mailhdr_of_bytes xs" using s [of 0] s [of 4] s [of 8] by (simp add: mailhdr_of_bytes_def)
  have "take ?k (drop HeaderSize ys) = take ?k (drop HeaderSize xs)" using t [of "HeaderSize + ?k"] n by (simp add: take_drop add.commute)
  then show ?thesis by (simp add: payload_mail_def h)
qed

end
