(* ===== verification/Mail_Delivery.thy ===== *)
theory Mail_Delivery
  imports Post_Office
begin

text \<open>
  The post offices deliver: an invariant of all runs of \<open>wstep\<close>, from which no assertion of the network or the
  post office fails and every mailbox gets the messages sent to it, unchanged, in order, once.
\<close>

section \<open>The invariant\<close>

fun piece_ok :: "int \<Rightarrow> 32 word set \<Rightarrow> 32 word \<Rightarrow> piece \<Rightarrow> bool" where
  "piece_ok nb D a (DoP i) \<longleftrightarrow> i \<noteq> messageAvailable"
| "piece_ok nb D a (DoV i) \<longleftrightarrow> i \<noteq> messageAvailable"
| "piece_ok nb D a (DoAcquire l) \<longleftrightarrow> l \<le> nat nb"
| "piece_ok nb D a (DoHold l) \<longleftrightarrow> True"
| "piece_ok nb D a (DoRelease l) \<longleftrightarrow> l \<le> nat nb"
| "piece_ok nb D a (DoUnhold l) \<longleftrightarrow> True"
| "piece_ok nb D a (DoAppend b m) \<longleftrightarrow> b = box_of m \<and> b < nat nb \<and> unat (mlength (mailHdr m)) \<le> MaxMailSize"
| "piece_ok nb D a (DoSignal b) \<longleftrightarrow> True"
| "piece_ok nb D a (DoRemove b) \<longleftrightarrow> b < nat nb"
| "piece_ok nb D a (DoWait b) \<longleftrightarrow> True"
| "piece_ok nb D a (DoAsleep b) \<longleftrightarrow> True"
| "piece_ok nb D a (DoReceived m) \<longleftrightarrow> unat (mlength (mailHdr m)) \<le> MaxMailSize"
| "piece_ok nb D a (DoNetSend h bs m) \<longleftrightarrow> legal_mail nb (pto h) m \<and> pto h \<in> D \<and> pfrom h = a \<and>
     length bs = MaxPacketSize \<and> payload_mail h bs = m"
| "piece_ok nb D a DoDeliver \<longleftrightarrow> False"

text \<open>The postal worker waits, delivers, or is putting a message into a mailbox; no other thread does.\<close>

definition worker_ok :: "int \<Rightarrow> 32 word set \<Rightarrow> 32 word \<Rightarrow> piece list \<Rightarrow> bool" where
  "worker_ok nb D a ps \<longleftrightarrow> ps = [DoDeliver] \<or> (\<exists>q. ps = q @ PostalHelper \<and> list_all (piece_ok nb D a) q)"

definition codes_ok :: "int \<Rightarrow> 32 word set \<Rightarrow> 32 word \<Rightarrow> node \<Rightarrow> bool" where
  "codes_ok nb D a nd \<longleftrightarrow> worker_ok nb D a (ncode nd (postman nd)) \<and>
     (\<forall>t. t \<noteq> postman nd \<longrightarrow> list_all (piece_ok nb D a) (ncode nd t) \<and> held (ncode nd t) = [])"

definition wire_ok :: "int \<Rightarrow> 32 word \<Rightarrow> byte list \<Rightarrow> bool" where
  "wire_ok nb a d \<longleftrightarrow> length d = MaxWireSize \<and> legal_mail nb a (wire_mail d)"

definition sys_ok :: "int \<Rightarrow> 32 word \<Rightarrow> postsys \<Rightarrow> bool" where
  "sys_ok nb a s \<longleftrightarrow> ident s = a \<and> netAddr s = a \<and> numBoxes s = nb \<and> \<not> sendBusy s \<and>
     length (inbox s) = MaxPacketSize \<and> length (pdBuffer s) = MaxPacketSize \<and> length (boxes s) = nat nb \<and>
     (\<forall>l \<le> nat nb. lsem (locks s l) = lockSem l) \<and> (\<forall>i. squeue (sems s i) = []) \<and>
     list_all (wire_ok nb a) (socket s) \<and>
     (plength (inHdr s) \<noteq> 0 \<longrightarrow> legal_mail nb a (payload_mail (inHdr s) (inbox s))) \<and>
     (\<forall>b < nat nb. \<forall>m \<in> set (boxes s ! b). unat (mlength (mailHdr m)) \<le> MaxMailSize) \<and>
     (\<forall>e \<in> set (pending s). phandler (snd e) \<in> {NetworkReadPoll, NetworkSendDone})"

text \<open>The value of \<^verbatim>\<open>messageAvailable\<close>: one for a packet in the device that the worker has not been told of.\<close>

definition avail_ok :: "node \<Rightarrow> bool" where
  "avail_ok nd \<longleftrightarrow> 0 \<le> svalue (sems (sys nd) messageAvailable) \<and>
     svalue (sems (sys nd) messageAvailable) =
       (if plength (inHdr (sys nd)) = 0 then 0 else 1) - (if ncode nd (postman nd) = [DoDeliver] then 1 else 0)"

definition node_ok :: "int \<Rightarrow> 32 word set \<Rightarrow> 32 word \<Rightarrow> node \<Rightarrow> bool" where
  "node_ok nb D a nd \<longleftrightarrow> sys_ok nb a (sys nd) \<and> avail_ok nd \<and> codes_ok nb D a nd"

definition log_ok :: "int \<Rightarrow> 32 word \<Rightarrow> event list \<Rightarrow> node \<Rightarrow> bool" where
  "log_ok nb a tr nd \<longleftrightarrow>
     (\<forall>b < nat nb. for_box b (sent_to a tr) = got a b tr @ boxes (sys nd) ! b @ for_box b (transit nd))"

definition world_ok :: "int \<Rightarrow> event list \<Rightarrow> world \<Rightarrow> bool" where
  "world_ok nb tr w \<longleftrightarrow> (\<forall>a nd. w a = Some nd \<longrightarrow> node_ok nb (dom w) a nd \<and> log_ok nb a tr nd)"

section \<open>Pieces\<close>

lemma put_code_fields [simp]:
  "sys (put_code t ps nd) = sys nd" "postman (put_code t ps nd) = postman nd" "ncode (put_code t ps nd) = (ncode nd)(t := ps)"
  by (simp_all add: put_code_def)

lemma PostalHelper_app: "q @ PostalHelper = p # rest \<longleftrightarrow>
    (q = [] \<and> p = DoP messageAvailable \<and> rest = [DoDeliver]) \<or> (\<exists>q'. q = p # q' \<and> rest = q' @ PostalHelper)"
  by (cases q) (auto simp: PostalHelper_def)

text \<open>The first piece of a thread, and what replaces it.\<close>

lemma code_cases:
  assumes "codes_ok nb D a nd" "ncode nd t = p # rest"
  obtains (plain) "piece_ok nb D a p"
  | (wait) "t = postman nd" "p = DoP messageAvailable" "rest = [DoDeliver]"
  | (deliver) "t = postman nd" "p = DoDeliver" "rest = []"
proof (cases "t = postman nd")
  case True
  then have "p # rest = [DoDeliver] \<or> (\<exists>q. q @ PostalHelper = p # rest \<and> list_all (piece_ok nb D a) q)"
    using assms by (auto simp: codes_ok_def worker_ok_def)
  then show thesis using True plain wait deliver by (auto simp: PostalHelper_app)
next
  case False
  then have "list_all (piece_ok nb D a) (p # rest)" using assms by (metis codes_ok_def)
  then show thesis using plain by simp
qed

lemma codes_step:
  assumes c: "codes_ok nb D a nd" "ncode nd t = p # rest" "piece_ok nb D a p"
    and new: "list_all (piece_ok nb D a) new" "t \<noteq> postman nd \<longrightarrow> held new = []"
  shows "codes_ok nb D a (put_code t (new @ rest) nd)"
    "(((ncode nd)(t := new @ rest)) (postman nd) = [DoDeliver]) = (ncode nd (postman nd) = [DoDeliver])"
proof -
  have "codes_ok nb D a (put_code t (new @ rest) nd) \<and>
    (((ncode nd)(t := new @ rest)) (postman nd) = [DoDeliver]) = (ncode nd (postman nd) = [DoDeliver])"
  proof (cases "t = postman nd")
    case True
    then have "p # rest = [DoDeliver] \<or> (\<exists>q. q @ PostalHelper = p # rest \<and> list_all (piece_ok nb D a) q)"
      using c by (auto simp: codes_ok_def worker_ok_def)
    then obtain q where q: "rest = q @ PostalHelper" "list_all (piece_ok nb D a) q" using c(3) by (auto simp: PostalHelper_app)
    then have "worker_ok nb D a (new @ rest)" unfolding worker_ok_def using new(1) by (intro disjI2 exI [of _ "new @ q"]) simp
    moreover have "new @ rest \<noteq> [DoDeliver]" "p # rest \<noteq> [DoDeliver]"
      using q(1) by (auto simp: PostalHelper_def dest: arg_cong [where f = length])
    ultimately show ?thesis using c(1,2) True by (simp add: codes_ok_def)
  next
    case False
    have "list_all (piece_ok nb D a) (p # rest) \<and> held (p # rest) = []" using c(1,2) False by (metis codes_ok_def)
    then have "list_all (piece_ok nb D a) (new @ rest) \<and> held (new @ rest) = []"
      using new False by (cases p) simp_all
    then show ?thesis using c(1) False by (simp add: codes_ok_def)
  qed
  then show "codes_ok nb D a (put_code t (new @ rest) nd)"
    "(((ncode nd)(t := new @ rest)) (postman nd) = [DoDeliver]) = (ncode nd (postman nd) = [DoDeliver])" by simp_all
qed

text \<open>Changes of the state that the way of the messages does not notice.\<close>

definition same :: "postsys \<Rightarrow> postsys \<Rightarrow> bool" where
  "same s s' \<longleftrightarrow> ident s' = ident s \<and> netAddr s' = netAddr s \<and> numBoxes s' = numBoxes s \<and> sendBusy s' = sendBusy s \<and>
     inbox s' = inbox s \<and> pdBuffer s' = pdBuffer s \<and> boxes s' = boxes s \<and> socket s' = socket s \<and> inHdr s' = inHdr s \<and>
     (\<forall>l. lsem (locks s' l) = lsem (locks s l)) \<and> (\<forall>i. squeue (sems s' i) = squeue (sems s i)) \<and>
     svalue (sems s' messageAvailable) = svalue (sems s messageAvailable) \<and>
     (\<forall>e \<in> set (pending s'). e \<in> set (pending s) \<or> phandler (snd e) \<in> {NetworkReadPoll, NetworkSendDone})"

lemma same_refl [simp]: "same s s"
  by (simp add: same_def)

lemma same_sys_ok: "sys_ok nb a s \<Longrightarrow> same s s' \<Longrightarrow> sys_ok nb a s'"
  unfolding sys_ok_def same_def by auto

lemma codes_ok_sys [simp]: "codes_ok nb D a (nd\<lparr>sys := s\<rparr>) = codes_ok nb D a nd"
  by (simp add: codes_ok_def)

lemma put_code_sys: "put_code t ps (nd\<lparr>sys := s\<rparr>) = (put_code t ps nd)\<lparr>sys := s\<rparr>"
  by (simp add: put_code_def)

lemma node_same:
  assumes "node_ok nb D a nd" "same (sys nd) s'"
  shows "node_ok nb D a (nd\<lparr>sys := s'\<rparr>)" "log_ok nb a tr nd \<Longrightarrow> log_ok nb a tr (nd\<lparr>sys := s'\<rparr>)"
proof -
  have "avail_ok (nd\<lparr>sys := s'\<rparr>)" using assms by (simp add: node_ok_def avail_ok_def same_def)
  then show "node_ok nb D a (nd\<lparr>sys := s'\<rparr>)" using assms same_sys_ok [of nb a "sys nd" s'] by (simp add: node_ok_def)
  show "log_ok nb a tr nd \<Longrightarrow> log_ok nb a tr (nd\<lparr>sys := s'\<rparr>)"
    using assms(2) by (simp add: log_ok_def transit_def inboxed_def same_def)
qed

text \<open>A piece that touches no message.\<close>

lemma node_code:
  assumes n: "node_ok nb D a nd" "ncode nd t = p # rest" "piece_ok nb D a p" "held [p] = []"
    and new: "list_all (piece_ok nb D a) new" "held new = []"
  shows "node_ok nb D a (put_code t (new @ rest) nd)" "log_ok nb a tr nd \<Longrightarrow> log_ok nb a tr (put_code t (new @ rest) nd)"
proof -
  have c: "codes_ok nb D a nd" using n(1) by (simp add: node_ok_def)
  note cs = codes_step [OF c n(2,3) new(1)]
  show "node_ok nb D a (put_code t (new @ rest) nd)" using n(1) cs new(2) by (simp add: node_ok_def avail_ok_def del: fun_upd_apply)
  have "held (p # rest) = held (new @ rest)" using n(4) new(2) held_simps(3) [of "[p]" rest] by simp
  then have "transit (put_code t (new @ rest) nd) = transit nd" using n(2) by (simp add: transit_def)
  then show "log_ok nb a tr nd \<Longrightarrow> log_ok nb a tr (put_code t (new @ rest) nd)" by (simp add: log_ok_def)
qed

lemma plain_piece:
  assumes n: "node_ok nb D a nd" "log_ok nb a tr nd" "ncode nd t = p # rest" "piece_ok nb D a p" "held [p] = []"
    and new: "list_all (piece_ok nb D a) new" "held new = []" and s: "same (sys nd) s'"
  shows "node_ok nb D a (put_code t (new @ rest) (nd\<lparr>sys := s'\<rparr>)) \<and> log_ok nb a tr (put_code t (new @ rest) (nd\<lparr>sys := s'\<rparr>))"
  using node_code(1) [OF n(1,3-5) new] node_code(2) [OF n(1,3-5) new n(2)] node_same(1) [of nb D a "put_code t (new @ rest) nd" s'] node_same(2) [of nb D a "put_code t (new @ rest) nd" s' tr] s
  by (simp add: put_code_sys)

section \<open>The pieces of the post office\<close>

text \<open>
  What executing a piece leaves: the invariant of the machine, and either no datagram and a trace that concerns this machine
  only, or a datagram that carries the message of the event to a machine that is there.
\<close>

definition piece_done :: "int \<Rightarrow> 32 word set \<Rightarrow> 32 word \<Rightarrow> event list \<Rightarrow> 32 word \<Rightarrow> event list \<Rightarrow> byte list option \<Rightarrow> node \<Rightarrow> bool" where
  "piece_done nb D a tr to ev d nd \<longleftrightarrow> node_ok nb D a nd \<and>
     (case d of
        None \<Rightarrow> log_ok nb a (tr @ ev) nd \<and> (\<forall>c. sent_to c ev = []) \<and> (\<forall>c b. c \<noteq> a \<longrightarrow> got c b ev = [])
      | Some x \<Rightarrow> log_ok nb a tr nd \<and> ev = [EvSent to (wire_mail x)] \<and> wire_ok nb to x \<and> to \<in> D)"

lemma piece_quiet:
  assumes n: "node_ok nb D a nd" "log_ok nb a tr nd" "ncode nd t = p # rest" "piece_ok nb D a p" "held [p] = []"
    and new: "list_all (piece_ok nb D a) new" "held new = []" and s: "same (sys nd) s'"
  shows "piece_done nb D a tr to [] None (put_code t (new @ rest) (nd\<lparr>sys := s'\<rparr>))"
  using plain_piece [OF n new s] by (simp add: piece_done_def)

lemma V_body_value: "squeue (sems s i) = [] \<Longrightarrow> V_body i s = Inr (set_sem i ((sems s i)\<lparr>svalue := svalue (sems s i) + 1\<rparr>) s)"
  by (simp add: V_body_def Let_def)

text \<open>A message goes from the worker into its mailbox.\<close>

lemma piece_append:
  assumes n: "node_ok nb D a nd" "log_ok nb a tr nd" "ncode nd t = DoAppend b m # rest" "piece_ok nb D a (DoAppend b m)"
  shows "piece_done nb D a tr to [] None (put_code t rest (nd\<lparr>sys := (sys nd)\<lparr>boxes := (boxes (sys nd))[b := boxes (sys nd) ! b @ [m]]\<rparr>\<rparr>))"
proof -
  let ?s = "(sys nd)\<lparr>boxes := (boxes (sys nd))[b := boxes (sys nd) ! b @ [m]]\<rparr>" and ?nd = "put_code t rest nd"
  have c: "codes_ok nb D a nd" and s: "sys_ok nb a (sys nd)" using n(1) by (simp_all add: node_ok_def)
  have t: "t = postman nd"
  proof (rule ccontr)
    assume "t \<noteq> postman nd"
    then have "held (DoAppend b m # rest) = []" using c n(3) by (metis codes_ok_def)
    then show False by simp
  qed
  have cs: "codes_ok nb D a ?nd" "(((ncode nd)(t := rest)) (postman nd) = [DoDeliver]) = (ncode nd (postman nd) = [DoDeliver])"
    using codes_step [OF c n(3,4), of "[]"] t by (simp_all del: fun_upd_apply)
  have bm: "b = box_of m" "b < length (boxes (sys nd))" "unat (mlength (mailHdr m)) \<le> MaxMailSize" using n(4) s by (simp_all add: sys_ok_def)
  have "sys_ok nb a ?s" using s bm unfolding sys_ok_def by (auto simp: nth_list_update)
  then have "node_ok nb D a (?nd\<lparr>sys := ?s\<rparr>)" using n(1) cs by (simp add: node_ok_def avail_ok_def del: fun_upd_apply)
  moreover have "log_ok nb a tr (?nd\<lparr>sys := ?s\<rparr>)" unfolding log_ok_def
  proof (intro allI impI)
    fix i assume "i < nat nb"
    then have "for_box i (sent_to a tr) = got a i tr @ boxes (sys nd) ! i @ for_box i (transit nd)" using n(2) by (simp add: log_ok_def)
    then show "for_box i (sent_to a tr) = got a i tr @ boxes (sys (?nd\<lparr>sys := ?s\<rparr>)) ! i @ for_box i (transit (?nd\<lparr>sys := ?s\<rparr>))"
      using bm n(3) t by (auto simp: transit_def inboxed_def nth_list_update)
  qed
  ultimately show ?thesis by (simp add: piece_done_def put_code_sys)
qed

text \<open>A message goes from the mailbox to a receiver.\<close>

lemma piece_remove:
  assumes n: "node_ok nb D a nd" "log_ok nb a tr nd" "ncode nd t = DoRemove b # rest" "piece_ok nb D a (DoRemove b)"
    and m: "boxes (sys nd) ! b = m # ms"
  shows "piece_done nb D a tr to [EvGot (ident (sys nd)) b m] None
    (put_code t (DoRelease (boxLock b) # DoReceived m # rest) (nd\<lparr>sys := (sys nd)\<lparr>boxes := (boxes (sys nd))[b := ms]\<rparr>\<rparr>))"
proof -
  let ?s = "(sys nd)\<lparr>boxes := (boxes (sys nd))[b := ms]\<rparr>" and ?new = "[DoRelease (boxLock b), DoReceived m]"
  let ?nd = "put_code t (?new @ rest) nd"
  have s: "sys_ok nb a (sys nd)" using n(1) by (simp add: node_ok_def)
  have bm: "b < length (boxes (sys nd))" "b < nat nb" "ident (sys nd) = a" using n(4) s by (simp_all add: sys_ok_def)
  have lm: "unat (mlength (mailHdr m)) \<le> MaxMailSize" using s bm(2) m unfolding sys_ok_def by (metis list.set_intros(1))
  have nd: "node_ok nb D a ?nd" "log_ok nb a tr ?nd"
    using node_code [OF n(1,3,4), of ?new] n(2) bm(2) lm by simp_all
  have "sys_ok nb a ?s" using s bm m unfolding sys_ok_def by (auto simp: nth_list_update)
  then have "node_ok nb D a (?nd\<lparr>sys := ?s\<rparr>)" using nd(1) by (simp add: node_ok_def avail_ok_def)
  moreover have "log_ok nb a (tr @ [EvGot a b m]) (?nd\<lparr>sys := ?s\<rparr>)" unfolding log_ok_def
  proof (intro allI impI)
    fix i assume "i < nat nb"
    then have "for_box i (sent_to a tr) = got a i tr @ boxes (sys nd) ! i @ for_box i (transit ?nd)" using nd(2) by (simp add: log_ok_def)
    then show "for_box i (sent_to a (tr @ [EvGot a b m])) = got a i (tr @ [EvGot a b m]) @ boxes (sys (?nd\<lparr>sys := ?s\<rparr>)) ! i @ for_box i (transit (?nd\<lparr>sys := ?s\<rparr>))"
      using bm m by (auto simp: transit_def inboxed_def nth_list_update)
  qed
  ultimately show ?thesis using bm(3) by (simp add: piece_done_def put_code_sys)
qed

text \<open>A packet leaves, or is lost.\<close>

lemma piece_send:
  assumes n: "node_ok nb D a nd" "log_ok nb a tr nd" "ncode nd t = DoNetSend h bs m # rest" "piece_ok nb D a (DoNetSend h bs m)"
  shows "\<exists>d s. Network_Send junk h bs (sys nd) = Inr (d, s) \<and>
    piece_done nb D a tr (pto h) [if d = None then EvLost (pto h) m else EvSent (pto h) m] d (put_code t rest (nd\<lparr>sys := s\<rparr>))"
proof -
  have s: "sys_ok nb a (sys nd)" using n(1) by (simp add: node_ok_def)
  have p: "legal_mail nb (pto h) m" "pto h \<in> D" "pfrom h = a" "length bs = MaxPacketSize" "payload_mail h bs = m" using n(4) by simp_all
  have h: "pktHdr m = h" using p(5) by (auto simp: payload_mail_def)
  note l = legal_length [OF p(1), unfolded h]
  obtain d s' where r: "Network_Send junk h bs (sys nd) = Inr (d, s')" "same (sys nd) s'"
    using Network_Send_returns [of "sys nd" h bs junk] s l p(3,4)
    by (auto simp: sys_ok_def same_def set_seq_sorted_insert PendingInterrupt_new_def)
  have nd: "node_ok nb D a (put_code t rest (nd\<lparr>sys := s'\<rparr>))" "log_ok nb a tr (put_code t rest (nd\<lparr>sys := s'\<rparr>))"
    using plain_piece [OF n(1-4) _ _ _ r(2), of "[]"] by simp_all
  show ?thesis
  proof (cases d)
    case None
    then show ?thesis using r(1) nd by (simp add: piece_done_def log_ok_def)
  next
    case (Some x)
    obtain rest' where x: "x = packet_bytes h @ take (unat (plength h)) bs @ rest'" "length x = MaxWireSize"
      using Network_Send_datagram [of junk h bs "sys nd" x s'] r(1) Some by auto
    have "payload_mail h (take (unat (plength h)) bs @ rest') = payload_mail h bs"
      using p(1,4,5) l(3) by (intro payload_cong [of nb "pto h"]) simp_all
    then have "wire_mail x = m" using p(5) by (simp add: wire_mail_def x(1))
    then show ?thesis using r(1) nd Some p(1,2) x(2) by (auto simp: piece_done_def wire_ok_def)
  qed
qed

text \<open>The worker is told of a packet, takes it from the device and turns to the mailbox.\<close>

lemma piece_wait:
  assumes n: "node_ok nb D a nd" "log_ok nb a tr nd" "ncode nd (postman nd) = [DoP messageAvailable, DoDeliver]"
    and v: "svalue (sems (sys nd) messageAvailable) \<noteq> 0"
  shows "piece_done nb D a tr to [] None (put_code (postman nd) [DoDeliver] (nd\<lparr>sys := set_sem messageAvailable
    ((sems (sys nd) messageAvailable)\<lparr>svalue := svalue (sems (sys nd) messageAvailable) - 1\<rparr>) (sys nd)\<rparr>))"
  using n v by (auto simp: piece_done_def node_ok_def avail_ok_def codes_ok_def worker_ok_def sys_ok_def set_sem_def log_ok_def
      transit_def inboxed_def)

lemma Mail_new_payload:
  "unat (mlength (mailhdr_of_bytes bs)) \<le> MaxMailSize \<Longrightarrow> length bs = MaxPacketSize \<Longrightarrow>
    Mail_new h (mailhdr_of_bytes bs) (drop HeaderSize bs) = Inr (payload_mail h bs)"
  by (simp add: Mail_new_def payload_mail_def)

lemma piece_deliver:
  assumes n: "node_ok nb D a nd" "log_ok nb a tr nd" "ncode nd (postman nd) = [DoDeliver]"
  shows "\<exists>ps s. PostalDelivery (sys nd) = Inr (ps, s) \<and> piece_done nb D a tr to [] None (put_code (postman nd) ps (nd\<lparr>sys := s\<rparr>))"
proof -
  let ?s = "sys nd" and ?h = "inHdr (sys nd)"
  let ?n = "unat (plength ?h)" and ?m = "payload_mail ?h (inbox ?s)"
  have s: "sys_ok nb a ?s" and av: "avail_ok nd" using n(1) by (simp_all add: node_ok_def)
  have v: "plength ?h \<noteq> 0" "svalue (sems ?s messageAvailable) = 0" using av n(3) by (auto simp: avail_ok_def split: if_splits)
  have m: "legal_mail nb a ?m" using s v(1) by (simp add: sys_ok_def)
  have h: "pktHdr ?m = ?h" by (simp add: payload_mail_def)
  note l = legal_length [OF m, unfolded h]
  let ?b = "bcopyTo 0 (take ?n (inbox ?s)) (pdBuffer ?s)"
  have lens: "length (inbox ?s) = MaxPacketSize" "length (pdBuffer ?s) = MaxPacketSize" "numBoxes ?s = nb" using s by (simp_all add: sys_ok_def)
  have b: "length ?b = MaxPacketSize" "payload_mail ?h ?b = ?m"
    using l(3) lens payload_cong [OF m, of ?b] by (simp_all add: bcopyTo_def)
  have mh: "mailhdr_of_bytes ?b = mailHdr ?m" using arg_cong [OF b(2), of mailHdr] by (simp add: payload_mail_def)
  have lm: "unat (mlength (mailHdr ?m)) \<le> MaxMailSize" "0 \<le> sint (mto (mailHdr ?m))" "sint (mto (mailHdr ?m)) < nb"
    using m by (simp_all add: legal_mail_def)
  have "Mail_new ?h (mailhdr_of_bytes ?b) (drop HeaderSize ?b) = Inr (payload_mail ?h ?b)"
    using lm(1) b(1) by (intro Mail_new_payload) (simp_all only: mh)
  then have put: "MailBox_Put (box_of ?m) ?h (mailHdr ?m) (drop HeaderSize ?b) = Inr (SynchList_Append (box_of ?m) ?m)"
    by (simp add: MailBox_Put_def mh b(2))
  let ?s' = "?s\<lparr>inHdr := ?h\<lparr>plength := 0\<rparr>, pdBuffer := ?b\<rparr>" and ?ps = "SynchList_Append (box_of ?m) ?m @ PostalHelper"
  have "PostalDelivery ?s = Inr (?ps, ?s')"
    using put lm v(1) lens(3) by (simp add: PostalDelivery_def Network_Receive_def Let_def mh box_of_def)
  moreover have "sys_ok nb a ?s'" using s b(1) by (simp add: sys_ok_def)
  moreover have "codes_ok nb D a (put_code (postman nd) ?ps nd)"
    using n(1) lm by (auto simp: node_ok_def codes_ok_def worker_ok_def SynchList_Append_def box_of_def)
  moreover have "avail_ok (put_code (postman nd) ?ps (nd\<lparr>sys := ?s'\<rparr>))"
    using v(2) by (simp add: avail_ok_def SynchList_Append_def)
  moreover have "log_ok nb a tr (put_code (postman nd) ?ps (nd\<lparr>sys := ?s'\<rparr>))"
    using n(2,3) v(1) by (simp add: log_ok_def transit_def inboxed_def SynchList_Append_def)
  ultimately show ?thesis by (intro exI [of _ ?ps] exI [of _ ?s']) (simp add: piece_done_def node_ok_def put_code_sys)
qed

lemma pexec_ok:
  assumes n: "node_ok nb D a nd" "log_ok nb a tr nd" "ncode nd t = p # rest"
  shows "pexec junk t p rest (sys nd) = Inl WouldBlock \<or>
    (\<exists>ev d s ps. pexec junk t p rest (sys nd) = Inr (ev, d, s, ps) \<and> piece_done nb D a tr (dest_of p) ev d (put_code t ps (nd\<lparr>sys := s\<rparr>)))"
proof -
  have c: "codes_ok nb D a nd" and s: "sys_ok nb a (sys nd)" using n(1) by (simp_all add: node_ok_def)
  show ?thesis
  proof (cases rule: code_cases [OF c n(3)])
    case 2
    then show ?thesis using n(3) piece_wait [OF n(1,2)] by (auto simp: pexec_def)
  next
    case 3
    then show ?thesis using n(3) piece_deliver [OF n(1,2), of 0] by (auto simp: pexec_def)
  next
    case 1
    have quiet: "pexec junk t p rest (sys nd) = Inr ([], None, s', new @ rest) \<Longrightarrow> list_all (piece_ok nb D a) new \<Longrightarrow> held new = [] \<Longrightarrow>
        held [p] = [] \<Longrightarrow> same (sys nd) s' \<Longrightarrow> ?thesis" for s' new
      using piece_quiet [OF n 1] by blast
    have sem: "same (sys nd) (set_sem i ((sems (sys nd) i)\<lparr>svalue := v\<rparr>) (sys nd))" if "i \<noteq> messageAvailable" for i v
      using that by (simp add: same_def set_sem_def)
    have sl: "lsem (locks (sys nd) l) = lockSem l" if "l \<le> nat nb" for l using s that by (simp add: sys_ok_def)
    show ?thesis
    proof (cases p)
      case (DoP i)
      show ?thesis
      proof (cases "svalue (sems (sys nd) i) = 0")
        case True
        then show ?thesis by (simp add: pexec_def DoP)
      next
        case False
        show ?thesis by (rule quiet [of "set_sem i ((sems (sys nd) i)\<lparr>svalue := svalue (sems (sys nd) i) - 1\<rparr>) (sys nd)" "[]"]) (use False 1 sem in \<open>simp_all add: pexec_def DoP\<close>)
      qed
    next
      case (DoV i)
      have "squeue (sems (sys nd) i) = []" using s by (simp add: sys_ok_def)
      then show ?thesis by (intro quiet [of "set_sem i ((sems (sys nd) i)\<lparr>svalue := svalue (sems (sys nd) i) + 1\<rparr>) (sys nd)" "[]"]) (use 1 sem in \<open>simp_all add: pexec_def DoV V_body_value\<close>)
    next
      case (DoAcquire l)
      show ?thesis by (rule quiet [of "sys nd" "[DoP (lsem (locks (sys nd) l)), DoHold l]"]) (use 1 sl in \<open>simp_all add: pexec_def DoAcquire\<close>)
    next
      case (DoHold l)
      show ?thesis by (rule quiet [of "set_holder l (Some t) (sys nd)" "[]"]) (simp_all add: pexec_def DoHold same_def set_holder_def)
    next
      case (DoRelease l)
      show ?thesis
        by (rule quiet [of "sys nd" "if holder (locks (sys nd) l) = Some t then [DoV (lsem (locks (sys nd) l)), DoUnhold l] else []"])
          (use 1 sl in \<open>simp_all add: pexec_def DoRelease\<close>)
    next
      case (DoUnhold l)
      show ?thesis by (rule quiet [of "set_holder l None (sys nd)" "[]"]) (simp_all add: pexec_def DoUnhold same_def set_holder_def)
    next
      case (DoAppend b m)
      show ?thesis using piece_append [of nb D a nd tr t b m rest] n 1 DoAppend by (auto simp: pexec_def)
    next
      case (DoSignal b)
      show ?thesis by (rule quiet [of "(sys nd)\<lparr>conds := (conds (sys nd))(b := tl (conds (sys nd) b))\<rparr>" "[]"]) (simp_all add: pexec_def DoSignal same_def)
    next
      case (DoRemove b)
      show ?thesis
      proof (cases "boxes (sys nd) ! b")
        case Nil
        show ?thesis by (rule quiet [of "sys nd" "[DoRelease (boxLock b), DoWait b, DoAcquire (boxLock b), DoRemove b]"])
            (use 1 Nil in \<open>simp_all add: pexec_def DoRemove\<close>)
      next
        case (Cons m ms)
        then show ?thesis using piece_remove [of nb D a nd tr t b rest m ms] n 1 DoRemove by (auto simp: pexec_def)
      qed
    next
      case (DoWait b)
      show ?thesis by (rule quiet [of "(sys nd)\<lparr>conds := (conds (sys nd))(b := conds (sys nd) b @ [t])\<rparr>" "[DoAsleep b]"]) (simp_all add: pexec_def DoWait same_def)
    next
      case (DoAsleep b)
      show ?thesis
      proof (cases "t \<in> set (conds (sys nd) b)")
        case True
        then show ?thesis by (simp add: pexec_def DoAsleep)
      next
        case False
        show ?thesis by (rule quiet [of "sys nd" "[]"]) (use False in \<open>simp_all add: pexec_def DoAsleep\<close>)
      qed
    next
      case (DoReceived m)
      show ?thesis by (rule quiet [of "sys nd" "[]"]) (use 1 in \<open>simp_all add: pexec_def DoReceived\<close>)
    next
      case (DoNetSend h bs m)
      show ?thesis using piece_send [of nb D a nd tr t h bs m rest junk] n 1 DoNetSend by (auto simp: pexec_def)
    next
      case DoDeliver
      then show ?thesis using 1 by simp
    qed
  qed
qed

section \<open>Interrupts\<close>

text \<open>A packet arrives: it moves from the socket into the device, and the semaphore is raised.\<close>

definition arrived :: "postsys \<Rightarrow> postsys \<Rightarrow> bool" where
  "arrived s s' \<longleftrightarrow> (\<exists>d ds. plength (inHdr s) = 0 \<and> socket s = d # ds \<and> socket s' = ds \<and> inHdr s' = packet_of_bytes d \<and>
     inbox s' = bcopyTo 0 (slice HeaderSize (unat (plength (packet_of_bytes d))) d) (inbox s) \<and>
     svalue (sems s' messageAvailable) = svalue (sems s messageAvailable) + 1 \<and>
     ident s' = ident s \<and> netAddr s' = netAddr s \<and> numBoxes s' = numBoxes s \<and> sendBusy s' = sendBusy s \<and>
     pdBuffer s' = pdBuffer s \<and> boxes s' = boxes s \<and>
     (\<forall>l. lsem (locks s' l) = lsem (locks s l)) \<and> (\<forall>i. squeue (sems s' i) = squeue (sems s i)) \<and>
     (\<forall>e \<in> set (pending s'). e \<in> set (pending s) \<or> phandler (snd e) \<in> {NetworkReadPoll, NetworkSendDone}))"

lemma node_arrived:
  assumes n: "node_ok nb D a nd" "arrived (sys nd) s'"
  shows "node_ok nb D a (nd\<lparr>sys := s'\<rparr>)" "log_ok nb a tr nd \<Longrightarrow> log_ok nb a tr (nd\<lparr>sys := s'\<rparr>)"
proof -
  let ?s = "sys nd"
  have s: "sys_ok nb a ?s" using n(1) by (simp add: node_ok_def)
  from n(2) obtain d ds where d: "plength (inHdr ?s) = 0" "socket ?s = d # ds" "socket s' = ds" "inHdr s' = packet_of_bytes d"
    "inbox s' = bcopyTo 0 (slice HeaderSize (unat (plength (packet_of_bytes d))) d) (inbox ?s)"
    unfolding arrived_def by blast
  have w: "length d = MaxWireSize" "legal_mail nb a (wire_mail d)" using s d(2) by (simp_all add: sys_ok_def wire_ok_def)
  let ?h = "packet_of_bytes d"
  have h: "pktHdr (wire_mail d) = ?h" by (simp add: wire_mail_def payload_mail_def)
  note l = legal_length [OF w(2), unfolded h]
  have ib: "length (inbox ?s) = MaxPacketSize" using s by (simp add: sys_ok_def)
  have m: "payload_mail ?h (inbox s') = wire_mail d"
    unfolding wire_mail_def using w l ib
    by (intro payload_cong [of nb a]) (simp_all add: d(5) bcopyTo_def slice_def wire_mail_def)
  have "length (inbox s') = MaxPacketSize" using l(3) w(1) ib by (simp add: d(5) slice_def bcopyTo_def)
  then have "sys_ok nb a s'" using s n(2) m w(2) d unfolding sys_ok_def arrived_def by auto
  moreover have "avail_ok (nd\<lparr>sys := s'\<rparr>)" using n d(1,4) l(2) by (auto simp: node_ok_def avail_ok_def arrived_def)
  ultimately show "node_ok nb D a (nd\<lparr>sys := s'\<rparr>)" using n(1) by (simp add: node_ok_def)
  have "boxes s' = boxes ?s" using n(2) by (auto simp: arrived_def)
  moreover have "transit (nd\<lparr>sys := s'\<rparr>) = transit nd" using d l(2) m by (simp add: transit_def inboxed_def)
  ultimately show "log_ok nb a tr nd \<Longrightarrow> log_ok nb a tr (nd\<lparr>sys := s'\<rparr>)" by (simp add: log_ok_def)
qed

lemma poll_ok:
  assumes s: "sys_ok nb a s" "level s = IntOff"
  shows "\<exists>s'. CheckPktAvail IncomingPacket s = Inr s' \<and> (same s s' \<or> arrived s s')"
proof -
  let ?due = "totalTicks (stats s) + NetworkTime"
  let ?u = "s\<lparr>pending := seq_sorted_insert ?due (PendingInterrupt_new NetworkReadPoll 0 ?due NetworkRecvInt) (pending s)\<rparr>"
  have sch: "Schedule NetworkReadPoll 0 NetworkTime NetworkRecvInt s = Inr ?u" by (simp add: Schedule_def Let_def)
  have u: "same s ?u" by (auto simp: same_def set_seq_sorted_insert PendingInterrupt_new_def)
  show ?thesis
  proof (cases "plength (inHdr s) \<noteq> 0 \<or> socket s = []")
    case True
    then show ?thesis using sch u by (auto simp: CheckPktAvail_def)
  next
    case False
    then obtain d ds where d: "plength (inHdr s) = 0" "socket s = d # ds" by (cases "socket s") auto
    have w: "length d = MaxWireSize" "legal_mail nb a (wire_mail d)" using s d(2) by (simp_all add: sys_ok_def wire_ok_def)
    have h: "pktHdr (wire_mail d) = packet_of_bytes d" by (simp add: wire_mail_def payload_mail_def)
    have to: "pto (packet_of_bytes d) = ident s" "unat (plength (packet_of_bytes d)) \<le> MaxPacketSize"
      using legal_length(3) [OF w(2)] w(2) s(1) by (simp_all add: h legal_mail_def sys_ok_def)
    let ?v = "?u\<lparr>socket := ds, inHdr := packet_of_bytes d,
      inbox := bcopyTo 0 (slice HeaderSize (unat (plength (packet_of_bytes d))) d) (inbox s),
      stats := (stats s)\<lparr>numPacketsRecvd := numPacketsRecvd (stats s) + 1\<rparr>\<rparr>"
    let ?w = "set_sem messageAvailable ((sems s messageAvailable)\<lparr>svalue := svalue (sems s messageAvailable) + 1\<rparr>) ?v"
    have "squeue (sems s messageAvailable) = []" using s(1) by (simp add: sys_ok_def)
    then have "IncomingPacket ?v = Inr ?w" using s(2) by (simp add: IncomingPacket_def V_handler V_body_value)
    then have "CheckPktAvail IncomingPacket s = Inr ?w" using sch d w(1) to by (simp add: CheckPktAvail_def Let_def)
    moreover have "arrived s ?w" using d u by (auto simp: arrived_def same_def set_sem_def)
    ultimately show ?thesis by blast
  qed
qed

lemma network_call_ok:
  assumes s: "sys_ok nb a s" "level s = IntOff" "h \<in> {NetworkReadPoll, NetworkSendDone}"
  shows "\<exists>s'. network_call h x s = Inr s' \<and> (same s s' \<or> arrived s s')"
proof (cases "h = NetworkReadPoll")
  case True
  then show ?thesis using poll_ok [OF s(1,2)] by (simp add: network_call_def)
next
  case False
  let ?v = "s\<lparr>sendBusy := False, stats := (stats s)\<lparr>numPacketsSent := numPacketsSent (stats s) + 1\<rparr>\<rparr>"
  have "squeue (sems s messageSent) = []" "\<not> sendBusy s" using s(1) by (simp_all add: sys_ok_def)
  moreover from this have "PacketSent ?v = Inr (set_sem messageSent ((sems s messageSent)\<lparr>svalue := svalue (sems s messageSent) + 1\<rparr>) ?v)"
    using s(2) by (simp add: PacketSent_def V_handler V_body_value)
  ultimately show ?thesis using False s(3) by (auto simp: network_call_def SendDone_def same_def set_sem_def)
qed

lemma take_interrupt_ok:
  assumes n: "sys_ok nb a s"
  shows "\<exists>s'. take_interrupt s = Inr s' \<and> (same s s' \<or> arrived s s')"
proof (cases "pending s")
  case Nil
  then show ?thesis by (auto simp: take_interrupt_def CheckIfDue_def same_def)
next
  case (Cons e rest)
  obtain w p where e: "e = (w, p)" by (cases e)
  have h: "phandler p \<in> {NetworkReadPoll, NetworkSendDone}" using n Cons e by (simp add: sys_ok_def)
  let ?st = "if w > totalTicks (stats s) then (stats s)\<lparr>idleTicks := idleTicks (stats s) + (w - totalTicks (stats s)), totalTicks := w\<rparr> else stats s"
  let ?u = "s\<lparr>level := IntOff, pending := rest, stats := ?st\<rparr>"
  show ?thesis
  proof (cases "istatus s = IdleMode \<and> ptype p = TimerInt \<and> rest = []")
    case True
    have "take_interrupt s = Inr (s\<lparr>pending := [(w, p)], stats := ?st\<rparr>)"
      using True Cons e by (cases s) (auto simp: take_interrupt_def CheckIfDue_def Let_def)
    then show ?thesis using Cons e True by (auto simp: same_def)
  next
    case False
    let ?v = "?u\<lparr>inHandler := True, istatus := SystemMode\<rparr>"
    have "sys_ok nb a ?v" using n Cons by (simp add: sys_ok_def)
    then obtain s' where s': "network_call (phandler p) (parg p) ?v = Inr s'" "same ?v s' \<or> arrived ?v s'"
      using network_call_ok [of nb a ?v "phandler p" "parg p"] h by auto
    have "CheckIfDue network_call Inr True (s\<lparr>level := IntOff\<rparr>) = bindE (fire network_call Inr p ?u) (\<lambda>s. Inr (True, s))"
      using False Cons e by (cases s) (auto simp: CheckIfDue_def Let_def)
    then have "take_interrupt s = Inr (s'\<lparr>istatus := istatus s, inHandler := False, level := level s\<rparr>)"
      using s'(1) by (simp add: take_interrupt_def fire_def)
    moreover have "same s (s'\<lparr>istatus := istatus s, inHandler := False, level := level s\<rparr>) \<or>
        arrived s (s'\<lparr>istatus := istatus s, inHandler := False, level := level s\<rparr>)"
      using s'(2) Cons by (auto simp: same_def arrived_def)
    ultimately show ?thesis by blast
  qed
qed

section \<open>The machines together\<close>

lemma log_other:
  "sent_to a ev = [] \<Longrightarrow> (\<And>b. got a b ev = []) \<Longrightarrow> log_ok nb a (tr @ ev) nd = log_ok nb a tr nd"
  by (simp add: log_ok_def)

lemma world_update:
  assumes "world_ok nb tr w" "w a = Some nd" "node_ok nb (dom w) a nd'" "log_ok nb a (tr @ ev) nd'"
    and "\<And>c. c \<noteq> a \<Longrightarrow> sent_to c ev = []" "\<And>c b. c \<noteq> a \<Longrightarrow> got c b ev = []"
  shows "world_ok nb (tr @ ev) (w(a \<mapsto> nd'))" "dom (w(a \<mapsto> nd')) = dom w"
proof -
  show d: "dom (w(a \<mapsto> nd')) = dom w" using assms(2) by auto
  show "world_ok nb (tr @ ev) (w(a \<mapsto> nd'))" unfolding world_ok_def d
    using assms log_other [of _ ev nb tr] by (auto simp: world_ok_def)
qed

text \<open>A thread calls the post office.\<close>

lemma node_call:
  assumes n: "node_ok nb D a nd" "ncode nd t = []" and ps: "list_all (piece_ok nb D a) ps" "held ps = []"
  shows "node_ok nb D a (put_code t ps nd)" "log_ok nb a tr nd \<Longrightarrow> log_ok nb a tr (put_code t ps nd)"
proof -
  have t: "t \<noteq> postman nd" using n by (auto simp: node_ok_def codes_ok_def worker_ok_def PostalHelper_def)
  then show "node_ok nb D a (put_code t ps nd)" using n(1) ps by (simp add: node_ok_def codes_ok_def avail_ok_def)
  show "log_ok nb a tr nd \<Longrightarrow> log_ok nb a tr (put_code t ps nd)" using t by (simp add: log_ok_def transit_def)
qed

lemma Send_pieces:
  assumes s: "sys_ok nb a s" and c: "unat (mlength mh) \<le> MaxMailSize" "unat (mlength mh) \<le> length data"
    "0 \<le> sint (mto mh)" "sint (mto mh) < nb" "pto ph \<in> D"
  shows "\<exists>ps. PostOffice_Send junk ph mh data s = Inr ps \<and> list_all (piece_ok nb D a) ps \<and> held ps = []"
proof -
  let ?h = "ph\<lparr>pfrom := netAddr s, plength := mlength mh + 12\<rparr>" and ?d = "take (unat (mlength mh)) data"
  let ?b = "bcopyTo HeaderSize ?d (bcopyTo 0 (mailhdr_bytes mh) (new_buffer junk MaxPacketSize))"
  let ?m = "\<lparr>pktHdr = ?h, mailHdr = mh, mdata = ?d\<rparr>"
  have b: "?b = mailhdr_bytes mh @ ?d @ drop (HeaderSize + length ?d) (new_buffer junk MaxPacketSize)"
    using c(1,2) by (intro bcopyTo_next) simp_all
  have l: "length ?b = MaxPacketSize" using c(1,2) unfolding b by simp
  have "payload_mail ?h ?b = ?m" using c(2) unfolding b by (intro payload_roundtrip) simp
  moreover have "legal_mail nb (pto ?h) ?m" using c by (simp add: legal_mail_def)
  moreover have na: "netAddr s = a" "numBoxes s = nb" using s by (simp_all add: sys_ok_def)
  ultimately have "piece_ok nb D a (DoNetSend ?h ?b ?m)" using c(5) l by simp
  moreover have "PostOffice_Send junk ph mh data s =
      Inr [DoAcquire sendLock, DoNetSend ?h ?b ?m, DoP messageSent, DoRelease sendLock]"
    using c(1-4) na(2) by (simp add: PostOffice_Send_def Let_def)
  ultimately show ?thesis by (simp del: piece_ok.simps(13))
qed

lemma wstep_ok:
  assumes w: "world_ok nb tr w" and l: "legal_call w act"
  shows "wstep act w = Inl WouldBlock \<or> (\<exists>ev w'. wstep act w = Inr (ev, w') \<and> world_ok nb (tr @ ev) w')"
proof -
  have ok: "node_ok nb (dom w) a nd" "log_ok nb a tr nd" "sys_ok nb a (sys nd)" if "w a = Some nd" for a nd
    using w that by (auto simp: world_ok_def node_ok_def)
  have call: "world_ok nb tr (w(a \<mapsto> put_code t ps nd))"
    if "w a = Some nd" "ncode nd t = []" "list_all (piece_ok nb (dom w) a) ps" "held ps = []" for a t ps nd
    using world_update(1) [OF w that(1), of _ "[]"] node_call [OF ok(1) [OF that(1)] that(2-4)] ok(2) [OF that(1)] by simp
  show ?thesis
  proof (cases act)
    case (CallSend a t junk ph mh data)
    show ?thesis
    proof (cases "w a")
      case (Some nd)
      have "\<exists>ps. PostOffice_Send junk ph mh data (sys nd) = Inr ps \<and> list_all (piece_ok nb (dom w) a) ps \<and> held ps = []"
        using ok(3) [OF Some] l Some by (intro Send_pieces) (auto simp: CallSend sys_ok_def)
      then show ?thesis using call [OF Some] Some by (auto simp: wstep_def CallSend)
    qed (simp add: wstep_def CallSend)
  next
    case (CallReceive a t b)
    show ?thesis
    proof (cases "w a")
      case (Some nd)
      have "PostOffice_Receive b (sys nd) = Inr (MailBox_Get (nat b))" "numBoxes (sys nd) = nb" "0 \<le> b" "b < nb"
        using ok(3) [OF Some] l Some by (auto simp: CallReceive PostOffice_Receive_def sys_ok_def)
      moreover from this have "list_all (piece_ok nb (dom w) a) (MailBox_Get (nat b))" "held (MailBox_Get (nat b)) = []"
        by (auto simp: MailBox_Get_def SynchList_Remove_def)
      ultimately show ?thesis using call [OF Some] Some by (auto simp: wstep_def CallReceive)
    qed (simp add: wstep_def CallReceive)
  next
    case (Intr a)
    show ?thesis
    proof (cases "w a")
      case (Some nd)
      obtain s' where s': "take_interrupt (sys nd) = Inr s'" "same (sys nd) s' \<or> arrived (sys nd) s'"
        using take_interrupt_ok [OF ok(3) [OF Some]] by blast
      then have "node_ok nb (dom w) a (nd\<lparr>sys := s'\<rparr>)" "log_ok nb a tr (nd\<lparr>sys := s'\<rparr>)"
        using node_same [OF ok(1) [OF Some]] node_arrived [OF ok(1) [OF Some]] ok(2) [OF Some] by blast+
      then show ?thesis using s'(1) Some world_update(1) [OF w Some, of _ "[]"] by (simp add: wstep_def Intr)
    qed (simp add: wstep_def Intr)
  next
    case (Piece a t junk)
    show ?thesis
    proof (cases "w a")
      case (Some nd)
      show ?thesis
      proof (cases "ncode nd t")
        case (Cons p rest)
        from pexec_ok [OF ok(1,2) [OF Some] Cons, of junk] show ?thesis
        proof (elim disjE exE conjE)
          assume "pexec junk t p rest (sys nd) = Inl WouldBlock"
          then show ?thesis using Some Cons by (simp add: wstep_def Piece)
        next
          fix ev d s ps
          let ?nd = "put_code t ps (nd\<lparr>sys := s\<rparr>)"
          assume r: "pexec junk t p rest (sys nd) = Inr (ev, d, s, ps)"
            and dn: "piece_done nb (dom w) a tr (dest_of p) ev d ?nd"
          show ?thesis
          proof (cases d)
            case None
            then have "world_ok nb (tr @ ev) (w(a \<mapsto> ?nd))"
              using dn by (intro world_update [OF w Some]) (auto simp: piece_done_def)
            then show ?thesis using Some Cons r None by (simp add: wstep_def Piece SendToSocket_def)
          next
            case x: (Some x)
            let ?to = "dest_of p"
            have e: "ev = [EvSent ?to (wire_mail x)]" "wire_ok nb ?to x" "?to \<in> dom w" "node_ok nb (dom w) a ?nd" "log_ok nb a tr ?nd"
              using dn x by (simp_all add: piece_done_def)
            let ?w = "w(a \<mapsto> ?nd)"
            have w1: "world_ok nb tr ?w" "dom ?w = dom w" using world_update [OF w Some e(4), of "[]"] e(5) by simp_all
            obtain nd2 where nd2: "?w ?to = Some nd2" using e(3) w1(2) by (metis domD)
            let ?s2 = "(sys nd2)\<lparr>socket := socket (sys nd2) @ [x]\<rparr>"
            have ok2: "node_ok nb (dom ?w) ?to nd2" "log_ok nb ?to tr nd2" using w1(1) nd2 by (auto simp: world_ok_def)
            have N: "node_ok nb (dom ?w) ?to (nd2\<lparr>sys := ?s2\<rparr>)" using ok2(1) e(2) by (simp add: node_ok_def sys_ok_def avail_ok_def)
            have L: "log_ok nb ?to (tr @ ev) (nd2\<lparr>sys := ?s2\<rparr>)" using ok2(2) by (simp add: e(1) log_ok_def transit_def inboxed_def)
            have "world_ok nb (tr @ ev) (?w(?to \<mapsto> nd2\<lparr>sys := ?s2\<rparr>))"
              by (rule world_update(1) [OF w1(1) nd2 N L]) (simp_all add: e(1))
            moreover have "SendToSocket ?to d ?w = Inr (?w(?to \<mapsto> nd2\<lparr>sys := ?s2\<rparr>))" using nd2 x by (simp add: SendToSocket_def)
            ultimately show ?thesis using Some Cons r by (auto simp: wstep_def Piece)
          qed
        qed
      qed (simp add: wstep_def Piece Some)
    qed (simp add: wstep_def Piece)
  qed
qed

lemma wreach_ok: "wreach w0 tr w \<Longrightarrow> world_ok nb [] w0 \<Longrightarrow> world_ok nb tr w"
proof (induction rule: wreach.induct)
  case (wstep tr w act ev w')
  then show ?case using wstep_ok [of nb tr w act] by auto
qed simp

section \<open>Start-up\<close>

lemma SynchLists_new:
  "set (boxes s) \<subseteq> {[]} \<Longrightarrow> \<exists>L S C. fold SynchList_new [0..<n] s = s\<lparr>boxes := boxes s, locks := L, sems := S, conds := C\<rparr> \<and>
     (\<forall>l. lsem (L l) = (if 1 \<le> l \<and> l \<le> n then lockSem l else lsem (locks s l))) \<and>
     (\<forall>i. S i = (if 3 \<le> i \<and> i < n + 3 then Semaphore_new 1 else sems s i))"
proof (induction n)
  case 0
  then show ?case by (intro exI [of _ "locks s"] exI [of _ "sems s"] exI [of _ "conds s"]) auto
next
  case (Suc n)
  then obtain L S C where i: "fold SynchList_new [0..<n] s = s\<lparr>boxes := boxes s, locks := L, sems := S, conds := C\<rparr>"
    "\<And>l. lsem (L l) = (if 1 \<le> l \<and> l \<le> n then lockSem l else lsem (locks s l))"
    "\<And>i. S i = (if 3 \<le> i \<and> i < n + 3 then Semaphore_new 1 else sems s i)" by blast
  have b: "(boxes s)[n := []] = boxes s"
  proof (cases "n < length (boxes s)")
    case True
    then have "boxes s ! n = []" using Suc.prems nth_mem by blast
    then show ?thesis by (metis list_update_id)
  qed (simp add: list_update_beyond)
  let ?L = "L(boxLock n := \<lparr>lsem = lockSem (boxLock n), holder = None\<rparr>)" and ?S = "S(lockSem (boxLock n) := Semaphore_new 1)"
  have "fold SynchList_new [0..<Suc n] s = s\<lparr>boxes := boxes s, locks := ?L, sems := ?S, conds := C(n := [])\<rparr>"
    by (simp add: i(1) SynchList_new_def b)
  moreover have "\<forall>l. lsem (?L l) = (if 1 \<le> l \<and> l \<le> Suc n then lockSem l else lsem (locks s l))" using i(2) by auto
  moreover have "\<forall>j. ?S j = (if 3 \<le> j \<and> j < Suc n + 3 then Semaphore_new 1 else sems s j)" using i(3) by auto
  ultimately show ?case by blast
qed

text \<open>A machine before its post office exists: no interrupt pending and no thread waiting; its buffers hold anything.\<close>

definition fresh_machine :: "postsys \<Rightarrow> bool" where
  "fresh_machine s \<longleftrightarrow> pending s = [] \<and> (\<forall>i. squeue (sems s i) = []) \<and> length (inbox s) = MaxPacketSize \<and>
     length (pdBuffer s) = MaxPacketSize"

definition booted :: "int \<Rightarrow> (32 word \<Rightarrow> rat) \<Rightarrow> world \<Rightarrow> bool" where
  "booted nb rel w \<longleftrightarrow> (\<forall>a nd. w a = Some nd \<longrightarrow> (\<exists>s. fresh_machine s \<and> post_boot a (rel a) nb s = Inr nd))"

lemma post_boot_ok:
  assumes "fresh_machine s" "post_boot a r nb s = Inr nd"
  shows "node_ok nb D a nd \<and> log_ok nb a [] nd"
proof -
  let ?s1 = "s\<lparr>sems := (sems s)(messageAvailable := Semaphore_new 0, messageSent := Semaphore_new 0, lockSem sendLock := Semaphore_new 1),
    locks := (locks s)(sendLock := \<lparr>lsem = lockSem sendLock, holder = None\<rparr>), netAddr := a, numBoxes := nb, boxes := replicate (nat nb) []\<rparr>"
  have b: "set (boxes ?s1) \<subseteq> {[]}" by auto
  obtain L S C where f: "fold SynchList_new [0..<nat nb] ?s1 = ?s1\<lparr>boxes := boxes ?s1, locks := L, sems := S, conds := C\<rparr>"
    "\<And>l. lsem (L l) = (if 1 \<le> l \<and> l \<le> nat nb then lockSem l else lsem (locks ?s1 l))"
    "\<And>i. S i = (if 3 \<le> i \<and> i < nat nb + 3 then Semaphore_new 1 else sems ?s1 i)"
    using SynchLists_new [OF b, of "nat nb"] by blast
  let ?due = "totalTicks (stats s) + NetworkTime"
  obtain s2 where s2: "nd = \<lparr>sys = s2, postman = freshThread s, ncode = (\<lambda>_. [])(freshThread s := PostalHelper)\<rparr>"
    "pending s2 = [(?due, PendingInterrupt_new NetworkReadPoll 0 ?due NetworkRecvInt)]" "ident s2 = a" "netAddr s2 = a" "numBoxes s2 = nb"
    "\<not> sendBusy s2" "inbox s2 = inbox s" "pdBuffer s2 = pdBuffer s" "boxes s2 = replicate (nat nb) []" "socket s2 = []"
    "plength (inHdr s2) = 0" "locks s2 = L" "sems s2 = S"
    using assms unfolding post_boot_def PostOffice_new_def Let_def f(1)
    by (auto simp: Network_new_def Schedule_def Let_def Thread_new_def Fork_body_def StackAllocate_def ReadyToRun_def setStatus_def
        update_thread_def thread_at_def fresh_machine_def)
  have "sys_ok nb a s2" using assms(1) s2 f(2,3)
    by (auto simp: sys_ok_def fresh_machine_def PendingInterrupt_new_def Semaphore_new_def)
  moreover have "avail_ok nd" using s2 f(3) by (simp add: avail_ok_def PostalHelper_def Semaphore_new_def)
  moreover have "codes_ok nb D a nd" using s2 by (simp add: codes_ok_def worker_ok_def)
  moreover have "log_ok nb a [] nd" using s2 by (simp add: log_ok_def transit_def inboxed_def)
  ultimately show ?thesis using s2(1) by (simp add: node_ok_def)
qed

lemma booted_ok: "booted nb rel w \<Longrightarrow> world_ok nb [] w"
  using post_boot_ok unfolding booted_def world_ok_def by fast

section \<open>A run\<close>

fun wrun :: "action list \<Rightarrow> world \<Rightarrow> (event list \<times> world) result" where
  "wrun [] w = Inr ([], w)"
| "wrun (act # acts) w = requireE WouldBlock (legal_call w act)
     (bindE (wstep act w) (\<lambda>(ev, w'). bindE (wrun acts w') (\<lambda>(tr, w''). Inr (ev @ tr, w''))))"

lemma wrun_wreach: "wrun acts w = Inr (tr, w') \<Longrightarrow> wreach w0 tr0 w \<Longrightarrow> wreach w0 (tr0 @ tr) w'"
proof (induction acts arbitrary: w tr tr0)
  case (Cons act acts)
  from Cons.prems(1) obtain ev w1 tr1 where s: "legal_call w act" "wstep act w = Inr (ev, w1)" "wrun acts w1 = Inr (tr1, w')" "tr = ev @ tr1"
    by (auto simp: result_simps)
  from Cons.IH [OF s(3) wreach.wstep [OF Cons.prems(2) s(1,2)]] show ?case by (simp add: s(4))
qed simp

text \<open>Two machines with one mailbox; the first sends \<^verbatim>\<open>Hi\<close> to the second, whose main thread receives it.\<close>

definition blank_machine :: postsys where
  "blank_machine = \<lparr>level = IntOn, pending = [], inHandler = False, yieldOnReturn = False, istatus = SystemMode, stats = Statistics_new,
     threads = (\<lambda>_. None), freshThread = 1, threadMap = [True, False], currentThread = 0, threadToBeDestroyed = None,
     readyList = [], blockedList = [], sems = (\<lambda>_. Semaphore_new 0), locks = (\<lambda>_. \<lparr>lsem = 0, holder = None\<rparr>), conds = (\<lambda>_. []),
     randoms = (\<lambda>_. 0), ident = 0, chanceToWork = 0, sendBusy = False, inHdr = \<lparr>pto = 0, pfrom = 0, plength = 0\<rparr>,
     inbox = replicate 52 0, socket = [], netAddr = 0, numBoxes = 0, boxes = [], pdBuffer = replicate 52 0\<rparr>"

definition two_machines :: world where
  "two_machines a = (if a = 0 \<or> a = 1 then (case post_boot a 1 1 blank_machine of Inl e \<Rightarrow> None | Inr nd \<Rightarrow> Some nd) else None)"

definition hi_run :: "action list" where
  "hi_run = CallSend 0 0 (\<lambda>_. 0) \<lparr>pto = 1, pfrom = 0, plength = 0\<rparr> \<lparr>mto = 0, mfrom = 0, mlength = 2\<rparr> [0x48, 0x69] #
     replicate 4 (Piece 0 0 (\<lambda>_. 0)) @ Intr 1 # replicate 10 (Piece 1 1 (\<lambda>_. 0)) @ CallReceive 1 0 0 # replicate 4 (Piece 1 0 (\<lambda>_. 0))"

definition hi :: Mail where
  "hi = \<lparr>pktHdr = \<lparr>pto = 1, pfrom = 0, plength = 14\<rparr>, mailHdr = \<lparr>mto = 0, mfrom = 0, mlength = 2\<rparr>, mdata = [0x48, 0x69]\<rparr>"

lemma hi_runs: "case wrun hi_run two_machines of Inl e \<Rightarrow> False | Inr (tr, w) \<Rightarrow> tr = [EvSent 1 hi, EvGot 1 0 hi] \<and> \<not> Option.is_none (w 1)"
  by code_simp

lemma two_machines_booted: "booted 1 (\<lambda>_. 1) two_machines"
proof -
  have "fresh_machine blank_machine" by (simp add: fresh_machine_def blank_machine_def Semaphore_new_def)
  then show ?thesis by (auto simp: booted_def two_machines_def split: if_splits sum.splits)
qed

lemma hi_reached:
  obtains w nd where "wreach two_machines [EvSent 1 hi, EvGot 1 0 hi] w" "w 1 = Some nd"
proof -
  obtain w where w: "wrun hi_run two_machines = Inr ([EvSent 1 hi, EvGot 1 0 hi], w)" "\<not> Option.is_none (w 1)"
    using hi_runs by (auto split: sum.splits)
  from wrun_wreach [OF w(1) wreach.wstart] w(2) show thesis using that by (auto simp: Option.is_none_def)
qed

section \<open>Properties\<close>

text \<open>
  C5: The post offices deliver in order.  In every run of any number of machines, for every mailbox: the messages that the network
  accepted for it, from all senders and as the senders gave them, are the ones its readers have received, followed by
  those in the mailbox and those still on the way (at the postal worker, in the device, in the socket).  So a message
  is received at most once, unchanged, in the order of sending, and is never lost after the network took it.
\<close>

theorem mail_in_order:
  assumes "booted nb rel w0" "wreach w0 tr w" "w a = Some nd" "b < nat nb"
  shows "for_box b (sent_to a tr) = got a b tr @ boxes (sys nd) ! b @ for_box b (transit nd)"
proof -
  have "world_ok nb [] w0" by (rule booted_ok [OF assms(1)])
  from wreach_ok [OF assms(2) this] show ?thesis using assms(3,4) by (auto simp: world_ok_def log_ok_def)
qed

theorem mail_in_order_witness:
  "\<exists>w nd. wreach two_machines [EvSent 1 hi, EvGot 1 0 hi] w \<and> w 1 = Some nd \<and> boxes (sys nd) ! 0 = [] \<and> for_box 0 (transit nd) = []"
proof -
  obtain w nd where w: "wreach two_machines [EvSent 1 hi, EvGot 1 0 hi] w" "w 1 = Some nd" by (rule hi_reached)
  have "for_box 0 (sent_to 1 [EvSent 1 hi, EvGot 1 0 hi]) = got 1 0 [EvSent 1 hi, EvGot 1 0 hi] @ boxes (sys nd) ! 0 @ for_box 0 (transit nd)"
    by (rule mail_in_order [OF two_machines_booted w]) simp
  then show ?thesis using w by (auto simp: sent_to_def got_def box_of_def hi_def)
qed

text \<open>
  C13: No assertion of the network or the post office fails.  Whatever legal calls the threads make and however they
  and the interrupts interleave, a step is either executed or waits.
\<close>

theorem post_office_safe:
  assumes "booted nb rel w0" "wreach w0 tr w" "legal_call w act"
  shows "wstep act w = Inl WouldBlock \<or> (\<exists>ev w'. wstep act w = Inr (ev, w'))"
proof -
  have "world_ok nb [] w0" by (rule booted_ok [OF assms(1)])
  from wstep_ok [OF wreach_ok [OF assms(2) this] assms(3)] show ?thesis by blast
qed

theorem post_office_safe_witness:
  "\<exists>w. wreach two_machines [EvSent 1 hi, EvGot 1 0 hi] w \<and> legal_call w (CallReceive 1 0 0) \<and>
     (wstep (CallReceive 1 0 0) w = Inl WouldBlock \<or> (\<exists>ev w'. wstep (CallReceive 1 0 0) w = Inr (ev, w')))"
proof -
  obtain w nd where w: "wreach two_machines [EvSent 1 hi, EvGot 1 0 hi] w" "w 1 = Some nd" by (rule hi_reached)
  have "world_ok 1 [] two_machines" by (rule booted_ok [OF two_machines_booted])
  from wreach_ok [OF w(1) this] have "sys_ok 1 1 (sys nd)" using w(2) unfolding world_ok_def node_ok_def by blast
  then have "numBoxes (sys nd) = 1" by (simp add: sys_ok_def)
  then have "legal_call w (CallReceive 1 0 0)" using w(2) by simp
  with post_office_safe [OF two_machines_booted w(1) this] w(1) show ?thesis by blast
qed

end
